(* ===== verification/Prelude.thy ===== *)
theory Prelude
  imports Main "HOL-Library.Multiset"
begin

text \<open>
  Shared vocabulary of the development.

  \<^item> \<open>w64\<close> is the value of a Go \<open>int64\<close> after wrap-around; every \<open>int64\<close> addition or
    subtraction of the engine is written \<open>w64 (a + b)\<close>.
  \<^item> \<open>go_quo\<close> and \<open>go_rem\<close> are Go's integer division, which truncates towards zero.
  \<^item> A Go method that mutates its receiver and returns an \<open>error\<close> is a function into
    \<open>'e option \<times> 's\<close>: the error (or \<open>None\<close>) and the state it leaves, also when it fails.
    \<open>andthen\<close> is the \<open>if err := ...; err != nil { return err }\<close> of the source.
  \<^item> \<open>go_sort\<close> is \<open>sort.Slice\<close> on the short slices of this program (insertion sort for at
    most 12 elements); the locale \<open>go_less\<close> states what a comparator must satisfy and what
    sorting with it gives.
\<close>

named_theorems chip_simps \<open>how each operation changes the chip totals\<close>
named_theorems frame_simps \<open>fields an operation leaves alone\<close>

section \<open>Integers of Go\<close>

type_synonym i64 = int

definition w64 :: "int \<Rightarrow> i64" where
  "w64 x = (x + 2 ^ 63) mod 2 ^ 64 - 2 ^ 63"

definition in64 :: "int \<Rightarrow> bool" where
  "in64 x \<longleftrightarrow> - (2 ^ 63) \<le> x \<and> x < 2 ^ 63"

lemma w64_id [simp]: "in64 x \<Longrightarrow> w64 x = x"
  by (simp add: w64_def in64_def)

lemma in64_w64 [simp, intro]: "in64 (w64 x)"
proof -
  have "0 \<le> (x + 2 ^ 63) mod 2 ^ 64" and "(x + 2 ^ 63) mod 2 ^ 64 < (2 :: int) ^ 64"
    by simp_all
  then show ?thesis
    by (simp add: w64_def in64_def)
qed

lemma w64_mod: "w64 x mod 2 ^ 64 = x mod 2 ^ 64"
proof -
  have "w64 x mod 2 ^ 64 = ((x + 2 ^ 63) - 2 ^ 63) mod 2 ^ 64"
    unfolding w64_def by (metis mod_diff_left_eq)
  then show ?thesis by simp
qed

lemma w64_cong: "x mod 2 ^ 64 = y mod 2 ^ 64 \<Longrightarrow> w64 x = w64 y"
proof -
  assume "x mod 2 ^ 64 = y mod 2 ^ 64"
  then have "(x + 2 ^ 63) mod 2 ^ 64 = (y + 2 ^ 63) mod 2 ^ 64"
    by (metis mod_add_left_eq)
  then show ?thesis by (simp add: w64_def)
qed

text \<open>Wrapping is a ring homomorphism, so inner wraps can be dropped under an outer one.\<close>

lemma w64_add_left [simp]: "w64 (w64 x + y) = w64 (x + y)"
  by (rule w64_cong) (metis w64_mod mod_add_left_eq)

lemma w64_add_right [simp]: "w64 (x + w64 y) = w64 (x + y)"
  by (rule w64_cong) (metis w64_mod mod_add_right_eq)

lemma w64_diff_left [simp]: "w64 (w64 x - y) = w64 (x - y)"
  by (rule w64_cong) (metis w64_mod mod_diff_left_eq)

lemma w64_diff_right [simp]: "w64 (x - w64 y) = w64 (x - y)"
  by (rule w64_cong) (metis w64_mod mod_diff_right_eq)

lemma w64_mult_right [simp]: "w64 (a * w64 b) = w64 (a * b)"
  by (rule w64_cong) (metis w64_mod mod_mult_right_eq)

lemma w64_mult_right_add [simp]: "w64 (a * w64 b + c) = w64 (a * b + c)"
  by (metis w64_add_left w64_mult_right)

lemma w64_w64 [simp]: "w64 (w64 x) = w64 x"
  using w64_add_left [of x 0] by simp

lemma w64_add_cong: "w64 a = w64 b \<Longrightarrow> w64 (a + c) = w64 (b + c)"
  by (metis w64_add_left)

lemma w64_0 [simp]: "w64 0 = 0"
  by (simp add: w64_def)

definition go_quo :: "int \<Rightarrow> int \<Rightarrow> int" where
  "go_quo a b = sgn a * sgn b * (\<bar>a\<bar> div \<bar>b\<bar>)"

definition go_rem :: "int \<Rightarrow> int \<Rightarrow> int" where
  "go_rem a b = a - b * go_quo a b"

lemma go_quo_nonneg [simp]: "0 \<le> a \<Longrightarrow> 0 < b \<Longrightarrow> go_quo a b = a div b"
  by (cases "a = 0") (simp_all add: go_quo_def)

lemma go_rem_nonneg [simp]: "0 \<le> a \<Longrightarrow> 0 < b \<Longrightarrow> go_rem a b = a mod b"
  by (simp add: go_rem_def minus_mult_div_eq_mod)

lemma go_quo_rem: "b * go_quo a b + go_rem a b = a"
  by (simp add: go_rem_def)

section \<open>Operations that may fail\<close>

type_synonym ('e, 's) outcome = "'e option \<times> 's"

definition andthen :: "('e, 's) outcome \<Rightarrow> ('s \<Rightarrow> ('e, 's) outcome) \<Rightarrow> ('e, 's) outcome" where
  "andthen r f = (case r of (None, s) \<Rightarrow> f s | (Some e, s) \<Rightarrow> (Some e, s))"

lemma andthen_simps [simp]:
  "andthen (None, s) f = f s"
  "andthen (Some e, s) f = (Some e, s)"
  by (simp_all add: andthen_def)

lemma andthen_assoc: "andthen (andthen r f) g = andthen r (\<lambda>s. andthen (f s) g)"
  by (cases r; cases "fst r") (simp_all add: andthen_def split: option.splits)

lemma andthen_ok_iff:
  "andthen r f = (None, t) \<longleftrightarrow> (\<exists>s. r = (None, s) \<and> f s = (None, t))"
  by (cases r; cases "fst r") (auto simp: andthen_def)

lemma andthen_cases:
  assumes "andthen r f = out"
  obtains (ok) s where "r = (None, s)" and "f s = out"
  | (err) e s where "r = (Some e, s)" and "out = (Some e, s)"
  using assms by (cases r; cases "fst r") (auto simp: andthen_def)

section \<open>Sorting short slices\<close>

fun go_insert :: "('a \<Rightarrow> 'a \<Rightarrow> bool) \<Rightarrow> 'a \<Rightarrow> 'a list \<Rightarrow> 'a list" where
  "go_insert lt x [] = [x]"
| "go_insert lt x (y # ys) = (if lt x y then y # go_insert lt x ys else x # y # ys)"

text \<open>The prefix sorted so far is kept reversed, as the inner loop walks it from the right.\<close>

definition go_sort :: "('a \<Rightarrow> 'a \<Rightarrow> bool) \<Rightarrow> 'a list \<Rightarrow> 'a list" where
  "go_sort lt xs = rev (fold (go_insert lt) xs [])"

lemma mset_go_insert [simp]: "mset (go_insert lt x xs) = add_mset x (mset xs)"
  by (induction xs) auto

lemma mset_fold_go_insert: "mset (fold (go_insert lt) xs ys) = mset xs + mset ys"
  by (induction xs arbitrary: ys) auto

lemma mset_go_sort [simp]: "mset (go_sort lt xs) = mset xs"
  by (simp add: go_sort_def mset_fold_go_insert)

lemma set_go_sort [simp]: "set (go_sort lt xs) = set xs"
  by (metis mset_go_sort set_mset_mset)

lemma length_go_sort [simp]: "length (go_sort lt xs) = length xs"
  by (metis mset_go_sort size_mset)

text \<open>
  The contract of a comparator: it is asymmetric, and "not smaller" is transitive (a strict
  weak order). Everything known about \<open>go_sort\<close> beyond being a rearrangement rests on it.
\<close>

locale go_less =
  fixes lt :: "'a \<Rightarrow> 'a \<Rightarrow> bool"
  assumes asym: "lt x y \<Longrightarrow> \<not> lt y x"
    and not_less_trans: "\<not> lt y x \<Longrightarrow> \<not> lt z y \<Longrightarrow> \<not> lt z x"
begin

lemma sorted_insert:
  "sorted_wrt (\<lambda>a b. \<not> lt a b) ys \<Longrightarrow> sorted_wrt (\<lambda>a b. \<not> lt a b) (go_insert lt x ys)"
proof (induction ys)
  case Nil
  then show ?case by simp
next
  case (Cons y ys)
  have set_ins: "set (go_insert lt x ys) = insert x (set ys)"
    by (metis mset_go_insert set_mset_mset set_mset_add_mset_insert)
  from Cons show ?case
    by (auto simp: set_ins dest: asym) (metis not_less_trans)
qed

lemma sorted_fold:
  "sorted_wrt (\<lambda>a b. \<not> lt a b) ys
    \<Longrightarrow> sorted_wrt (\<lambda>a b. \<not> lt a b) (fold (go_insert lt) xs ys)"
  by (induction xs arbitrary: ys) (auto intro: sorted_insert)

lemma sorted_sort: "sorted_wrt (\<lambda>a b. \<not> lt b a) (go_sort lt xs)"
  using sorted_fold [of "[]" xs] by (simp add: go_sort_def sorted_wrt_rev)

end

text \<open>A comparator that compares a linearly ordered key, ascending or descending.\<close>

lemma go_less_key: "go_less (\<lambda>a b. (f a :: 'b :: linorder) < f b)"
  by unfold_locales auto

lemma go_less_key_desc: "go_less (\<lambda>a b. (f a :: 'b :: linorder) > f b)"
  by unfold_locales auto

lemma go_sort_key_sorted:
  "sorted (map (f :: 'a \<Rightarrow> 'b :: linorder) (go_sort (\<lambda>a b. f a < f b) xs))"
  using go_less.sorted_sort [OF go_less_key, of f xs]
  by (simp add: sorted_map not_less)

lemma go_sort_key_sort:
  "map (f :: 'a \<Rightarrow> 'b :: linorder) (go_sort (\<lambda>a b. f a < f b) xs) = sort (map f xs)"
  by (rule properties_for_sort [symmetric]) (simp_all add: go_sort_key_sorted)

lemma go_sort_key_desc_sort:
  "map (f :: 'a \<Rightarrow> 'b :: linorder) (go_sort (\<lambda>a b. f a > f b) xs) = rev (sort (map f xs))"
proof -
  let ?ys = "go_sort (\<lambda>a b. f a > f b) xs"
  have "sort (map f xs) = rev (map f ?ys)"
  proof (rule properties_for_sort)
    show "sorted (rev (map f ?ys))"
      using go_less.sorted_sort [OF go_less_key_desc, of f xs]
      by (simp add: sorted_wrt_rev sorted_wrt_map not_less)
  qed simp
  then show ?thesis by (metis rev_rev_ident)
qed

end
