(* ===== verification/Cards.thy ===== *)
theory Cards
  imports Prelude
begin

text \<open>
  internal/game/deck.go: ranks, suits, cards and the deck. A \<open>Rank\<close> and a \<open>Suit\<close> are
  \<open>uint8\<close> values, here the naturals below 256 (the zero card of Go is rank 0, suit 0). The
  random source of \<open>Shuffle\<close> is the list of indices that \<open>rand.Shuffle\<close> draws.
\<close>

section \<open>Cards\<close>

type_synonym Suit = nat
type_synonym Rank = nat

abbreviation (input) Spades :: Suit where "Spades \<equiv> 0"
abbreviation (input) Hearts :: Suit where "Hearts \<equiv> 1"
abbreviation (input) Diamonds :: Suit where "Diamonds \<equiv> 2"
abbreviation (input) Clubs :: Suit where "Clubs \<equiv> 3"

abbreviation (input) Two :: Rank where "Two \<equiv> 2"
abbreviation (input) Three :: Rank where "Three \<equiv> 3"
abbreviation (input) Four :: Rank where "Four \<equiv> 4"
abbreviation (input) Five :: Rank where "Five \<equiv> 5"
abbreviation (input) Jack :: Rank where "Jack \<equiv> 11"
abbreviation (input) Queen :: Rank where "Queen \<equiv> 12"
abbreviation (input) King :: Rank where "King \<equiv> 13"
abbreviation (input) Ace :: Rank where "Ace \<equiv> 14"

record card =
  c_rank :: Rank
  c_suit :: Suit

definition mk_card :: "Rank \<Rightarrow> Suit \<Rightarrow> card" where
  "mk_card r s = \<lparr>c_rank = r, c_suit = s\<rparr>"

definition zero_card :: card where
  "zero_card = mk_card 0 0"

lemma mk_card_sel [simp]: "c_rank (mk_card r s) = r" "c_suit (mk_card r s) = s"
  by (simp_all add: mk_card_def)

lemma mk_card_inject [simp]: "mk_card r s = mk_card r' s' \<longleftrightarrow> r = r' \<and> s = s'"
  by (simp add: mk_card_def)

lemma mk_card_eta [simp]: "mk_card (c_rank c) (c_suit c) = c"
  by (cases c) (simp add: mk_card_def)

text \<open>\<open>int(c.Rank-2)\<close> subtracts at \<open>uint8\<close>, so it wraps below rank 2.\<close>

definition CardID :: "card \<Rightarrow> int" where
  "CardID c = int (c_suit c) * 13 + (int (c_rank c) - 2) mod 256"

definition dealt :: "card \<Rightarrow> bool" where
  "dealt c \<longleftrightarrow> Two \<le> c_rank c \<and> c_rank c \<le> Ace \<and> c_suit c \<le> Clubs"

definition CardFromID :: "int \<Rightarrow> card" where
  "CardFromID k = mk_card (nat ((go_rem k 13 mod 256 + 2) mod 256)) (nat (go_quo k 13 mod 256))"

lemma not_dealt_zero_card [simp]: "\<not> dealt zero_card"
  by (simp add: dealt_def zero_card_def)

lemma CardFromID_small:
  assumes "0 \<le> k" and "k < 52"
  shows "CardFromID k = mk_card (nat (k mod 13) + 2) (nat (k div 13))"
proof -
  have "0 \<le> k mod 13" "k mod 13 < 13" "0 \<le> k div 13" "k div 13 < 4"
    using assms by auto
  then show ?thesis
    using assms by (simp add: CardFromID_def nat_add_distrib)
qed

lemma CardFromID_dealt: "0 \<le> k \<Longrightarrow> k < 52 \<Longrightarrow> dealt (CardFromID k)"
proof -
  assume k: "0 \<le> k" "k < 52"
  have "nat (k mod 13) < 13" "nat (k div 13) < 4"
    using k by (auto simp: nat_less_iff)
  then show ?thesis
    using k by (simp add: CardFromID_small dealt_def)
qed

lemma CardID_CardFromID: "0 \<le> k \<Longrightarrow> k < 52 \<Longrightarrow> CardID (CardFromID k) = k"
proof -
  assume k: "0 \<le> k" "k < 52"
  have b: "0 \<le> k mod 13" "k mod 13 < 13" "0 \<le> k div 13"
    using k by auto
  have "CardID (CardFromID k) = (k div 13) * 13 + k mod 13"
    using k b by (simp add: CardFromID_small CardID_def)
  then show ?thesis by simp
qed

lemma CardID_dealt: "dealt c \<Longrightarrow> CardID c = 13 * int (c_suit c) + (int (c_rank c) - 2)"
  by (simp add: dealt_def CardID_def)

lemma CardID_range: "dealt c \<Longrightarrow> 0 \<le> CardID c \<and> CardID c < 52"
  by (auto simp: CardID_dealt dealt_def)

lemma CardFromID_CardID: "dealt c \<Longrightarrow> CardFromID (CardID c) = c"
proof -
  assume d: "dealt c"
  then have r: "2 \<le> c_rank c" "c_rank c \<le> 14" and s: "c_suit c \<le> 3"
    by (auto simp: dealt_def)
  have id: "CardID c = (int (c_rank c) - 2) + 13 * int (c_suit c)"
    using d by (simp add: CardID_dealt)
  have "CardID c mod 13 = int (c_rank c) - 2" and "CardID c div 13 = int (c_suit c)"
    unfolding id using r by simp_all
  then show ?thesis
    using CardID_range [OF d] r by (simp add: CardFromID_small nat_diff_distrib)
qed

lemma CardID_inject: "dealt c \<Longrightarrow> dealt d \<Longrightarrow> CardID c = CardID d \<longleftrightarrow> c = d"
  by (metis CardFromID_CardID)

section \<open>The deck\<close>

type_synonym deck = "card list"

definition NewDeck :: deck where
  "NewDeck = concat (map (\<lambda>s. map (\<lambda>r. mk_card r s) [2..<15]) [0..<4])"

text \<open>
  \<open>rand.Shuffle(n, swap)\<close> runs \<open>for i := n-1; i > 0; i-- { swap(i, j) }\<close> with \<open>j\<close> drawn from
  \<open>0..i\<close>. The draws are an input, the first one for \<open>i = n-1\<close>; a missing draw counts as 0.
\<close>

definition swap :: "nat \<Rightarrow> nat \<Rightarrow> 'a list \<Rightarrow> 'a list" where
  "swap i j xs = xs[i := xs ! j, j := xs ! i]"

fun rand_Shuffle :: "nat \<Rightarrow> nat list \<Rightarrow> 'a list \<Rightarrow> 'a list" where
  "rand_Shuffle 0 js xs = xs"
| "rand_Shuffle (Suc i) js xs =
     (if i = 0 then xs
      else rand_Shuffle i (tl js) (swap i ((case js of [] \<Rightarrow> 0 | j # _ \<Rightarrow> j) mod Suc i) xs))"

definition Shuffle :: "nat list \<Rightarrow> deck \<Rightarrow> deck" where
  "Shuffle js d = rand_Shuffle (length d) js d"

datatype deck_error = DeckNil | DeckEmpty

definition Deal :: "deck option \<Rightarrow> (deck_error + card) \<times> deck option" where
  "Deal d = (case d of None \<Rightarrow> (Inl DeckNil, None)
     | Some [] \<Rightarrow> (Inl DeckEmpty, Some [])
     | Some (c # cs) \<Rightarrow> (Inr c, Some cs))"

definition Remaining :: "deck option \<Rightarrow> nat" where
  "Remaining d = (case d of None \<Rightarrow> 0 | Some cs \<Rightarrow> length cs)"

lemma mset_swap [simp]: "i < length xs \<Longrightarrow> j < length xs \<Longrightarrow> mset (swap i j xs) = mset xs"
  unfolding swap_def by (rule mset_swap)

lemma length_swap [simp]: "length (swap i j xs) = length xs"
  by (simp add: swap_def)

lemma mset_rand_Shuffle: "n \<le> length xs \<Longrightarrow> mset (rand_Shuffle n js xs) = mset xs"
proof (induction n arbitrary: js xs)
  case 0
  then show ?case by simp
next
  case (Suc i)
  let ?j = "(case js of [] \<Rightarrow> 0 | j # _ \<Rightarrow> j) mod Suc i"
  have j: "?j < length xs"
    using Suc.prems mod_less_divisor [of "Suc i"] by (metis Suc_le_lessD less_le_trans zero_less_Suc)
  show ?case
    using Suc.IH [of "swap i ?j xs" "tl js"] Suc.prems j by auto
qed

lemma mset_Shuffle [simp]: "mset (Shuffle js d) = mset d"
  by (simp add: Shuffle_def mset_rand_Shuffle)

lemma set_Shuffle [simp]: "set (Shuffle js d) = set d"
  by (metis mset_Shuffle set_mset_mset)

lemma length_Shuffle [simp]: "length (Shuffle js d) = length d"
  by (metis mset_Shuffle size_mset)

lemma distinct_Shuffle [simp]: "distinct (Shuffle js d) = distinct d"
  by (metis mset_Shuffle mset_eq_imp_distinct_iff)

lemma length_NewDeck [simp]: "length NewDeck = 52"
  by (simp add: NewDeck_def upt_rec)

lemma set_NewDeck: "set NewDeck = {c. dealt c}"
proof (rule set_eqI)
  fix c
  have "c \<in> set NewDeck \<longleftrightarrow> (\<exists>s<4. \<exists>r\<in>{2..<15}. c = mk_card r s)"
    by (auto simp: NewDeck_def simp del: upt_rec_numeral)
  also have "\<dots> \<longleftrightarrow> dealt c"
  proof
    assume "dealt c"
    then have "c_suit c < 4" "c_rank c \<in> {2..<15}" "c = mk_card (c_rank c) (c_suit c)"
      by (auto simp: dealt_def)
    then show "\<exists>s<4. \<exists>r\<in>{2..<15}. c = mk_card r s" by blast
  qed (auto simp: dealt_def)
  finally show "c \<in> set NewDeck \<longleftrightarrow> c \<in> {c. dealt c}" by simp
qed

lemma distinct_NewDeck: "distinct NewDeck"
  by (simp add: NewDeck_def upt_rec)

lemma Deal_Some [simp]: "Deal (Some (c # cs)) = (Inr c, Some cs)"
  by (simp add: Deal_def)

lemma Deal_empty [simp]: "Deal (Some []) = (Inl DeckEmpty, Some [])" "Deal None = (Inl DeckNil, None)"
  by (simp_all add: Deal_def)

end
