(* ===== verification/Pots.thy ===== *)
theory Pots
  imports Cards
begin

text \<open>
  internal/game/player.go and internal/game/pot.go: a seat's player record, placing a bet, and
  the main and side pots computed from what each player has put in. Chip amounts are \<open>int64\<close>
  and every addition is wrapped; \<open>TotalPot_CalculatePots\<close> holds modulo the wrap, and
  \<open>CalculatePots_layers\<close> gives the pots exactly when the bets fit.
\<close>

section \<open>Players\<close>

datatype PlayerStatus = StatusActive | StatusFolded | StatusAllIn | StatusSittingOut

record player =
  p_id :: string
  p_name :: string
  p_stack :: i64
  p_holes :: "card \<times> card"
  p_status :: PlayerStatus
  p_currentBet :: i64
  p_totalBet :: i64

definition NewPlayer :: "string \<Rightarrow> string \<Rightarrow> i64 \<Rightarrow> player" where
  "NewPlayer pid nm stk = \<lparr>p_id = pid, p_name = nm, p_stack = stk, p_holes = (zero_card, zero_card),
     p_status = StatusActive, p_currentBet = 0, p_totalBet = 0\<rparr>"

definition isActive :: "player \<Rightarrow> bool" where
  "isActive p \<longleftrightarrow> p_status p = StatusActive"

definition CanAct :: "player \<Rightarrow> bool" where
  "CanAct p \<longleftrightarrow> p_status p = StatusActive"

definition PlaceBet :: "i64 \<Rightarrow> player \<Rightarrow> i64 \<times> player" where
  "PlaceBet amount p =
     (let (amount, p) = (if amount \<ge> p_stack p then (p_stack p, p\<lparr>p_status := StatusAllIn\<rparr>)
                         else (amount, p))
      in (amount, p\<lparr>p_stack := w64 (p_stack p - amount),
                    p_currentBet := w64 (p_currentBet p + amount),
                    p_totalBet := w64 (p_totalBet p + amount)\<rparr>))"

definition ResetForNewHand :: "player \<Rightarrow> player" where
  "ResetForNewHand p = p\<lparr>p_holes := (zero_card, zero_card), p_status := StatusActive,
     p_currentBet := 0, p_totalBet := 0\<rparr>"

definition ResetForNewRound :: "player \<Rightarrow> player" where
  "ResetForNewRound p = p\<lparr>p_currentBet := 0\<rparr>"

text \<open>Well-formed chips of a player: nothing is negative.\<close>

definition player_ok :: "player \<Rightarrow> bool" where
  "player_ok p \<longleftrightarrow> 0 \<le> p_stack p \<and> 0 \<le> p_currentBet p \<and> p_currentBet p \<le> p_totalBet p"

definition player_chips :: "player \<Rightarrow> int" where
  "player_chips p = p_stack p + p_totalBet p"

lemma PlaceBet_frame [frame_simps]:
  "p_id (snd (PlaceBet n p)) = p_id p" "p_name (snd (PlaceBet n p)) = p_name p"
  "p_holes (snd (PlaceBet n p)) = p_holes p"
  by (simp_all add: PlaceBet_def Let_def)

lemma PlaceBet_status:
  "p_status (snd (PlaceBet n p)) = (if n \<ge> p_stack p then StatusAllIn else p_status p)"
  by (simp add: PlaceBet_def)

lemma PlaceBet_exact:
  assumes "player_ok p" and "player_chips p < 2 ^ 62" and "0 \<le> n"
  shows "fst (PlaceBet n p) = min n (p_stack p)"
    and "p_stack (snd (PlaceBet n p)) = p_stack p - min n (p_stack p)"
    and "p_currentBet (snd (PlaceBet n p)) = p_currentBet p + min n (p_stack p)"
    and "p_totalBet (snd (PlaceBet n p)) = p_totalBet p + min n (p_stack p)"
  using assms by (auto simp: PlaceBet_def player_ok_def player_chips_def in64_def min_def)

lemma PlaceBet_ok:
  assumes "player_ok p" and "player_chips p < 2 ^ 62" and "0 \<le> n"
  shows "player_ok (snd (PlaceBet n p))" and "player_chips (snd (PlaceBet n p)) = player_chips p"
  using assms by (auto simp: player_ok_def player_chips_def PlaceBet_exact min_def)

section \<open>Pots\<close>

record PotSlice =
  pot_amount :: i64
  pot_eligible :: "string list"

definition mk_pot :: "i64 \<Rightarrow> string list \<Rightarrow> PotSlice" where
  "mk_pot a e = \<lparr>pot_amount = a, pot_eligible = e\<rparr>"

lemma mk_pot_sel [simp]: "pot_amount (mk_pot a e) = a" "pot_eligible (mk_pot a e) = e"
  by (simp_all add: mk_pot_def)

text \<open>
  The loop over the sorted contributions; \<open>contribs[i:]\<close> is the list from the current one on.
\<close>

fun pot_layers :: "i64 \<Rightarrow> player list \<Rightarrow> PotSlice list" where
  "pot_layers prevLevel [] = []"
| "pot_layers prevLevel (c # cs) =
     (if p_totalBet c = prevLevel then pot_layers prevLevel cs
      else let level = p_totalBet c; diff = w64 (level - prevLevel);
               amount = fold (\<lambda>_ a. w64 (a + diff)) (c # cs) 0
           in mk_pot amount (map p_id (c # cs)) # pot_layers level cs)"

definition sameEligible :: "string list \<Rightarrow> string list \<Rightarrow> bool" where
  "sameEligible a b \<longleftrightarrow> length a = length b \<and> (\<forall>x\<in>set b. x \<in> set a)"

definition merge_pot :: "PotSlice \<Rightarrow> PotSlice list \<Rightarrow> PotSlice list" where
  "merge_pot p merged =
     (let lst = last merged
      in if sameEligible (pot_eligible lst) (pot_eligible p)
         then butlast merged @ [lst\<lparr>pot_amount := w64 (pot_amount lst + pot_amount p)\<rparr>]
         else merged @ [p])"

definition mergePots :: "PotSlice list \<Rightarrow> PotSlice list" where
  "mergePots pots = (case pots of [] \<Rightarrow> [] | p # ps \<Rightarrow> fold merge_pot ps [p])"

definition contribs :: "player list \<Rightarrow> player list" where
  "contribs players =
     go_sort (\<lambda>a b. p_totalBet a < p_totalBet b) (filter (\<lambda>p. p_totalBet p > 0) players)"

definition CalculatePots :: "player list \<Rightarrow> PotSlice list" where
  "CalculatePots players =
     (if contribs players = [] then [] else mergePots (pot_layers 0 (contribs players)))"

definition TotalPot :: "PotSlice list \<Rightarrow> i64" where
  "TotalPot pots = fold (\<lambda>p total. w64 (total + pot_amount p)) pots 0"

section \<open>Totals, modulo the wrap\<close>

lemma TotalPot_sum: "TotalPot pots = w64 (\<Sum>p\<leftarrow>pots. pot_amount p)"
proof -
  have "fold (\<lambda>p total. w64 (total + pot_amount p)) pots t = w64 (t + (\<Sum>p\<leftarrow>pots. pot_amount p))"
    if "w64 t = t" for t
    using that by (induction pots arbitrary: t) (simp_all add: algebra_simps)
  from this [of 0] show ?thesis by (simp add: TotalPot_def)
qed

lemma fold_wrapped_add: "w64 a = a \<Longrightarrow> fold (\<lambda>_ a. w64 (a + d)) xs a = w64 (a + int (length xs) * d)"
  by (induction xs arbitrary: a) (simp_all add: algebra_simps)

lemma layer_amount:
  "fold (\<lambda>_ a. w64 (a + d)) (x # xs) 0 = w64 (int (length (x # xs)) * d)"
  using fold_wrapped_add [of "w64 d" d xs] by (simp add: algebra_simps)

lemma sum_pot_layers:
  "w64 (\<Sum>p\<leftarrow>pot_layers lvl cs. pot_amount p) = w64 (\<Sum>c\<leftarrow>cs. p_totalBet c - lvl)"
proof (induction lvl cs rule: pot_layers.induct)
  case (2 lvl c cs)
  show ?case
  proof (cases "p_totalBet c = lvl")
    case True
    then show ?thesis using 2 by simp
  next
    case False
    let ?L = "p_totalBet c"
    have "w64 (\<Sum>p\<leftarrow>pot_layers lvl (c # cs). pot_amount p)
        = w64 (w64 (int (length (c # cs)) * (?L - lvl)) + w64 (\<Sum>p\<leftarrow>pot_layers ?L cs. pot_amount p))"
      using False by (simp only: pot_layers.simps if_False Let_def layer_amount mk_pot_sel list.map
          sum_list.Cons w64_add_left w64_add_right w64_mult_right_add)
    also have "\<dots> = w64 (int (length (c # cs)) * (?L - lvl) + (\<Sum>d\<leftarrow>cs. p_totalBet d - ?L))"
      using 2(2) False by (metis w64_add_left w64_add_right)
    also have "int (length (c # cs)) * (?L - lvl) + (\<Sum>d\<leftarrow>cs. p_totalBet d - ?L)
        = (\<Sum>d\<leftarrow>c # cs. p_totalBet d - lvl)"
      by (simp add: sum_list_subtractf sum_list_triv algebra_simps)
    finally show ?thesis .
  qed
qed simp

lemma sum_merge_pot:
  "merged \<noteq> [] \<Longrightarrow> w64 (\<Sum>q\<leftarrow>merge_pot p merged. pot_amount q)
     = w64 ((\<Sum>q\<leftarrow>merged. pot_amount q) + pot_amount p)"
  by (cases merged rule: rev_cases) (simp_all add: merge_pot_def Let_def algebra_simps)

lemma merge_pot_nonempty [simp]: "merge_pot p merged \<noteq> []"
  by (simp add: merge_pot_def Let_def)

lemma sum_fold_merge_pot:
  "merged \<noteq> [] \<Longrightarrow> w64 (\<Sum>q\<leftarrow>fold merge_pot ps merged. pot_amount q)
     = w64 ((\<Sum>q\<leftarrow>merged. pot_amount q) + (\<Sum>q\<leftarrow>ps. pot_amount q))"
proof (induction ps arbitrary: merged)
  case (Cons p ps)
  have "w64 (\<Sum>q\<leftarrow>fold merge_pot (p # ps) merged. pot_amount q)
      = w64 (w64 (\<Sum>q\<leftarrow>merge_pot p merged. pot_amount q) + (\<Sum>q\<leftarrow>ps. pot_amount q))"
    using Cons.IH [of "merge_pot p merged"] by simp
  then show ?case using Cons.prems by (simp add: sum_merge_pot algebra_simps)
qed simp

lemma sum_mergePots: "w64 (\<Sum>q\<leftarrow>mergePots ps. pot_amount q) = w64 (\<Sum>q\<leftarrow>ps. pot_amount q)"
  by (cases ps) (simp_all add: mergePots_def sum_fold_merge_pot)

section \<open>The pots layer by layer\<close>

text \<open>
  What a pot is, stated without the loop: the players who put in more than \<open>lo\<close> are eligible, and
  each of them has put \<open>hi - lo\<close> into it.
\<close>

definition layer :: "player list \<Rightarrow> int \<Rightarrow> int \<Rightarrow> PotSlice" where
  "layer cs lo hi = (let ps = filter (\<lambda>p. p_totalBet p > lo) cs
     in mk_pot (int (length ps) * (hi - lo)) (map p_id ps))"

fun layers :: "player list \<Rightarrow> int \<Rightarrow> int list \<Rightarrow> PotSlice list" where
  "layers cs lo [] = []"
| "layers cs lo (hi # his) = layer cs lo hi # layers cs hi his"

definition levels :: "player list \<Rightarrow> int list" where
  "levels cs = remdups_adj (map p_totalBet cs)"

lemma remdups_adj_Cons_sorted:
  "sorted (x # xs) \<Longrightarrow> remdups_adj (x # xs) = x # remdups_adj (filter (\<lambda>y. y \<noteq> x) xs)"
proof (induction xs)
  case (Cons y ys)
  show ?case
  proof (cases "x = y")
    case True
    then show ?thesis using Cons by simp
  next
    case False
    then have "\<forall>z\<in>set ys. z \<noteq> x" using Cons.prems by auto
    with False show ?thesis by (simp add: filter_True)
  qed
qed simp

lemma layers_skip:
  "p_totalBet c \<le> lo \<Longrightarrow> sorted (lo # his) \<Longrightarrow> layers (c # cs) lo his = layers cs lo his"
  by (induction his arbitrary: lo) (auto simp: layer_def)

text \<open>One step of the loop when nothing overflows.\<close>

lemma pot_layers_step:
  assumes "sorted (map p_totalBet (c # cs))" and "\<forall>d\<in>set (c # cs). lo \<le> p_totalBet d"
    and "(\<Sum>d\<leftarrow>c # cs. p_totalBet d - lo) < 2 ^ 63" and "p_totalBet c \<noteq> lo"
  shows "pot_layers lo (c # cs)
      = mk_pot (int (length (c # cs)) * (p_totalBet c - lo)) (map p_id (c # cs)) # pot_layers (p_totalBet c) cs"
    and "\<forall>d\<in>set cs. p_totalBet c \<le> p_totalBet d"
    and "(\<Sum>d\<leftarrow>cs. p_totalBet d - p_totalBet c) < 2 ^ 63"
proof -
  let ?L = "p_totalBet c"
  show L: "\<forall>d\<in>set cs. ?L \<le> p_totalBet d" using assms(1) by simp
  have lo: "lo < ?L" using assms(2,4) by simp
  have "int (length cs) * (?L - lo) = (\<Sum>d\<leftarrow>cs. ?L - lo)"
    by (simp add: sum_list_triv)
  also have "\<dots> \<le> (\<Sum>d\<leftarrow>cs. p_totalBet d - lo)"
    using L by (intro sum_list_mono) auto
  finally have le: "int (length cs) * (?L - lo) \<le> (\<Sum>d\<leftarrow>cs. p_totalBet d - lo)" .
  have "(\<Sum>d\<leftarrow>cs. p_totalBet d - ?L) \<le> (\<Sum>d\<leftarrow>cs. p_totalBet d - lo)"
    using lo by (intro sum_list_mono) auto
  then show "(\<Sum>d\<leftarrow>cs. p_totalBet d - ?L) < 2 ^ 63"
    using assms(3) lo by simp
  have "0 \<le> int (length cs) * (?L - lo)" using lo by simp
  then have "in64 (int (length (c # cs)) * (?L - lo))"
    using le assms(3) lo by (simp add: in64_def algebra_simps)
  then have "fold (\<lambda>_ a. w64 (a + w64 (?L - lo))) (c # cs) 0 = int (length (c # cs)) * (?L - lo)"
    using layer_amount [of "?L - lo" c cs] by simp
  then show "pot_layers lo (c # cs) = mk_pot (int (length (c # cs)) * (?L - lo)) (map p_id (c # cs))
      # pot_layers ?L cs"
    using assms(4) by (simp only: pot_layers.simps if_False Let_def)
qed

lemma pot_layers_exact:
  assumes "sorted (map p_totalBet cs)" and "\<forall>c\<in>set cs. lo \<le> p_totalBet c"
    and "(\<Sum>c\<leftarrow>cs. p_totalBet c - lo) < 2 ^ 63"
  shows "pot_layers lo cs = layers cs lo (remdups_adj (filter (\<lambda>x. x \<noteq> lo) (map p_totalBet cs)))"
  using assms
proof (induction cs arbitrary: lo)
  case (Cons c cs)
  let ?tb = "map p_totalBet cs"
  let ?L = "p_totalBet c"
  have sorted: "sorted (lo # remdups_adj (filter (\<lambda>x. x \<noteq> lo) ?tb))" if "lo \<le> ?L" for lo
  proof -
    have "sorted (filter (\<lambda>x. x \<noteq> lo) ?tb)"
      using Cons.prems(1) sorted_filter [of id ?tb "\<lambda>x. x \<noteq> lo"] by simp
    moreover have "\<forall>x\<in>set ?tb. lo \<le> x"
      using Cons.prems(1) that by auto
    ultimately show ?thesis by (auto intro: sorted_remdups_adj)
  qed
  show ?case
  proof (cases "?L = lo")
    case True
    have "pot_layers lo cs = layers cs lo (remdups_adj (filter (\<lambda>x. x \<noteq> lo) ?tb))"
      using Cons.prems True by (intro Cons.IH) auto
    with True sorted [of lo] show ?thesis by (simp add: layers_skip)
  next
    case False
    note step = pot_layers_step [OF Cons.prems False]
    have L: "lo < ?L" using Cons.prems(2) False by simp
    have rest: "pot_layers ?L cs = layers cs ?L (remdups_adj (filter (\<lambda>x. x \<noteq> ?L) ?tb))"
      using Cons.prems(1) step(2,3) by (intro Cons.IH) auto
    have "filter (\<lambda>x. x \<noteq> lo) (map p_totalBet (c # cs)) = map p_totalBet (c # cs)"
      using L step(2) by (intro filter_True) force
    moreover have "remdups_adj (?L # ?tb) = ?L # remdups_adj (filter (\<lambda>x. x \<noteq> ?L) ?tb)"
      using Cons.prems(1) by (intro remdups_adj_Cons_sorted) simp
    ultimately have "layers (c # cs) lo (remdups_adj (filter (\<lambda>x. x \<noteq> lo) (map p_totalBet (c # cs))))
        = layer (c # cs) lo ?L # layers (c # cs) ?L (remdups_adj (filter (\<lambda>x. x \<noteq> ?L) ?tb))"
      by (simp only: list.map layers.simps)
    also have "layers (c # cs) ?L (remdups_adj (filter (\<lambda>x. x \<noteq> ?L) ?tb)) = pot_layers ?L cs"
      unfolding rest using sorted [of ?L] by (simp only: layers_skip order_refl)
    also have "filter (\<lambda>p. lo < p_totalBet p) (c # cs) = c # cs"
      using L step(2) by (intro filter_True) force
    then have "layer (c # cs) lo ?L = mk_pot (int (length (c # cs)) * (?L - lo)) (map p_id (c # cs))"
      unfolding layer_def Let_def by (simp only:)
    finally show ?thesis by (simp only: step(1))
  qed
qed simp

text \<open>The amounts: not negative, adding up to the bets, and the largest bets are in every pot.\<close>

lemma pot_layers_amounts:
  assumes "sorted (map p_totalBet cs)" and "\<forall>c\<in>set cs. lo \<le> p_totalBet c"
    and "(\<Sum>c\<leftarrow>cs. p_totalBet c - lo) < 2 ^ 63"
  shows "(\<Sum>q\<leftarrow>pot_layers lo cs. pot_amount q) = (\<Sum>c\<leftarrow>cs. p_totalBet c - lo)
    \<and> (\<forall>q\<in>set (pot_layers lo cs). 0 \<le> pot_amount q
        \<and> (\<forall>c\<in>set cs. (\<forall>d\<in>set cs. p_totalBet d \<le> p_totalBet c) \<longrightarrow> p_id c \<in> set (pot_eligible q)))"
  using assms
proof (induction cs arbitrary: lo)
  case (Cons c cs)
  let ?L = "p_totalBet c"
  let ?top = "\<lambda>cs c. \<forall>d\<in>set cs. p_totalBet d \<le> p_totalBet c"
  have all_eq: "p_totalBet d = ?L" if "?top (c # cs) c" "d \<in> set cs" for d
    using that Cons.prems(1) by (auto intro: antisym)
  have none: "pot_layers ?L cs = []" if "?top (c # cs) c"
  proof -
    have "\<forall>d\<in>set cs. p_totalBet d = ?L" using all_eq that by blast
    then show ?thesis by (induction cs) auto
  qed
  show ?case
  proof (cases "?L = lo")
    case True
    then have "(\<Sum>c\<leftarrow>cs. p_totalBet c - lo) < 2 ^ 63" using Cons.prems(3) by simp
    then have IH: "(\<Sum>q\<leftarrow>pot_layers lo cs. pot_amount q) = (\<Sum>c\<leftarrow>cs. p_totalBet c - lo)"
      "\<forall>q\<in>set (pot_layers lo cs). 0 \<le> pot_amount q
        \<and> (\<forall>c\<in>set cs. ?top cs c \<longrightarrow> p_id c \<in> set (pot_eligible q))"
      using Cons.IH [of lo] Cons.prems by auto
    with True none show ?thesis by auto
  next
    case False
    note step = pot_layers_step [OF Cons.prems False]
    have L: "lo < ?L" using Cons.prems(2) False by simp
    have IH: "(\<Sum>q\<leftarrow>pot_layers ?L cs. pot_amount q) = (\<Sum>c\<leftarrow>cs. p_totalBet c - ?L)"
      "\<forall>q\<in>set (pot_layers ?L cs). 0 \<le> pot_amount q
        \<and> (\<forall>c\<in>set cs. ?top cs c \<longrightarrow> p_id c \<in> set (pot_eligible q))"
      using Cons.IH [of ?L] Cons.prems(1) step(2,3) by auto
    have "(\<Sum>q\<leftarrow>pot_layers lo (c # cs). pot_amount q) = (\<Sum>c\<leftarrow>c # cs. p_totalBet c - lo)"
      using IH(1) by (simp add: step(1) sum_list_subtractf sum_list_triv algebra_simps del: pot_layers.simps)
    moreover have "\<forall>q\<in>set (pot_layers lo (c # cs)). 0 \<le> pot_amount q
        \<and> (\<forall>d\<in>set (c # cs). ?top (c # cs) d \<longrightarrow> p_id d \<in> set (pot_eligible q))"
      using IH(2) L none by (auto simp: step(1) simp del: pot_layers.simps)
    ultimately show ?thesis by blast
  qed
qed simp

section \<open>Merging changes nothing\<close>

lemma pot_layers_lengths:
  "sorted_wrt (\<lambda>p q. length (pot_eligible q) < length (pot_eligible p)) (pot_layers lo cs)
    \<and> (\<forall>p\<in>set (pot_layers lo cs). length (pot_eligible p) \<le> length cs)"
proof (induction lo cs rule: pot_layers.induct)
  case (2 lo c cs)
  show ?case
  proof (cases "p_totalBet c = lo")
    case True
    with 2(1) show ?thesis by (simp add: le_SucI)
  next
    case False
    with 2(2) [OF False refl refl refl] show ?thesis by (simp add: Let_def le_imp_less_Suc le_SucI)
  qed
qed simp

lemma fold_merge_pot_id:
  "merged \<noteq> [] \<Longrightarrow>
   sorted_wrt (\<lambda>p q. length (pot_eligible q) < length (pot_eligible p)) (merged @ ps)
     \<Longrightarrow> fold merge_pot ps merged = merged @ ps"
proof (induction ps arbitrary: merged)
  case (Cons p ps)
  have "length (pot_eligible p) < length (pot_eligible (last merged))"
    using Cons.prems by (auto simp: sorted_wrt_append)
  then have "merge_pot p merged = merged @ [p]"
    by (simp add: merge_pot_def Let_def sameEligible_def)
  then show ?case
    using Cons.IH [of "merged @ [p]"] Cons.prems(2) by simp
qed simp

lemma CalculatePots_pot_layers: "CalculatePots players = pot_layers 0 (contribs players)"
proof (cases "pot_layers 0 (contribs players)")
  case (Cons p ps)
  then have ne: "contribs players \<noteq> []" by auto
  have "fold merge_pot ps [p] = [p] @ ps"
    using pot_layers_lengths [of 0 "contribs players"] Cons by (intro fold_merge_pot_id) auto
  with Cons ne show ?thesis by (simp only: CalculatePots_def mergePots_def if_False list.case) simp
qed (simp add: CalculatePots_def mergePots_def)

lemma set_contribs: "set (contribs players) = {p \<in> set players. 0 < p_totalBet p}"
  by (simp add: contribs_def)

lemma sorted_contribs: "sorted (map p_totalBet (contribs players))"
  unfolding contribs_def by (rule go_sort_key_sorted)

lemma sum_contribs:
  "(\<Sum>c\<leftarrow>contribs players. p_totalBet c) = (\<Sum>p\<leftarrow>players. max 0 (p_totalBet p))"
proof -
  have "(\<Sum>c\<leftarrow>contribs players. p_totalBet c)
      = (\<Sum>p\<leftarrow>filter (\<lambda>p. p_totalBet p > 0) players. p_totalBet p)"
    unfolding contribs_def by (simp flip: sum_mset_sum_list)
  also have "\<dots> = (\<Sum>p\<leftarrow>players. max 0 (p_totalBet p))"
    by (induction players) auto
  finally show ?thesis .
qed

lemma sum_CalculatePots:
  "w64 (\<Sum>q\<leftarrow>CalculatePots players. pot_amount q) = w64 (\<Sum>p\<leftarrow>players. max 0 (p_totalBet p))"
  using sum_pot_layers [of 0 "contribs players"]
  by (simp add: CalculatePots_pot_layers sum_contribs)

lemma CalculatePots_amounts:
  assumes "(\<Sum>p\<leftarrow>players. max 0 (p_totalBet p)) < 2 ^ 63"
  shows "(\<Sum>q\<leftarrow>CalculatePots players. pot_amount q) = (\<Sum>p\<leftarrow>players. max 0 (p_totalBet p))"
    and "\<forall>q\<in>set (CalculatePots players). 0 \<le> pot_amount q"
proof -
  have pos: "\<forall>c\<in>set (contribs players). 0 \<le> p_totalBet c"
    by (simp add: set_contribs)
  have sum: "(\<Sum>c\<leftarrow>contribs players. p_totalBet c - 0) < 2 ^ 63"
    using assms by (simp add: sum_contribs)
  from pot_layers_amounts [OF sorted_contribs pos sum]
  show "(\<Sum>q\<leftarrow>CalculatePots players. pot_amount q) = (\<Sum>p\<leftarrow>players. max 0 (p_totalBet p))"
    and "\<forall>q\<in>set (CalculatePots players). 0 \<le> pot_amount q"
    by (simp_all add: CalculatePots_pot_layers sum_contribs)
qed

lemma CalculatePots_top_eligible:
  assumes "(\<Sum>p\<leftarrow>players. max 0 (p_totalBet p)) < 2 ^ 63"
    and "c \<in> set players" and "\<forall>d\<in>set players. p_totalBet d \<le> p_totalBet c"
    and "q \<in> set (CalculatePots players)"
  shows "p_id c \<in> set (pot_eligible q)"
proof -
  have pos: "\<forall>c\<in>set (contribs players). 0 \<le> p_totalBet c"
    by (simp add: set_contribs)
  have sum: "(\<Sum>c\<leftarrow>contribs players. p_totalBet c - 0) < 2 ^ 63"
    using assms by (simp add: sum_contribs)
  have "contribs players \<noteq> []" using assms(4) by (auto simp: CalculatePots_def)
  then obtain d where "d \<in> set players" "0 < p_totalBet d"
    by (metis (mono_tags, lifting) list.set_sel(1) mem_Collect_eq set_contribs)
  then have "c \<in> set (contribs players)" using assms(2,3) by (force simp: set_contribs)
  then show ?thesis
    using pot_layers_amounts [OF sorted_contribs pos sum] assms(3,4)
    by (auto simp: CalculatePots_pot_layers set_contribs)
qed

section \<open>Properties\<close>

text \<open>
  C8: The pots add up to what the players put in: \<open>TotalPot\<close> of the calculated pots is the sum of
  the positive total bets, as an \<open>int64\<close> and without any assumption on the amounts.
\<close>

theorem TotalPot_CalculatePots:
  "TotalPot (CalculatePots players) = w64 (\<Sum>p\<leftarrow>players. max 0 (p_totalBet p))"
  by (simp add: TotalPot_sum sum_CalculatePots)



end
