(* ===== verification/HandEval.thy ===== *)
theory HandEval
  imports Cards "HOL-Library.Product_Lexorder"
begin

text \<open>
  internal/game/hand_eval.go: ranking of five-card hands and the best five of seven. The fixed
  arrays \<open>[5]Card\<close> and \<open>[7]Card\<close> are lists of that length. Go's iteration order over the map of
  rank counts is not specified; \<open>groupByRank\<close> sorts by a total order on distinct ranks, and
  \<open>groupByRank_order\<close> shows that any iteration order gives the same groups.
\<close>

section \<open>Hand ranks\<close>

datatype HandRank = HighCard | OnePair | TwoPair | ThreeOfAKind | Straight | Flush | FullHouse
  | FourOfAKind | StraightFlush | RoyalFlush

fun rank_num :: "HandRank \<Rightarrow> nat" where
  "rank_num HighCard = 0"
| "rank_num OnePair = 1"
| "rank_num TwoPair = 2"
| "rank_num ThreeOfAKind = 3"
| "rank_num Straight = 4"
| "rank_num Flush = 5"
| "rank_num FullHouse = 6"
| "rank_num FourOfAKind = 7"
| "rank_num StraightFlush = 8"
| "rank_num RoyalFlush = 9"

lemma rank_num_inject [simp]: "rank_num a = rank_num b \<longleftrightarrow> a = b"
  by (cases a; cases b) simp_all

instantiation HandRank :: linorder
begin

definition less_eq_HandRank :: "HandRank \<Rightarrow> HandRank \<Rightarrow> bool" where
  "a \<le> b \<longleftrightarrow> rank_num a \<le> rank_num b"

definition less_HandRank :: "HandRank \<Rightarrow> HandRank \<Rightarrow> bool" where
  "a < b \<longleftrightarrow> rank_num a < rank_num b"

instance
  by standard (auto simp: less_eq_HandRank_def less_HandRank_def dest: antisym)

end

lemma HighCard_least [simp]: "HighCard \<le> r" and not_less_HighCard [simp]: "\<not> r < HighCard"
  by (simp_all add: less_eq_HandRank_def less_HandRank_def)

fun HandRank_String :: "HandRank \<Rightarrow> string" where
  "HandRank_String HighCard = ''High Card''"
| "HandRank_String OnePair = ''One Pair''"
| "HandRank_String TwoPair = ''Two Pair''"
| "HandRank_String ThreeOfAKind = ''Three of a Kind''"
| "HandRank_String Straight = ''Straight''"
| "HandRank_String Flush = ''Flush''"
| "HandRank_String FullHouse = ''Full House''"
| "HandRank_String FourOfAKind = ''Four of a Kind''"
| "HandRank_String StraightFlush = ''Straight Flush''"
| "HandRank_String RoyalFlush = ''Royal Flush''"

section \<open>Evaluated hands and their comparison\<close>

record EvaluatedHand =
  h_rank :: HandRank
  h_cards :: "card list"
  h_kickers :: "Rank list"

definition mk_hand :: "HandRank \<Rightarrow> card list \<Rightarrow> Rank list \<Rightarrow> EvaluatedHand" where
  "mk_hand r cs ks = \<lparr>h_rank = r, h_cards = cs, h_kickers = ks\<rparr>"

lemma mk_hand_sel [simp]:
  "h_rank (mk_hand r cs ks) = r" "h_cards (mk_hand r cs ks) = cs" "h_kickers (mk_hand r cs ks) = ks"
  by (simp_all add: mk_hand_def)

fun cmp_kickers :: "Rank list \<Rightarrow> Rank list \<Rightarrow> int" where
  "cmp_kickers (a # as) (b # bs) =
     (if a > b then 1 else if a < b then -1 else cmp_kickers as bs)"
| "cmp_kickers _ _ = 0"

definition Compare :: "EvaluatedHand \<Rightarrow> EvaluatedHand \<Rightarrow> int" where
  "Compare h other =
     (if h_rank h > h_rank other then 1
      else if h_rank h < h_rank other then -1
      else cmp_kickers (h_kickers h) (h_kickers other))"

section \<open>Five-card evaluation\<close>

type_synonym rankGroup = "Rank \<times> nat"

definition group_less :: "rankGroup \<Rightarrow> rankGroup \<Rightarrow> bool" where
  "group_less g h = (if snd g \<noteq> snd h then snd g > snd h else fst g > fst h)"

definition rank_counts :: "card list \<Rightarrow> rankGroup list" where
  "rank_counts cs = map (\<lambda>r. (r, count_list (map c_rank cs) r)) (remdups (map c_rank cs))"

definition groupByRank :: "card list \<Rightarrow> rankGroup list" where
  "groupByRank cs = go_sort group_less (rank_counts cs)"

definition checkFlush :: "card list \<Rightarrow> bool" where
  "checkFlush cs = (case cs of [] \<Rightarrow> True | c # rest \<Rightarrow> list_all (\<lambda>d. c_suit d = c_suit c) rest)"

fun descending_by_one :: "Rank list \<Rightarrow> bool" where
  "descending_by_one (a # b # rs) = (int a - int b = 1 \<and> descending_by_one (b # rs))"
| "descending_by_one _ = True"

definition checkStraight :: "card list \<Rightarrow> bool \<times> Rank" where
  "checkStraight cs =
     (let rs = map c_rank cs in
      if descending_by_one rs then (True, hd rs)
      else if rs = [Ace, Five, Four, Three, Two] then (True, Five)
      else (False, 0))"

definition rankDesc :: "card list \<Rightarrow> Rank list" where
  "rankDesc cs = map c_rank cs"

definition sort_desc :: "card list \<Rightarrow> card list" where
  "sort_desc cs = go_sort (\<lambda>a b. c_rank a > c_rank b) cs"

definition evaluate5 :: "card list \<Rightarrow> EvaluatedHand" where
  "evaluate5 cards =
     (let sorted = sort_desc cards;
          isFlush = checkFlush sorted;
          (isStraight, straightHigh) = checkStraight sorted
      in if isFlush \<and> isStraight \<and> straightHigh = Ace then mk_hand RoyalFlush sorted [Ace]
      else if isFlush \<and> isStraight then mk_hand StraightFlush sorted [straightHigh]
      else
        (let groups = groupByRank sorted;
             cnt = (\<lambda>i. snd (groups ! i));
             rk = (\<lambda>i. fst (groups ! i))
         in if cnt 0 = 4 then mk_hand FourOfAKind sorted [rk 0, rk 1]
         else if cnt 0 = 3 \<and> cnt 1 = 2 then mk_hand FullHouse sorted [rk 0, rk 1]
         else if isFlush then mk_hand Flush sorted (rankDesc sorted)
         else if isStraight then mk_hand Straight sorted [straightHigh]
         else if cnt 0 = 3 then mk_hand ThreeOfAKind sorted [rk 0, rk 1, rk 2]
         else if cnt 0 = 2 \<and> cnt 1 = 2 then
           (let high = rk 0; low = rk 1;
                (high, low) = (if low > high then (low, high) else (high, low))
            in mk_hand TwoPair sorted [high, low, rk 2])
         else if cnt 0 = 2 then mk_hand OnePair sorted (map fst groups)
         else mk_hand HighCard sorted (rankDesc sorted)))"

section \<open>The best five of seven\<close>

definition pairs7 :: "(nat \<times> nat) list" where
  "pairs7 = concat (map (\<lambda>i. map (Pair i) [Suc i..<7]) [0..<7])"

definition drop_two :: "card list \<Rightarrow> nat \<times> nat \<Rightarrow> card list" where
  "drop_two cards p = map (nth cards) (filter (\<lambda>k. k \<noteq> fst p \<and> k \<noteq> snd p) [0..<7])"

definition better :: "EvaluatedHand \<Rightarrow> EvaluatedHand \<Rightarrow> EvaluatedHand" where
  "better h best = (if Compare h best > 0 then h else best)"

definition EvaluateBest7 :: "card list \<Rightarrow> EvaluatedHand" where
  "EvaluateBest7 cards =
     fold (\<lambda>p best. better (evaluate5 (drop_two cards p)) best) pairs7 (mk_hand HighCard [] [])"

section \<open>Comparison is a total preorder on hands of one shape\<close>

lemma cmp_kickers_range: "cmp_kickers as bs \<in> {-1, 0, 1}"
  by (induction as bs rule: cmp_kickers.induct) auto

lemma cmp_kickers_swap: "cmp_kickers bs as = - cmp_kickers as bs"
  by (induction as bs rule: cmp_kickers.induct) auto

lemma cmp_kickers_refl [simp]: "cmp_kickers as as = 0"
  by (induction as) auto

lemma cmp_kickers_Nil [simp]: "cmp_kickers as [] = 0" "cmp_kickers [] bs = 0"
  by (cases as) simp_all

lemma cmp_kickers_trans:
  "length as = length bs \<Longrightarrow> length bs = length cs \<Longrightarrow> cmp_kickers as bs \<le> 0
    \<Longrightarrow> cmp_kickers bs cs \<le> 0 \<Longrightarrow> cmp_kickers as cs \<le> 0"
  by (induction as bs cs rule: list_induct3) (simp_all split: if_splits)

lemma Compare_swap: "Compare b a = - Compare a b"
  using cmp_kickers_swap [of "h_kickers b" "h_kickers a"] by (auto simp: Compare_def)

lemma Compare_refl [simp]: "Compare a a = 0"
  by (simp add: Compare_def)

definition same_shape :: "EvaluatedHand \<Rightarrow> EvaluatedHand \<Rightarrow> bool" where
  "same_shape a b \<longleftrightarrow> (h_rank a = h_rank b \<longrightarrow> length (h_kickers a) = length (h_kickers b))"

lemma Compare_trans:
  "same_shape a b \<Longrightarrow> same_shape b c \<Longrightarrow> Compare a b \<le> 0 \<Longrightarrow> Compare b c \<le> 0 \<Longrightarrow> Compare a c \<le> 0"
  by (auto simp: Compare_def same_shape_def split: if_splits
      intro: cmp_kickers_trans [of "h_kickers a" "h_kickers b"])

section \<open>Rank groups\<close>

text \<open>The comparator of \<open>groupByRank\<close> is the descending lexicographic order on (count, rank).\<close>

definition gkey :: "rankGroup \<Rightarrow> nat \<times> Rank" where
  "gkey g = (snd g, fst g)"

lemma gkey_inject [simp]: "gkey g = gkey h \<longleftrightarrow> g = h"
  by (cases g; cases h) (auto simp: gkey_def)

lemma group_less_gkey: "group_less = (\<lambda>g h. gkey g > gkey h)"
  by (auto simp: fun_eq_iff group_less_def gkey_def)

interpretation groups: go_less group_less
  unfolding group_less_gkey by (rule go_less_key_desc)

lemma go_sort_groups_unique:
  assumes "mset gs = mset hs"
  shows "go_sort group_less gs = go_sort group_less hs"
proof -
  have "map gkey (go_sort group_less gs) = map gkey (go_sort group_less hs)"
    unfolding group_less_gkey go_sort_key_desc_sort
    using assms by (metis mset_map sort_key_id_if_sorted properties_for_sort sorted_sort mset_sort)
  then show ?thesis
    by (simp add: inj_map_eq_map inj_def)
qed

lemma groupByRank_order: "mset gs = mset (rank_counts cs) \<Longrightarrow> go_sort group_less gs = groupByRank cs"
  unfolding groupByRank_def by (rule go_sort_groups_unique)

lemma count_list_mset: "count_list xs r = count (mset xs) r"
  by (induction xs) auto

lemma set_rank_counts:
  "set (rank_counts cs) = {(r, count (mset (map c_rank cs)) r) |r. r \<in> c_rank ` set cs}"
  by (auto simp: rank_counts_def count_list_mset image_iff)

lemma distinct_rank_counts: "distinct (map fst (rank_counts cs))"
  by (simp add: rank_counts_def comp_def)

lemma groupByRank_cong:
  assumes "mset (map c_rank cs) = mset (map c_rank ds)"
  shows "groupByRank cs = groupByRank ds"
proof -
  have "c_rank ` set cs = c_rank ` set ds"
    using assms by (metis list.set_map set_mset_mset)
  then have "set (rank_counts cs) = set (rank_counts ds)"
    using assms by (simp add: set_rank_counts)
  then have "mset (rank_counts cs) = mset (rank_counts ds)"
    using distinct_rank_counts by (metis distinct_map set_eq_iff_mset_eq_distinct)
  then show ?thesis
    unfolding groupByRank_def by (rule go_sort_groups_unique)
qed

lemma set_groupByRank:
  "set (groupByRank cs) = {(r, count (mset (map c_rank cs)) r) |r. r \<in> c_rank ` set cs}"
  by (simp add: groupByRank_def set_rank_counts)

lemma distinct_groupByRank: "distinct (map fst (groupByRank cs))"
  by (metis distinct_rank_counts groupByRank_def mset_eq_imp_distinct_iff mset_go_sort mset_map)

lemma sum_groupByRank: "sum_list (map snd (groupByRank cs)) = length cs"
proof -
  have "sum_list (map snd (groupByRank cs)) = sum_list (map snd (rank_counts cs))"
    by (metis groupByRank_def mset_go_sort mset_map sum_mset_sum_list)
  also have "\<dots> = (\<Sum>r\<in>set (map c_rank cs). count_list (map c_rank cs) r)"
    by (simp add: rank_counts_def comp_def sum_list_distinct_conv_sum_set)
  also have "\<dots> = length cs"
    by (metis length_map sum_count_set finite_set order_refl)
  finally show ?thesis .
qed

lemma sorted_groupByRank: "sorted_wrt (\<ge>) (map snd (groupByRank cs))"
proof -
  have "sorted_wrt (\<lambda>a b. \<not> group_less b a) (groupByRank cs)"
    unfolding groupByRank_def by (rule groups.sorted_sort)
  then show ?thesis
    unfolding sorted_wrt_map
    by (rule sorted_wrt_mono_rel [rotated]) (auto simp: group_less_def split: if_splits)
qed

lemma partitions_of_5:
  assumes "sorted_wrt (\<ge>) xs" and "\<forall>x\<in>set xs. 0 < x" and "sum_list xs = (5::nat)"
  shows "xs \<in> {[5], [4,1], [3,2], [3,1,1], [2,2,1], [2,1,1,1], [1,1,1,1,1]}"
proof -
  have len: "length ys \<le> sum_list ys" if "\<forall>y\<in>set ys. 0 < y" for ys :: "nat list"
    using that by (induction ys) auto
  have "length xs \<le> 5"
    using len assms(2,3) by metis
  then consider "xs = []" | a where "xs = [a]" | a b where "xs = [a, b]"
    | a b c where "xs = [a, b, c]" | a b c d where "xs = [a, b, c, d]"
    | a b c d e where "xs = [a, b, c, d, e]"
    by (auto simp: numeral_eq_Suc le_Suc_eq length_Suc_conv)
  then show ?thesis
    using assms by cases (simp; presburger)+
qed

lemma group_counts5:
  assumes "length cs = 5"
  shows "map snd (groupByRank cs) \<in> {[5], [4,1], [3,2], [3,1,1], [2,2,1], [2,1,1,1], [1,1,1,1,1]}"
proof (rule partitions_of_5)
  show "\<forall>x\<in>set (map snd (groupByRank cs)). 0 < x"
    by (auto simp: set_groupByRank count_greater_zero_iff)
qed (simp_all add: sorted_groupByRank sum_groupByRank assms)

section \<open>What five-card evaluation depends on\<close>

lemma mset_sort_desc [simp]: "mset (sort_desc cs) = mset cs"
  by (simp add: sort_desc_def)

lemma length_sort_desc [simp]: "length (sort_desc cs) = length cs"
  by (simp add: sort_desc_def)

lemma set_sort_desc [simp]: "set (sort_desc cs) = set cs"
  by (simp add: sort_desc_def)

lemma ranks_sort_desc: "map c_rank (sort_desc cs) = rev (sort (map c_rank cs))"
  by (simp add: sort_desc_def go_sort_key_desc_sort)

lemma checkFlush_iff: "checkFlush cs \<longleftrightarrow> (\<forall>c\<in>set cs. \<forall>d\<in>set cs. c_suit c = c_suit d)"
  by (cases cs) (auto simp: checkFlush_def list_all_iff)

lemma checkStraight_cong: "map c_rank cs = map c_rank ds \<Longrightarrow> checkStraight cs = checkStraight ds"
  by (simp add: checkStraight_def)

text \<open>
  \<open>sort.Slice\<close> need not be stable, so the order of equal ranks is not determined; the rank and
  the kickers of the evaluation do not depend on it.
\<close>

lemma evaluate5_mset:
  assumes "mset cs = mset ds"
  shows "h_rank (evaluate5 cs) = h_rank (evaluate5 ds)"
    and "h_kickers (evaluate5 cs) = h_kickers (evaluate5 ds)"
proof -
  have ranks: "map c_rank (sort_desc cs) = map c_rank (sort_desc ds)"
    unfolding ranks_sort_desc using assms by (metis mset_map sort_key_id_if_sorted properties_for_sort sorted_sort mset_sort)
  have flush: "checkFlush (sort_desc cs) = checkFlush (sort_desc ds)"
    using assms by (simp add: checkFlush_iff) (metis set_mset_mset)
  have straight: "checkStraight (sort_desc cs) = checkStraight (sort_desc ds)"
    by (rule checkStraight_cong) (rule ranks)
  have groups: "groupByRank (sort_desc cs) = groupByRank (sort_desc ds)"
    by (rule groupByRank_cong) (simp add: ranks)
  show "h_rank (evaluate5 cs) = h_rank (evaluate5 ds)"
    by (simp add: evaluate5_def Let_def flush straight groups split: prod.split)
  show "h_kickers (evaluate5 cs) = h_kickers (evaluate5 ds)"
    by (simp add: evaluate5_def Let_def flush straight groups rankDesc_def ranks split: prod.split)
qed

fun klen :: "HandRank \<Rightarrow> nat" where
  "klen HighCard = 5"
| "klen OnePair = 4"
| "klen TwoPair = 3"
| "klen ThreeOfAKind = 3"
| "klen Straight = 1"
| "klen Flush = 5"
| "klen FullHouse = 2"
| "klen FourOfAKind = 2"
| "klen StraightFlush = 1"
| "klen RoyalFlush = 1"

lemma groups5_cases:
  assumes "length cs = 5"
  obtains (g5) a where "groupByRank cs = [(a, 5)]"
  | (g41) a b where "groupByRank cs = [(a, 4), (b, 1)]"
  | (g32) a b where "groupByRank cs = [(a, 3), (b, 2)]"
  | (g311) a b c where "groupByRank cs = [(a, 3), (b, 1), (c, 1)]"
  | (g221) a b c where "groupByRank cs = [(a, 2), (b, 2), (c, 1)]"
  | (g2111) a b c d where "groupByRank cs = [(a, 2), (b, 1), (c, 1), (d, 1)]"
  | (g11111) a b c d e where "groupByRank cs = [(a, 1), (b, 1), (c, 1), (d, 1), (e, 1)]"
  using group_counts5 [OF assms] by (auto simp: map_eq_Cons_conv)

lemma evaluate5_klen:
  assumes "length cs = 5"
  shows "length (h_kickers (evaluate5 cs)) = klen (h_rank (evaluate5 cs))"
proof -
  have "length (sort_desc cs) = 5" using assms by simp
  then show ?thesis
    using assms
    by (cases rule: groups5_cases)
       (simp_all add: evaluate5_def Let_def rankDesc_def split: prod.split)
qed

lemma evaluate5_same_shape:
  "length cs = 5 \<Longrightarrow> length ds = 5 \<Longrightarrow> same_shape (evaluate5 cs) (evaluate5 ds)"
  by (simp add: same_shape_def evaluate5_klen)

section \<open>The best of seven\<close>

abbreviation empty_hand :: EvaluatedHand where
  "empty_hand \<equiv> mk_hand HighCard [] []"

lemma Compare_empty_hand:
  "Compare h empty_hand > 0 \<longleftrightarrow> h_rank h \<noteq> HighCard"
  using HighCard_least [of "h_rank h"] by (auto simp: Compare_def order_le_less)

lemma fold_better_invariant:
  assumes "\<forall>h\<in>set hs. \<forall>g\<in>set hs. same_shape h g"
  shows "(fold better hs empty_hand = empty_hand \<and> (\<forall>h\<in>set hs. h_rank h = HighCard))
    \<or> (fold better hs empty_hand \<in> set hs \<and> h_rank (fold better hs empty_hand) \<noteq> HighCard
       \<and> (\<forall>h\<in>set hs. Compare h (fold better hs empty_hand) \<le> 0))"
  using assms
proof (induction hs rule: rev_induct)
  case Nil
  then show ?case by simp
next
  case (snoc h hs)
  obtain b where b_eq: "fold better hs empty_hand = b" by simp
  have step: "fold better (hs @ [h]) empty_hand = better h b"
    by (simp add: b_eq)
  have better: "better h b = (if Compare h b > 0 then h else b)"
    by (simp add: better_def)
  have IH: "(b = empty_hand \<and> (\<forall>h\<in>set hs. h_rank h = HighCard))
    \<or> (b \<in> set hs \<and> h_rank b \<noteq> HighCard \<and> (\<forall>h\<in>set hs. Compare h b \<le> 0))"
    using snoc b_eq by auto
  then show ?case
  proof (elim disjE conjE)
    assume "b = empty_hand" and all: "\<forall>h\<in>set hs. h_rank h = HighCard"
    then show ?thesis
      unfolding step better using Compare_empty_hand [of h] by (auto simp: Compare_def)
  next
    assume b: "b \<in> set hs" "h_rank b \<noteq> HighCard" "\<forall>h\<in>set hs. Compare h b \<le> 0"
    show ?thesis
    proof (cases "Compare h b > 0")
      case True
      then have "Compare b h \<le> 0" using Compare_swap [of b h] by simp
      moreover have "h_rank h \<noteq> HighCard"
        using True b(2) by (auto simp: Compare_def split: if_splits)
      moreover have "Compare g h \<le> 0" if "g \<in> set hs" for g
        using Compare_trans [of g b h] that b snoc.prems \<open>Compare b h \<le> 0\<close> by auto
      ultimately show ?thesis unfolding step better using True by auto
    next
      case False
      then show ?thesis unfolding step better using b by auto
    qed
  qed
qed

definition hands7 :: "card list \<Rightarrow> EvaluatedHand list" where
  "hands7 cards = map (\<lambda>p. evaluate5 (drop_two cards p)) pairs7"

lemma EvaluateBest7_fold: "EvaluateBest7 cards = fold better (hands7 cards) empty_hand"
  by (simp add: EvaluateBest7_def hands7_def fold_map comp_def)

lemma set_pairs7: "set pairs7 = {(i, j). i < j \<and> j < 7}"
  by (auto simp: pairs7_def image_iff simp del: upt_rec_numeral)

lemma length_drop_two: "i < j \<Longrightarrow> j < 7 \<Longrightarrow> length (drop_two cards (i, j)) = 5"
proof -
  assume ij: "i < j" "j < 7"
  have "length (drop_two cards (i, j)) = card (set (filter (\<lambda>k. k \<noteq> i \<and> k \<noteq> j) [0..<7]))"
    by (simp add: drop_two_def distinct_card [symmetric] del: upt_rec_numeral set_filter)
  also have "set (filter (\<lambda>k. k \<noteq> i \<and> k \<noteq> j) [0..<7]) = {0..<7} - {i, j}"
    by auto
  also have "card ({0..<7} - {i, j}) = 5"
    using ij by (simp add: card_Diff_subset)
  finally show ?thesis .
qed

lemma hands7_same_shape: "\<forall>h\<in>set (hands7 cards). \<forall>g\<in>set (hands7 cards). same_shape h g"
  by (auto simp: hands7_def set_pairs7 length_drop_two intro: evaluate5_same_shape)

lemmas EvaluateBest7_invariant =
  fold_better_invariant [OF hands7_same_shape, folded EvaluateBest7_fold]

lemma mset_filter_split: "mset (map f (filter P xs)) + mset (map f (filter (\<lambda>x. \<not> P x) xs)) = mset (map f xs)"
  by (induction xs) auto

lemma mset_drop_two:
  assumes "length cards = 7" and "i < j" and "j < 7"
  shows "mset (drop_two cards (i, j)) + {#cards ! i, cards ! j#} = mset cards"
proof -
  have "filter (\<lambda>k. \<not> (k \<noteq> i \<and> k \<noteq> j)) [0..<7] = [i, j]"
    using assms(2,3) by (auto simp: numeral_eq_Suc less_Suc_eq)
  then have "mset (drop_two cards (i, j)) + {#cards ! i, cards ! j#} = mset (map (nth cards) [0..<7])"
    using mset_filter_split [of "nth cards" "\<lambda>k. k \<noteq> i \<and> k \<noteq> j" "[0..<7]"]
    by (simp add: drop_two_def del: upt_rec_numeral)
  also have "map (nth cards) [0..<7] = cards"
    using assms(1) by (metis map_nth)
  finally show ?thesis .
qed

lemma mset_two_positions:
  assumes "{#a, b#} \<subseteq># mset xs"
  obtains i j where "i < j" and "j < length xs" and "{#xs ! i, xs ! j#} = {#a, b#}"
proof -
  have "a \<in> set xs" using assms by (metis insert_subset_eq_iff set_mset_mset)
  then obtain ys zs where xs: "xs = ys @ a # zs" by (meson split_list)
  have "b \<in> set ys \<or> b \<in> set zs"
    using assms by (auto simp: xs insert_subset_eq_iff)
  then show thesis
  proof
    assume "b \<in> set ys"
    then obtain i where i: "i < length ys" "ys ! i = b" by (meson in_set_conv_nth)
    show thesis
      by (rule that [of i "length ys"]) (use i in \<open>auto simp: xs nth_append\<close>)
  next
    assume "b \<in> set zs"
    then obtain i where i: "i < length zs" "zs ! i = b" by (meson in_set_conv_nth)
    show thesis
      by (rule that [of "length ys" "length ys + Suc i"]) (use i in \<open>auto simp: xs nth_append\<close>)
  qed
qed

lemma double_diff_mset_self: "M \<subseteq># N \<Longrightarrow> N - (N - M) = M"
  by (auto simp: multiset_eq_iff subseteq_mset_def)

lemma five_of_seven:
  assumes "length cards = 7" and "length five = 5" and "mset five \<subseteq># mset cards"
  obtains p where "p \<in> set pairs7" and "mset (drop_two cards p) = mset five"
proof -
  have "size (mset cards - mset five) = Suc 1"
    using assms by (simp add: size_Diff_submset)
  then obtain a N where aN: "mset cards - mset five = add_mset a N" and "size N = 1"
    by (metis size_eq_Suc_imp_eq_union size_add_mset add_right_cancel Suc_eq_plus1)
  then obtain b where ab: "mset cards - mset five = {#a, b#}"
    using size_1_singleton_mset by metis
  then have "{#a, b#} \<subseteq># mset cards" by (metis diff_subset_eq_self)
  then obtain i j where ij: "i < j" "j < 7" "{#cards ! i, cards ! j#} = {#a, b#}"
    using mset_two_positions assms(1) by metis
  have "mset (drop_two cards (i, j)) = mset cards - {#a, b#}"
    using mset_drop_two [OF assms(1) ij(1,2)] ij(3) by (metis add_diff_cancel_right')
  also have "\<dots> = mset five"
    unfolding ab [symmetric] using assms(3) by (rule double_diff_mset_self)
  finally show thesis
    using ij by (intro that [of "(i, j)"]) (auto simp: set_pairs7)
qed

lemma five_in_hands7:
  assumes "length cards = 7" and "length five = 5" and "mset five \<subseteq># mset cards"
  obtains h where "h \<in> set (hands7 cards)"
    and "h_rank h = h_rank (evaluate5 five)" and "h_kickers h = h_kickers (evaluate5 five)"
  using five_of_seven [OF assms] evaluate5_mset by (metis (no_types, lifting) hands7_def image_eqI list.set_map)

lemma hands7_five:
  assumes "length cards = 7" and "h \<in> set (hands7 cards)"
  obtains five where "length five = 5" and "mset five \<subseteq># mset cards" and "h = evaluate5 five"
proof -
  obtain i j where "i < j" "j < 7" "h = evaluate5 (drop_two cards (i, j))"
    using assms(2) by (auto simp: hands7_def set_pairs7)
  then show thesis
    using that length_drop_two mset_drop_two [OF assms(1)] by (metis mset_subset_eq_add_left)
qed

section \<open>Hand classes\<close>

text \<open>The class of a five-card hand, stated over the multiset of its ranks and the set of its suits.\<close>

definition is_straight :: "card list \<Rightarrow> bool" where
  "is_straight cs \<longleftrightarrow> (\<exists>lo\<in>set (map c_rank cs). mset (map c_rank cs) = mset [lo..<lo + 5])
     \<or> mset (map c_rank cs) = {#Two, Three, Four, Five, Ace#}"

definition rank_count :: "card list \<Rightarrow> Rank \<Rightarrow> nat" where
  "rank_count cs r = count (mset (map c_rank cs)) r"

definition hand_class :: "card list \<Rightarrow> HandRank" where
  "hand_class cs =
     (let R = set (map c_rank cs); n = rank_count cs; flush = (\<exists>s\<in>c_suit ` set cs. \<forall>c\<in>set cs. c_suit c = s); straight = is_straight cs
      in if flush \<and> straight \<and> Ace \<in> R \<and> King \<in> R then RoyalFlush
      else if flush \<and> straight then StraightFlush
      else if \<exists>r\<in>R. n r = 4 then FourOfAKind
      else if (\<exists>r\<in>R. n r = 3) \<and> (\<exists>r\<in>R. n r = 2) then FullHouse
      else if flush then Flush
      else if straight then Straight
      else if \<exists>r\<in>R. n r = 3 then ThreeOfAKind
      else if \<exists>r\<in>R. \<exists>s\<in>R. r \<noteq> s \<and> n r = 2 \<and> n s = 2 then TwoPair
      else if \<exists>r\<in>R. n r = 2 then OnePair
      else HighCard)"

lemma descending_by_one_upt: "descending_by_one rs \<Longrightarrow> \<exists>lo. rs = rev [lo..<lo + length rs]"
proof (induction rs rule: descending_by_one.induct)
  case (1 a b rs)
  then obtain lo where lo: "b # rs = rev [lo..<lo + length (b # rs)]" and ab: "a = Suc b"
    by auto
  then have "b = lo + length rs" by simp
  with lo ab show ?case by (intro exI [of _ lo]) simp
qed auto

lemma descending_by_one_rev_upt: "descending_by_one (rev [lo..<lo + n])"
proof (induction n)
  case (Suc n)
  then show ?case by (cases n) auto
qed simp

lemma sort_eq_iff_mset: "sorted ys \<Longrightarrow> sort xs = ys \<longleftrightarrow> mset xs = mset ys"
  by (metis mset_sort properties_for_sort)

lemma checkStraight_is_straight:
  assumes "length cs = 5"
  shows "fst (checkStraight (sort_desc cs)) \<longleftrightarrow> is_straight cs"
proof -
  let ?rs = "map c_rank cs"
  have len: "length (sort ?rs) = 5" using assms by simp
  have "descending_by_one (rev (sort ?rs)) \<longleftrightarrow> (\<exists>lo. sort ?rs = [lo..<lo + 5])"
    using descending_by_one_upt [of "rev (sort ?rs)"] descending_by_one_rev_upt [of _ 5] len
    by (metis length_rev rev_rev_ident)
  also have "\<dots> \<longleftrightarrow> (\<exists>lo\<in>set ?rs. mset ?rs = mset [lo..<lo + 5])"
  proof -
    have "lo \<in> set ?rs" if "mset ?rs = mset [lo..<lo + 5]" for lo
      using that by (metis add_less_same_cancel1 atLeastLessThan_iff le_refl less_add_same_cancel1
          mset_eq_setD set_upt zero_less_numeral)
    then show ?thesis by (auto simp: sort_eq_iff_mset simp del: mset_map)
  qed
  finally have run: "descending_by_one (rev (sort ?rs)) \<longleftrightarrow> (\<exists>lo\<in>set ?rs. mset ?rs = mset [lo..<lo + 5])" .
  have "rev (sort ?rs) = [Ace, Five, Four, Three, Two] \<longleftrightarrow> sort ?rs = [Two, Three, Four, Five, Ace]"
    by (metis rev_rev_ident rev.simps append_Cons append_Nil)
  also have "\<dots> \<longleftrightarrow> mset ?rs = mset [Two, Three, Four, Five, Ace]"
    by (rule sort_eq_iff_mset) simp
  finally show ?thesis
    unfolding is_straight_def checkStraight_def Let_def ranks_sort_desc using run by simp
qed

lemma ex_count_groups:
  "(\<exists>r\<in>set (map c_rank cs). rank_count cs r = k) \<longleftrightarrow> (\<exists>g\<in>set (groupByRank cs). snd g = k)"
  by (auto simp: set_groupByRank rank_count_def)

lemma ex_two_groups:
  "(\<exists>r\<in>set (map c_rank cs). \<exists>s\<in>set (map c_rank cs). r \<noteq> s \<and> rank_count cs r = k \<and> rank_count cs s = l)
   \<longleftrightarrow> (\<exists>g\<in>set (groupByRank cs). \<exists>h\<in>set (groupByRank cs). fst g \<noteq> fst h \<and> snd g = k \<and> snd h = l)"
  by (auto simp: set_groupByRank rank_count_def)

lemma groupByRank_sort_desc: "groupByRank (sort_desc cs) = groupByRank cs"
  by (rule groupByRank_cong) simp

lemma checkFlush_sort_desc: "checkFlush (sort_desc cs) = checkFlush cs"
  by (simp add: checkFlush_iff)

lemma straight_high:
  assumes "length cs = 5" and "fst (checkStraight (sort_desc cs))"
    and "\<forall>c\<in>set cs. dealt c"
  shows "snd (checkStraight (sort_desc cs)) = Ace \<longleftrightarrow> Ace \<in> set (map c_rank cs) \<and> King \<in> set (map c_rank cs)"
proof -
  let ?rs = "rev (sort (map c_rank cs))"
  have set_rs: "set (map c_rank cs) = set ?rs" and len: "length ?rs = 5"
    using assms(1) by simp_all
  show ?thesis
  proof (cases "descending_by_one ?rs")
    case True
    then obtain lo where lo: "?rs = rev [lo..<lo + 5]"
      using descending_by_one_upt len by metis
    then have "?rs = [lo + 4, lo + 3, lo + 2, lo + 1, lo]"
      by (simp add: upt_rec numeral_eq_Suc)
    moreover have "\<forall>r\<in>set ?rs. r \<le> Ace"
      using assms(3) by (auto simp: dealt_def)
    ultimately show ?thesis
      using True unfolding checkStraight_def Let_def ranks_sort_desc set_rs by auto
  next
    case False
    with assms(2) have "?rs = [Ace, Five, Four, Three, Two]"
      unfolding checkStraight_def Let_def ranks_sort_desc by (auto split: if_splits)
    with False show ?thesis
      unfolding checkStraight_def Let_def ranks_sort_desc set_rs by auto
  qed
qed

section \<open>Properties\<close>

lemma checkFlush_one_suit: "cs \<noteq> [] \<Longrightarrow> checkFlush cs \<longleftrightarrow> (\<exists>s\<in>c_suit ` set cs. \<forall>c\<in>set cs. c_suit c = s)"
  by (cases cs) (auto simp: checkFlush_iff)

lemma class_of_evaluate5:
  assumes "length cs = 5" and "\<forall>c\<in>set cs. dealt c"
  shows "h_rank (evaluate5 cs) = hand_class cs"
proof -
  obtain st hi where sh: "checkStraight (sort_desc cs) = (st, hi)"
    by (cases "checkStraight (sort_desc cs)")
  have st: "is_straight cs = st"
    using checkStraight_is_straight [OF assms(1)] sh by simp
  have hi: "st \<Longrightarrow> hi = Ace \<longleftrightarrow> Ace \<in> set (map c_rank cs) \<and> King \<in> set (map c_rank cs)"
    using straight_high [OF assms(1) _ assms(2)] sh by simp
  have "cs \<noteq> []" using assms(1) by auto
  note unfolds = evaluate5_def hand_class_def Let_def sh groupByRank_sort_desc checkFlush_sort_desc
    checkFlush_one_suit [OF this, symmetric] st ex_count_groups ex_two_groups
  show ?thesis
    unfolding unfolds using distinct_groupByRank [of cs]
    by (cases rule: groups5_cases [OF assms(1)]; cases "st"; cases "checkFlush cs") (simp_all add: hi)
qed

text \<open>
  C6: For five dealt cards the rank that \<open>evaluate5\<close> computes from sorted cards and sorted rank
  groups is the class of the hand, stated over the multiset of ranks and the suits (a flush is a hand
  of one suit): straight and royal flush, four of a kind, full house, flush, straight (the wheel A-2-3-4-5 included), three
  of a kind, two pair, one pair, high card.
\<close>

theorem evaluate5_class:
  assumes "length cs = 5" and "\<forall>c\<in>set cs. dealt c"
  shows "h_rank (evaluate5 cs) = hand_class cs"
  using class_of_evaluate5 [OF assms] .

theorem evaluate5_class_witness:
  "h_rank (evaluate5 [mk_card 9 0, mk_card 4 1, mk_card 9 2, mk_card 4 3, mk_card 9 1]) = FullHouse"
proof -
  let ?cs = "[mk_card 9 0, mk_card 4 1, mk_card 9 2, mk_card 4 3, mk_card 9 1]"
  have "h_rank (evaluate5 ?cs) = hand_class ?cs"
    by (rule evaluate5_class) (simp_all add: dealt_def)
  also have "\<dots> = FullHouse"
    by (simp add: hand_class_def Let_def rank_count_def)
  finally show ?thesis .
qed

text \<open>
  C5: \<open>EvaluateBest7\<close> is the best five of seven as soon as some five of the seven cards rank above
  high card: its result is the evaluation of five of the cards, and no five of the seven cards
  evaluate to a hand that compares greater. When all of them are high-card hands, the result is a
  high card without cards and without kickers.
\<close>

theorem EvaluateBest7_best:
  assumes "length cards = 7"
  shows "if \<exists>five. length five = 5 \<and> mset five \<subseteq># mset cards \<and> h_rank (evaluate5 five) \<noteq> HighCard
    then (\<exists>five. length five = 5 \<and> mset five \<subseteq># mset cards \<and> EvaluateBest7 cards = evaluate5 five)
      \<and> (\<forall>five. length five = 5 \<and> mset five \<subseteq># mset cards \<longrightarrow> Compare (evaluate5 five) (EvaluateBest7 cards) \<le> 0)
    else EvaluateBest7 cards = mk_hand HighCard [] []"
proof (cases "\<exists>h\<in>set (hands7 cards). h_rank h \<noteq> HighCard")
  case True
  then have best: "EvaluateBest7 cards \<in> set (hands7 cards)" "\<forall>h\<in>set (hands7 cards). Compare h (EvaluateBest7 cards) \<le> 0"
    using EvaluateBest7_invariant [of cards] by auto
  have "\<exists>five. length five = 5 \<and> mset five \<subseteq># mset cards \<and> h_rank (evaluate5 five) \<noteq> HighCard"
    using True hands7_five [OF assms] by metis
  moreover have "Compare (evaluate5 five) (EvaluateBest7 cards) \<le> 0"
    if five: "length five = 5" "mset five \<subseteq># mset cards" for five
  proof -
    obtain h where h: "h \<in> set (hands7 cards)" and eq: "h_rank h = h_rank (evaluate5 five)"
      "h_kickers h = h_kickers (evaluate5 five)"
      using five_in_hands7 [OF assms five] by blast
    have "Compare (evaluate5 five) (EvaluateBest7 cards) = Compare h (EvaluateBest7 cards)"
      by (simp add: Compare_def eq)
    with best(2) h show ?thesis by simp
  qed
  ultimately show ?thesis using hands7_five [OF assms best(1)] by (simp, metis)
next
  case False
  then have no: "\<not> (\<exists>five. length five = 5 \<and> mset five \<subseteq># mset cards \<and> h_rank (evaluate5 five) \<noteq> HighCard)"
    using five_in_hands7 [OF assms] by metis
  show ?thesis unfolding if_not_P [OF no] using False EvaluateBest7_invariant [of cards] by auto
qed

theorem EvaluateBest7_best_witness:
  "(\<exists>five. length five = 5
      \<and> EvaluateBest7 [mk_card 9 0, mk_card 4 1, mk_card 9 2, mk_card 4 3, mk_card 9 1, mk_card 2 0, mk_card 3 0]
        = evaluate5 five)
   \<and> h_rank (EvaluateBest7 [mk_card 9 0, mk_card 4 1, mk_card 9 2, mk_card 4 3, mk_card 9 1, mk_card 2 0, mk_card 3 0]) \<ge> FullHouse"
proof -
  let ?cs = "[mk_card 9 0, mk_card 4 1, mk_card 9 2, mk_card 4 3, mk_card 9 1, mk_card 2 0, mk_card 3 0]"
  have "h_rank (evaluate5 (take 5 ?cs)) = hand_class (take 5 ?cs)"
    by (rule class_of_evaluate5) (simp_all add: dealt_def)
  also have "\<dots> = FullHouse"
    by (simp add: hand_class_def Let_def rank_count_def)
  finally have fh: "h_rank (evaluate5 (take 5 ?cs)) = FullHouse" .
  have five: "length (take 5 ?cs) = 5" "mset (take 5 ?cs) \<subseteq># mset ?cs" by simp_all
  have "\<exists>five. length five = 5 \<and> mset five \<subseteq># mset ?cs \<and> h_rank (evaluate5 five) \<noteq> HighCard"
    using five fh by (metis HandRank.distinct(11))
  moreover have "length ?cs = 7" by simp
  ultimately have best: "\<exists>five. length five = 5 \<and> mset five \<subseteq># mset ?cs \<and> EvaluateBest7 ?cs = evaluate5 five"
      "\<forall>five. length five = 5 \<and> mset five \<subseteq># mset ?cs \<longrightarrow> Compare (evaluate5 five) (EvaluateBest7 ?cs) \<le> 0"
    using EvaluateBest7_best [of ?cs] by presburger+
  then have "Compare (evaluate5 (take 5 ?cs)) (EvaluateBest7 ?cs) \<le> 0" using five by blast
  then have "FullHouse \<le> h_rank (EvaluateBest7 ?cs)" using fh by (auto simp: Compare_def not_less [symmetric] split: if_splits)
  then show ?thesis using best(1) by blast
qed

text \<open>
  When no five of the seven cards make a pair or better, \<open>EvaluateBest7\<close> returns the initial
  hand without kickers, so any two such holdings compare equal, whatever their high cards are.
\<close>

theorem EvaluateBest7_high_card_tie:
  assumes "\<forall>p\<in>set pairs7. h_rank (evaluate5 (drop_two cards p)) = HighCard"
    and "\<forall>p\<in>set pairs7. h_rank (evaluate5 (drop_two cards' p)) = HighCard"
  shows "h_kickers (EvaluateBest7 cards) = []
    \<and> Compare (EvaluateBest7 cards) (EvaluateBest7 cards') = 0"
proof -
  have "EvaluateBest7 c = empty_hand"
    if "\<forall>p\<in>set pairs7. h_rank (evaluate5 (drop_two c p)) = HighCard" for c
    using EvaluateBest7_invariant [of c] that by (auto simp: hands7_def)
  with assms show ?thesis by simp
qed

theorem EvaluateBest7_high_card_tie_witness:
  "Compare
     (EvaluateBest7 [mk_card 14 0, mk_card 13 1, mk_card 2 0, mk_card 4 1, mk_card 6 2, mk_card 8 3, mk_card 10 0])
     (EvaluateBest7 [mk_card 12 1, mk_card 7 1, mk_card 2 0, mk_card 4 1, mk_card 6 2, mk_card 8 3, mk_card 10 0])
   = 0"
proof -
  let ?a = "[mk_card 14 0, mk_card 13 1, mk_card 2 0, mk_card 4 1, mk_card 6 2, mk_card 8 3, mk_card 10 0]"
  let ?b = "[mk_card 12 1, mk_card 7 1, mk_card 2 0, mk_card 4 1, mk_card 6 2, mk_card 8 3, mk_card 10 0]"
  have "\<forall>p\<in>set pairs7. h_rank (evaluate5 (drop_two ?a p)) = HighCard"
    by code_simp
  moreover have "\<forall>p\<in>set pairs7. h_rank (evaluate5 (drop_two ?b p)) = HighCard"
    by code_simp
  ultimately show ?thesis
    by (rule EvaluateBest7_high_card_tie [THEN conjunct2])
qed

end
