(* ===== verification/GameState.thy ===== *)
theory GameState
  imports Pots HandEval
begin

text \<open>
  internal/game/state.go: phases, actions, the state of a hand and its queries. \<open>DealerIdx\<close> is a
  natural number (a seat); \<open>ActionIdx\<close> and \<open>LastRaiserIdx\<close> are integers because the code stores -1
  in them. \<open>Deck\<close> is \<open>None\<close> where the Go pointer is nil, which is what makes a hand a "crypto" hand.
\<close>

section \<open>Data\<close>

datatype Phase = PhaseWaiting | PhasePreFlop | PhaseFlop | PhaseTurn | PhaseRiver | PhaseShowdown
  | PhaseSettled | PhaseAwaitingStreet

fun Phase_String :: "Phase \<Rightarrow> string" where
  "Phase_String PhaseWaiting = ''Waiting''"
| "Phase_String PhasePreFlop = ''Pre-Flop''"
| "Phase_String PhaseFlop = ''Flop''"
| "Phase_String PhaseTurn = ''Turn''"
| "Phase_String PhaseRiver = ''River''"
| "Phase_String PhaseShowdown = ''Showdown''"
| "Phase_String PhaseSettled = ''Settled''"
| "Phase_String PhaseAwaitingStreet = ''Awaiting Street''"

text \<open>An \<open>ActionType\<close> is a \<open>uint8\<close> and comes from the wire; values above 4 are \<open>ActionUnknown\<close>.\<close>

datatype ActionType = ActionFold | ActionCheck | ActionCall | ActionRaise | ActionAllIn
  | ActionUnknown nat

fun ActionType_String :: "ActionType \<Rightarrow> string option" where
  "ActionType_String ActionFold = Some ''Fold''"
| "ActionType_String ActionCheck = Some ''Check''"
| "ActionType_String ActionCall = Some ''Call''"
| "ActionType_String ActionRaise = Some ''Raise''"
| "ActionType_String ActionAllIn = Some ''All-In''"
| "ActionType_String (ActionUnknown _) = None"

record Action =
  a_player :: string
  a_type :: ActionType
  a_amount :: i64

definition mk_action :: "string \<Rightarrow> ActionType \<Rightarrow> i64 \<Rightarrow> Action" where
  "mk_action pid t n = \<lparr>a_player = pid, a_type = t, a_amount = n\<rparr>"

lemma mk_action_sel [simp]:
  "a_player (mk_action i t n) = i" "a_type (mk_action i t n) = t" "a_amount (mk_action i t n) = n"
  by (simp_all add: mk_action_def)

record game_state =
  gs_tableID :: string
  gs_handNum :: int
  gs_smallBlind :: i64
  gs_bigBlind :: i64
  gs_players :: "player list"
  gs_dealerIdx :: nat
  gs_actionIdx :: int
  gs_lastRaiserIdx :: int
  gs_phase :: Phase
  gs_community :: "card list"
  gs_deck :: "deck option"
  gs_pots :: "PotSlice list"
  gs_currentBet :: i64
  gs_minRaise :: i64
  gs_roundActions :: nat
  gs_log :: "Action list"
  gs_payouts :: "string \<rightharpoonup> i64"

definition NewGameState :: "string \<Rightarrow> int \<Rightarrow> player list \<Rightarrow> nat \<Rightarrow> i64 \<Rightarrow> i64 \<Rightarrow> game_state" where
  "NewGameState tableID handNum players dealerIdx sb bb =
     \<lparr>gs_tableID = tableID, gs_handNum = handNum, gs_smallBlind = sb, gs_bigBlind = bb,
      gs_players = map ResetForNewHand players, gs_dealerIdx = dealerIdx, gs_actionIdx = 0,
      gs_lastRaiserIdx = 0, gs_phase = PhaseWaiting, gs_community = [], gs_deck = Some NewDeck,
      gs_pots = [], gs_currentBet = 0, gs_minRaise = bb, gs_roundActions = 0, gs_log = [],
      gs_payouts = Map.empty\<rparr>"

section \<open>Queries\<close>

definition ActivePlayers :: "game_state \<Rightarrow> player list" where
  "ActivePlayers gs = filter isActive (gs_players gs)"

definition in_hand :: "player \<Rightarrow> bool" where
  "in_hand p \<longleftrightarrow> p_status p = StatusActive \<or> p_status p = StatusAllIn"

definition PlayersInHand :: "game_state \<Rightarrow> player list" where
  "PlayersInHand gs = filter in_hand (gs_players gs)"

definition CurrentPlayer :: "game_state \<Rightarrow> player option" where
  "CurrentPlayer gs =
     (if gs_actionIdx gs < 0 \<or> gs_actionIdx gs \<ge> int (length (gs_players gs)) then None
      else Some (gs_players gs ! nat (gs_actionIdx gs)))"

definition nextActiveIndex :: "nat \<Rightarrow> game_state \<Rightarrow> int" where
  "nextActiveIndex fromIdx gs =
     (let n = length (gs_players gs)
      in case find (\<lambda>i. CanAct (gs_players gs ! ((fromIdx + i) mod n))) [1..<n + 1] of
           Some i \<Rightarrow> int ((fromIdx + i) mod n) | None \<Rightarrow> -1)"

fun seat_of :: "string \<Rightarrow> player list \<Rightarrow> nat \<Rightarrow> int" where
  "seat_of pid [] i = -1"
| "seat_of pid (p # ps) i = (if p_id p = pid then int i else seat_of pid ps (i + 1))"

definition SeatIndex :: "string \<Rightarrow> game_state \<Rightarrow> int" where
  "SeatIndex pid gs = seat_of pid (gs_players gs) 0"

text \<open>Update the player at a seat (the code writes through the \<open>*Player\<close> of that seat).\<close>

definition upd_seat :: "nat \<Rightarrow> (player \<Rightarrow> player) \<Rightarrow> game_state \<Rightarrow> game_state" where
  "upd_seat i f gs = gs\<lparr>gs_players := (gs_players gs)[i := f (gs_players gs ! i)]\<rparr>"

section \<open>Facts about the queries\<close>

lemma seat_of_ge: "seat_of pid ps i = -1 \<or> int i \<le> seat_of pid ps i"
  by (induction ps arbitrary: i) (auto, smt (verit) of_nat_Suc)

lemma seat_of_Some:
  "seat_of pid ps i = int k \<Longrightarrow>
    i \<le> k \<and> k < i + length ps \<and> p_id (ps ! (k - i)) = pid \<and> (\<forall>j < k - i. p_id (ps ! j) \<noteq> pid)"
proof (induction ps arbitrary: i)
  case (Cons p ps)
  show ?case
  proof (cases "p_id p = pid")
    case False
    with Cons.IH [of "Suc i"] Cons.prems have IH: "Suc i \<le> k \<and> k < Suc i + length ps \<and> p_id (ps ! (k - Suc i)) = pid
      \<and> (\<forall>j < k - Suc i. p_id (ps ! j) \<noteq> pid)" by simp
    then obtain d where k: "k = Suc i + d"
      using le_Suc_ex by blast
    show ?thesis
      using IH False by (auto simp: k less_Suc_eq_0_disj)
  qed (use Cons in auto)
qed simp

lemma seat_of_None: "seat_of pid ps i = -1 \<longleftrightarrow> pid \<notin> p_id ` set ps"
  by (induction ps arbitrary: i) auto

lemma SeatIndex_range: "SeatIndex pid gs = -1 \<or> (0 \<le> SeatIndex pid gs \<and> SeatIndex pid gs < int (length (gs_players gs))
   \<and> p_id (gs_players gs ! nat (SeatIndex pid gs)) = pid)"
proof (cases "SeatIndex pid gs = -1")
  case False
  then have "0 \<le> SeatIndex pid gs"
    using seat_of_ge [of pid "gs_players gs" 0] by (simp add: SeatIndex_def)
  then obtain k where "SeatIndex pid gs = int k" by (metis nonneg_int_cases)
  then show ?thesis
    using seat_of_Some [of pid "gs_players gs" 0 k] by (simp add: SeatIndex_def)
qed simp

lemma SeatIndex_found:
  "pid \<in> p_id ` set (gs_players gs) \<Longrightarrow> SeatIndex pid gs \<noteq> -1"
  by (simp add: SeatIndex_def seat_of_None)

text \<open>With pairwise different ids, the seat of a player's id is the player's seat.\<close>

lemma SeatIndex_nth:
  assumes "distinct (map p_id (gs_players gs))" and "i < length (gs_players gs)"
  shows "SeatIndex (p_id (gs_players gs ! i)) gs = int i"
proof -
  let ?p = "p_id (gs_players gs ! i)"
  have "SeatIndex ?p gs \<noteq> -1"
    using assms(2) by (intro SeatIndex_found) auto
  then have k: "0 \<le> SeatIndex ?p gs" "nat (SeatIndex ?p gs) < length (gs_players gs)"
    "p_id (gs_players gs ! nat (SeatIndex ?p gs)) = ?p"
    using SeatIndex_range [of ?p gs] by auto
  then have "nat (SeatIndex ?p gs) = i"
    using assms nth_eq_iff_index_eq [of "map p_id (gs_players gs)"] by simp
  with k(1) show ?thesis by simp
qed

text \<open>
  \<open>nextActiveIndex\<close> finds the first seat after \<open>fromIdx\<close>, round the table, that can act, and -1
  when there is none.
\<close>

lemma nextActiveIndex_cases:
  obtains (none) "nextActiveIndex k gs = -1" "\<forall>p\<in>set (gs_players gs). \<not> CanAct p"
  | (seat) i where "1 \<le> i" "i \<le> length (gs_players gs)"
      "nextActiveIndex k gs = int ((k + i) mod length (gs_players gs))"
      "CanAct (gs_players gs ! ((k + i) mod length (gs_players gs)))"
      "\<forall>j. 1 \<le> j \<longrightarrow> j < i \<longrightarrow> \<not> CanAct (gs_players gs ! ((k + j) mod length (gs_players gs)))"
proof (cases "find (\<lambda>i. CanAct (gs_players gs ! ((k + i) mod length (gs_players gs)))) [1..<length (gs_players gs) + 1]")
  let ?n = "length (gs_players gs)"
  case None
  have "\<not> CanAct (gs_players gs ! j)" if j: "j < ?n" for j
  proof -
    define i where "i = (if k mod ?n < j then j - k mod ?n else j + ?n - k mod ?n)"
    have lt: "k mod ?n < ?n" using j by (intro mod_less_divisor) linarith
    then have i: "1 \<le> i" "i \<le> ?n" using j by (auto simp: i_def)
    have "(k + i) mod ?n = (k mod ?n + i) mod ?n" by (simp add: mod_simps)
    also have "\<dots> = j" using j lt by (auto simp: i_def)
    finally show ?thesis
      using None i by (auto simp: find_None_iff)
  qed
  then show ?thesis
    using None by (intro none) (auto simp: nextActiveIndex_def in_set_conv_nth Let_def)
next
  case (Some i)
  from Some obtain m where m: "m < length (gs_players gs)" "i = Suc m"
     "CanAct (gs_players gs ! ((k + i) mod length (gs_players gs)))"
     "\<forall>j<m. \<not> CanAct (gs_players gs ! ((k + Suc j) mod length (gs_players gs)))"
    by (auto simp: find_Some_iff simp del: upt_Suc)
  show ?thesis
  proof (rule seat [of i])
    show "\<forall>j. 1 \<le> j \<longrightarrow> j < i \<longrightarrow> \<not> CanAct (gs_players gs ! ((k + j) mod length (gs_players gs)))"
    proof (intro allI impI)
      fix j assume "1 \<le> j" "j < i"
      with m(2) obtain j' where "j = Suc j'" "j' < m" by (cases j) auto
      with m(4) show "\<not> CanAct (gs_players gs ! ((k + j) mod length (gs_players gs)))" by simp
    qed
  qed (use m Some in \<open>auto simp: nextActiveIndex_def Let_def\<close>)
qed

lemma nextActiveIndex_range:
  "nextActiveIndex k gs \<noteq> -1 \<Longrightarrow> 0 \<le> nextActiveIndex k gs
     \<and> nat (nextActiveIndex k gs) < length (gs_players gs)
     \<and> CanAct (gs_players gs ! nat (nextActiveIndex k gs))"
proof (rule nextActiveIndex_cases [of k gs])
  fix i
  assume "1 \<le> i" "i \<le> length (gs_players gs)"
    and "nextActiveIndex k gs = int ((k + i) mod length (gs_players gs))"
    and "CanAct (gs_players gs ! ((k + i) mod length (gs_players gs)))"
  moreover from this have "(k + i) mod length (gs_players gs) < length (gs_players gs)"
    by (intro mod_less_divisor) linarith
  ultimately show ?thesis by simp
qed simp

lemma nextActiveIndex_none:
  "nextActiveIndex k gs = -1 \<longleftrightarrow> (\<forall>p\<in>set (gs_players gs). \<not> CanAct p)"
proof (rule nextActiveIndex_cases [of k gs])
  fix i
  let ?j = "(k + i) mod length (gs_players gs)"
  assume i: "1 \<le> i" "i \<le> length (gs_players gs)" and idx: "nextActiveIndex k gs = int ?j"
    and act: "CanAct (gs_players gs ! ?j)"
  have "gs_players gs ! ?j \<in> set (gs_players gs)"
    using i by (intro nth_mem mod_less_divisor) linarith
  with act have "\<not> (\<forall>p\<in>set (gs_players gs). \<not> CanAct p)" by blast
  moreover have "nextActiveIndex k gs \<noteq> -1" using idx by linarith
  ultimately show ?thesis by blast
qed simp

fun index_of_id :: "string \<Rightarrow> string list \<Rightarrow> nat \<Rightarrow> int" where
  "index_of_id pid [] i = -1"
| "index_of_id pid (x # xs) i = (if x = pid then int i else index_of_id pid xs (i + 1))"

lemma seat_of_ids: "seat_of pid ps i = index_of_id pid (map p_id ps) i"
  by (induction ps arbitrary: i) simp_all

lemma SeatIndex_cong:
  "map p_id (gs_players gs) = map p_id (gs_players hs) \<Longrightarrow> SeatIndex pid gs = SeatIndex pid hs"
  by (simp only: SeatIndex_def seat_of_ids)

end
