(* ===== verification/Machine.thy ===== *)
theory Machine
  imports GameState
begin

text \<open>
  internal/game/machine.go: the betting state machine of one hand, with a local deck or in crypto
  mode. A method of \<open>*Machine\<close> that returns an error is a function on the game state into
  \<open>machine_error option \<times> game_state\<close>. The random source is a list of drawn indices.
  The lemmas about it are in the theories that import this one.
\<close>

datatype machine_error =
    NotWaiting Phase | TooFewPlayers | NoDeck | DeckError deck_error
  | PhaseNotAllowed Phase
  | WrongTurn
  | NilDereference
  | CannotCheck i64 | NothingToCall | RaiseBelowMinimum i64 i64 | InsufficientStack
  | UnknownAction
  | UnexpectedPhase Phase
  | HolesNotRevealed
  | BoardNotEmpty | NotCryptoMode | BoardComplete | UnexpectedBoard nat | WrongCardCount nat nat
  | NotADealtCard | DuplicateCard card
  | UnknownPlayer | NotRemaining | Equivocation

lemma andthen_cong [fundef_cong]:
  "r = r' \<Longrightarrow> (\<And>s. r' = (None, s) \<Longrightarrow> f s = g s) \<Longrightarrow> andthen r f = andthen r' g"
  by (cases r'; cases "fst r'") (simp_all add: andthen_def)

section \<open>Helpers of the machine\<close>

definition cryptoMode :: "game_state \<Rightarrow> bool" where
  "cryptoMode gs \<longleftrightarrow> gs_deck gs = None"

definition countCanAct :: "game_state \<Rightarrow> nat" where
  "countCanAct gs = length (filter CanAct (gs_players gs))"

definition not_out :: "player \<Rightarrow> bool" where
  "not_out p \<longleftrightarrow> p_status p \<noteq> StatusFolded \<and> p_status p \<noteq> StatusSittingOut"

definition onlyOneRemaining :: "game_state \<Rightarrow> bool" where
  "onlyOneRemaining gs \<longleftrightarrow> length (filter not_out (gs_players gs)) = 1"

definition bigBlindIndex :: "game_state \<Rightarrow> nat" where
  "bigBlindIndex gs =
     (let n = length (gs_players gs)
      in if n = 2 then (gs_dealerIdx gs + 1) mod n else (gs_dealerIdx gs + 2) mod n)"

definition bettingRoundComplete :: "nat \<Rightarrow> game_state \<Rightarrow> bool" where
  "bettingRoundComplete nextIdx gs =
     (let nxt = gs_players gs ! nextIdx
      in if p_currentBet nxt < gs_currentBet gs then False
         else if gs_roundActions gs > 0 \<and> int nextIdx = gs_lastRaiserIdx gs then True
         else gs_roundActions gs \<ge> countCanAct gs)"

definition holeCardsDealt :: "player \<Rightarrow> bool" where
  "holeCardsDealt p \<longleftrightarrow> dealt (fst (p_holes p)) \<and> dealt (snd (p_holes p))"

definition pendingStreetCount :: "nat \<Rightarrow> nat" where
  "pendingStreetCount nCommunity =
     (if nCommunity = 0 then 3 else if nCommunity = 3 \<or> nCommunity = 4 then 1 else 0)"

definition NeedsStreet :: "game_state \<Rightarrow> bool" where
  "NeedsStreet gs \<longleftrightarrow> gs_phase gs = PhaseAwaitingStreet"

definition PendingStreetCount :: "game_state \<Rightarrow> nat" where
  "PendingStreetCount gs =
     (if \<not> NeedsStreet gs then 0 else pendingStreetCount (length (gs_community gs)))"

definition MissingRevealIDs :: "game_state \<Rightarrow> string list" where
  "MissingRevealIDs gs =
     map p_id (filter (\<lambda>p. in_hand p \<and> \<not> holeCardsDealt p) (gs_players gs))"

definition remainingHolesIncomplete :: "game_state \<Rightarrow> bool" where
  "remainingHolesIncomplete gs \<longleftrightarrow> length (MissingRevealIDs gs) > 0"

definition NeedsReveal :: "game_state \<Rightarrow> bool" where
  "NeedsReveal gs \<longleftrightarrow> gs_phase gs = PhaseShowdown \<and> remainingHolesIncomplete gs"

text \<open>The set of dealt cards on the board and in all hands, folded ones included.\<close>

definition knownDealtCards :: "game_state \<Rightarrow> card set" where
  "knownDealtCards gs = {c \<in> set (gs_community gs). dealt c}
     \<union> (\<Union>p\<in>set (gs_players gs). {c \<in> {fst (p_holes p), snd (p_holes p)}. dealt c})"

section \<open>Paying out\<close>

text \<open>\<open>p.Stack += n; gs.Payouts[p.ID] += n\<close>\<close>

definition pay :: "i64 \<Rightarrow> nat \<Rightarrow> game_state \<Rightarrow> game_state" where
  "pay n i gs =
     (let pid = p_id (gs_players gs ! i);
          gs = upd_seat i (\<lambda>p. p\<lparr>p_stack := w64 (p_stack p + n)\<rparr>) gs;
          old = (case gs_payouts gs pid of Some v \<Rightarrow> v | None \<Rightarrow> 0)
      in gs\<lparr>gs_payouts := (gs_payouts gs)(pid \<mapsto> w64 (old + n))\<rparr>)"

definition resolveSingleWinner :: "game_state \<Rightarrow> (machine_error, game_state) outcome" where
  "resolveSingleWinner gs =
     (let gs = gs\<lparr>gs_pots := CalculatePots (gs_players gs)\<rparr>;
          total = TotalPot (gs_pots gs);
          gs = (case find (\<lambda>i. not_out (gs_players gs ! i)) [0..<length (gs_players gs)] of
                  Some i \<Rightarrow> pay total i gs | None \<Rightarrow> gs)
      in (None, gs\<lparr>gs_phase := PhaseSettled\<rparr>))"

definition seven_cards :: "player \<Rightarrow> card list \<Rightarrow> card list" where
  "seven_cards p comm =
     fst (p_holes p) # snd (p_holes p) # take 5 (comm @ replicate 5 zero_card)"

definition pot_candidates :: "PotSlice \<Rightarrow> card list \<Rightarrow> game_state \<Rightarrow> (nat \<times> EvaluatedHand) list" where
  "pot_candidates pot comm gs =
     concat (map (\<lambda>pid.
       let idx = SeatIndex pid gs
       in if idx = -1 then []
          else let p = gs_players gs ! nat idx
               in if p_status p = StatusFolded then []
                  else [(nat idx, EvaluateBest7 (seven_cards p comm))]) (pot_eligible pot))"

definition potWinners :: "PotSlice \<Rightarrow> card list \<Rightarrow> game_state \<Rightarrow> nat list" where
  "potWinners pot comm gs =
     (case pot_candidates pot comm gs of [] \<Rightarrow> []
      | e # es \<Rightarrow>
          let best = fold (\<lambda>e best. if Compare (snd e) best > 0 then snd e else best) es (snd e)
          in map fst (filter (\<lambda>e. Compare (snd e) best = 0) (e # es)))"

definition closestLeftOfDealer :: "nat list \<Rightarrow> game_state \<Rightarrow> nat" where
  "closestLeftOfDealer winners gs =
     (let n = length (gs_players gs);
          winSet = map_of (rev (map (\<lambda>w. (p_id (gs_players gs ! w), w)) winners));
          seat = (\<lambda>i. winSet (p_id (gs_players gs ! ((gs_dealerIdx gs + i) mod n))))
      in case find (\<lambda>i. seat i \<noteq> None) [1..<n + 1] of
           Some i \<Rightarrow> the (seat i) | None \<Rightarrow> hd winners)"

definition distribute_pot :: "card list \<Rightarrow> PotSlice \<Rightarrow> game_state \<Rightarrow> game_state" where
  "distribute_pot comm pot gs =
     (let winners = potWinners pot comm gs
      in if winners = [] then gs
         else let share = go_quo (pot_amount pot) (int (length winners));
                  remainder = go_rem (pot_amount pot) (int (length winners));
                  gs = fold (pay share) winners gs
              in if remainder > 0 then pay remainder (closestLeftOfDealer winners gs) gs else gs)"

definition distributePots :: "game_state \<Rightarrow> (machine_error, game_state) outcome" where
  "distributePots gs =
     (if cryptoMode gs \<and> remainingHolesIncomplete gs then (Some HolesNotRevealed, gs)
      else let gs' = fold (distribute_pot (gs_community gs)) (gs_pots gs) gs
           in (None, gs'\<lparr>gs_phase := PhaseSettled\<rparr>))"

definition startShowdown :: "game_state \<Rightarrow> (machine_error, game_state) outcome" where
  "startShowdown gs =
     (let gs = gs\<lparr>gs_phase := PhaseShowdown, gs_pots := CalculatePots (gs_players gs)\<rparr>
      in if cryptoMode gs \<and> remainingHolesIncomplete gs then (None, gs)
         else distributePots gs)"

section \<open>Dealing\<close>

definition burn :: "game_state \<Rightarrow> (machine_error, game_state) outcome" where
  "burn gs = (case Deal (gs_deck gs) of
     (Inl e, d) \<Rightarrow> (Some (DeckError e), gs\<lparr>gs_deck := d\<rparr>)
   | (Inr c, d) \<Rightarrow> (None, gs\<lparr>gs_deck := d\<rparr>))"

definition deal_board :: "game_state \<Rightarrow> (machine_error, game_state) outcome" where
  "deal_board gs = (case Deal (gs_deck gs) of
     (Inl e, d) \<Rightarrow> (Some (DeckError e), gs\<lparr>gs_deck := d\<rparr>)
   | (Inr c, d) \<Rightarrow> (None, gs\<lparr>gs_deck := d, gs_community := gs_community gs @ [c]\<rparr>))"

definition deal_hole :: "bool \<Rightarrow> nat \<Rightarrow> game_state \<Rightarrow> (machine_error, game_state) outcome" where
  "deal_hole first idx gs = (case Deal (gs_deck gs) of
     (Inl e, d) \<Rightarrow> (Some (DeckError e), gs\<lparr>gs_deck := d\<rparr>)
   | (Inr c, d) \<Rightarrow> (None, upd_seat idx
        (\<lambda>p. p\<lparr>p_holes := (if first then (c, snd (p_holes p)) else (fst (p_holes p), c))\<rparr>)
        (gs\<lparr>gs_deck := d\<rparr>)))"

definition dealHoleCards :: "game_state \<Rightarrow> (machine_error, game_state) outcome" where
  "dealHoleCards gs =
     (let n = length (gs_players gs);
          start = (gs_dealerIdx gs + 1) mod n;
          seats = map (\<lambda>i. (start + i) mod n) [0..<n]
      in fold (\<lambda>(first, idx) r. andthen r (deal_hole first idx))
           (map (Pair True) seats @ map (Pair False) seats) (None, gs))"

definition postBlinds :: "game_state \<Rightarrow> (machine_error, game_state) outcome" where
  "postBlinds gs =
     (let n = length (gs_players gs);
          sbIdx = (if n = 2 then gs_dealerIdx gs else (gs_dealerIdx gs + 1) mod n);
          bbIdx = (if n = 2 then (gs_dealerIdx gs + 1) mod n else (gs_dealerIdx gs + 2) mod n);
          (sbAmount, sb) = PlaceBet (gs_smallBlind gs) (gs_players gs ! sbIdx);
          gs = upd_seat sbIdx (\<lambda>_. sb) gs;
          (bbAmount, bb) = PlaceBet (gs_bigBlind gs) (gs_players gs ! bbIdx);
          gs = upd_seat bbIdx (\<lambda>_. bb) gs
      in (None, gs\<lparr>gs_currentBet := (if sbAmount > bbAmount then sbAmount else bbAmount),
                  gs_log := gs_log gs @ [mk_action (p_id sb) ActionRaise sbAmount,
                                         mk_action (p_id bb) ActionRaise bbAmount]\<rparr>))"

section \<open>Betting rounds and streets\<close>

definition begin_round :: "game_state \<Rightarrow> game_state" where
  "begin_round gs = gs\<lparr>gs_currentBet := 0, gs_minRaise := gs_bigBlind gs, gs_roundActions := 0,
     gs_lastRaiserIdx := -1,
     gs_players := map (\<lambda>p. if in_hand p then ResetForNewRound p else p) (gs_players gs)\<rparr>"

lemma begin_round_phase [simp]: "gs_phase (begin_round gs) = gs_phase gs"
  by (simp add: begin_round_def)

text \<open>Streets still to come; the mutual recursion below ends because each call lowers it.\<close>

fun streets_left :: "Phase \<Rightarrow> nat" where
  "streets_left PhasePreFlop = 4"
| "streets_left PhaseFlop = 3"
| "streets_left PhaseTurn = 2"
| "streets_left PhaseRiver = 1"
| "streets_left _ = 0"

function endBettingRound :: "game_state \<Rightarrow> (machine_error, game_state) outcome"
  and dealFlop :: "game_state \<Rightarrow> (machine_error, game_state) outcome"
  and dealTurn :: "game_state \<Rightarrow> (machine_error, game_state) outcome"
  and dealRiver :: "game_state \<Rightarrow> (machine_error, game_state) outcome"
  and startNewBettingRound :: "game_state \<Rightarrow> (machine_error, game_state) outcome" where
  "endBettingRound gs0 =
     (let gs = gs0\<lparr>gs_pots := CalculatePots (gs_players gs0)\<rparr>
      in if cryptoMode gs then
           (case gs_phase gs0 of
              PhasePreFlop \<Rightarrow> (None, gs\<lparr>gs_phase := PhaseAwaitingStreet\<rparr>)
            | PhaseFlop \<Rightarrow> (None, gs\<lparr>gs_phase := PhaseAwaitingStreet\<rparr>)
            | PhaseTurn \<Rightarrow> (None, gs\<lparr>gs_phase := PhaseAwaitingStreet\<rparr>)
            | PhaseRiver \<Rightarrow> startShowdown gs
            | ph \<Rightarrow> (Some (UnexpectedPhase ph), gs))
         else
           (case gs_phase gs0 of
              PhasePreFlop \<Rightarrow> dealFlop gs
            | PhaseFlop \<Rightarrow> dealTurn gs
            | PhaseTurn \<Rightarrow> dealRiver gs
            | PhaseRiver \<Rightarrow> startShowdown gs
            | _ \<Rightarrow> (None, gs)))"
| "dealFlop gs =
     (if gs_deck gs = None then (Some NoDeck, gs)
      else andthen (burn gs) (\<lambda>gs. andthen (deal_board gs) (\<lambda>gs. andthen (deal_board gs) (\<lambda>gs.
           andthen (deal_board gs) (\<lambda>gs. startNewBettingRound (gs\<lparr>gs_phase := PhaseFlop\<rparr>))))))"
| "dealTurn gs =
     (if gs_deck gs = None then (Some NoDeck, gs)
      else andthen (burn gs) (\<lambda>gs. andthen (deal_board gs)
           (\<lambda>gs. startNewBettingRound (gs\<lparr>gs_phase := PhaseTurn\<rparr>))))"
| "dealRiver gs =
     (if gs_deck gs = None then (Some NoDeck, gs)
      else andthen (burn gs) (\<lambda>gs. andthen (deal_board gs)
           (\<lambda>gs. startNewBettingRound (gs\<lparr>gs_phase := PhaseRiver\<rparr>))))"
| "startNewBettingRound gs0 =
     (let gs = begin_round gs0; first = nextActiveIndex (gs_dealerIdx gs) gs
      in if first = -1 then (if cryptoMode gs then endBettingRound gs else startShowdown gs)
         else let gs = gs\<lparr>gs_actionIdx := first\<rparr>
              in if countCanAct gs \<le> 1 then endBettingRound gs else (None, gs))"
  by pat_completeness auto
termination
  by (relation "measure (\<lambda>x. case x of
        Inl (Inl gs) \<Rightarrow> 3 * streets_left (gs_phase gs)
      | Inl (Inr gs) \<Rightarrow> 11
      | Inr (Inl gs) \<Rightarrow> 8
      | Inr (Inr (Inl gs)) \<Rightarrow> 5
      | Inr (Inr (Inr gs)) \<Rightarrow> 3 * streets_left (gs_phase gs) + 1)") auto

declare endBettingRound.simps [simp del] dealFlop.simps [simp del] dealTurn.simps [simp del]
  dealRiver.simps [simp del] startNewBettingRound.simps [simp del]

section \<open>Actions\<close>

definition advanceAction :: "game_state \<Rightarrow> (machine_error, game_state) outcome" where
  "advanceAction gs =
     (let nextIdx = nextActiveIndex (nat (gs_actionIdx gs)) gs
      in if nextIdx = -1 \<or> \<not> CanAct (gs_players gs ! nat nextIdx) then endBettingRound gs
         else if bettingRoundComplete (nat nextIdx) gs then endBettingRound gs
         else (None, gs\<lparr>gs_actionIdx := nextIdx\<rparr>))"

text \<open>The \<open>switch\<close> on the action type, for the player at seat \<open>i\<close>.\<close>

definition act :: "Action \<Rightarrow> nat \<Rightarrow> player \<Rightarrow> game_state \<Rightarrow> (machine_error, game_state) outcome" where
  "act a i current gs =
     (case a_type a of
        ActionFold \<Rightarrow> (None, upd_seat i (\<lambda>p. p\<lparr>p_status := StatusFolded\<rparr>) gs)
      | ActionCheck \<Rightarrow>
          (let toCall = w64 (gs_currentBet gs - p_currentBet current)
           in if toCall \<noteq> 0 then (Some (CannotCheck toCall), gs) else (None, gs))
      | ActionCall \<Rightarrow>
          (let toCall = w64 (gs_currentBet gs - p_currentBet current)
           in if toCall \<le> 0 then (Some NothingToCall, gs)
              else (None, upd_seat i (\<lambda>p. snd (PlaceBet toCall p)) gs))
      | ActionRaise \<Rightarrow>
          (let toCall = w64 (gs_currentBet gs - p_currentBet current);
               totalNeeded = w64 (toCall + a_amount a)
           in if a_amount a < gs_minRaise gs
              then (Some (RaiseBelowMinimum (a_amount a) (gs_minRaise gs)), gs)
              else if totalNeeded > w64 (p_stack current + p_currentBet current)
              then (Some InsufficientStack, gs)
              else let gs = gs\<lparr>gs_minRaise := a_amount a,
                               gs_currentBet := w64 (gs_currentBet gs + a_amount a)\<rparr>;
                       gs = upd_seat i (\<lambda>p. snd (PlaceBet totalNeeded p)) gs
                   in (None, gs\<lparr>gs_lastRaiserIdx := gs_actionIdx gs\<rparr>))
      | ActionAllIn \<Rightarrow>
          (let allin = p_stack current;
               total = w64 (p_currentBet current + allin);
               gs = (if total > w64 (gs_currentBet gs + allin)
                     then let rse = w64 (total - gs_currentBet gs);
                              gs' = (if rse > gs_minRaise gs then gs\<lparr>gs_minRaise := rse\<rparr> else gs)
                          in gs'\<lparr>gs_currentBet := total, gs_lastRaiserIdx := gs_actionIdx gs\<rparr>
                     else gs)
           in (None, upd_seat i (\<lambda>p. snd (PlaceBet allin p)) gs))
      | ActionUnknown _ \<Rightarrow> (Some UnknownAction, gs))"

definition betting_phase :: "Phase \<Rightarrow> bool" where
  "betting_phase ph \<longleftrightarrow> \<not> (ph = PhaseShowdown \<or> ph = PhaseSettled \<or> ph = PhaseWaiting
     \<or> ph = PhaseAwaitingStreet)"

definition after_action :: "Action \<Rightarrow> game_state \<Rightarrow> (machine_error, game_state) outcome" where
  "after_action a gs0 =
     (let gs = gs0\<lparr>gs_log := gs_log gs0 @ [a], gs_roundActions := gs_roundActions gs0 + 1\<rparr>
      in if onlyOneRemaining gs then resolveSingleWinner gs else advanceAction gs)"

text \<open>With no current player, building the error message dereferences the nil pointer.\<close>

definition ApplyAction :: "Action \<Rightarrow> game_state \<Rightarrow> (machine_error, game_state) outcome" where
  "ApplyAction a gs =
     (if \<not> betting_phase (gs_phase gs) then (Some (PhaseNotAllowed (gs_phase gs)), gs)
      else case CurrentPlayer gs of
             None \<Rightarrow> (Some NilDereference, gs)
           | Some current \<Rightarrow>
               if p_id current \<noteq> a_player a then (Some WrongTurn, gs)
               else andthen (act a (nat (gs_actionIdx gs)) current gs) (after_action a))"

section \<open>Starting a hand\<close>

definition open_preflop :: "game_state \<Rightarrow> game_state" where
  "open_preflop gs =
     (let bbIdx = bigBlindIndex gs
      in gs\<lparr>gs_actionIdx := nextActiveIndex bbIdx gs, gs_lastRaiserIdx := int bbIdx,
            gs_roundActions := 0, gs_phase := PhasePreFlop\<rparr>)"

definition StartHand :: "nat list \<Rightarrow> game_state \<Rightarrow> (machine_error, game_state) outcome" where
  "StartHand draws gs =
     (if gs_phase gs \<noteq> PhaseWaiting then (Some (NotWaiting (gs_phase gs)), gs)
      else if length (gs_players gs) < 2 then (Some TooFewPlayers, gs)
      else case gs_deck gs of None \<Rightarrow> (Some NoDeck, gs)
         | Some d \<Rightarrow>
             andthen (postBlinds (gs\<lparr>gs_deck := Some (Shuffle draws d)\<rparr>))
               (\<lambda>gs. andthen (dealHoleCards gs) (\<lambda>gs. (None, open_preflop gs))))"

definition StartHandCrypto :: "game_state \<Rightarrow> (machine_error, game_state) outcome" where
  "StartHandCrypto gs =
     (if gs_phase gs \<noteq> PhaseWaiting then (Some (NotWaiting (gs_phase gs)), gs)
      else if length (gs_players gs) < 2 then (Some TooFewPlayers, gs)
      else if length (gs_community gs) \<noteq> 0 then (Some BoardNotEmpty, gs)
      else andthen (postBlinds (gs\<lparr>gs_deck := None\<rparr>)) (\<lambda>gs. (None, open_preflop gs)))"

section \<open>Cards from outside, in crypto mode\<close>

fun check_street :: "card set \<Rightarrow> card list \<Rightarrow> machine_error option" where
  "check_street seen [] = None"
| "check_street seen (c # cs) =
     (if \<not> dealt c then Some NotADealtCard
      else if c \<in> seen then Some (DuplicateCard c)
      else check_street (insert c seen) cs)"

definition ApplyStreet :: "card list \<Rightarrow> game_state \<Rightarrow> (machine_error, game_state) outcome" where
  "ApplyStreet cards gs =
     (if \<not> cryptoMode gs then (Some NotCryptoMode, gs)
      else if gs_phase gs \<noteq> PhaseAwaitingStreet then (Some (UnexpectedPhase (gs_phase gs)), gs)
      else let want = pendingStreetCount (length (gs_community gs))
           in if want = 0 then
                (if length (gs_community gs) \<ge> 5 then (Some BoardComplete, gs)
                 else (Some (UnexpectedBoard (length (gs_community gs))), gs))
              else if length cards \<noteq> want then (Some (WrongCardCount want (length cards)), gs)
              else case check_street (knownDealtCards gs) cards of Some e \<Rightarrow> (Some e, gs)
                 | None \<Rightarrow>
                     let gs = gs\<lparr>gs_community := gs_community gs @ cards\<rparr>; k = length (gs_community gs)
                     in if k = 3 then startNewBettingRound (gs\<lparr>gs_phase := PhaseFlop\<rparr>)
                        else if k = 4 then startNewBettingRound (gs\<lparr>gs_phase := PhaseTurn\<rparr>)
                        else if k = 5 then startNewBettingRound (gs\<lparr>gs_phase := PhaseRiver\<rparr>)
                        else (Some (UnexpectedBoard k), gs))"

definition ApplyHoleReveal :: "string \<Rightarrow> card \<times> card \<Rightarrow> game_state \<Rightarrow> (machine_error, game_state) outcome" where
  "ApplyHoleReveal pid cards gs =
     (if \<not> cryptoMode gs then (Some NotCryptoMode, gs)
      else if gs_phase gs \<noteq> PhaseShowdown then (Some (UnexpectedPhase (gs_phase gs)), gs)
      else let idx = SeatIndex pid gs
           in if idx = -1 then (Some UnknownPlayer, gs)
              else let p = gs_players gs ! nat idx
                   in if \<not> in_hand p then (Some NotRemaining, gs)
                      else if \<not> dealt (fst cards) \<or> \<not> dealt (snd cards) then (Some NotADealtCard, gs)
                      else if fst cards = snd cards then (Some (DuplicateCard (fst cards)), gs)
                      else if holeCardsDealt p then
                        (if fst (p_holes p) = fst cards \<and> snd (p_holes p) = snd cards
                         then (if \<not> remainingHolesIncomplete gs then distributePots gs else (None, gs))
                         else (Some Equivocation, gs))
                      else if fst cards \<in> knownDealtCards gs then (Some (DuplicateCard (fst cards)), gs)
                      else if snd cards \<in> knownDealtCards gs then (Some (DuplicateCard (snd cards)), gs)
                      else let gs = upd_seat (nat idx) (\<lambda>p. p\<lparr>p_holes := cards\<rparr>) gs
                           in if \<not> remainingHolesIncomplete gs then distributePots gs else (None, gs))"

end
