(* ===== verification/MachineChips.thy ===== *)
theory MachineChips
  imports Machine
begin

text \<open>
  What the machine does to the chips. A round that ends either leaves every stack alone or
  goes through one showdown (\<open>quiet\<close>, \<open>round_end_cases\<close>); a pot that has a winner is paid out to
  the last chip (\<open>distribute_pot_paid\<close>); the invariant \<open>chips_inv\<close> keeps every amount inside
  \<open>int64\<close>. Chips are never created, and are lost exactly when a pot has no winner.
\<close>

section \<open>Ending a round leaves the money alone until a showdown\<close>

definition same_money :: "player \<Rightarrow> player \<Rightarrow> bool" where
  "same_money p q \<longleftrightarrow> p_id q = p_id p \<and> p_stack q = p_stack p \<and> p_status q = p_status p
     \<and> p_totalBet q = p_totalBet p \<and> p_holes q = p_holes p"

definition same_round :: "game_state \<Rightarrow> game_state \<Rightarrow> bool" where
  "same_round gs h \<longleftrightarrow> gs_currentBet h = gs_currentBet gs \<and> gs_minRaise h = gs_minRaise gs
     \<and> map p_currentBet (gs_players h) = map p_currentBet (gs_players gs)"

definition fresh_round :: "game_state \<Rightarrow> game_state \<Rightarrow> bool" where
  "fresh_round gs h \<longleftrightarrow> gs_currentBet h = 0 \<and> gs_minRaise h = gs_bigBlind gs
     \<and> map p_currentBet (gs_players h)
         = map (\<lambda>p. if in_hand p then 0 else p_currentBet p) (gs_players gs)"

definition quiet :: "game_state \<Rightarrow> game_state \<Rightarrow> bool" where
  "quiet gs h \<longleftrightarrow> list_all2 same_money (gs_players gs) (gs_players h)
     \<and> gs_bigBlind h = gs_bigBlind gs \<and> gs_smallBlind h = gs_smallBlind gs
     \<and> gs_dealerIdx h = gs_dealerIdx gs \<and> gs_payouts h = gs_payouts gs
     \<and> (same_round gs h \<or> fresh_round gs h)"

lemma same_money_refl [simp]: "same_money p p"
  by (simp add: same_money_def)

lemma quiet_refl [simp]: "quiet gs gs"
  by (simp add: quiet_def same_round_def list.rel_refl)

lemma quiet_upd:
  "quiet gs h \<Longrightarrow> gs_players h' = gs_players h \<Longrightarrow> gs_bigBlind h' = gs_bigBlind h
    \<Longrightarrow> gs_smallBlind h' = gs_smallBlind h \<Longrightarrow> gs_dealerIdx h' = gs_dealerIdx h
    \<Longrightarrow> gs_payouts h' = gs_payouts h \<Longrightarrow> gs_currentBet h' = gs_currentBet h
    \<Longrightarrow> gs_minRaise h' = gs_minRaise h \<Longrightarrow> quiet gs h'"
  by (simp add: quiet_def same_round_def fresh_round_def)

lemma quiet_trans:
  assumes "quiet a b" and "quiet b c"
  shows "quiet a c"
proof -
  have sm: "list_all2 same_money (gs_players a) (gs_players c)"
    by (rule list_all2_trans [of same_money same_money same_money "gs_players a" "gs_players b"])
      (use assms in \<open>auto simp: quiet_def same_money_def\<close>)
  let ?f = "\<lambda>p. if in_hand p then 0 else p_currentBet p"
  have ih: "map in_hand (gs_players a) = map in_hand (gs_players b)"
    using assms(1) by (auto simp: quiet_def list_all2_conv_all_nth same_money_def in_hand_def list_eq_iff_nth_eq)
  have ss: "map ?f (gs_players b) = map ?f (gs_players a)"
    if "map p_currentBet (gs_players b) = map p_currentBet (gs_players a)
      \<or> map p_currentBet (gs_players b) = map ?f (gs_players a)"
    using that ih by (auto simp: list_eq_iff_nth_eq)
  have "gs_bigBlind b = gs_bigBlind a" "same_round a b \<or> fresh_round a b" "same_round b c \<or> fresh_round b c"
    using assms by (simp_all add: quiet_def)
  then have "same_round a c \<or> fresh_round a c"
    using ss by (elim disjE) (simp_all add: same_round_def fresh_round_def)
  with sm assms show ?thesis by (simp add: quiet_def)
qed

lemma quiet_begin_round: "quiet gs (begin_round gs)"
proof -
  have "fresh_round gs (begin_round gs)"
    by (simp add: begin_round_def fresh_round_def ResetForNewRound_def)
  moreover have "list_all2 same_money (gs_players gs) (gs_players (begin_round gs))"
    by (simp add: begin_round_def list_all2_conv_all_nth same_money_def ResetForNewRound_def)
  ultimately show ?thesis
    unfolding quiet_def by (simp add: begin_round_def)
qed

lemma burn_quiet [simp]: "quiet gs (snd (burn gs))"
  by (auto simp: burn_def quiet_upd [OF quiet_refl] split: prod.splits sum.splits)

lemma deal_board_quiet [simp]: "quiet gs (snd (deal_board gs))"
  by (auto simp: deal_board_def quiet_upd [OF quiet_refl] split: prod.splits sum.splits)

text \<open>The state a showdown starts from, and the two ways a round can end.\<close>

definition at_showdown :: "game_state \<Rightarrow> game_state \<Rightarrow> bool" where
  "at_showdown gs h \<longleftrightarrow> quiet gs h \<and> gs_phase h = PhaseShowdown
     \<and> gs_pots h = CalculatePots (gs_players h)"

text \<open>While betting is open the player to act can act, or nobody is to act.\<close>

definition turn_ok :: "game_state \<Rightarrow> bool" where
  "turn_ok gs \<longleftrightarrow> betting_phase (gs_phase gs) \<longrightarrow> gs_actionIdx gs = -1
     \<or> (0 \<le> gs_actionIdx gs \<and> nat (gs_actionIdx gs) < length (gs_players gs)
        \<and> CanAct (gs_players gs ! nat (gs_actionIdx gs)))"

lemma turn_ok_phase [simp]: "\<not> betting_phase (gs_phase gs) \<Longrightarrow> turn_ok gs"
  by (simp add: turn_ok_def)

lemma betting_phase_simps [simp]:
  "\<not> betting_phase PhaseShowdown" "\<not> betting_phase PhaseSettled" "\<not> betting_phase PhaseWaiting"
  "\<not> betting_phase PhaseAwaitingStreet" "betting_phase PhasePreFlop" "betting_phase PhaseFlop"
  "betting_phase PhaseTurn" "betting_phase PhaseRiver"
  by (simp_all add: betting_phase_def)

lemma turn_ok_next:
  "nextActiveIndex k gs \<noteq> -1 \<Longrightarrow> turn_ok (gs\<lparr>gs_actionIdx := nextActiveIndex k gs\<rparr>)"
  using nextActiveIndex_range [of k gs] by (simp add: turn_ok_def)

definition live :: "Phase \<Rightarrow> bool" where
  "live ph \<longleftrightarrow> ph \<noteq> PhaseSettled \<and> ph \<noteq> PhaseShowdown"

lemma live_simps [simp]:
  "\<not> live PhaseSettled" "\<not> live PhaseShowdown" "live PhaseWaiting" "live PhaseAwaitingStreet"
  "live PhasePreFlop" "live PhaseFlop" "live PhaseTurn" "live PhaseRiver"
  by (simp_all add: live_def)

lemma liveD: "live ph \<Longrightarrow> ph \<noteq> PhaseSettled \<and> ph \<noteq> PhaseShowdown"
  by (simp add: live_def)

definition round_end :: "game_state \<Rightarrow> (machine_error, game_state) outcome \<Rightarrow> bool" where
  "round_end gs r \<longleftrightarrow> (quiet gs (snd r) \<and> gs_phase (snd r) \<noteq> PhaseSettled
       \<and> (gs_phase (snd r) = PhaseShowdown \<longrightarrow> gs_pots (snd r) = CalculatePots (gs_players (snd r)))
       \<and> (fst r = None \<longrightarrow> turn_ok (snd r)))
     \<or> (\<exists>h. at_showdown gs h \<and> \<not> (cryptoMode h \<and> remainingHolesIncomplete h) \<and> r = distributePots h)"

lemma round_end_quiet:
  "quiet gs h \<Longrightarrow> round_end h r \<Longrightarrow> round_end gs r"
  unfolding round_end_def at_showdown_def using quiet_trans by blast

lemma round_end_startShowdown: "round_end gs (startShowdown gs)"
proof -
  let ?h = "gs\<lparr>gs_phase := PhaseShowdown, gs_pots := CalculatePots (gs_players gs)\<rparr>"
  have "quiet gs ?h" by (rule quiet_upd [OF quiet_refl]) simp_all
  then show ?thesis
    by (auto simp: startShowdown_def Let_def round_end_def at_showdown_def)
qed

text \<open>A step that only deals, followed by anything that ends the round.\<close>

lemma round_end_andthen:
  assumes "live (gs_phase gs)" and "quiet gs (snd r)" and "gs_phase (snd r) = gs_phase gs"
    and "\<And>h. r = (None, h) \<Longrightarrow> round_end h (f h)"
  shows "round_end gs (andthen r f)"
proof (cases r)
  case (Pair e h)
  show ?thesis
  proof (cases e)
    case None
    with assms Pair show ?thesis by (auto intro: round_end_quiet)
  next
    case (Some x)
    with assms Pair show ?thesis by (auto simp: round_end_def dest: liveD)
  qed
qed

lemma burn_phase [simp]: "gs_phase (snd (burn gs)) = gs_phase gs"
  by (auto simp: burn_def split: prod.splits sum.splits)

lemma deal_board_phase [simp]: "gs_phase (snd (deal_board gs)) = gs_phase gs"
  by (auto simp: deal_board_def split: prod.splits sum.splits)

lemma round_end_deal:
  assumes "live (gs_phase gs)"
    and "\<And>h. r = (None, h) \<Longrightarrow> live (gs_phase h) \<Longrightarrow> round_end h (f h)"
    and "r = burn gs \<or> r = deal_board gs"
  shows "round_end gs (andthen r f)"
proof (rule round_end_andthen)
  fix h
  assume r: "r = (None, h)"
  then have "live (gs_phase h)"
    using assms(1,3) burn_phase [of gs] deal_board_phase [of gs] by (metis snd_conv)
  with r assms(2) show "round_end h (f h)" by blast
qed (use assms in auto)

lemma round_end_enter:
  "live ph \<Longrightarrow> round_end (h\<lparr>gs_phase := ph\<rparr>) r \<Longrightarrow> round_end h r"
  by (rule round_end_quiet [OF quiet_upd [OF quiet_refl]]) simp_all

lemma round_end_all:
  "live (gs_phase gs1) \<Longrightarrow> round_end gs1 (endBettingRound gs1)"
  "live (gs_phase gs2) \<Longrightarrow> round_end gs2 (dealFlop gs2)"
  "live (gs_phase gs3) \<Longrightarrow> round_end gs3 (dealTurn gs3)"
  "live (gs_phase gs4) \<Longrightarrow> round_end gs4 (dealRiver gs4)"
  "live (gs_phase gs5) \<Longrightarrow> round_end gs5 (startNewBettingRound gs5)"
proof (induction gs1 and gs2 and gs3 and gs4 and gs5
    rule: endBettingRound_dealFlop_dealTurn_dealRiver_startNewBettingRound.induct)
  case (1 gs0)
  let ?gs = "gs0\<lparr>gs_pots := CalculatePots (gs_players gs0)\<rparr>"
  have q: "quiet gs0 ?gs" by (rule quiet_upd [OF quiet_refl]) simp_all
  have ps: "quiet gs0 (?gs\<lparr>gs_phase := PhaseAwaitingStreet\<rparr>)"
    by (rule quiet_upd [OF quiet_refl]) simp_all
  have ns: "live (gs_phase ?gs)" using 1 by simp
  note sub = round_end_quiet [OF q]
  show ?case
  proof (cases "cryptoMode ?gs")
    case True
    then show ?thesis
      using sub [OF round_end_startShowdown] q ps 1(4)
      unfolding endBettingRound.simps [of gs0] Let_def
      by (cases "gs_phase gs0") (auto simp: round_end_def)
  next
    case False
    then show ?thesis
      using sub [OF round_end_startShowdown] q ps 1(1-3) [OF refl False, THEN sub] 1(4) ns
      unfolding endBettingRound.simps [of gs0] Let_def
      by (cases "gs_phase gs0") (auto simp: round_end_def)
  qed
next
  case (2 gs)
  show ?case
  proof (cases "gs_deck gs = None")
    case True
    with 2 show ?thesis by (simp add: dealFlop.simps [of gs] round_end_def live_def)
  next
    case False
    show ?thesis
      unfolding dealFlop.simps [of gs] if_not_P [OF False]
      by (rule round_end_deal, simp add: 2(2), rule round_end_deal, assumption, rule round_end_deal, assumption, rule round_end_deal, assumption,
          rule round_end_enter [of PhaseFlop], simp, rule 2(1) [OF False], assumption+, simp_all)
  qed
next
  case (3 gs)
  show ?case
  proof (cases "gs_deck gs = None")
    case True
    with 3 show ?thesis by (simp add: dealTurn.simps [of gs] round_end_def live_def)
  next
    case False
    show ?thesis
      unfolding dealTurn.simps [of gs] if_not_P [OF False]
      by (rule round_end_deal, simp add: 3(2), rule round_end_deal, assumption,
          rule round_end_enter [of PhaseTurn], simp, rule 3(1) [OF False], assumption+, simp_all)
  qed
next
  case (4 gs)
  show ?case
  proof (cases "gs_deck gs = None")
    case True
    with 4 show ?thesis by (simp add: dealRiver.simps [of gs] round_end_def live_def)
  next
    case False
    show ?thesis
      unfolding dealRiver.simps [of gs] if_not_P [OF False]
      by (rule round_end_deal, simp add: 4(2), rule round_end_deal, assumption,
          rule round_end_enter [of PhaseRiver], simp, rule 4(1) [OF False], assumption+, simp_all)
  qed
next
  case (5 gs0)
  let ?gs = "begin_round gs0"
  let ?hs = "?gs\<lparr>gs_actionIdx := nextActiveIndex (gs_dealerIdx ?gs) ?gs\<rparr>"
  have q: "quiet gs0 ?gs" "quiet gs0 ?hs"
    using quiet_begin_round [of gs0] by (auto intro: quiet_upd)
  have ns: "live (gs_phase ?gs)" "live (gs_phase ?hs)" using 5 by simp_all
  show ?case
    unfolding startNewBettingRound.simps [of gs0] Let_def
    using 5 q ns turn_ok_next [of "gs_dealerIdx ?gs" ?gs] round_end_quiet [OF q(1)] round_end_quiet [OF q(2)]
      round_end_startShowdown [of ?gs]
    by (auto simp: round_end_def Let_def)
qed

section \<open>The invariant of the amounts\<close>

definition stacks :: "game_state \<Rightarrow> int" where
  "stacks gs = (\<Sum>p\<leftarrow>gs_players gs. p_stack p)"

definition bets :: "game_state \<Rightarrow> int" where
  "bets gs = (\<Sum>p\<leftarrow>gs_players gs. p_totalBet p)"

text \<open>All chips at the table: after the hand is settled the bets have been paid out.\<close>

definition table_chips :: "game_state \<Rightarrow> int" where
  "table_chips gs = stacks gs + (if gs_phase gs = PhaseSettled then 0 else bets gs)"

definition chips_inv :: "game_state \<Rightarrow> bool" where
  "chips_inv gs \<longleftrightarrow> (\<forall>p\<in>set (gs_players gs). player_ok p)
     \<and> stacks gs + bets gs < 2 ^ 59
     \<and> 0 \<le> gs_currentBet gs \<and> gs_currentBet gs \<le> 2 ^ 60
     \<and> (\<forall>p\<in>set (gs_players gs). CanAct p \<longrightarrow> p_currentBet p \<le> gs_currentBet gs)
     \<and> 0 \<le> gs_minRaise gs \<and> 0 \<le> gs_bigBlind gs"

lemma table_chips_open: "gs_phase gs \<noteq> PhaseSettled \<Longrightarrow> table_chips gs = stacks gs + bets gs"
  by (simp add: table_chips_def)

lemma table_chips_settled: "gs_phase gs = PhaseSettled \<Longrightarrow> table_chips gs = stacks gs"
  by (simp add: table_chips_def)

lemma sum_list_update_int:
  fixes f :: "'a \<Rightarrow> int"
  shows "i < length xs \<Longrightarrow> (\<Sum>x\<leftarrow>xs[i := y]. f x) = (\<Sum>x\<leftarrow>xs. f x) - f (xs ! i) + f y"
proof (induction xs arbitrary: i)
  case (Cons x xs)
  then show ?case by (cases i) auto
qed simp

lemma stacks_upd_seat [chip_simps]:
  "i < length (gs_players gs) \<Longrightarrow>
    stacks (upd_seat i f gs) = stacks gs - p_stack (gs_players gs ! i) + p_stack (f (gs_players gs ! i))"
  by (simp add: stacks_def upd_seat_def sum_list_update_int)

lemma bets_upd_seat [chip_simps]:
  "i < length (gs_players gs) \<Longrightarrow>
    bets (upd_seat i f gs) = bets gs - p_totalBet (gs_players gs ! i) + p_totalBet (f (gs_players gs ! i))"
  by (simp add: bets_def upd_seat_def sum_list_update_int)

lemma upd_seat_sel [simp]:
  "length (gs_players (upd_seat i f gs)) = length (gs_players gs)"
  "gs_phase (upd_seat i f gs) = gs_phase gs" "gs_deck (upd_seat i f gs) = gs_deck gs"
  "gs_community (upd_seat i f gs) = gs_community gs" "gs_dealerIdx (upd_seat i f gs) = gs_dealerIdx gs"
  "gs_currentBet (upd_seat i f gs) = gs_currentBet gs" "gs_minRaise (upd_seat i f gs) = gs_minRaise gs"
  "gs_bigBlind (upd_seat i f gs) = gs_bigBlind gs" "gs_actionIdx (upd_seat i f gs) = gs_actionIdx gs"
  "gs_smallBlind (upd_seat i f gs) = gs_smallBlind gs"
  "gs_lastRaiserIdx (upd_seat i f gs) = gs_lastRaiserIdx gs" "gs_pots (upd_seat i f gs) = gs_pots gs"
  "gs_roundActions (upd_seat i f gs) = gs_roundActions gs" "gs_log (upd_seat i f gs) = gs_log gs"
  "gs_payouts (upd_seat i f gs) = gs_payouts gs"
  by (simp_all add: upd_seat_def)

lemma upd_seat_nth:
  "j < length (gs_players gs) \<Longrightarrow>
    gs_players (upd_seat i f gs) ! j = (if i = j then f (gs_players gs ! j) else gs_players gs ! j)"
  by (simp add: upd_seat_def nth_list_update)

lemma upd_seat_ball:
  "i < length (gs_players gs) \<Longrightarrow> P (f (gs_players gs ! i)) \<Longrightarrow> (\<forall>p\<in>set (gs_players gs). P p)
    \<Longrightarrow> (\<forall>p\<in>set (gs_players (upd_seat i f gs)). P p)"
  unfolding upd_seat_def by (auto dest!: set_update_subset_insert [THEN subsetD])

lemma chips_inv_stacks:
  assumes "chips_inv gs" and "p \<in> set (gs_players gs)"
  shows "0 \<le> p_stack p" "0 \<le> p_currentBet p" "p_currentBet p \<le> p_totalBet p" "0 \<le> bets gs" "0 \<le> stacks gs"
    "p_stack p + p_totalBet p \<le> stacks gs + bets gs"
proof -
  have ok: "\<forall>p\<in>set (gs_players gs). player_ok p" using assms(1) by (simp add: chips_inv_def)
  then show "0 \<le> p_stack p" "0 \<le> p_currentBet p" "p_currentBet p \<le> p_totalBet p"
    using assms(2) by (auto simp: player_ok_def)
  show "0 \<le> bets gs" "0 \<le> stacks gs"
    unfolding bets_def stacks_def using ok
    by (fastforce intro!: sum_list_nonneg simp: player_ok_def dest: order_trans)+
  have "(\<Sum>q\<leftarrow>gs_players gs. p_stack q + p_totalBet q) = stacks gs + bets gs"
    by (simp add: stacks_def bets_def sum_list_addf)
  moreover have "p_stack p + p_totalBet p \<le> (\<Sum>q\<leftarrow>gs_players gs. p_stack q + p_totalBet q)"
    using ok assms(2) by (intro member_le_sum_list) (auto simp: player_ok_def)
  ultimately show "p_stack p + p_totalBet p \<le> stacks gs + bets gs" by simp
qed

lemma quiet_stacks: "quiet gs h \<Longrightarrow> stacks h = stacks gs" "quiet gs h \<Longrightarrow> bets h = bets gs"
proof -
  assume "quiet gs h"
  then have l: "list_all2 same_money (gs_players gs) (gs_players h)" by (simp add: quiet_def)
  then have "map p_stack (gs_players h) = map p_stack (gs_players gs)"
    "map p_totalBet (gs_players h) = map p_totalBet (gs_players gs)"
    by (auto simp: list_all2_conv_all_nth same_money_def list_eq_iff_nth_eq)
  then show "stacks h = stacks gs" "bets h = bets gs"
    by (simp_all only: stacks_def bets_def)
qed

lemma quiet_chips_inv:
  assumes "quiet gs h" and "chips_inv gs"
  shows "chips_inv h"
proof -
  have l: "length (gs_players h) = length (gs_players gs)"
    and sm: "\<And>i. i < length (gs_players gs) \<Longrightarrow> same_money (gs_players gs ! i) (gs_players h ! i)"
    using assms(1) by (auto simp: quiet_def list_all2_conv_all_nth)
  have cb: "(gs_currentBet h = gs_currentBet gs \<and> gs_minRaise h = gs_minRaise gs
      \<and> (\<forall>i < length (gs_players gs). p_currentBet (gs_players h ! i) = p_currentBet (gs_players gs ! i)))
    \<or> (gs_currentBet h = 0 \<and> gs_minRaise h = gs_bigBlind gs
      \<and> (\<forall>i < length (gs_players gs). p_currentBet (gs_players h ! i)
          = (if in_hand (gs_players gs ! i) then 0 else p_currentBet (gs_players gs ! i))))"
    using assms(1) l unfolding quiet_def same_round_def fresh_round_def list_eq_iff_nth_eq
    by (elim conjE disjE) auto
  have ok: "\<And>i. i < length (gs_players gs) \<Longrightarrow> player_ok (gs_players gs ! i)"
    and act: "\<And>i. i < length (gs_players gs) \<Longrightarrow> CanAct (gs_players gs ! i) \<Longrightarrow>
      p_currentBet (gs_players gs ! i) \<le> gs_currentBet gs"
    using assms(2) by (auto simp: chips_inv_def)
  have "\<forall>p\<in>set (gs_players h). player_ok p \<and> (CanAct p \<longrightarrow> p_currentBet p \<le> gs_currentBet h)"
  proof
    fix p assume "p \<in> set (gs_players h)"
    then obtain i where i: "i < length (gs_players gs)" "p = gs_players h ! i"
      using l by (auto simp: in_set_conv_nth)
    show "player_ok p \<and> (CanAct p \<longrightarrow> p_currentBet p \<le> gs_currentBet h)"
      using cb ok [OF i(1)] act [OF i(1)] sm [OF i(1)] i
      by (elim disjE) (auto simp: same_money_def player_ok_def CanAct_def in_hand_def)
  qed
  then show ?thesis
    using assms quiet_stacks [OF assms(1)] cb unfolding chips_inv_def
    by (elim disjE) (auto simp: quiet_def)
qed

section \<open>Actions\<close>

lemma chips_inv_upd:
  assumes "chips_inv gs" and "i < length (gs_players gs)"
    and "player_ok (f (gs_players gs ! i))"
    and "p_stack (f (gs_players gs ! i)) + p_totalBet (f (gs_players gs ! i))
      = p_stack (gs_players gs ! i) + p_totalBet (gs_players gs ! i)"
    and "gs_currentBet gs \<le> cb" and "cb \<le> 2 ^ 60" and "0 \<le> mr"
    and "CanAct (f (gs_players gs ! i)) \<Longrightarrow> p_currentBet (f (gs_players gs ! i)) \<le> cb"
    and "h = (upd_seat i f gs)\<lparr>gs_currentBet := cb, gs_minRaise := mr, gs_lastRaiserIdx := lr\<rparr>"
  shows "chips_inv h" and "stacks h + bets h = stacks gs + bets gs"
proof -
  have s: "stacks h = stacks (upd_seat i f gs)" "bets h = bets (upd_seat i f gs)"
    by (simp_all add: assms(9) stacks_def bets_def)
  then show tot: "stacks h + bets h = stacks gs + bets gs"
    using assms(2,4) by (simp add: chip_simps)
  have "\<forall>p\<in>set (gs_players (upd_seat i f gs)). player_ok p \<and> (CanAct p \<longrightarrow> p_currentBet p \<le> cb)"
    by (rule upd_seat_ball [OF assms(2)])
      (use assms(1,3,5,8) in \<open>auto simp: chips_inv_def intro: order_trans\<close>)
  then show "chips_inv h"
    using assms(1,5,6,7) tot by (auto simp: chips_inv_def assms(9) stacks_def bets_def)
qed

lemma game_state_same_updates:
  "gs\<lparr>gs_currentBet := gs_currentBet gs, gs_minRaise := gs_minRaise gs, gs_lastRaiserIdx := gs_lastRaiserIdx gs\<rparr> = gs"
  by simp

lemma chips_inv_bet:
  assumes inv: "chips_inv gs" and i: "i < length (gs_players gs)" "p = gs_players gs ! i"
    and n: "0 \<le> n"
    and b: "gs_currentBet gs \<le> cb" "cb \<le> 2 ^ 60" "0 \<le> mr" "p_currentBet p + n \<le> cb \<or> p_stack p \<le> n"
    and h: "h = (upd_seat i (\<lambda>p. snd (PlaceBet n p)) gs)\<lparr>gs_currentBet := cb, gs_minRaise := mr, gs_lastRaiserIdx := lr\<rparr>"
  shows "chips_inv h" and "stacks h + bets h = stacks gs + bets gs"
proof -
  have p: "player_ok p" "player_chips p < 2 ^ 62"
    using inv i chips_inv_stacks(6) [OF inv, of p] by (auto simp: chips_inv_def player_chips_def)
  note bet = PlaceBet_exact [OF p n] PlaceBet_ok [OF p n]
  have c: "CanAct (snd (PlaceBet n p)) \<Longrightarrow> p_currentBet (snd (PlaceBet n p)) \<le> cb"
    using b(4) bet(3) by (auto simp: CanAct_def PlaceBet_status split: if_splits)
  show "chips_inv h" "stacks h + bets h = stacks gs + bets gs"
    using chips_inv_upd [OF inv i(1), of "\<lambda>p. snd (PlaceBet n p)" cb mr h lr] bet c b h
    by (simp_all add: i(2) player_chips_def)
qed

text \<open>A raise wraps around when what it needs in all is more than an \<open>int64\<close> holds.\<close>

definition raise_wraps :: "Action \<Rightarrow> game_state \<Rightarrow> bool" where
  "raise_wraps a gs \<longleftrightarrow> a_type a = ActionRaise \<and> (case CurrentPlayer gs of None \<Rightarrow> False
     | Some p \<Rightarrow> 2 ^ 63 \<le> gs_currentBet gs - p_currentBet p + a_amount a)"

lemma act_chips:
  assumes inv: "chips_inv gs" and i: "i < length (gs_players gs)" "p = gs_players gs ! i" and p: "CanAct p"
    and amt: "a_type a = ActionRaise \<Longrightarrow> gs_currentBet gs - p_currentBet p + a_amount a < 2 ^ 63" and act: "act a i p gs = (e, h)"
  shows "chips_inv h \<and> stacks h + bets h = stacks gs + bets gs"
proof -
  have mem: "p \<in> set (gs_players gs)" using i by simp
  note ps = chips_inv_stacks(1-3,6) [OF inv mem]
  have cb: "0 \<le> gs_currentBet gs" "gs_currentBet gs \<le> 2 ^ 60" "p_currentBet p \<le> gs_currentBet gs"
    "0 \<le> gs_minRaise gs" "stacks gs + bets gs < 2 ^ 59"
    using inv mem p by (auto simp: chips_inv_def)
  have call: "w64 (gs_currentBet gs - p_currentBet p) = gs_currentBet gs - p_currentBet p"
    using cb ps by (intro w64_id) (simp add: in64_def)
  show ?thesis
  proof (cases "a_type a")
    case ActionFold
    then have h: "h = (upd_seat i (\<lambda>p. p\<lparr>p_status := StatusFolded\<rparr>) gs)\<lparr>gs_currentBet := gs_currentBet gs,
        gs_minRaise := gs_minRaise gs, gs_lastRaiserIdx := gs_lastRaiserIdx gs\<rparr>"
      using act by (auto simp: act_def upd_seat_def)
    show ?thesis
      using chips_inv_upd [OF inv i(1) _ _ _ _ _ _ h, folded i(2)] cb ps
      by (simp add: player_ok_def CanAct_def)
  next
    case ActionCheck
    then show ?thesis using act inv by (auto simp: act_def Let_def split: if_splits)
  next
    case ActionCall
    then show ?thesis
      using act inv cb
        chips_inv_bet [OF inv i, of "gs_currentBet gs - p_currentBet p" "gs_currentBet gs" "gs_minRaise gs" h "gs_lastRaiserIdx gs"]
      by (auto simp: act_def Let_def call split: if_splits)
  next
    case ActionRaise
    let ?n = "gs_currentBet gs - p_currentBet p + a_amount a"
    show ?thesis
    proof (cases "a_amount a < gs_minRaise gs \<or> w64 ?n > w64 (p_stack p + p_currentBet p)")
      case True
      then show ?thesis using act inv ActionRaise by (auto simp: act_def Let_def split: if_splits)
    next
      case False
      have n: "w64 ?n = ?n" "w64 (p_stack p + p_currentBet p) = p_stack p + p_currentBet p"
        using False cb ps amt [OF ActionRaise] by (auto intro!: w64_id simp: in64_def)
      have le: "?n \<le> p_stack p + p_currentBet p" "0 \<le> a_amount a" using False cb by (auto simp: n)
      then have n': "w64 (gs_currentBet gs + a_amount a) = gs_currentBet gs + a_amount a"
        using cb ps by (intro w64_id) (simp add: in64_def)
      have h: "h = (upd_seat i (\<lambda>p. snd (PlaceBet ?n p)) gs)\<lparr>gs_currentBet := gs_currentBet gs + a_amount a,
          gs_minRaise := a_amount a, gs_lastRaiserIdx := gs_actionIdx gs\<rparr>"
        using act False ActionRaise by (auto simp: act_def Let_def call n n' upd_seat_def)
      show ?thesis
        using chips_inv_bet [OF inv i _ _ _ _ _ h] le cb ps by auto
    qed
  next
    case ActionAllIn
    have "w64 (p_currentBet p + p_stack p) = p_currentBet p + p_stack p"
      "w64 (gs_currentBet gs + p_stack p) = gs_currentBet gs + p_stack p"
      using cb ps by (auto intro!: w64_id simp: in64_def)
    then have "h = upd_seat i (\<lambda>q. snd (PlaceBet (p_stack p) q)) gs"
      using act ActionAllIn cb(3) by (auto simp: act_def Let_def)
    then show ?thesis
      using chips_inv_bet [OF inv i, of "p_stack p" "gs_currentBet gs" "gs_minRaise gs" h "gs_lastRaiserIdx gs"]
        cb ps by auto
  next
    case (ActionUnknown k)
    then show ?thesis using act inv by (auto simp: act_def)
  qed
qed

section \<open>Paying out\<close>

definition stacks_ok :: "game_state \<Rightarrow> bool" where
  "stacks_ok gs \<longleftrightarrow> (\<forall>p\<in>set (gs_players gs). 0 \<le> p_stack p)"

text \<open>What paying leaves alone: everything but the stacks and the payouts.\<close>

abbreviation (input) no_stack :: "player \<Rightarrow> player" where
  "no_stack p \<equiv> p\<lparr>p_stack := 0\<rparr>"

definition same_seats :: "game_state \<Rightarrow> game_state \<Rightarrow> bool" where
  "same_seats gs h \<longleftrightarrow>
     map no_stack (gs_players h) = map no_stack (gs_players gs)
     \<and> gs_deck h = gs_deck gs \<and> gs_phase h = gs_phase gs \<and> gs_community h = gs_community gs
     \<and> gs_pots h = gs_pots gs \<and> gs_dealerIdx h = gs_dealerIdx gs \<and> gs_currentBet h = gs_currentBet gs
     \<and> gs_minRaise h = gs_minRaise gs \<and> gs_bigBlind h = gs_bigBlind gs
     \<and> gs_smallBlind h = gs_smallBlind gs \<and> gs_actionIdx h = gs_actionIdx gs"

lemma same_seats_refl [simp]: "same_seats gs gs"
  by (simp add: same_seats_def)

lemma same_seats_trans: "same_seats a b \<Longrightarrow> same_seats b c \<Longrightarrow> same_seats a c"
  by (simp add: same_seats_def)

lemma same_seats_length: "same_seats gs h \<Longrightarrow> length (gs_players h) = length (gs_players gs)"
  unfolding same_seats_def using map_eq_imp_length_eq by blast

lemma same_seats_nth:
  assumes "same_seats gs h" and "i < length (gs_players gs)"
  shows "p_id (gs_players h ! i) = p_id (gs_players gs ! i)"
    "p_status (gs_players h ! i) = p_status (gs_players gs ! i)"
    "p_holes (gs_players h ! i) = p_holes (gs_players gs ! i)"
    "p_totalBet (gs_players h ! i) = p_totalBet (gs_players gs ! i)"
    "p_currentBet (gs_players h ! i) = p_currentBet (gs_players gs ! i)"
proof -
  have "map no_stack (gs_players h) ! i = map no_stack (gs_players gs) ! i"
    using assms(1) by (simp add: same_seats_def)
  then have e: "no_stack (gs_players h ! i) = no_stack (gs_players gs ! i)"
    using assms same_seats_length [OF assms(1)] by simp
  show "p_id (gs_players h ! i) = p_id (gs_players gs ! i)"
    "p_status (gs_players h ! i) = p_status (gs_players gs ! i)"
    "p_holes (gs_players h ! i) = p_holes (gs_players gs ! i)"
    "p_totalBet (gs_players h ! i) = p_totalBet (gs_players gs ! i)"
    "p_currentBet (gs_players h ! i) = p_currentBet (gs_players gs ! i)"
    using arg_cong [OF e, of p_id] arg_cong [OF e, of p_status] arg_cong [OF e, of p_holes]
      arg_cong [OF e, of p_totalBet] arg_cong [OF e, of p_currentBet] by simp_all
qed

lemma pay_same_seats: "same_seats gs (pay n i gs)"
proof -
  have "map no_stack ((gs_players gs)[i := (gs_players gs ! i)\<lparr>p_stack := x\<rparr>]) = map no_stack (gs_players gs)" for x
    by (cases "i < length (gs_players gs)") (simp_all add: map_update list_update_same_conv list_update_beyond)
  then show ?thesis by (simp add: same_seats_def pay_def Let_def upd_seat_def)
qed

lemma pay_stacks:
  assumes "stacks_ok gs" and "i < length (gs_players gs)" and "0 \<le> n" and "stacks gs + n < 2 ^ 62"
  shows "stacks (pay n i gs) = stacks gs + n" and "stacks_ok (pay n i gs)"
proof -
  let ?p = "gs_players gs ! i"
  have nn: "\<forall>p\<in>set (gs_players gs). 0 \<le> p_stack p" using assms(1) by (simp add: stacks_ok_def)
  then have "p_stack ?p \<le> stacks gs"
    unfolding stacks_def using assms(2) by (intro member_le_sum_list) auto
  moreover have p: "0 \<le> p_stack ?p" using nn assms(2) by simp
  ultimately have w: "w64 (p_stack ?p + n) = p_stack ?p + n"
    using assms(3,4) by (intro w64_id) (simp add: in64_def)
  have pl: "gs_players (pay n i gs) = gs_players (upd_seat i (\<lambda>p. p\<lparr>p_stack := w64 (p_stack p + n)\<rparr>) gs)"
    by (simp add: pay_def Let_def)
  then have "stacks (pay n i gs) = stacks (upd_seat i (\<lambda>p. p\<lparr>p_stack := w64 (p_stack p + n)\<rparr>) gs)"
    by (simp add: stacks_def)
  then show "stacks (pay n i gs) = stacks gs + n"
    using assms(2) by (simp add: chip_simps w)
  show "stacks_ok (pay n i gs)"
    unfolding stacks_ok_def pl by (rule upd_seat_ball [OF assms(2) _ nn]) (use p assms(3) in \<open>simp add: w\<close>)
qed

lemma fold_pay:
  "stacks_ok gs \<Longrightarrow> \<forall>i\<in>set ws. i < length (gs_players gs) \<Longrightarrow> 0 \<le> n
    \<Longrightarrow> stacks gs + int (length ws) * n < 2 ^ 62
    \<Longrightarrow> stacks (fold (pay n) ws gs) = stacks gs + int (length ws) * n
      \<and> stacks_ok (fold (pay n) ws gs) \<and> same_seats gs (fold (pay n) ws gs)"
proof (induction ws arbitrary: gs)
  case (Cons w ws)
  have "0 \<le> int (length ws) * n" using Cons.prems(3) by simp
  moreover have "stacks gs + n + int (length ws) * n < 2 ^ 62"
    using Cons.prems(4) by (simp add: algebra_simps)
  ultimately have "stacks gs + n < 2 ^ 62" by linarith
  then have p: "stacks (pay n w gs) = stacks gs + n" "stacks_ok (pay n w gs)"
    using pay_stacks [of gs w n] Cons.prems by auto
  have "stacks (pay n w gs) + int (length ws) * n < 2 ^ 62"
    using Cons.prems(4) p(1) by (simp add: algebra_simps)
  moreover have "\<forall>i\<in>set ws. i < length (gs_players (pay n w gs))"
    using Cons.prems(2) same_seats_length [OF pay_same_seats, of n w gs] by simp
  ultimately have "stacks (fold (pay n) ws (pay n w gs)) = stacks (pay n w gs) + int (length ws) * n
      \<and> stacks_ok (fold (pay n) ws (pay n w gs)) \<and> same_seats (pay n w gs) (fold (pay n) ws (pay n w gs))"
    using Cons.IH [of "pay n w gs"] p(2) Cons.prems(3) by blast
  then show ?case
    using p(1) same_seats_trans [OF pay_same_seats [of gs n w]] by (simp add: algebra_simps)
qed simp

section \<open>Winners of a pot\<close>

lemma pot_candidates_seats:
  "i \<in> fst ` set (pot_candidates pot comm gs) \<longleftrightarrow>
    (\<exists>pid\<in>set (pot_eligible pot). SeatIndex pid gs = int i
       \<and> p_status (gs_players gs ! i) \<noteq> StatusFolded)"
proof -
  define cand where "cand pid = (let idx = SeatIndex pid gs
       in if idx = -1 then []
          else let p = gs_players gs ! nat idx
               in if p_status p = StatusFolded then []
                  else [(nat idx, EvaluateBest7 (seven_cards p comm))])" for pid
  have "i \<in> fst ` set (cand pid) \<longleftrightarrow> SeatIndex pid gs = int i \<and> p_status (gs_players gs ! i) \<noteq> StatusFolded"
    for pid
    using SeatIndex_range [of pid gs] by (auto simp: cand_def Let_def)
  moreover have "pot_candidates pot comm gs = concat (map cand (pot_eligible pot))"
    unfolding pot_candidates_def cand_def ..
  ultimately show ?thesis by (simp add: image_UN)
qed

lemma best_in:
  "fold (\<lambda>e b. if Compare (snd e) b > 0 then snd e else b) es b \<in> insert b (snd ` set es)"
proof (induction es arbitrary: b)
  case (Cons e es)
  then show ?case
    using Cons.IH [of "if Compare (snd e) b > 0 then snd e else b"] by (auto split: if_splits)
qed simp

lemma potWinners_empty: "potWinners pot comm gs = [] \<longleftrightarrow> pot_candidates pot comm gs = []"
proof (cases "pot_candidates pot comm gs")
  case (Cons e es)
  let ?b = "fold (\<lambda>e b. if Compare (snd e) b > 0 then snd e else b) es (snd e)"
  have "?b \<in> snd ` set (e # es)" using best_in [of es "snd e"] by simp
  then obtain x where x: "?b = snd x" "x \<in> set (e # es)" by (rule imageE)
  then have "x \<in> set (filter (\<lambda>e. Compare (snd e) ?b = 0) (e # es))"
    unfolding set_filter x(1) by simp
  then have ne: "filter (\<lambda>e. Compare (snd e) ?b = 0) (e # es) \<noteq> []"
    by (metis empty_iff list.set(1))
  then show ?thesis
    unfolding potWinners_def Cons list.case Let_def map_is_Nil_conv by (simp only: list.distinct)
qed (simp add: potWinners_def)

lemma potWinners_candidates: "set (potWinners pot comm gs) \<subseteq> fst ` set (pot_candidates pot comm gs)"
proof (cases "pot_candidates pot comm gs")
  case (Cons e es)
  then show ?thesis
    unfolding potWinners_def Cons list.case Let_def by (auto simp del: filter.simps)
qed (simp add: potWinners_def)

lemma potWinners_range:
  assumes "i \<in> set (potWinners pot comm gs)"
  shows "i < length (gs_players gs)"
proof -
  obtain pid where "SeatIndex pid gs = int i"
    using assms potWinners_candidates [of pot comm gs] pot_candidates_seats [of i pot comm gs] by blast
  then show ?thesis using SeatIndex_range [of pid gs] by simp
qed

lemma closestLeftOfDealer_in:
  assumes "ws \<noteq> []"
  shows "closestLeftOfDealer ws gs \<in> set ws"
proof -
  let ?m = "map_of (rev (map (\<lambda>w. (p_id (gs_players gs ! w), w)) ws))"
  have m: "?m x = Some w \<Longrightarrow> w \<in> set ws" for x w
    by (auto dest!: map_of_SomeD)
  show ?thesis
    unfolding closestLeftOfDealer_def Let_def
    using assms m by (auto split: option.split simp: find_Some_iff)
qed

lemma potWinners_cong:
  assumes "same_seats gs h"
  shows "potWinners pot comm h = potWinners pot comm gs"
proof -
  have ids: "map p_id (gs_players h) = map p_id (gs_players gs)"
    using same_seats_length [OF assms] same_seats_nth(1) [OF assms] by (intro nth_equalityI) simp_all
  have "(let p = gs_players h ! nat (SeatIndex pid gs) in if p_status p = StatusFolded then []
          else [(nat (SeatIndex pid gs), EvaluateBest7 (seven_cards p comm))])
      = (let p = gs_players gs ! nat (SeatIndex pid gs) in if p_status p = StatusFolded then []
          else [(nat (SeatIndex pid gs), EvaluateBest7 (seven_cards p comm))])"
    if "SeatIndex pid gs \<noteq> -1" for pid
  proof -
    have "nat (SeatIndex pid gs) < length (gs_players gs)" using SeatIndex_range [of pid gs] that by auto
    then show ?thesis by (simp add: Let_def same_seats_nth [OF assms] seven_cards_def)
  qed
  then have "pot_candidates pot comm h = pot_candidates pot comm gs"
    unfolding pot_candidates_def SeatIndex_cong [OF ids]
    by (intro arg_cong [of _ _ concat] map_cong) (simp_all add: Let_def)
  then show ?thesis by (simp add: potWinners_def)
qed

section \<open>Distributing the pots\<close>

text \<open>A pot with a winner is paid out to the last chip; a pot with none is dropped.\<close>

lemma distribute_pot_paid:
  assumes "stacks_ok gs" and "0 \<le> pot_amount pot" and "stacks gs + pot_amount pot < 2 ^ 62"
  shows "stacks (distribute_pot comm pot gs)
      = stacks gs + (if potWinners pot comm gs = [] then 0 else pot_amount pot)"
    and "stacks_ok (distribute_pot comm pot gs)" and "same_seats gs (distribute_pot comm pot gs)"
proof -
  let ?ws = "potWinners pot comm gs"
  let ?k = "int (length ?ws)"
  let ?s = "go_quo (pot_amount pot) ?k"
  let ?r = "go_rem (pot_amount pot) ?k"
  let ?g = "fold (pay ?s) ?ws gs"
  have goal: "stacks (distribute_pot comm pot gs) = stacks gs + (if ?ws = [] then 0 else pot_amount pot)
    \<and> stacks_ok (distribute_pot comm pot gs) \<and> same_seats gs (distribute_pot comm pot gs)"
  proof (cases "?ws = []")
    case True
    then show ?thesis using assms(1) by (simp add: distribute_pot_def Let_def)
  next
    case False
    then have k: "0 < ?k" by simp
    have s: "0 \<le> ?s" and r: "0 \<le> ?r" using assms(2) k by (simp_all add: pos_imp_zdiv_nonneg_iff)
    have qr: "?k * ?s + ?r = pot_amount pot" by (rule go_quo_rem)
    have f: "stacks ?g = stacks gs + ?k * ?s \<and> stacks_ok ?g \<and> same_seats gs ?g"
    proof (intro fold_pay ballI)
      have "?k * ?s \<le> pot_amount pot" using qr r by linarith
      then show "stacks gs + ?k * ?s < 2 ^ 62" using assms(3) by (rule le_less_trans [OF add_left_mono])
    qed (use assms(1) s potWinners_range in auto)
    have "closestLeftOfDealer ?ws ?g \<in> set ?ws" using False by (rule closestLeftOfDealer_in)
    then have c: "closestLeftOfDealer ?ws ?g < length (gs_players ?g)"
      using potWinners_range [of _ pot comm gs] same_seats_length [of gs ?g] f by simp
    have p: "stacks (pay ?r (closestLeftOfDealer ?ws ?g) ?g) = stacks ?g + ?r"
      "stacks_ok (pay ?r (closestLeftOfDealer ?ws ?g) ?g)"
      using pay_stacks [OF _ c r] f assms(3) qr by auto
    show ?thesis
    proof (cases "?r > 0")
      case True
      with False p f qr same_seats_trans [OF conjunct2 [OF conjunct2 [OF f]] pay_same_seats]
      show ?thesis by (simp add: distribute_pot_def Let_def)
    next
      case r0: False
      with r have "?r = 0" by simp
      with False f qr show ?thesis by (simp add: distribute_pot_def Let_def)
    qed
  qed
  then show "stacks (distribute_pot comm pot gs)
      = stacks gs + (if potWinners pot comm gs = [] then 0 else pot_amount pot)"
    and "stacks_ok (distribute_pot comm pot gs)" and "same_seats gs (distribute_pot comm pot gs)"
    by blast+
qed

definition won :: "game_state \<Rightarrow> PotSlice \<Rightarrow> int" where
  "won gs pot = (if potWinners pot (gs_community gs) gs = [] then 0 else pot_amount pot)"

lemma fold_distribute:
  assumes "stacks_ok gs" and "\<forall>q\<in>set pots. 0 \<le> pot_amount q"
    and "stacks gs + (\<Sum>q\<leftarrow>pots. pot_amount q) < 2 ^ 62" and "comm = gs_community gs"
  shows "stacks (fold (distribute_pot comm) pots gs) = stacks gs + (\<Sum>q\<leftarrow>pots. won gs q)
    \<and> stacks_ok (fold (distribute_pot comm) pots gs) \<and> same_seats gs (fold (distribute_pot comm) pots gs)"
  using assms
proof (induction pots arbitrary: gs)
  case (Cons q pots)
  have nn: "0 \<le> (\<Sum>q\<leftarrow>pots. pot_amount q)" using Cons.prems(2) by (intro sum_list_nonneg) auto
  have q: "0 \<le> pot_amount q" "stacks gs + pot_amount q < 2 ^ 62" using Cons.prems(2,3) nn by auto
  let ?h = "distribute_pot comm q gs"
  note d = distribute_pot_paid [OF Cons.prems(1) q, of comm]
  have comm: "comm = gs_community ?h" using Cons.prems(4) d(3) by (simp add: same_seats_def)
  have won: "won ?h = won gs"
    using potWinners_cong [OF d(3)] comm Cons.prems(4) by (intro ext) (simp add: won_def)
  have "stacks ?h + (\<Sum>q\<leftarrow>pots. pot_amount q) < 2 ^ 62"
    using d(1) Cons.prems(3) q(1) by (auto split: if_splits)
  then have "stacks (fold (distribute_pot comm) pots ?h) = stacks ?h + (\<Sum>q\<leftarrow>pots. won ?h q)
    \<and> stacks_ok (fold (distribute_pot comm) pots ?h) \<and> same_seats ?h (fold (distribute_pot comm) pots ?h)"
    using d(2) Cons.prems(2) comm by (intro Cons.IH) auto
  from this [unfolded won] show ?case
    using d(1) Cons.prems(4) same_seats_trans [OF d(3)] by (simp add: won_def [of gs q])
qed simp

lemma sum_max_0: "\<forall>p\<in>set ps. 0 \<le> p_totalBet p \<Longrightarrow>
    (\<Sum>p\<leftarrow>ps. max 0 (p_totalBet p)) = (\<Sum>p\<leftarrow>ps. p_totalBet p)"
  by (induction ps) auto

lemma chips_inv_pots:
  assumes "chips_inv gs"
  shows "(\<Sum>q\<leftarrow>CalculatePots (gs_players gs). pot_amount q) = bets gs"
    and "\<forall>q\<in>set (CalculatePots (gs_players gs)). 0 \<le> pot_amount q"
    and "(\<Sum>p\<leftarrow>gs_players gs. max 0 (p_totalBet p)) < 2 ^ 63" and "stacks_ok gs"
proof -
  have tb: "\<forall>p\<in>set (gs_players gs). 0 \<le> p_totalBet p"
    using chips_inv_stacks(2,3) [OF assms] by (auto intro: order_trans)
  have st: "\<forall>p\<in>set (gs_players gs). 0 \<le> p_stack p" using chips_inv_stacks(1) [OF assms] by blast
  then have "0 \<le> stacks gs" unfolding stacks_def by (auto intro!: sum_list_nonneg)
  then show lt: "(\<Sum>p\<leftarrow>gs_players gs. max 0 (p_totalBet p)) < 2 ^ 63"
    using assms by (simp add: sum_max_0 [OF tb] bets_def [symmetric] chips_inv_def)
  show "(\<Sum>q\<leftarrow>CalculatePots (gs_players gs). pot_amount q) = bets gs"
    by (simp add: CalculatePots_amounts(1) [OF lt] sum_max_0 [OF tb] bets_def)
  show "\<forall>q\<in>set (CalculatePots (gs_players gs)). 0 \<le> pot_amount q"
    by (rule CalculatePots_amounts(2) [OF lt])
  show "stacks_ok gs" using st by (simp add: stacks_ok_def)
qed

lemma sum_won_le: "\<forall>q\<in>set pots. 0 \<le> pot_amount q \<Longrightarrow> (\<Sum>q\<leftarrow>pots. won gs q) \<le> (\<Sum>q\<leftarrow>pots. pot_amount q)"
  by (intro sum_list_mono) (auto simp: won_def)

text \<open>The player with the largest bet, not folded, wins or shares in every pot.\<close>

definition top_bet_in :: "game_state \<Rightarrow> bool" where
  "top_bet_in gs \<longleftrightarrow> (\<exists>p\<in>set (gs_players gs). p_status p \<noteq> StatusFolded
     \<and> (\<forall>q\<in>set (gs_players gs). p_totalBet q \<le> p_totalBet p))"

lemma top_bet_won:
  assumes "chips_inv gs" and "distinct (map p_id (gs_players gs))" and "top_bet_in gs"
    and "pot \<in> set (CalculatePots (gs_players gs))"
  shows "potWinners pot comm gs \<noteq> []"
proof -
  obtain i where i: "i < length (gs_players gs)" "p_status (gs_players gs ! i) \<noteq> StatusFolded"
    "\<forall>q\<in>set (gs_players gs). p_totalBet q \<le> p_totalBet (gs_players gs ! i)"
    using assms(3) by (auto simp: top_bet_in_def in_set_conv_nth)
  have "p_id (gs_players gs ! i) \<in> set (pot_eligible pot)"
    using CalculatePots_top_eligible [OF chips_inv_pots(3) [OF assms(1)] _ i(3) assms(4)] i(1) by simp
  then have "i \<in> fst ` set (pot_candidates pot comm gs)"
    using SeatIndex_nth [OF assms(2) i(1)] i(2) by (auto simp: pot_candidates_seats)
  then show ?thesis by (auto simp: potWinners_empty)
qed

lemma same_seats_phase: "same_seats gs h \<Longrightarrow> table_chips (h\<lparr>gs_phase := PhaseSettled\<rparr>) = stacks h"
  by (simp add: table_chips_def stacks_def)

lemma distributePots_chips:
  assumes inv: "chips_inv gs" and pots: "gs_pots gs = CalculatePots (gs_players gs)"
    and full: "\<not> (cryptoMode gs \<and> remainingHolesIncomplete gs)"
    and d: "distributePots gs = (e, h)"
  shows "e = None" and "gs_phase h = PhaseSettled"
    and "table_chips h \<le> stacks gs + bets gs"
    and "distinct (map p_id (gs_players gs)) \<Longrightarrow> top_bet_in gs \<Longrightarrow> table_chips h = stacks gs + bets gs"
    and "same_seats gs (h\<lparr>gs_phase := gs_phase gs\<rparr>)" and "stacks_ok h"
proof -
  let ?h = "fold (distribute_pot (gs_community gs)) (gs_pots gs) gs"
  have h: "e = None" "h = ?h\<lparr>gs_phase := PhaseSettled\<rparr>"
    using d full by (auto simp: distributePots_def Let_def)
  note cp = chips_inv_pots [OF inv]
  have "stacks gs + (\<Sum>q\<leftarrow>gs_pots gs. pot_amount q) < 2 ^ 62"
    using cp(1) pots inv by (simp add: chips_inv_def)
  then have f: "stacks ?h = stacks gs + (\<Sum>q\<leftarrow>gs_pots gs. won gs q)" "stacks_ok ?h" "same_seats gs ?h"
    using fold_distribute [OF cp(4), of "gs_pots gs"] cp(2) pots by auto
  have t: "table_chips h = stacks ?h" by (simp add: h(2) table_chips_def stacks_def)
  show "e = None" "gs_phase h = PhaseSettled" by (simp_all add: h)
  show "table_chips h \<le> stacks gs + bets gs"
    using t f(1) sum_won_le [of "gs_pots gs" gs] cp(1,2) pots by simp
  show "table_chips h = stacks gs + bets gs"
    if "distinct (map p_id (gs_players gs))" "top_bet_in gs"
  proof -
    have "map (won gs) (gs_pots gs) = map pot_amount (gs_pots gs)"
      using top_bet_won [OF inv that] pots by (auto simp: won_def)
    then show ?thesis using t f(1) cp(1) pots by (simp only:)
  qed
  have ph: "gs_phase ?h = gs_phase gs" using f(3) by (simp add: same_seats_def)
  show "same_seats gs (h\<lparr>gs_phase := gs_phase gs\<rparr>)"
    using f(3) unfolding h(2) by (simp add: same_seats_def)
  show "stacks_ok h" using f(2) by (simp add: h(2) stacks_ok_def)
qed

end
