(* ===== verification/HandRules.thy ===== *)
theory HandRules
  imports MachineChips
begin

text \<open>
  The rules of a hand as a step relation over the operations of the machine, the invariant that
  every reachable state keeps, and what the machine promises to the players: whose turn it is,
  that rejected actions change nothing, and where the chips go.
\<close>

section \<open>One step and the chips\<close>

definition ids_distinct :: "game_state \<Rightarrow> bool" where
  "ids_distinct gs \<longleftrightarrow> distinct (map p_id (gs_players gs))"

text \<open>Either the hand goes on with the same chips, or it is settled and no chip is gained.\<close>

definition money_step :: "game_state \<Rightarrow> game_state \<Rightarrow> bool" where
  "money_step gs h \<longleftrightarrow>
     map p_id (gs_players h) = map p_id (gs_players gs)
     \<and> (if gs_phase h = PhaseSettled
        then stacks_ok h \<and> stacks h \<le> stacks gs + bets gs
          \<and> (ids_distinct h \<and> (top_bet_in h \<or> onlyOneRemaining h) \<longrightarrow> stacks h = stacks gs + bets gs)
        else chips_inv h \<and> stacks h + bets h = stacks gs + bets gs)"

lemma quiet_ids: "quiet gs h \<Longrightarrow> map p_id (gs_players h) = map p_id (gs_players gs)"
proof -
  assume "quiet gs h"
  then have l: "list_all2 same_money (gs_players gs) (gs_players h)" by (simp add: quiet_def)
  have "map p_id ps = map p_id qs" if "list_all2 same_money qs ps" for ps qs
    using that by induction (simp_all add: same_money_def)
  then show ?thesis using l by blast
qed

lemma same_seats_ids: "same_seats gs h \<Longrightarrow> map p_id (gs_players h) = map p_id (gs_players gs)"
  using same_seats_length [of gs h] same_seats_nth(1) [of gs h] by (intro nth_equalityI) simp_all

lemma same_seats_top_bet: "same_seats gs h \<Longrightarrow> top_bet_in h \<longleftrightarrow> top_bet_in gs"
proof -
  assume s: "same_seats gs h"
  have "map (\<lambda>p. (p_status p, p_totalBet p)) (gs_players h)
      = map (\<lambda>p. (p_status p, p_totalBet p)) (gs_players gs)"
    using same_seats_length [OF s] same_seats_nth [OF s] by (intro nth_equalityI) simp_all
  from arg_cong [OF this, of set]
  have eq: "(\<lambda>p. (p_status p, p_totalBet p)) ` set (gs_players h)
      = (\<lambda>p. (p_status p, p_totalBet p)) ` set (gs_players gs)" by simp
  have "top_bet_in g \<longleftrightarrow> (\<exists>x\<in>(\<lambda>p. (p_status p, p_totalBet p)) ` set (gs_players g).
      fst x \<noteq> StatusFolded \<and> (\<forall>y\<in>(\<lambda>p. (p_status p, p_totalBet p)) ` set (gs_players g). snd y \<le> snd x))" for g
    by (simp add: top_bet_in_def)
  then show ?thesis by (simp only: eq)
qed

lemma onlyOne_count: "onlyOneRemaining gs \<longleftrightarrow> length (filter id (map not_out (gs_players gs))) = 1"
  by (simp add: onlyOneRemaining_def filter_map comp_def)

lemma same_seats_not_out: "same_seats gs h \<Longrightarrow> map not_out (gs_players h) = map not_out (gs_players gs)"
  using same_seats_length [of gs h] same_seats_nth(2) [of gs h]
  by (intro nth_equalityI) (simp_all add: not_out_def)

lemma settled_phase_upd: "gs_phase h = ph \<Longrightarrow> h\<lparr>gs_phase := ph\<rparr> = h"
  by simp

text \<open>With at most one player left who is not out, everybody else has folded or sits out.\<close>

lemma distribute_money_step:
  assumes inv: "chips_inv gs" and pots: "gs_pots gs = CalculatePots (gs_players gs)"
    and one: "\<not> onlyOneRemaining gs" and d: "distributePots gs = (e, h)"
    and full: "\<not> (cryptoMode gs \<and> remainingHolesIncomplete gs)"
  shows "money_step gs h"
proof -
  note c = distributePots_chips [OF inv pots full d]
  let ?h = "h\<lparr>gs_phase := gs_phase gs\<rparr>"
  have ids: "map p_id (gs_players h) = map p_id (gs_players gs)"
    using same_seats_ids [OF c(5)] by simp
  have "top_bet_in h \<longleftrightarrow> top_bet_in gs"
    using same_seats_top_bet [OF c(5)] by (simp add: top_bet_in_def)
  moreover have "onlyOneRemaining h \<longleftrightarrow> onlyOneRemaining gs"
    using same_seats_not_out [OF c(5)] by (simp add: onlyOne_count)
  ultimately show ?thesis
    using c ids one by (auto simp: money_step_def ids_distinct_def table_chips_def)
qed

lemma money_step_trans:
  assumes "map p_id (gs_players h) = map p_id (gs_players gs)"
    and "stacks h + bets h = stacks gs + bets gs" and "money_step h k"
  shows "money_step gs k"
  using assms by (simp only: money_step_def) blast

lemma quiet_not_out: "quiet gs h \<Longrightarrow> map not_out (gs_players h) = map not_out (gs_players gs)"
proof -
  assume "quiet gs h"
  then have l: "list_all2 same_money (gs_players gs) (gs_players h)" by (simp add: quiet_def)
  have "map not_out ps = map not_out qs" if "list_all2 same_money qs ps" for ps qs
    using that by induction (simp_all add: same_money_def not_out_def)
  then show ?thesis using l by blast
qed

lemma round_end_money_step:
  assumes inv: "chips_inv gs" and one: "\<not> onlyOneRemaining gs" and r: "round_end gs r"
  shows "money_step gs (snd r)" and "fst r = None \<Longrightarrow> turn_ok (snd r)"
    and "gs_phase (snd r) \<noteq> PhaseSettled \<Longrightarrow> \<not> onlyOneRemaining (snd r)"
    and "gs_phase (snd r) = PhaseShowdown \<Longrightarrow> gs_pots (snd r) = CalculatePots (gs_players (snd r))"
proof -
  consider (quiet) "quiet gs (snd r)" "gs_phase (snd r) \<noteq> PhaseSettled" "fst r = None \<longrightarrow> turn_ok (snd r)"
        "gs_phase (snd r) = PhaseShowdown \<longrightarrow> gs_pots (snd r) = CalculatePots (gs_players (snd r))"
    | (showdown) h where "at_showdown gs h" "\<not> (cryptoMode h \<and> remainingHolesIncomplete h)" "r = distributePots h"
    using r unfolding round_end_def by blast
  then have "money_step gs (snd r) \<and> (fst r = None \<longrightarrow> turn_ok (snd r))
    \<and> (gs_phase (snd r) \<noteq> PhaseSettled \<longrightarrow> \<not> onlyOneRemaining (snd r))
    \<and> (gs_phase (snd r) = PhaseShowdown \<longrightarrow> gs_pots (snd r) = CalculatePots (gs_players (snd r)))"
  proof cases
    case quiet
    then show ?thesis
      using quiet_chips_inv [OF quiet(1) inv] quiet_stacks [OF quiet(1)] quiet_ids [OF quiet(1)]
        quiet_not_out [OF quiet(1)] one
      by (simp add: money_step_def onlyOne_count)
  next
    case (showdown h)
    then have q: "quiet gs h" and pots: "gs_pots h = CalculatePots (gs_players h)"
      by (simp_all add: at_showdown_def)
    have "\<not> onlyOneRemaining h" using one quiet_not_out [OF q] by (simp add: onlyOne_count)
    then have m: "money_step h (snd r)"
      using distribute_money_step [OF quiet_chips_inv [OF q inv] pots _ _ showdown(2), of "fst r" "snd r"] showdown(3)
      by simp
    have "gs_phase (snd r) = PhaseSettled"
      using distributePots_chips(2) [OF quiet_chips_inv [OF q inv] pots showdown(2), of "fst r" "snd r"] showdown(3)
      by simp
    then show ?thesis
      using money_step_trans [OF quiet_ids [OF q] _ m] quiet_stacks [OF q] by simp
  qed
  then show "money_step gs (snd r)" and "fst r = None \<Longrightarrow> turn_ok (snd r)"
    and "gs_phase (snd r) \<noteq> PhaseSettled \<Longrightarrow> \<not> onlyOneRemaining (snd r)"
    and "gs_phase (snd r) = PhaseShowdown \<Longrightarrow> gs_pots (snd r) = CalculatePots (gs_players (snd r))"
    by blast+
qed

lemma resolveSingleWinner_money:
  assumes inv: "chips_inv gs" and one: "onlyOneRemaining gs"
    and r: "resolveSingleWinner gs = (e, h)"
  shows "e = None \<and> gs_phase h = PhaseSettled \<and> money_step gs h"
proof -
  let ?g = "gs\<lparr>gs_pots := CalculatePots (gs_players gs)\<rparr>"
  let ?n = "length (gs_players gs)"
  have "filter not_out (gs_players gs) \<noteq> []" using one by (auto simp: onlyOneRemaining_def)
  then obtain p where "p \<in> set (gs_players gs)" "not_out p" by (auto simp: filter_empty_conv)
  then obtain j where "j < ?n" "not_out (gs_players gs ! j)" by (auto simp: in_set_conv_nth)
  then have "find (\<lambda>i. not_out (gs_players gs ! i)) [0..<?n] \<noteq> None" by (auto simp: find_None_iff)
  then obtain i where i: "find (\<lambda>i. not_out (gs_players gs ! i)) [0..<?n] = Some i" by blast
  then have lt: "i < ?n" by (auto simp: find_Some_iff)
  note cp = chips_inv_pots [OF inv]
  have bnd: "stacks gs + bets gs < 2 ^ 59" using inv by (simp add: chips_inv_def)
  have nb: "0 \<le> bets gs" using chips_inv_stacks(4) [OF inv nth_mem [OF lt]] .
  have "0 \<le> stacks gs" using chips_inv_stacks(5) [OF inv nth_mem [OF lt]] .
  then have tot: "TotalPot (CalculatePots (gs_players gs)) = bets gs"
    using bnd nb by (simp add: TotalPot_sum cp(1) in64_def)
  let ?h = "pay (bets gs) i ?g"
  have e: "e = None" "h = ?h\<lparr>gs_phase := PhaseSettled\<rparr>"
    using r i by (auto simp: resolveSingleWinner_def Let_def tot)
  have st: "stacks_ok ?g" "stacks ?g = stacks gs" using cp(4) by (simp_all add: stacks_ok_def stacks_def)
  have p: "stacks ?h = stacks gs + bets gs" "stacks_ok ?h"
    using pay_stacks [OF st(1), of i "bets gs"] lt nb bnd st(2) by auto
  have "map p_id (gs_players ?h) = map p_id (gs_players ?g)"
    by (rule same_seats_ids [OF pay_same_seats])
  then show ?thesis
    using p by (simp add: money_step_def e stacks_def stacks_ok_def)
qed

section \<open>The invariant of a hand\<close>

definition hand_inv :: "game_state \<Rightarrow> bool" where
  "hand_inv gs \<longleftrightarrow> gs_phase gs = PhaseSettled
     \<or> (gs_phase gs \<noteq> PhaseWaiting \<and> chips_inv gs \<and> turn_ok gs \<and> \<not> onlyOneRemaining gs
        \<and> (gs_phase gs = PhaseShowdown \<longrightarrow> gs_pots gs = CalculatePots (gs_players gs)))"

text \<open>Where the chips are after a step: nothing is gained, and nothing lost before the end.\<close>

definition chips_flow :: "game_state \<Rightarrow> game_state \<Rightarrow> bool" where
  "chips_flow gs h \<longleftrightarrow> map p_id (gs_players h) = map p_id (gs_players gs)
     \<and> table_chips h \<le> table_chips gs
     \<and> (gs_phase h \<noteq> PhaseSettled \<or> (ids_distinct h \<and> (top_bet_in h \<or> onlyOneRemaining h))
          \<longrightarrow> table_chips h = table_chips gs)"

lemma money_step_flow: "money_step gs h \<Longrightarrow> gs_phase gs \<noteq> PhaseSettled \<Longrightarrow> chips_flow gs h"
  by (auto simp: money_step_def chips_flow_def table_chips_def split: if_splits)

text \<open>The phase after the end of a round is never \<open>PhaseWaiting\<close>.\<close>

lemma distributePots_phase:
  "distributePots gs = (None, h) \<Longrightarrow> gs_phase h = PhaseSettled"
  by (auto simp: distributePots_def Let_def split: if_splits)

lemma startShowdown_phase: "startShowdown gs = (e, h) \<Longrightarrow> gs_phase h \<in> {PhaseShowdown, PhaseSettled}"
  by (auto simp: startShowdown_def distributePots_def Let_def split: if_splits)

lemma not_waiting_andthen:
  assumes "snd r \<in> A" and "\<And>h. r = (None, h) \<Longrightarrow> snd (f h) \<in> A"
  shows "snd (andthen r f) \<in> A"
  using assms by (cases r; cases "fst r") auto

lemma round_end_not_waiting:
  "gs_phase gs1 \<noteq> PhaseWaiting \<Longrightarrow> snd (endBettingRound gs1) \<in> {h. gs_phase h \<noteq> PhaseWaiting}"
  "gs_phase gs2 \<noteq> PhaseWaiting \<Longrightarrow> snd (dealFlop gs2) \<in> {h. gs_phase h \<noteq> PhaseWaiting}"
  "gs_phase gs3 \<noteq> PhaseWaiting \<Longrightarrow> snd (dealTurn gs3) \<in> {h. gs_phase h \<noteq> PhaseWaiting}"
  "gs_phase gs4 \<noteq> PhaseWaiting \<Longrightarrow> snd (dealRiver gs4) \<in> {h. gs_phase h \<noteq> PhaseWaiting}"
  "gs_phase gs5 \<noteq> PhaseWaiting \<Longrightarrow> snd (startNewBettingRound gs5) \<in> {h. gs_phase h \<noteq> PhaseWaiting}"
proof (induction gs1 and gs2 and gs3 and gs4 and gs5
    rule: endBettingRound_dealFlop_dealTurn_dealRiver_startNewBettingRound.induct)
  case (1 gs0)
  let ?gs = "gs0\<lparr>gs_pots := CalculatePots (gs_players gs0)\<rparr>"
  have s: "gs_phase (snd (startShowdown ?gs)) \<noteq> PhaseWaiting"
    using startShowdown_phase [of ?gs "fst (startShowdown ?gs)" "snd (startShowdown ?gs)"] by auto
  show ?case
  proof (cases "cryptoMode ?gs")
    case True
    then show ?thesis
      using s 1(4) unfolding endBettingRound.simps [of gs0] Let_def by (cases "gs_phase gs0") auto
  next
    case False
    then show ?thesis
      using s 1(1-3) [OF refl False] 1(4) unfolding endBettingRound.simps [of gs0] Let_def
      by (cases "gs_phase gs0") auto
  qed
next
  case (5 gs0)
  let ?gs = "begin_round gs0"
  have s: "gs_phase (snd (startShowdown ?gs)) \<noteq> PhaseWaiting"
    using startShowdown_phase [of ?gs "fst (startShowdown ?gs)" "snd (startShowdown ?gs)"] by auto
  show ?case
    unfolding startNewBettingRound.simps [of gs0] Let_def using 5 s by (auto simp: Let_def)
qed (auto simp: dealFlop.simps dealTurn.simps dealRiver.simps burn_def deal_board_def andthen_def
      split: option.splits prod.splits sum.splits if_splits)

section \<open>Every operation keeps the invariant\<close>

lemma round_end_hand:
  assumes inv: "chips_inv gs" and one: "\<not> onlyOneRemaining gs" and r: "round_end gs r"
    and ok: "fst r = None" and w: "gs_phase (snd r) \<noteq> PhaseWaiting" and s: "gs_phase gs \<noteq> PhaseSettled"
  shows "hand_inv (snd r) \<and> chips_flow gs (snd r)"
proof -
  note m = round_end_money_step [OF inv one r]
  have "chips_flow gs (snd r)" by (rule money_step_flow [OF m(1) s])
  moreover have "hand_inv (snd r)"
    using m ok w by (auto simp: hand_inv_def money_step_def split: if_splits)
  ultimately show ?thesis by blast
qed

lemma advanceAction_round_end:
  assumes "live (gs_phase gs)"
  shows "round_end gs (advanceAction gs)"
proof -
  let ?n = "nextActiveIndex (nat (gs_actionIdx gs)) gs"
  have "quiet gs (gs\<lparr>gs_actionIdx := ?n\<rparr>)" by (rule quiet_upd [OF quiet_refl]) simp_all
  moreover have "?n \<noteq> -1 \<Longrightarrow> turn_ok (gs\<lparr>gs_actionIdx := ?n\<rparr>)" by (rule turn_ok_next)
  ultimately show ?thesis
    using round_end_all(1) [OF assms] liveD [OF assms]
    by (simp add: advanceAction_def Let_def round_end_def)
qed

lemma advanceAction_not_waiting:
  "gs_phase gs \<noteq> PhaseWaiting \<Longrightarrow> gs_phase (snd (advanceAction gs)) \<noteq> PhaseWaiting"
  using round_end_not_waiting(1) [of gs] by (simp add: advanceAction_def Let_def)

lemma upd_seat_ids:
  "p_id (f (gs_players gs ! i)) = p_id (gs_players gs ! i)
    \<Longrightarrow> map p_id (gs_players (upd_seat i f gs)) = map p_id (gs_players gs)"
  by (cases "i < length (gs_players gs)")
    (simp_all add: upd_seat_def map_update list_update_same_conv list_update_beyond)

lemma act_frame:
  assumes "act a i p gs = (e, h)"
  shows "gs_phase h = gs_phase gs" and "map p_id (gs_players h) = map p_id (gs_players gs)"
    and "gs_deck h = gs_deck gs" and "gs_community h = gs_community gs"
    and "gs_actionIdx h = gs_actionIdx gs" and "gs_dealerIdx h = gs_dealerIdx gs"
    and "e \<noteq> None \<Longrightarrow> h = gs"
  using assms
  by (auto simp: act_def Let_def upd_seat_ids frame_simps split: ActionType.splits if_splits)

lemma CurrentPlayer_Some:
  "CurrentPlayer gs = Some p \<longleftrightarrow> 0 \<le> gs_actionIdx gs \<and> nat (gs_actionIdx gs) < length (gs_players gs)
     \<and> p = gs_players gs ! nat (gs_actionIdx gs)"
  by (auto simp: CurrentPlayer_def)

lemma ApplyAction_ok:
  assumes "ApplyAction a gs = (None, h)"
  obtains p g where "betting_phase (gs_phase gs)" "CurrentPlayer gs = Some p" "p_id p = a_player a"
    "act a (nat (gs_actionIdx gs)) p gs = (None, g)" "after_action a g = (None, h)"
  using assms by (auto simp: ApplyAction_def andthen_ok_iff split: if_splits option.splits)

lemma money_flow_trans:
  assumes "map p_id (gs_players g) = map p_id (gs_players gs)" and "table_chips g = table_chips gs"
    and "chips_flow g h"
  shows "chips_flow gs h"
  using assms by (simp only: chips_flow_def) blast

text \<open>What happens after the action itself, on a state where the chips are in order.\<close>

lemma after_action_hand:
  assumes inv: "chips_inv g" and ph: "betting_phase (gs_phase g)" and ok: "after_action a g = (None, h)"
  shows "hand_inv h \<and> chips_flow g h"
proof -
  let ?g = "g\<lparr>gs_log := gs_log g @ [a], gs_roundActions := Suc (gs_roundActions g)\<rparr>"
  have q: "quiet g ?g" by (rule quiet_upd [OF quiet_refl]) simp_all
  have inv': "chips_inv ?g" by (rule quiet_chips_inv [OF q inv])
  have ne: "gs_phase g \<noteq> PhaseSettled" "gs_phase g \<noteq> PhaseWaiting" "live (gs_phase g)"
    using ph by (auto simp: betting_phase_def live_def)
  have flow: "chips_flow ?g h \<Longrightarrow> chips_flow g h"
    by (erule money_flow_trans [rotated 2]) (simp_all add: table_chips_def stacks_def bets_def)
  show ?thesis
  proof (cases "onlyOneRemaining ?g")
    case True
    then have "resolveSingleWinner ?g = (None, h)" using ok by (simp add: after_action_def Let_def)
    then have "gs_phase h = PhaseSettled" "money_step ?g h"
      using resolveSingleWinner_money [OF inv' True] by blast+
    then show ?thesis
      using money_step_flow [of ?g h] ne flow by (simp add: hand_inv_def)
  next
    case False
    then have a: "advanceAction ?g = (None, h)" using ok by (simp add: after_action_def Let_def)
    have "hand_inv (snd (advanceAction ?g)) \<and> chips_flow ?g (snd (advanceAction ?g))"
      using round_end_hand [OF inv' False advanceAction_round_end] advanceAction_not_waiting [of ?g] ne
      by (simp add: a)
    then show ?thesis using flow by (simp add: a)
  qed
qed

lemma ApplyAction_hand:
  assumes inv: "hand_inv gs" and amt: "\<not> raise_wraps a gs" and ok: "ApplyAction a gs = (None, h)"
  shows "hand_inv h \<and> chips_flow gs h"
proof -
  obtain p g where ph: "betting_phase (gs_phase gs)" and cur: "CurrentPlayer gs = Some p"
    and g: "act a (nat (gs_actionIdx gs)) p gs = (None, g)" and h: "after_action a g = (None, h)"
    using ok by (rule ApplyAction_ok)
  have gi: "chips_inv gs" "turn_ok gs" using inv ph by (auto simp: hand_inv_def)
  have i: "nat (gs_actionIdx gs) < length (gs_players gs)" "p = gs_players gs ! nat (gs_actionIdx gs)"
    "CanAct p" "0 \<le> gs_actionIdx gs"
    using cur gi(2) ph by (auto simp: CurrentPlayer_Some turn_ok_def)
  have c: "chips_inv g" "stacks g + bets g = stacks gs + bets gs"
    using act_chips [OF gi(1) i(1-3) _ g] amt cur by (auto simp: raise_wraps_def)
  note f = act_frame [OF g]
  have "hand_inv h \<and> chips_flow g h"
    using after_action_hand [OF c(1) _ h] ph f(1) by simp
  moreover have "table_chips g = table_chips gs"
    using c(2) f(1) ph by (auto simp: table_chips_def)
  ultimately show ?thesis using money_flow_trans [OF f(2)] by blast
qed

lemma ApplyStreet_ok:
  assumes "ApplyStreet cards gs = (None, h)"
  shows "cryptoMode gs" and "gs_phase gs = PhaseAwaitingStreet"
    and "length cards = pendingStreetCount (length (gs_community gs))"
    and "check_street (knownDealtCards gs) cards = None"
    and "\<exists>ph. ph \<in> {PhaseFlop, PhaseTurn, PhaseRiver}
      \<and> length (gs_community gs) + length cards = 6 - streets_left ph
      \<and> startNewBettingRound (gs\<lparr>gs_community := gs_community gs @ cards, gs_phase := ph\<rparr>) = (None, h)"
  using assms
  by (auto simp: ApplyStreet_def Let_def pendingStreetCount_def split: if_splits option.splits)

lemma ApplyStreet_hand:
  assumes inv: "hand_inv gs" and ok: "ApplyStreet cards gs = (None, h)"
  shows "hand_inv h \<and> chips_flow gs h"
proof -
  note st = ApplyStreet_ok [OF ok]
  obtain ph where ph: "ph \<in> {PhaseFlop, PhaseTurn, PhaseRiver}"
    and h: "startNewBettingRound (gs\<lparr>gs_community := gs_community gs @ cards, gs_phase := ph\<rparr>) = (None, h)"
    using st(5) by blast
  let ?g = "gs\<lparr>gs_community := gs_community gs @ cards, gs_phase := ph\<rparr>"
  have q: "quiet gs ?g" by (rule quiet_upd [OF quiet_refl]) simp_all
  have gi: "chips_inv gs" "\<not> onlyOneRemaining gs" using inv st(2) by (auto simp: hand_inv_def)
  have lv: "live (gs_phase ?g)" "gs_phase ?g \<noteq> PhaseWaiting" using ph by auto
  have "\<not> onlyOneRemaining ?g" using gi(2) by (simp add: onlyOneRemaining_def)
  from round_end_hand [OF quiet_chips_inv [OF q gi(1)] this round_end_all(5) [OF lv(1)]]
  have "hand_inv h \<and> chips_flow ?g h"
    using round_end_not_waiting(5) [OF lv(2)] liveD [OF lv(1)] by (simp add: h)
  moreover have "table_chips ?g = table_chips gs"
    using st(2) ph by (auto simp: table_chips_def stacks_def bets_def)
  ultimately show ?thesis using money_flow_trans [OF quiet_ids [OF q]] by blast
qed

text \<open>The pots depend on the ids and the bets only.\<close>

lemma go_sort_map: "go_sort lt (map f xs) = map f (go_sort (\<lambda>a b. lt (f a) (f b)) xs)"
proof -
  have ins: "go_insert lt (f x) (map f ys) = map f (go_insert (\<lambda>a b. lt (f a) (f b)) x ys)" for x ys
    by (induction ys) auto
  have "fold (go_insert lt) (map f xs) (map f ys) = map f (fold (go_insert (\<lambda>a b. lt (f a) (f b))) xs ys)" for ys
    by (induction xs arbitrary: ys) (simp_all add: ins)
  from this [of "[]"] show ?thesis by (simp add: go_sort_def rev_map)
qed

lemma CalculatePots_map:
  assumes "\<And>p. p_id (f p) = p_id p" and "\<And>p. p_totalBet (f p) = p_totalBet p"
  shows "CalculatePots (map f ps) = CalculatePots ps"
proof -
  have "contribs (map f ps) = map f (contribs ps)"
    by (simp add: contribs_def go_sort_map filter_map comp_def assms)
  moreover have "pot_layers lvl (map f cs) = pot_layers lvl cs" for lvl cs
  proof (induction lvl cs rule: pot_layers.induct)
    case (2 lvl c cs)
    have "fold (\<lambda>_ a. w64 (a + d)) (map f xs) b = fold (\<lambda>_ a. w64 (a + d)) xs b" for d xs b
      by (induction xs arbitrary: b) simp_all
    with 2 show ?case by (simp add: Let_def assms comp_def)
  qed simp
  ultimately show ?thesis by (simp add: CalculatePots_pot_layers)
qed

lemma CalculatePots_holes:
  "CalculatePots ((gs_players gs)[i := (gs_players gs ! i)\<lparr>p_holes := c\<rparr>]) = CalculatePots (gs_players gs)"
proof -
  let ?f = "\<lambda>p. p\<lparr>p_holes := (zero_card, zero_card)\<rparr>"
  have "map ?f ((gs_players gs)[i := (gs_players gs ! i)\<lparr>p_holes := c\<rparr>]) = map ?f (gs_players gs)"
    by (cases "i < length (gs_players gs)")
      (simp_all add: map_update list_update_same_conv list_update_beyond)
  then show ?thesis
    using CalculatePots_map [of ?f "gs_players gs"]
      CalculatePots_map [of ?f "(gs_players gs)[i := (gs_players gs ! i)\<lparr>p_holes := c\<rparr>]"] by simp
qed

text \<open>The two ways a reveal succeeds: it repeats what is known, or it fills a player's holes.\<close>

lemma ApplyHoleReveal_ok:
  assumes "ApplyHoleReveal pid cards gs = (None, h)"
  shows "cryptoMode gs" and "gs_phase gs = PhaseShowdown"
    and "\<exists>i g. SeatIndex pid gs = int i \<and> i < length (gs_players gs)
      \<and> p_id (gs_players gs ! i) = pid \<and> in_hand (gs_players gs ! i)
      \<and> dealt (fst cards) \<and> dealt (snd cards) \<and> fst cards \<noteq> snd cards
      \<and> ((g = gs \<and> p_holes (gs_players gs ! i) = cards)
         \<or> (g = upd_seat i (\<lambda>p. p\<lparr>p_holes := cards\<rparr>) gs \<and> \<not> holeCardsDealt (gs_players gs ! i)
            \<and> fst cards \<notin> knownDealtCards gs \<and> snd cards \<notin> knownDealtCards gs))
      \<and> (if remainingHolesIncomplete g then h = g else distributePots g = (None, h))"
proof -
  show "cryptoMode gs" "gs_phase gs = PhaseShowdown"
    using assms by (auto simp: ApplyHoleReveal_def split: if_splits)
  let ?i = "nat (SeatIndex pid gs)"
  have s: "SeatIndex pid gs \<noteq> -1" using assms by (auto simp: ApplyHoleReveal_def Let_def split: if_splits)
  then have i: "SeatIndex pid gs = int ?i" "?i < length (gs_players gs)" "p_id (gs_players gs ! ?i) = pid"
    using SeatIndex_range [of pid gs] by auto
  show "\<exists>i g. SeatIndex pid gs = int i \<and> i < length (gs_players gs)
      \<and> p_id (gs_players gs ! i) = pid \<and> in_hand (gs_players gs ! i)
      \<and> dealt (fst cards) \<and> dealt (snd cards) \<and> fst cards \<noteq> snd cards
      \<and> ((g = gs \<and> p_holes (gs_players gs ! i) = cards)
         \<or> (g = upd_seat i (\<lambda>p. p\<lparr>p_holes := cards\<rparr>) gs \<and> \<not> holeCardsDealt (gs_players gs ! i)
            \<and> fst cards \<notin> knownDealtCards gs \<and> snd cards \<notin> knownDealtCards gs))
      \<and> (if remainingHolesIncomplete g then h = g else distributePots g = (None, h))"
  proof (intro exI conjI)
    show "SeatIndex pid gs = int ?i" "?i < length (gs_players gs)" "p_id (gs_players gs ! ?i) = pid"
      by (fact i)+
    let ?g = "if holeCardsDealt (gs_players gs ! ?i) then gs
      else upd_seat ?i (\<lambda>p. p\<lparr>p_holes := cards\<rparr>) gs"
    show "in_hand (gs_players gs ! ?i)" "dealt (fst cards)" "dealt (snd cards)" "fst cards \<noteq> snd cards"
      using assms by (auto simp: ApplyHoleReveal_def Let_def split: if_splits)
    show "(?g = gs \<and> p_holes (gs_players gs ! ?i) = cards)
         \<or> (?g = upd_seat ?i (\<lambda>p. p\<lparr>p_holes := cards\<rparr>) gs \<and> \<not> holeCardsDealt (gs_players gs ! ?i)
            \<and> fst cards \<notin> knownDealtCards gs \<and> snd cards \<notin> knownDealtCards gs)"
      using assms by (auto simp: ApplyHoleReveal_def Let_def prod_eq_iff split: if_splits)
    show "if remainingHolesIncomplete ?g then h = ?g else distributePots ?g = (None, h)"
      using assms by (auto simp: ApplyHoleReveal_def Let_def split: if_splits)
  qed
qed

lemma upd_holes_same:
  assumes "i < length (gs_players gs)" and "g = upd_seat i (\<lambda>p. p\<lparr>p_holes := c\<rparr>) gs"
  shows "table_chips g = table_chips gs"
    and "map p_id (gs_players g) = map p_id (gs_players gs)" "onlyOneRemaining g = onlyOneRemaining gs"
    and "gs_pots g = gs_pots gs" "CalculatePots (gs_players g) = CalculatePots (gs_players gs)"
    and "chips_inv gs \<Longrightarrow> chips_inv g"
proof -
  have "stacks g = stacks gs" "bets g = bets gs" using assms by (simp_all add: chip_simps)
  then show "table_chips g = table_chips gs" by (simp add: table_chips_def assms(2))
  show "map p_id (gs_players g) = map p_id (gs_players gs)"
    unfolding assms(2) by (rule upd_seat_ids) simp
  have "map not_out (gs_players g) = map not_out (gs_players gs)"
    using assms(1) by (simp add: assms(2) upd_seat_def map_update not_out_def list_update_same_conv)
  then show "onlyOneRemaining g = onlyOneRemaining gs" by (simp add: onlyOne_count)
  show "gs_pots g = gs_pots gs" by (simp add: assms(2))
  show "CalculatePots (gs_players g) = CalculatePots (gs_players gs)"
    using CalculatePots_holes [of gs i c] by (simp add: assms(2) upd_seat_def)
  assume inv: "chips_inv gs"
  let ?p = "gs_players gs ! i"
  have "?p \<in> set (gs_players gs)" using assms(1) by simp
  then have "player_ok ?p" "CanAct ?p \<Longrightarrow> p_currentBet ?p \<le> gs_currentBet gs"
    "gs_currentBet gs \<le> 2 ^ 60" "0 \<le> gs_minRaise gs"
    using inv unfolding chips_inv_def by blast+
  then show "chips_inv g"
    using chips_inv_upd(1) [OF inv assms(1), of "\<lambda>p. p\<lparr>p_holes := c\<rparr>" "gs_currentBet gs" "gs_minRaise gs" g "gs_lastRaiserIdx gs"]
    by (simp add: assms(2) player_ok_def CanAct_def upd_seat_def)
qed

lemma ApplyHoleReveal_hand:
  assumes inv: "hand_inv gs" and ok: "ApplyHoleReveal pid cards gs = (None, h)"
  shows "hand_inv h \<and> chips_flow gs h"
proof -
  note r = ApplyHoleReveal_ok [OF ok]
  obtain i g where i: "i < length (gs_players gs)"
    and g: "g = gs \<or> g = upd_seat i (\<lambda>p. p\<lparr>p_holes := cards\<rparr>) gs"
    and h: "if remainingHolesIncomplete g then h = g else distributePots g = (None, h)"
    using r(3) by blast
  have gi: "chips_inv gs" "\<not> onlyOneRemaining gs" "gs_pots gs = CalculatePots (gs_players gs)"
    using inv r(2) by (auto simp: hand_inv_def)
  have gg: "chips_inv g" "\<not> onlyOneRemaining g" "gs_pots g = CalculatePots (gs_players g)"
    "table_chips g = table_chips gs" "map p_id (gs_players g) = map p_id (gs_players gs)"
    using g upd_holes_same [OF i, of g cards] gi by auto
  have ph: "gs_phase g = PhaseShowdown" using g r(2) by auto
  show ?thesis
  proof (cases "remainingHolesIncomplete g")
    case True
    then show ?thesis using h gg ph by (simp add: hand_inv_def chips_flow_def)
  next
    case False
    then have d: "distributePots g = (None, h)" using h by simp
    have "money_step g h"
      using distribute_money_step [OF gg(1,3,2) d] False by simp
    then have "chips_flow g h" using ph by (simp add: money_step_flow)
    moreover have "gs_phase h = PhaseSettled" using d by (rule distributePots_phase)
    ultimately show ?thesis using money_flow_trans [OF gg(5,4)] by (simp add: hand_inv_def)
  qed
qed

section \<open>Opening a hand\<close>

lemma bets_zero:
  "\<forall>p\<in>set ps. p_totalBet p = 0 \<Longrightarrow> (\<Sum>p\<leftarrow>ps. p_totalBet p) = (0 :: int)"
  by (induction ps) auto

text \<open>What the callers set up: fresh players, chips that fit, blinds that are not negative.\<close>

definition fresh_hand :: "game_state \<Rightarrow> bool" where
  "fresh_hand gs \<longleftrightarrow> gs_phase gs = PhaseWaiting \<and> gs_currentBet gs = 0 \<and> gs_community gs = []
     \<and> gs_dealerIdx gs < length (gs_players gs)
     \<and> (\<forall>p\<in>set (gs_players gs). 0 \<le> p_stack p \<and> p_status p = StatusActive
          \<and> p_currentBet p = 0 \<and> p_totalBet p = 0)
     \<and> stacks gs < 2 ^ 59 \<and> 0 \<le> gs_smallBlind gs \<and> 0 \<le> gs_bigBlind gs \<and> 0 \<le> gs_minRaise gs"

lemma fresh_NewGameState:
  assumes "d < length ps" and "\<forall>p\<in>set ps. 0 \<le> p_stack p" and "(\<Sum>p\<leftarrow>ps. p_stack p) < 2 ^ 59"
    and "0 \<le> sb" and "0 \<le> bb"
  shows "fresh_hand (NewGameState t n ps d sb bb)"
  using assms by (simp add: fresh_hand_def NewGameState_def stacks_def comp_def ResetForNewHand_def)

lemma fresh_chips_inv:
  assumes "fresh_hand gs"
  shows "chips_inv gs" and "bets gs = 0"
proof -
  show b: "bets gs = 0" unfolding bets_def using assms by (intro bets_zero) (simp add: fresh_hand_def)
  show "chips_inv gs"
    using assms b by (simp add: chips_inv_def fresh_hand_def player_ok_def)
qed

definition blind_seats :: "game_state \<Rightarrow> nat \<times> nat" where
  "blind_seats gs = (let n = length (gs_players gs); d = gs_dealerIdx gs
     in if n = 2 then (d, (d + 1) mod n) else ((d + 1) mod n, (d + 2) mod n))"

lemma blind_seats_ok:
  assumes "2 \<le> length (gs_players gs)" and "gs_dealerIdx gs < length (gs_players gs)"
    and "blind_seats gs = (i, j)"
  shows "i < length (gs_players gs)" "j < length (gs_players gs)" "i \<noteq> j"
proof -
  have pos: "length (gs_players gs) > 0" using assms(1) by linarith
  then show "i < length (gs_players gs)" "j < length (gs_players gs)"
    using assms by (auto simp: blind_seats_def Let_def split: if_splits)
  show "i \<noteq> j"
  proof (cases "length (gs_players gs) = 2")
    case True
    then have "gs_dealerIdx gs = 0 \<or> gs_dealerIdx gs = 1" using assms(2) by linarith
    then show ?thesis using assms(3) True by (auto simp: blind_seats_def Let_def)
  next
    case False
    then have "(d + 1) mod length (gs_players gs) \<noteq> (d + 2) mod length (gs_players gs)" for d
    proof -
      have "Suc (d + 1) mod length (gs_players gs) \<noteq> (d + 1) mod length (gs_players gs)"
        using assms(1) by (auto simp: mod_Suc)
      then show ?thesis by simp
    qed
    then show ?thesis using assms(3) False by (auto simp: blind_seats_def Let_def)
  qed
qed

lemma postBlinds_eq:
  assumes "blind_seats gs = (i, j)" and "i \<noteq> j"
    and "sb = PlaceBet (gs_smallBlind gs) (gs_players gs ! i)"
    and "bb = PlaceBet (gs_bigBlind gs) (gs_players gs ! j)"
  shows "\<exists>lg. postBlinds gs = (None, (upd_seat j (\<lambda>p. snd (PlaceBet (gs_bigBlind gs) p))
      (upd_seat i (\<lambda>p. snd (PlaceBet (gs_smallBlind gs) p)) gs))
        \<lparr>gs_currentBet := max (fst sb) (fst bb), gs_log := lg\<rparr>)"
proof -
  have nth: "gs_players (upd_seat i f gs) ! j = gs_players gs ! j" for f
    using assms(2) by (simp add: upd_seat_def)
  have const: "upd_seat k (\<lambda>_. f (gs_players g ! k)) g = upd_seat k f g" for k f g
    by (simp add: upd_seat_def)
  have max: "(if a > b then a else b) = max a b" for a b :: int by simp
  obtain x p where sb: "PlaceBet (gs_smallBlind gs) (gs_players gs ! i) = (x, p)" by fastforce
  obtain y q where bb: "PlaceBet (gs_bigBlind gs) (gs_players gs ! j) = (y, q)" by fastforce
  have "upd_seat i (\<lambda>_. p) gs = upd_seat i (\<lambda>p. snd (PlaceBet (gs_smallBlind gs) p)) gs"
    "upd_seat j (\<lambda>_. q) (upd_seat i f gs) = upd_seat j (\<lambda>p. snd (PlaceBet (gs_bigBlind gs) p)) (upd_seat i f gs)" for f
    using sb bb nth by (simp_all add: upd_seat_def)
  moreover have "(if length (gs_players gs) = 2 then gs_dealerIdx gs else (gs_dealerIdx gs + 1) mod length (gs_players gs)) = i"
    "(if length (gs_players gs) = 2 then (gs_dealerIdx gs + 1) mod length (gs_players gs)
       else (gs_dealerIdx gs + 2) mod length (gs_players gs)) = j"
    using assms(1) by (auto simp: blind_seats_def Let_def split: if_splits)
  ultimately show ?thesis
    by (simp only: postBlinds_def Let_def prod.case sb bb nth upd_seat_sel assms(3,4) fst_conv max) blast
qed

lemma postBlinds_hand:
  assumes f: "fresh_hand gs" and n: "2 \<le> length (gs_players gs)" and pb: "postBlinds gs = (e, h)"
  shows "e = None" and "chips_inv h" and "stacks h + bets h = stacks gs" and "gs_phase h = PhaseWaiting"
    and "map p_id (gs_players h) = map p_id (gs_players gs)"
    and "map not_out (gs_players h) = map not_out (gs_players gs)"
    and "gs_deck h = gs_deck gs" and "gs_community h = gs_community gs"
    and "map p_holes (gs_players h) = map p_holes (gs_players gs)" and "gs_dealerIdx h = gs_dealerIdx gs"
proof -
  obtain i j where ij: "blind_seats gs = (i, j)" by fastforce
  have d: "gs_dealerIdx gs < length (gs_players gs)" using f by (simp add: fresh_hand_def)
  note s = blind_seats_ok [OF n d ij]
  let ?b = "\<lambda>n p. snd (PlaceBet n p)"
  let ?sb = "PlaceBet (gs_smallBlind gs) (gs_players gs ! i)" and ?bb = "PlaceBet (gs_bigBlind gs) (gs_players gs ! j)"
  let ?g1 = "upd_seat i (?b (gs_smallBlind gs)) gs"
  let ?g2 = "upd_seat j (?b (gs_bigBlind gs)) ?g1"
  obtain lg where h: "e = None" "h = ?g2\<lparr>gs_currentBet := max (fst ?sb) (fst ?bb), gs_log := lg\<rparr>"
    using postBlinds_eq [OF ij s(3) refl refl] pb by auto
  have fp: "p_status p = StatusActive" "p_currentBet p = 0" "player_ok p" "p_totalBet p = 0" if "p \<in> set (gs_players gs)" for p
    using f that by (auto simp: fresh_hand_def player_ok_def)
  have fb: "0 \<le> gs_smallBlind gs" "0 \<le> gs_bigBlind gs" "0 \<le> gs_minRaise gs" "gs_currentBet gs = 0"
    using f by (auto simp: fresh_hand_def)
  note inv = fresh_chips_inv [OF f]
  have pi: "gs_players gs ! i \<in> set (gs_players gs)" "gs_players gs ! j \<in> set (gs_players gs)" using s by simp_all
  have small: "p_stack p < 2 ^ 59" "player_chips p < 2 ^ 62" if "p \<in> set (gs_players gs)" for p
    using chips_inv_stacks(6) [OF inv(1) that] inv that fp(4) [OF that]
    by (auto simp: chips_inv_def player_chips_def)
  have sb: "fst ?sb = min (gs_smallBlind gs) (p_stack (gs_players gs ! i))"
    and bb: "fst ?bb = min (gs_bigBlind gs) (p_stack (gs_players gs ! j))"
    using PlaceBet_exact(1) [OF fp(3) small(2)] pi fb by blast+
  let ?h1 = "?g1\<lparr>gs_currentBet := fst ?sb, gs_minRaise := gs_minRaise gs, gs_lastRaiserIdx := gs_lastRaiserIdx gs\<rparr>"
  have st: "0 \<le> p_stack (gs_players gs ! i)" "0 \<le> p_stack (gs_players gs ! j)"
    "p_stack (gs_players gs ! i) < 2 ^ 59" "p_stack (gs_players gs ! j) < 2 ^ 59"
    using fp(3) pi small(1) by (auto simp: player_ok_def)
  have c1: "chips_inv ?h1" "stacks ?h1 + bets ?h1 = stacks gs + bets gs"
  proof -
    have "p_currentBet (gs_players gs ! i) + gs_smallBlind gs \<le> fst ?sb \<or> p_stack (gs_players gs ! i) \<le> gs_smallBlind gs"
      using fp(2) [OF pi(1)] sb by (auto simp: min_def)
    moreover have "gs_currentBet gs \<le> fst ?sb" "fst ?sb \<le> 2 ^ 60" using sb fb st by auto
    ultimately show "chips_inv ?h1" "stacks ?h1 + bets ?h1 = stacks gs + bets gs"
      using chips_inv_bet [OF inv(1) s(1) refl fb(1) _ _ fb(3) _ refl] by blast+
  qed
  have nth: "gs_players ?h1 ! j = gs_players gs ! j" using s(3) by (simp add: upd_seat_def)
  let ?h2 = "(upd_seat j (?b (gs_bigBlind gs)) ?h1)\<lparr>gs_currentBet := max (fst ?sb) (fst ?bb),
     gs_minRaise := gs_minRaise gs, gs_lastRaiserIdx := gs_lastRaiserIdx gs\<rparr>"
  have c2: "chips_inv ?h2" "stacks ?h2 + bets ?h2 = stacks ?h1 + bets ?h1"
  proof -
    have "p_currentBet (gs_players ?h1 ! j) + gs_bigBlind gs \<le> max (fst ?sb) (fst ?bb)
        \<or> p_stack (gs_players ?h1 ! j) \<le> gs_bigBlind gs"
      unfolding nth using fp(2) [OF pi(2)] bb by (auto simp: min_def)
    moreover have "gs_currentBet ?h1 \<le> max (fst ?sb) (fst ?bb)" "max (fst ?sb) (fst ?bb) \<le> 2 ^ 60"
      using sb bb st by auto
    moreover have "j < length (gs_players ?h1)" using s(2) by simp
    ultimately show "chips_inv ?h2" "stacks ?h2 + bets ?h2 = stacks ?h1 + bets ?h1"
      using chips_inv_bet [OF c1(1) _ refl fb(2) _ _ fb(3) _ refl] by blast+
  qed
  have pl: "gs_players h = gs_players ?h2" "gs_currentBet h = gs_currentBet ?h2"
    "gs_minRaise h = gs_minRaise ?h2" "gs_bigBlind h = gs_bigBlind ?h2"
    by (simp_all add: h(2) upd_seat_def)
  show "e = None" by (rule h(1))
  show "chips_inv h" using c2(1) unfolding chips_inv_def stacks_def bets_def pl .
  show "stacks h + bets h = stacks gs"
    using c2(2) c1(2) inv(2) unfolding stacks_def bets_def pl by simp
  show "gs_phase h = PhaseWaiting" "gs_deck h = gs_deck gs" "gs_community h = gs_community gs"
    "gs_dealerIdx h = gs_dealerIdx gs"
    using f by (simp_all add: h(2) fresh_hand_def)
  have keep: "map F (gs_players (upd_seat k (?b n) g)) = map F (gs_players g)"
    if "F (?b n (gs_players g ! k)) = F (gs_players g ! k)" for F :: "player \<Rightarrow> 'x" and k n g
    using that by (cases "k < length (gs_players g)")
      (simp_all add: upd_seat_def map_update list_update_same_conv list_update_beyond)
  have hp: "gs_players h = gs_players ?g2" by (simp add: h(2))
  show "map p_id (gs_players h) = map p_id (gs_players gs)"
    "map p_holes (gs_players h) = map p_holes (gs_players gs)"
    unfolding hp by (simp_all add: keep frame_simps)
  have "not_out (gs_players gs ! i)" "not_out (gs_players gs ! j)"
    using fp(1) pi by (simp_all add: not_out_def)
  moreover have "gs_players ?g1 ! j = gs_players gs ! j" using s(3) by (simp add: upd_seat_def)
  ultimately show "map not_out (gs_players h) = map not_out (gs_players gs)"
    unfolding hp using fp(1) pi by (simp add: keep not_out_def PlaceBet_status)
qed

lemma open_preflop_hand:
  assumes "chips_inv g" and "\<not> onlyOneRemaining g" and "gs_phase g = PhaseWaiting"
  shows "hand_inv (open_preflop g)" and "table_chips (open_preflop g) = stacks g + bets g"
    and "map p_id (gs_players (open_preflop g)) = map p_id (gs_players g)"
    and "gs_phase (open_preflop g) = PhasePreFlop"
proof -
  let ?h = "open_preflop g"
  have pl: "gs_players ?h = gs_players g" "gs_phase ?h = PhasePreFlop"
    "gs_currentBet ?h = gs_currentBet g" "gs_minRaise ?h = gs_minRaise g" "gs_bigBlind ?h = gs_bigBlind g"
    by (simp_all add: open_preflop_def Let_def)
  have "turn_ok ?h"
    using nextActiveIndex_range [of "bigBlindIndex g" g]
    by (cases "nextActiveIndex (bigBlindIndex g) g = -1")
      (simp_all add: turn_ok_def open_preflop_def Let_def)
  moreover have "chips_inv ?h" using assms(1) unfolding chips_inv_def stacks_def bets_def pl .
  moreover have "\<not> onlyOneRemaining ?h" using assms(2) unfolding onlyOneRemaining_def pl .
  ultimately show "hand_inv ?h" using pl(2) by (simp add: hand_inv_def)
  show "table_chips ?h = stacks g + bets g" by (simp add: table_chips_def pl stacks_def bets_def)
  show "map p_id (gs_players ?h) = map p_id (gs_players g)" "gs_phase ?h = PhasePreFlop" by (simp_all add: pl)
qed

lemma fresh_not_one:
  assumes "fresh_hand gs" and "2 \<le> length (gs_players gs)"
    and "map not_out (gs_players h) = map not_out (gs_players gs)"
  shows "\<not> onlyOneRemaining h"
proof -
  have "map not_out (gs_players gs) = map (\<lambda>_. True) (gs_players gs)"
    using assms(1) by (auto simp: fresh_hand_def not_out_def)
  then have "filter id (map not_out (gs_players h)) = map (\<lambda>_. True) (gs_players gs)"
    unfolding assms(3) by (simp add: filter_map comp_def)
  then have "length (filter id (map not_out (gs_players h))) = length (gs_players gs)" by simp
  then show ?thesis unfolding onlyOne_count using assms(2) by linarith
qed

lemma StartHandCrypto_hand:
  assumes f: "fresh_hand gs" and ok: "StartHandCrypto gs = (None, h)"
  shows "hand_inv h" and "table_chips h = stacks gs" and "gs_phase h = PhasePreFlop" and "cryptoMode h"
    and "map p_id (gs_players h) = map p_id (gs_players gs)" and "gs_community h = []"
    and "map p_holes (gs_players h) = map p_holes (gs_players gs)"
proof -
  let ?gs = "gs\<lparr>gs_deck := None\<rparr>"
  have n: "2 \<le> length (gs_players gs)" using ok by (auto simp: StartHandCrypto_def split: if_splits)
  obtain g where g: "postBlinds ?gs = (None, g)" and h: "h = open_preflop g"
    using ok by (auto simp: StartHandCrypto_def andthen_ok_iff split: if_splits)
  have f': "fresh_hand ?gs" using f by (simp add: fresh_hand_def stacks_def)
  have st: "stacks ?gs = stacks gs" by (simp add: stacks_def)
  have n': "2 \<le> length (gs_players ?gs)" using n by simp
  note p = postBlinds_hand [OF f' n' g]
  have one: "\<not> onlyOneRemaining g" using fresh_not_one [OF f' n' p(6)] .
  note o = open_preflop_hand [OF p(2) one p(4)]
  show "hand_inv h" "table_chips h = stacks gs" "gs_phase h = PhasePreFlop"
    "map p_id (gs_players h) = map p_id (gs_players gs)"
    using o p(3,5) st by (simp_all add: h)
  show "cryptoMode h" "gs_community h = []" "map p_holes (gs_players h) = map p_holes (gs_players gs)"
    using p(7,8,9) f by (simp_all add: h cryptoMode_def open_preflop_def Let_def fresh_hand_def)
qed

text \<open>Dealing the hole cards from the local deck moves no chips.\<close>

definition only_cards :: "game_state \<Rightarrow> game_state \<Rightarrow> bool" where
  "only_cards g h \<longleftrightarrow> map (\<lambda>p. p\<lparr>p_holes := (zero_card, zero_card)\<rparr>) (gs_players h)
       = map (\<lambda>p. p\<lparr>p_holes := (zero_card, zero_card)\<rparr>) (gs_players g)
     \<and> gs_phase h = gs_phase g \<and> gs_currentBet h = gs_currentBet g \<and> gs_minRaise h = gs_minRaise g
     \<and> gs_bigBlind h = gs_bigBlind g \<and> gs_community h = gs_community g"

lemma only_cards_deal_hole: "only_cards g (snd (deal_hole b i g))"
proof -
  have "map (\<lambda>p. p\<lparr>p_holes := (zero_card, zero_card)\<rparr>) ((gs_players g)[i := (gs_players g ! i)\<lparr>p_holes := c\<rparr>])
      = map (\<lambda>p. p\<lparr>p_holes := (zero_card, zero_card)\<rparr>) (gs_players g)" for c
    by (cases "i < length (gs_players g)")
      (simp_all add: map_update list_update_same_conv list_update_beyond)
  then show ?thesis
    by (auto simp: deal_hole_def only_cards_def upd_seat_def split: prod.splits sum.splits)
qed

lemma only_cards_fold:
  "only_cards g (snd r) \<Longrightarrow> only_cards g (snd (fold (\<lambda>(b, i) r. andthen r (deal_hole b i)) xs r))"
proof (induction xs arbitrary: r)
  case (Cons x xs)
  obtain e h where r: "r = (e, h)" by fastforce
  obtain b i where x: "x = (b, i)" by fastforce
  have "only_cards g (snd (andthen r (deal_hole b i)))"
    using Cons.prems only_cards_deal_hole [of h b i] by (cases e) (auto simp: r only_cards_def)
  from Cons.IH [OF this] show ?case by (simp add: x)
qed simp

lemma only_cards_chips:
  assumes "only_cards g h"
  shows "stacks h = stacks g" "bets h = bets g" "map p_id (gs_players h) = map p_id (gs_players g)"
    "map not_out (gs_players h) = map not_out (gs_players g)" "gs_phase h = gs_phase g"
    "chips_inv g \<Longrightarrow> chips_inv h"
proof -
  let ?f = "\<lambda>p. p\<lparr>p_holes := (zero_card, zero_card)\<rparr>"
  have m: "map ?f (gs_players h) = map ?f (gs_players g)" using assms by (simp add: only_cards_def)
  have F: "map F (gs_players h) = map F (gs_players g)" if "\<And>p. F (?f p) = F p" for F :: "player \<Rightarrow> 'x"
    using arg_cong [OF m, of "map F"] that by (simp add: comp_def)
  show s: "stacks h = stacks g" "bets h = bets g"
    using F [of p_stack] F [of p_totalBet] by (simp_all add: stacks_def bets_def)
  show "map p_id (gs_players h) = map p_id (gs_players g)"
    "map not_out (gs_players h) = map not_out (gs_players g)"
    using F [of p_id] F [of not_out] by (simp_all add: not_out_def)
  show "gs_phase h = gs_phase g" using assms by (simp add: only_cards_def)
  let ?P = "\<lambda>c p. player_ok p \<and> (CanAct p \<longrightarrow> p_currentBet p \<le> c)"
  have "map (?P c) (gs_players h) = map (?P c) (gs_players g)" for c
    by (rule F) (simp add: player_ok_def CanAct_def)
  moreover have "(\<forall>p\<in>set ps. ?P c p) \<longleftrightarrow> list_all id (map (?P c) ps)" for c ps
    by (simp add: list_all_iff)
  ultimately have P: "(\<forall>p\<in>set (gs_players h). ?P c p) \<longleftrightarrow> (\<forall>p\<in>set (gs_players g). ?P c p)" for c
    by (simp only:)
  show "chips_inv g \<Longrightarrow> chips_inv h"
    using s P [of "gs_currentBet g"] assms unfolding chips_inv_def only_cards_def by auto
qed

lemma StartHand_hand:
  assumes f: "fresh_hand gs" and ok: "StartHand draws gs = (None, h)"
  shows "hand_inv h" and "table_chips h = stacks gs" and "gs_phase h = PhasePreFlop"
    and "map p_id (gs_players h) = map p_id (gs_players gs)"
proof -
  have n: "2 \<le> length (gs_players gs)" using ok by (auto simp: StartHand_def split: if_splits)
  obtain d g k where g: "postBlinds (gs\<lparr>gs_deck := d\<rparr>) = (None, g)" and k: "dealHoleCards g = (None, k)"
    and h: "h = open_preflop k"
    using ok by (auto simp: StartHand_def andthen_ok_iff split: if_splits option.splits)
  let ?gs = "gs\<lparr>gs_deck := d\<rparr>"
  have f': "fresh_hand ?gs" using f by (simp add: fresh_hand_def stacks_def)
  have st: "stacks ?gs = stacks gs" by (simp add: stacks_def)
  have n': "2 \<le> length (gs_players ?gs)" using n by simp
  note p = postBlinds_hand [OF f' n' g]
  have "only_cards g (snd (None :: machine_error option, g))" by (simp add: only_cards_def)
  then have "only_cards g (snd (dealHoleCards g))"
    unfolding dealHoleCards_def Let_def by (rule only_cards_fold)
  then have oc: "only_cards g k" by (simp add: k)
  note c = only_cards_chips [OF oc]
  have one: "\<not> onlyOneRemaining k" using fresh_not_one [OF f' n', of k] c(4) p(6) by simp
  have ph: "gs_phase k = PhaseWaiting" using c(5) p(4) by simp
  note o = open_preflop_hand [OF c(6) [OF p(2)] one ph]
  show "hand_inv h" "table_chips h = stacks gs" "gs_phase h = PhasePreFlop"
    "map p_id (gs_players h) = map p_id (gs_players gs)"
    using o p(3,5) st c by (simp_all add: h)
qed

section \<open>The step relation\<close>

text \<open>
  The successful operations of a hand, but for a raise whose arithmetic wraps around: the code accepts
  that, and it creates chips (see \<open>raise_overflow_mints\<close>).
\<close>

inductive hand_step :: "game_state \<Rightarrow> game_state \<Rightarrow> bool" where
  action: "\<not> raise_wraps a gs \<Longrightarrow> ApplyAction a gs = (None, h) \<Longrightarrow> hand_step gs h"
| street: "ApplyStreet cards gs = (None, h) \<Longrightarrow> hand_step gs h"
| reveal: "ApplyHoleReveal pid cards gs = (None, h) \<Longrightarrow> hand_step gs h"

inductive_cases hand_stepE: "hand_step gs h"

lemma hand_step_inv: "hand_step gs h \<Longrightarrow> hand_inv gs \<Longrightarrow> hand_inv h \<and> chips_flow gs h"
  by (erule hand_step.cases) (use ApplyAction_hand ApplyStreet_hand ApplyHoleReveal_hand in blast)+

lemma settled_final: "hand_step gs h \<Longrightarrow> gs_phase gs \<noteq> PhaseSettled"
  by (erule hand_stepE)
    (auto simp: ApplyAction_def ApplyStreet_def ApplyHoleReveal_def betting_phase_def split: if_splits)

lemma hand_steps_inv:
  assumes "hand_step\<^sup>*\<^sup>* gs h" and "hand_inv gs"
  shows "hand_inv h \<and> chips_flow gs h"
  using assms(1)
proof induction
  case base
  then show ?case using assms(2) by (simp add: chips_flow_def)
next
  case (step g h)
  have s: "hand_inv h \<and> chips_flow g h" using hand_step_inv step by blast
  have "gs_phase g \<noteq> PhaseSettled" using settled_final [OF step(2)] .
  then have "table_chips g = table_chips gs" using step.IH by (simp add: chips_flow_def)
  with s step.IH show ?case
    using money_flow_trans [of g gs h] by (simp add: chips_flow_def)
qed

section \<open>Properties\<close>

text \<open>
  C1: Chip conservation over a whole hand. From a fresh table whose chips fit, dealt locally or in
  crypto mode, after any sequence of successful actions, streets and reveals without a raise that
  wraps around an \<open>int64\<close> (the code accepts such a raise, and it creates chips) the invariant holds
  and the table never has more chips than were brought; until the hand is settled it has exactly
  these, and the settled table has them all when everybody else is out or a player with the largest
  bet has not folded.
\<close>

theorem hand_chips:
  assumes "fresh_hand gs0" and "StartHandCrypto gs0 = (None, gs) \<or> StartHand draws gs0 = (None, gs)"
    and "hand_step\<^sup>*\<^sup>* gs h"
  shows "hand_inv h \<and> table_chips h \<le> stacks gs0
    \<and> (gs_phase h \<noteq> PhaseSettled \<or> (ids_distinct h \<and> (top_bet_in h \<or> onlyOneRemaining h))
         \<longrightarrow> table_chips h = stacks gs0)"
proof -
  have s: "hand_inv gs" "table_chips gs = stacks gs0"
    using assms(1,2) StartHandCrypto_hand StartHand_hand by blast+
  from hand_steps_inv [OF assms(3) s(1)] show ?thesis
    by (auto simp: chips_flow_def s(2))
qed

definition demo_table :: "int list \<Rightarrow> game_state" where
  "demo_table stks = NewGameState ''t'' 1 (map (\<lambda>(i, s). NewPlayer [char_of (97 + i)] '''' s) (zip [0..<length stks] stks)) 0 5 10"

definition demo_folded :: game_state where
  "demo_folded = snd (ApplyAction (mk_action ''a'' ActionFold 0) (snd (StartHandCrypto (demo_table [100, 200]))))"

theorem hand_chips_witness:
  "gs_phase demo_folded = PhaseSettled \<and> table_chips demo_folded = 300"
proof -
  have f: "fresh_hand (demo_table [100, 200])" by code_simp
  have s: "fst (StartHandCrypto (demo_table [100, 200])) = None" by code_simp
  have r: "fst (ApplyAction (mk_action ''a'' ActionFold 0) (snd (StartHandCrypto (demo_table [100, 200])))) = None"
    by code_simp
  have p: "gs_phase demo_folded = PhaseSettled \<and> ids_distinct demo_folded \<and> onlyOneRemaining demo_folded
    \<and> stacks (demo_table [100, 200]) = 300" by code_simp
  have "ApplyAction (mk_action ''a'' ActionFold 0) (snd (StartHandCrypto (demo_table [100, 200]))) = (None, demo_folded)"
    unfolding demo_folded_def using r by (metis prod.collapse)
  then have "hand_step\<^sup>*\<^sup>* (snd (StartHandCrypto (demo_table [100, 200]))) demo_folded"
    by (intro r_into_rtranclp hand_step.action) (simp_all add: raise_wraps_def)
  moreover have "StartHandCrypto (demo_table [100, 200]) = (None, snd (StartHandCrypto (demo_table [100, 200])))"
    using s by (metis prod.collapse)
  ultimately have "table_chips demo_folded = stacks (demo_table [100, 200])"
    using hand_chips [OF f disjI1] p by blast
  then show ?thesis using p by simp
qed

end
