(* ===== verification/HandCards.thy ===== *)
theory HandCards
  imports HandRules
begin

text \<open>
  A hand in crypto mode: the round endings in closed form, the cards that are on the table and in
  the hands, the size of the board in each phase, which operations can fail, and who can act.
\<close>

section \<open>Round endings in crypto mode\<close>

lemma endBettingRound_crypto:
  "cryptoMode gs \<Longrightarrow> endBettingRound gs =
     (let g = gs\<lparr>gs_pots := CalculatePots (gs_players gs)\<rparr>
      in if gs_phase gs \<in> {PhasePreFlop, PhaseFlop, PhaseTurn} then (None, g\<lparr>gs_phase := PhaseAwaitingStreet\<rparr>)
         else if gs_phase gs = PhaseRiver then startShowdown g
         else (Some (UnexpectedPhase (gs_phase gs)), g))"
  by (cases "gs_phase gs") (simp_all add: endBettingRound.simps [of gs] Let_def cryptoMode_def)

definition round_start :: "game_state \<Rightarrow> game_state" where
  "round_start gs = (let g = begin_round gs; first = nextActiveIndex (gs_dealerIdx g) g
     in if first = -1 then g else g\<lparr>gs_actionIdx := first\<rparr>)"

lemma startNewBettingRound_crypto:
  assumes "cryptoMode gs"
  shows "startNewBettingRound gs =
     (if countCanAct (round_start gs) \<le> 1 then endBettingRound (round_start gs) else (None, round_start gs))"
proof -
  let ?g = "begin_round gs"
  let ?f = "nextActiveIndex (gs_dealerIdx ?g) ?g"
  have c: "cryptoMode ?g" using assms by (simp add: cryptoMode_def begin_round_def)
  have "countCanAct ?g = 0" if "?f = -1"
  proof -
    have "\<forall>p\<in>set (gs_players ?g). \<not> CanAct p" using that by (simp only: nextActiveIndex_none)
    then show ?thesis by (simp add: countCanAct_def filter_empty_conv)
  qed
  moreover have "countCanAct (?g\<lparr>gs_actionIdx := x\<rparr>) = countCanAct ?g" for x by (simp add: countCanAct_def)
  ultimately show ?thesis
    unfolding startNewBettingRound.simps [of gs] round_start_def Let_def using c by simp
qed

section \<open>Cards and mode are left alone by betting\<close>

definition same_cards :: "game_state \<Rightarrow> game_state \<Rightarrow> bool" where
  "same_cards gs h \<longleftrightarrow> gs_community h = gs_community gs \<and> gs_deck h = gs_deck gs
     \<and> map p_holes (gs_players h) = map p_holes (gs_players gs)
     \<and> map p_id (gs_players h) = map p_id (gs_players gs)"

lemma same_cards_refl [simp]: "same_cards gs gs"
  by (simp add: same_cards_def)

lemma same_cards_trans: "same_cards a b \<Longrightarrow> same_cards b c \<Longrightarrow> same_cards a c"
  by (simp add: same_cards_def)

lemma same_seats_cards: "same_seats gs h \<Longrightarrow> same_cards gs h"
  using same_seats_length [of gs h] same_seats_nth [of gs h]
  by (auto simp: same_cards_def same_seats_def intro!: nth_equalityI)

lemma fold_pay_same_seats: "same_seats gs (fold (pay n) ws gs)"
proof (induction ws arbitrary: gs)
  case (Cons w ws)
  show ?case using same_seats_trans [OF pay_same_seats Cons.IH] by simp
qed simp

lemma distribute_pot_same_seats: "same_seats gs (distribute_pot comm pot gs)"
  unfolding distribute_pot_def Let_def
  using same_seats_trans [OF fold_pay_same_seats pay_same_seats] fold_pay_same_seats by simp

lemma fold_distribute_same_seats: "same_seats gs (fold (distribute_pot comm) pots gs)"
proof (induction pots arbitrary: gs)
  case (Cons q pots)
  show ?case using same_seats_trans [OF distribute_pot_same_seats Cons.IH] by simp
qed simp

lemma distributePots_cards: "same_cards gs (snd (distributePots gs))"
  using same_seats_cards [OF fold_distribute_same_seats [of gs "gs_community gs" "gs_pots gs"]]
  by (auto simp: distributePots_def Let_def same_cards_def)

lemma distributePots_result:
  "\<not> (cryptoMode gs \<and> remainingHolesIncomplete gs) \<Longrightarrow>
     fst (distributePots gs) = None \<and> gs_phase (snd (distributePots gs)) = PhaseSettled"
  by (simp add: distributePots_def Let_def)

lemma startShowdown_cards: "same_cards gs (snd (startShowdown gs))"
  using same_cards_trans [OF _ distributePots_cards,
      of gs "gs\<lparr>gs_phase := PhaseShowdown, gs_pots := CalculatePots (gs_players gs)\<rparr>"]
  by (auto simp: startShowdown_def Let_def same_cards_def)

lemma startShowdown_result:
  "fst (startShowdown gs) = None \<and> gs_phase (snd (startShowdown gs)) \<in> {PhaseShowdown, PhaseSettled}"
  using distributePots_result [of "gs\<lparr>gs_phase := PhaseShowdown, gs_pots := CalculatePots (gs_players gs)\<rparr>"]
  by (auto simp: startShowdown_def Let_def)

text \<open>Board sizes: what the phase says about the number of community cards.\<close>

fun board_size :: "Phase \<Rightarrow> nat set" where
  "board_size PhaseWaiting = {0}"
| "board_size PhasePreFlop = {0}"
| "board_size PhaseFlop = {3}"
| "board_size PhaseTurn = {4}"
| "board_size PhaseRiver = {5}"
| "board_size PhaseAwaitingStreet = {0, 3, 4}"
| "board_size PhaseShowdown = {5}"
| "board_size PhaseSettled = {0, 3, 4, 5}"

definition board_ok :: "game_state \<Rightarrow> bool" where
  "board_ok gs \<longleftrightarrow> length (gs_community gs) \<in> board_size (gs_phase gs)"

lemma endBettingRound_board:
  assumes "cryptoMode gs" and "betting_phase (gs_phase gs)" and "board_ok gs"
  shows "fst (endBettingRound gs) = None" and "same_cards gs (snd (endBettingRound gs))"
    and "board_ok (snd (endBettingRound gs))"
proof -
  let ?g = "gs\<lparr>gs_pots := CalculatePots (gs_players gs)\<rparr>"
  have sc: "same_cards gs (snd (startShowdown ?g))"
    using same_cards_trans [OF _ startShowdown_cards, of gs ?g] by (simp add: same_cards_def)
  have "length (gs_community (snd (startShowdown ?g))) = length (gs_community gs)"
    using sc by (simp add: same_cards_def)
  then have "gs_phase gs = PhaseRiver \<Longrightarrow> board_ok (snd (startShowdown ?g))"
    using startShowdown_result [of ?g] assms(3) by (auto simp: board_ok_def)
  moreover have "gs_phase gs \<in> {PhasePreFlop, PhaseFlop, PhaseTurn, PhaseRiver}"
    using assms(2) by (cases "gs_phase gs") simp_all
  ultimately show "fst (endBettingRound gs) = None" "same_cards gs (snd (endBettingRound gs))"
    "board_ok (snd (endBettingRound gs))"
    using assms(3) startShowdown_result [of ?g] sc
    unfolding endBettingRound_crypto [OF assms(1)] Let_def
    by (auto simp: board_ok_def same_cards_def)
qed

lemma startNewBettingRound_board:
  assumes "cryptoMode gs" and "betting_phase (gs_phase gs)" and "board_ok gs"
  shows "fst (startNewBettingRound gs) = None" and "same_cards gs (snd (startNewBettingRound gs))"
    and "board_ok (snd (startNewBettingRound gs))"
proof -
  let ?g = "round_start gs"
  have c: "cryptoMode ?g" "betting_phase (gs_phase ?g)" "board_ok ?g" "same_cards gs ?g"
    using assms
    by (auto simp: round_start_def Let_def cryptoMode_def begin_round_def board_ok_def same_cards_def
        comp_def ResetForNewRound_def)
  note e = endBettingRound_board [OF c(1-3)]
  show "fst (startNewBettingRound gs) = None" "same_cards gs (snd (startNewBettingRound gs))"
    "board_ok (snd (startNewBettingRound gs))"
    unfolding startNewBettingRound_crypto [OF assms(1)]
    using e c same_cards_trans [OF c(4) e(2)] by simp_all
qed

lemma advanceAction_board:
  assumes "cryptoMode gs" and "betting_phase (gs_phase gs)" and "board_ok gs"
  shows "fst (advanceAction gs) = None" and "same_cards gs (snd (advanceAction gs))"
    and "board_ok (snd (advanceAction gs))"
  using endBettingRound_board [OF assms] assms(3)
  by (auto simp: advanceAction_def Let_def same_cards_def board_ok_def)

lemma resolveSingleWinner_board:
  assumes "board_ok gs" and "betting_phase (gs_phase gs)"
  shows "fst (resolveSingleWinner gs) = None" and "same_cards gs (snd (resolveSingleWinner gs))"
    and "board_ok (snd (resolveSingleWinner gs))"
proof -
  have p: "same_cards gs (pay n i (gs\<lparr>gs_pots := x\<rparr>))" for n i x
    using same_cards_trans [OF _ same_seats_cards [OF pay_same_seats], of gs "gs\<lparr>gs_pots := x\<rparr>"]
    by (simp add: same_cards_def)
  show "fst (resolveSingleWinner gs) = None" by (simp add: resolveSingleWinner_def Let_def)
  show sc: "same_cards gs (snd (resolveSingleWinner gs))"
    using p by (auto simp: resolveSingleWinner_def Let_def same_cards_def split: option.split)
  have "gs_phase gs \<in> {PhasePreFlop, PhaseFlop, PhaseTurn, PhaseRiver}"
    using assms(2) by (cases "gs_phase gs") simp_all
  then have "length (gs_community gs) \<in> {0, 3, 4, 5}" using assms(1) by (auto simp: board_ok_def)
  then show "board_ok (snd (resolveSingleWinner gs))"
    using sc by (simp add: board_ok_def same_cards_def) (simp add: resolveSingleWinner_def Let_def)
qed

lemma act_cards:
  assumes "act a i p gs = (e, h)"
  shows "same_cards gs h"
proof -
  have "map p_holes (gs_players (upd_seat i f gs)) = map p_holes (gs_players gs)"
    if "p_holes (f (gs_players gs ! i)) = p_holes (gs_players gs ! i)" for f gs
    using that by (cases "i < length (gs_players gs)")
      (simp_all add: upd_seat_def map_update list_update_same_conv list_update_beyond)
  then show ?thesis
    using assms act_frame [OF assms]
    by (auto simp: act_def Let_def same_cards_def frame_simps split: ActionType.splits if_splits)
qed

lemma after_action_board:
  assumes "cryptoMode gs" and "betting_phase (gs_phase gs)" and "board_ok gs"
  shows "fst (after_action a gs) = None" and "same_cards gs (snd (after_action a gs))"
    and "board_ok (snd (after_action a gs))"
proof -
  let ?g = "gs\<lparr>gs_log := gs_log gs @ [a], gs_roundActions := gs_roundActions gs + 1\<rparr>"
  have c: "cryptoMode ?g" "betting_phase (gs_phase ?g)" "board_ok ?g" "same_cards gs ?g"
    using assms by (simp_all add: cryptoMode_def board_ok_def same_cards_def)
  note a = advanceAction_board [OF c(1-3)] and r = resolveSingleWinner_board [OF c(3,2)]
  show "fst (after_action a gs) = None" "same_cards gs (snd (after_action a gs))"
    "board_ok (snd (after_action a gs))"
    unfolding after_action_def Let_def
    using a r same_cards_trans [OF c(4) a(2)] same_cards_trans [OF c(4) r(2)] by simp_all
qed

lemma ApplyAction_board:
  assumes "cryptoMode gs" and "board_ok gs"
  shows "same_cards gs (snd (ApplyAction a gs))" and "board_ok (snd (ApplyAction a gs))"
    and "fst (ApplyAction a gs) \<noteq> None \<Longrightarrow> snd (ApplyAction a gs) = gs"
proof -
  have "same_cards gs (snd (ApplyAction a gs)) \<and> board_ok (snd (ApplyAction a gs))
    \<and> (fst (ApplyAction a gs) \<noteq> None \<longrightarrow> snd (ApplyAction a gs) = gs)"
  proof (cases "betting_phase (gs_phase gs) \<and> CurrentPlayer gs \<noteq> None \<and> p_id (the (CurrentPlayer gs)) = a_player a")
    case False
    then show ?thesis using assms(2) by (auto simp: ApplyAction_def split: option.split)
  next
    case True
    then obtain p where p: "CurrentPlayer gs = Some p" "p_id p = a_player a" by auto
    obtain e g where g: "act a (nat (gs_actionIdx gs)) p gs = (e, g)" by fastforce
    note f = act_frame [OF g] and sc = act_cards [OF g]
    have eq: "ApplyAction a gs = andthen (e, g) (after_action a)"
      using True p g by (simp add: ApplyAction_def)
    show ?thesis
    proof (cases e)
      case (Some x)
      then show ?thesis using eq f(7) assms(2) by simp
    next
      case None
      have c: "cryptoMode g" "betting_phase (gs_phase g)" "board_ok g"
        using f True assms by (simp_all add: cryptoMode_def board_ok_def)
      show ?thesis
        using after_action_board [OF c] same_cards_trans [OF sc] eq None by simp
    qed
  qed
  then show "same_cards gs (snd (ApplyAction a gs))" "board_ok (snd (ApplyAction a gs))"
    "fst (ApplyAction a gs) \<noteq> None \<Longrightarrow> snd (ApplyAction a gs) = gs" by blast+
qed

section \<open>Every operation, and sequences of them\<close>

datatype hand_op = OpAction Action | OpStreet "card list" | OpReveal string "card \<times> card"

fun apply_op :: "hand_op \<Rightarrow> game_state \<Rightarrow> (machine_error, game_state) outcome" where
  "apply_op (OpAction a) gs = ApplyAction a gs"
| "apply_op (OpStreet cards) gs = ApplyStreet cards gs"
| "apply_op (OpReveal pid cards) gs = ApplyHoleReveal pid cards gs"

definition run_ops :: "hand_op list \<Rightarrow> game_state \<Rightarrow> game_state" where
  "run_ops ops gs = fold (\<lambda>op gs. snd (apply_op op gs)) ops gs"

definition table_cards :: "game_state \<Rightarrow> card list" where
  "table_cards gs = filter dealt (gs_community gs
     @ concat (map (\<lambda>p. [fst (p_holes p), snd (p_holes p)]) (gs_players gs)))"

lemma set_table_cards: "set (table_cards gs) = knownDealtCards gs"
  by (auto simp: table_cards_def knownDealtCards_def)

definition cards_ok :: "game_state \<Rightarrow> bool" where
  "cards_ok gs \<longleftrightarrow> distinct (table_cards gs) \<and> (\<forall>c\<in>set (gs_community gs). dealt c)"

text \<open>Cards once on the table stay: the board is extended, and a player's two cards never change.\<close>

definition cards_grow :: "game_state \<Rightarrow> game_state \<Rightarrow> bool" where
  "cards_grow gs h \<longleftrightarrow> take (length (gs_community gs)) (gs_community h) = gs_community gs
     \<and> length (gs_players h) = length (gs_players gs)
     \<and> (\<forall>i < length (gs_players gs). holeCardsDealt (gs_players gs ! i)
          \<longrightarrow> p_holes (gs_players h ! i) = p_holes (gs_players gs ! i))"

lemma cards_grow_trans: "cards_grow a b \<Longrightarrow> cards_grow b c \<Longrightarrow> cards_grow a c"
proof -
  assume ab: "cards_grow a b" and bc: "cards_grow b c"
  have "length (gs_community a) \<le> length (gs_community b)"
    using ab unfolding cards_grow_def by (metis length_take min.cobounded1)
  then have "take (length (gs_community a)) (gs_community c)
      = take (length (gs_community a)) (take (length (gs_community b)) (gs_community c))"
    by (simp add: min_absorb1)
  with ab bc show ?thesis by (simp add: cards_grow_def holeCardsDealt_def)
qed

lemma same_cards_table:
  assumes "same_cards gs h"
  shows "table_cards h = table_cards gs" and "cards_ok gs \<Longrightarrow> cards_ok h" and "cards_grow gs h"
    and "cryptoMode h = cryptoMode gs"
proof -
  have m: "map p_holes (gs_players h) = map p_holes (gs_players gs)" using assms by (simp add: same_cards_def)
  have e: "map (\<lambda>p. [fst (p_holes p), snd (p_holes p)]) ps = map (\<lambda>x. [fst x, snd x]) (map p_holes ps)" for ps
    by simp
  show t: "table_cards h = table_cards gs"
    unfolding table_cards_def e m using assms by (simp add: same_cards_def)
  show "cards_ok gs \<Longrightarrow> cards_ok h" using t assms by (simp add: cards_ok_def same_cards_def)
  have len: "length (gs_players h) = length (gs_players gs)" using m by (rule map_eq_imp_length_eq)
  have "p_holes (gs_players h ! i) = p_holes (gs_players gs ! i)" if "i < length (gs_players gs)" for i
    using arg_cong [OF m, of "\<lambda>xs. xs ! i"] that len by simp
  then show "cards_grow gs h" using assms len by (simp add: cards_grow_def same_cards_def)
  show "cryptoMode h = cryptoMode gs" using assms by (simp add: same_cards_def cryptoMode_def)
qed

lemma check_street_None:
  "check_street seen cs = None \<longleftrightarrow> (\<forall>c\<in>set cs. dealt c) \<and> distinct cs \<and> set cs \<inter> seen = {}"
  by (induction seen cs rule: check_street.induct) auto

lemma cards_ok_street:
  assumes "cards_ok gs" and "check_street (knownDealtCards gs) cs = None"
    and "gs_players g = gs_players gs" and "gs_community g = gs_community gs @ cs" and "gs_deck g = gs_deck gs"
  shows "cards_ok g" and "cards_grow gs g"
proof -
  have c: "\<forall>c\<in>set cs. dealt c" "distinct cs" "set cs \<inter> set (table_cards gs) = {}"
    using assms(2) by (simp_all add: check_street_None set_table_cards)
  then have "filter dealt cs = cs" by simp
  moreover have "distinct (table_cards gs)" "\<forall>c\<in>set (gs_community gs). dealt c"
    using assms(1) by (simp_all add: cards_ok_def)
  ultimately show "cards_ok g"
    using c assms(3,4) unfolding cards_ok_def table_cards_def by auto
  show "cards_grow gs g" using assms(3,4) by (simp add: cards_grow_def)
qed

lemma cards_ok_holes:
  assumes "cards_ok gs" and i: "i < length (gs_players gs)" and d: "\<not> holeCardsDealt (gs_players gs ! i)"
    and c: "dealt (fst cs)" "dealt (snd cs)" "fst cs \<noteq> snd cs"
      "fst cs \<notin> knownDealtCards gs" "snd cs \<notin> knownDealtCards gs"
    and g: "g = upd_seat i (\<lambda>p. p\<lparr>p_holes := cs\<rparr>) gs"
  shows "cards_ok g" and "cards_grow gs g"
proof -
  let ?F = "\<lambda>p. [fst (p_holes p), snd (p_holes p)]"
  let ?ps = "gs_players gs"
  have old: "map ?F ?ps = map ?F (take i ?ps) @ ?F (?ps ! i) # map ?F (drop (Suc i) ?ps)"
    using arg_cong [OF id_take_nth_drop [OF i], of "map ?F"] by (simp only: map_append list.map)
  have new: "map ?F (gs_players g) = map ?F (take i ?ps) @ [fst cs, snd cs] # map ?F (drop (Suc i) ?ps)"
    using i by (simp add: g upd_seat_def upd_conv_take_nth_drop)
  have n: "fst cs \<notin> set (table_cards gs)" "snd cs \<notin> set (table_cards gs)"
    using c by (simp_all add: set_table_cards)
  define A where "A = filter dealt (gs_community gs @ concat (map ?F (take i ?ps)))"
  define B where "B = filter dealt (concat (map ?F (drop (Suc i) ?ps)))"
  have tg: "table_cards gs = A @ filter dealt (?F (?ps ! i)) @ B"
    unfolding table_cards_def A_def B_def old by simp
  have "gs_community g = gs_community gs" by (simp add: g)
  then have "table_cards g = A @ [fst cs, snd cs] @ B"
    unfolding table_cards_def A_def B_def new using c by simp
  moreover have "distinct (table_cards gs)" using assms(1) by (simp add: cards_ok_def)
  ultimately have "distinct (table_cards g)"
    using n c(3) unfolding tg distinct_append set_append by (auto simp del: filter.simps)
  then show "cards_ok g" using assms(1) by (simp add: cards_ok_def g)
  show "cards_grow gs g"
    using i d by (auto simp: cards_grow_def g upd_seat_def nth_list_update)
qed

lemma apply_op_crypto:
  assumes "cryptoMode gs" and "board_ok gs" and "cards_ok gs"
  shows "cryptoMode (snd (apply_op op gs)) \<and> board_ok (snd (apply_op op gs)) \<and> cards_ok (snd (apply_op op gs))
    \<and> cards_grow gs (snd (apply_op op gs)) \<and> (fst (apply_op op gs) \<noteq> None \<longrightarrow> snd (apply_op op gs) = gs)"
proof (cases op)
  case (OpAction a)
  note b = ApplyAction_board [OF assms(1,2), of a]
  show ?thesis using b same_cards_table [OF b(1)] assms by (simp add: OpAction)
next
  case (OpStreet cards)
  have refl: "cards_grow gs gs" by (simp add: cards_grow_def)
  show ?thesis
  proof (cases "gs_phase gs = PhaseAwaitingStreet \<and> pendingStreetCount (length (gs_community gs)) = length cards
      \<and> pendingStreetCount (length (gs_community gs)) \<noteq> 0 \<and> check_street (knownDealtCards gs) cards = None")
    case False
    then have "snd (ApplyStreet cards gs) = gs"
      using assms(1) by (auto simp: ApplyStreet_def Let_def split: option.split)
    then show ?thesis using assms refl by (simp add: OpStreet)
  next
    case True
    define ph where "ph = (if length (gs_community gs) = 0 then PhaseFlop
      else if length (gs_community gs) = 3 then PhaseTurn else PhaseRiver)"
    let ?g = "gs\<lparr>gs_community := gs_community gs @ cards, gs_phase := ph\<rparr>"
    have k: "length (gs_community gs) \<in> {0, 3, 4}" "length cards = pendingStreetCount (length (gs_community gs))"
      using True assms(2) by (auto simp: board_ok_def)
    have eq: "ApplyStreet cards gs = startNewBettingRound ?g"
      using assms(1) True k by (auto simp: ApplyStreet_def Let_def ph_def pendingStreetCount_def)
    have g: "cryptoMode ?g" "betting_phase (gs_phase ?g)" "board_ok ?g"
      using assms(1) k by (auto simp: cryptoMode_def ph_def board_ok_def pendingStreetCount_def)
    have co: "cards_ok ?g" "cards_grow gs ?g"
      using cards_ok_street [OF assms(3), of cards ?g] True by simp_all
    note s = startNewBettingRound_board [OF g]
    note t = same_cards_table [OF s(2)]
    show ?thesis
      using s t(2) [OF co(1)] t(4) g(1) cards_grow_trans [OF co(2) t(3)] by (simp add: OpStreet eq)
  qed
next
  case (OpReveal pid cards)
  have refl: "cards_grow gs gs" by (simp add: cards_grow_def)
  obtain e h where r: "ApplyHoleReveal pid cards gs = (e, h)" by fastforce
  show ?thesis
  proof (cases e)
    case (Some x)
    have "h = gs"
      using r Some distributePots_result
      by (auto simp: ApplyHoleReveal_def Let_def split: if_splits) (metis fst_conv option.distinct(1))+
    then show ?thesis using r assms refl by (simp add: OpReveal)
  next
    case None
    note ok = ApplyHoleReveal_ok [OF r [unfolded None]]
    obtain i g where i: "i < length (gs_players gs)" "dealt (fst cards)" "dealt (snd cards)" "fst cards \<noteq> snd cards"
      and g: "g = gs \<or> (g = upd_seat i (\<lambda>p. p\<lparr>p_holes := cards\<rparr>) gs \<and> \<not> holeCardsDealt (gs_players gs ! i)
            \<and> fst cards \<notin> knownDealtCards gs \<and> snd cards \<notin> knownDealtCards gs)"
      and h: "if remainingHolesIncomplete g then h = g else distributePots g = (None, h)"
      using ok(3) by blast
    have gg: "cards_ok g" "cards_grow gs g" "board_ok g" "cryptoMode g" "gs_phase g = PhaseShowdown"
      using g cards_ok_holes [OF assms(3) i(1) _ i(2-4), of g] refl assms ok(2)
      by (auto simp: board_ok_def cryptoMode_def)
    show ?thesis
    proof (cases "remainingHolesIncomplete g")
      case True
      then show ?thesis using h gg r None by (simp add: OpReveal)
    next
      case False
      then have d: "distributePots g = (None, h)" using h by simp
      have sc: "same_cards g h" "gs_phase h = PhaseSettled"
        using distributePots_cards [of g] distributePots_phase [OF d] by (simp_all add: d)
      then have "board_ok h" using gg(3,5) by (simp add: board_ok_def same_cards_def)
      then show ?thesis
        using same_cards_table [OF sc(1)] gg cards_grow_trans [OF gg(2)] r None by (simp add: OpReveal)
    qed
  qed
qed

section \<open>Who can act, and with what effect on the others\<close>

text \<open>Nobody else's stack goes down and nobody else's bets change.\<close>

definition others_kept :: "nat \<Rightarrow> game_state \<Rightarrow> game_state \<Rightarrow> bool" where
  "others_kept i gs h \<longleftrightarrow> length (gs_players h) = length (gs_players gs)
     \<and> (\<forall>j < length (gs_players gs). j \<noteq> i \<longrightarrow>
          p_totalBet (gs_players h ! j) = p_totalBet (gs_players gs ! j)
          \<and> p_status (gs_players h ! j) = p_status (gs_players gs ! j)
          \<and> p_stack (gs_players gs ! j) \<le> p_stack (gs_players h ! j))"

lemma act_others: "act a i p gs = (e, g) \<Longrightarrow> \<forall>j < length (gs_players gs). j \<noteq> i \<longrightarrow> gs_players g ! j = gs_players gs ! j"
  by (auto simp: act_def Let_def upd_seat_def split: ActionType.splits if_splits)

lemma pay_stack_mono:
  assumes "stacks_ok gs" and "i < length (gs_players gs)" and "0 \<le> n" and "stacks gs + n < 2 ^ 62"
    and "j < length (gs_players gs)"
  shows "p_stack (gs_players gs ! j) \<le> p_stack (gs_players (pay n i gs) ! j)"
proof -
  have "p_stack (gs_players gs ! i) \<le> stacks gs"
    unfolding stacks_def using assms(1,2) by (intro member_le_sum_list) (auto simp: stacks_ok_def)
  moreover have "0 \<le> p_stack (gs_players gs ! i)" using assms(1,2) by (simp add: stacks_ok_def)
  ultimately have "w64 (p_stack (gs_players gs ! i) + n) = p_stack (gs_players gs ! i) + n"
    using assms(3,4) by (intro w64_id) (simp add: in64_def)
  then show ?thesis
    using assms(2,3,5) by (simp add: pay_def Let_def upd_seat_def nth_list_update)
qed

lemma fold_pay_mono:
  "stacks_ok gs \<Longrightarrow> \<forall>i\<in>set ws. i < length (gs_players gs) \<Longrightarrow> 0 \<le> n
    \<Longrightarrow> stacks gs + int (length ws) * n < 2 ^ 62 \<Longrightarrow> j < length (gs_players gs)
    \<Longrightarrow> p_stack (gs_players gs ! j) \<le> p_stack (gs_players (fold (pay n) ws gs) ! j)"
proof (induction ws arbitrary: gs)
  case (Cons w ws)
  have "0 \<le> int (length ws) * n" using Cons.prems(3) by simp
  moreover have "stacks gs + n + int (length ws) * n < 2 ^ 62"
    using Cons.prems(4) by (simp add: algebra_simps)
  ultimately have lt: "stacks gs + n < 2 ^ 62" by linarith
  have w: "w < length (gs_players gs)" using Cons.prems(2) by simp
  note p = pay_stacks [OF Cons.prems(1) w Cons.prems(3) lt]
  note m = pay_stack_mono [OF Cons.prems(1) w Cons.prems(3) lt Cons.prems(5)]
  have "p_stack (gs_players (pay n w gs) ! j) \<le> p_stack (gs_players (fold (pay n) ws (pay n w gs)) ! j)"
    using Cons.prems same_seats_length [OF pay_same_seats, of n w gs] p
    by (intro Cons.IH) (auto simp: algebra_simps)
  with m show ?case by simp
qed simp

lemma distribute_pot_mono:
  assumes "stacks_ok gs" and "0 \<le> pot_amount pot" and "stacks gs + pot_amount pot < 2 ^ 62"
    and j: "j < length (gs_players gs)"
  shows "p_stack (gs_players gs ! j) \<le> p_stack (gs_players (distribute_pot comm pot gs) ! j)"
proof (cases "potWinners pot comm gs = []")
  case True
  then show ?thesis by (simp add: distribute_pot_def Let_def)
next
  case False
  let ?ws = "potWinners pot comm gs" and ?k = "int (length (potWinners pot comm gs))"
  let ?s = "go_quo (pot_amount pot) ?k" and ?r = "go_rem (pot_amount pot) ?k"
  let ?g = "fold (pay ?s) ?ws gs"
  have k: "0 < ?k" using False by simp
  have s: "0 \<le> ?s" and r: "0 \<le> ?r" using assms(2) k by (simp_all add: pos_imp_zdiv_nonneg_iff)
  have qr: "?k * ?s + ?r = pot_amount pot" by (rule go_quo_rem)
  then have "?k * ?s \<le> pot_amount pot" using r by linarith
  then have b: "stacks gs + ?k * ?s < 2 ^ 62" using assms(3) by (rule le_less_trans [OF add_left_mono])
  have ws: "\<forall>i\<in>set ?ws. i < length (gs_players gs)" using potWinners_range by blast
  note f = fold_pay [OF assms(1) ws s b] and m = fold_pay_mono [OF assms(1) ws s b j]
  have "closestLeftOfDealer ?ws ?g \<in> set ?ws" using False by (rule closestLeftOfDealer_in)
  then have c: "closestLeftOfDealer ?ws ?g < length (gs_players ?g)"
    using ws same_seats_length [of gs ?g] f by simp
  have "stacks ?g + ?r < 2 ^ 62" using f assms(3) qr by linarith
  then have "p_stack (gs_players ?g ! j) \<le> p_stack (gs_players (pay ?r (closestLeftOfDealer ?ws ?g) ?g) ! j)"
    using f j same_seats_length [of gs ?g] by (intro pay_stack_mono [OF _ c r]) auto
  then show ?thesis using m False by (simp add: distribute_pot_def Let_def)
qed

lemma fold_distribute_mono:
  "stacks_ok gs \<Longrightarrow> \<forall>q\<in>set pots. 0 \<le> pot_amount q \<Longrightarrow> stacks gs + (\<Sum>q\<leftarrow>pots. pot_amount q) < 2 ^ 62
    \<Longrightarrow> j < length (gs_players gs)
    \<Longrightarrow> p_stack (gs_players gs ! j) \<le> p_stack (gs_players (fold (distribute_pot comm) pots gs) ! j)"
proof (induction pots arbitrary: gs)
  case (Cons q pots)
  have nn: "0 \<le> (\<Sum>q\<leftarrow>pots. pot_amount q)" using Cons.prems(2) by (intro sum_list_nonneg) auto
  have q: "0 \<le> pot_amount q" "stacks gs + pot_amount q < 2 ^ 62" using Cons.prems(2,3) nn by auto
  note d = distribute_pot_paid [OF Cons.prems(1) q, of comm]
    and m = distribute_pot_mono [OF Cons.prems(1) q Cons.prems(4), of comm]
  have "stacks (distribute_pot comm q gs) + (\<Sum>q\<leftarrow>pots. pot_amount q) < 2 ^ 62"
    using d(1) Cons.prems(3) q(1) by (auto split: if_splits)
  then have "p_stack (gs_players (distribute_pot comm q gs) ! j)
      \<le> p_stack (gs_players (fold (distribute_pot comm) pots (distribute_pot comm q gs)) ! j)"
    using d Cons.prems same_seats_length [OF d(3)] by (intro Cons.IH) auto
  with m show ?case by simp
qed simp

lemma others_kept_seats:
  assumes "same_seats gs h" and "\<forall>j < length (gs_players gs). p_stack (gs_players gs ! j) \<le> p_stack (gs_players h ! j)"
  shows "others_kept i gs h"
  using assms same_seats_length [OF assms(1)] same_seats_nth [OF assms(1)] by (simp add: others_kept_def)

lemma others_kept_trans: "others_kept i a b \<Longrightarrow> others_kept i b c \<Longrightarrow> others_kept i a c"
  unfolding others_kept_def by (metis order_trans)

lemma quiet_others:
  assumes "quiet gs h"
  shows "others_kept i gs h"
proof -
  have "list_all2 same_money (gs_players gs) (gs_players h)" using assms by (simp add: quiet_def)
  then show ?thesis by (auto simp: others_kept_def list_all2_conv_all_nth same_money_def)
qed

lemma distributePots_others:
  assumes inv: "chips_inv gs" and pots: "gs_pots gs = CalculatePots (gs_players gs)"
  shows "others_kept i gs (snd (distributePots gs))"
proof -
  let ?h = "fold (distribute_pot (gs_community gs)) (gs_pots gs) gs"
  note cp = chips_inv_pots [OF inv]
  have "stacks gs + (\<Sum>q\<leftarrow>gs_pots gs. pot_amount q) < 2 ^ 62"
    using cp(1) pots inv by (simp add: chips_inv_def)
  then have "\<forall>j < length (gs_players gs). p_stack (gs_players gs ! j) \<le> p_stack (gs_players ?h ! j)"
    using fold_distribute_mono [OF cp(4), of "gs_pots gs"] cp(2) pots by simp
  then have "others_kept i gs ?h" by (rule others_kept_seats [OF fold_distribute_same_seats])
  then show ?thesis by (auto simp: distributePots_def Let_def others_kept_def)
qed

lemma round_end_others:
  assumes "chips_inv gs" and "round_end gs r"
  shows "others_kept i gs (snd r)"
  using assms(2) unfolding round_end_def at_showdown_def
  using quiet_others distributePots_others quiet_chips_inv [OF _ assms(1)] others_kept_trans by metis

lemma resolveSingleWinner_others:
  assumes inv: "chips_inv gs" and ne: "gs_players gs \<noteq> []"
  shows "others_kept i gs (snd (resolveSingleWinner gs))"
proof -
  let ?g = "gs\<lparr>gs_pots := CalculatePots (gs_players gs)\<rparr>"
  note cp = chips_inv_pots [OF inv]
  have bnd: "stacks gs + bets gs < 2 ^ 59" using inv by (simp add: chips_inv_def)
  have nb: "0 \<le> bets gs" "0 \<le> stacks gs"
    using chips_inv_stacks(4,5) [OF inv hd_in_set [OF ne]] by blast+
  then have tot: "TotalPot (gs_pots ?g) = bets gs"
    using bnd by (simp add: TotalPot_sum cp(1) in64_def)
  have st: "stacks_ok ?g" "stacks ?g = stacks gs" using cp(4) by (simp_all add: stacks_ok_def stacks_def)
  have "others_kept i ?g (pay (bets gs) k ?g)" if "k < length (gs_players gs)" for k
    using that bnd nb st(2) by (intro others_kept_seats pay_same_seats allI impI pay_stack_mono [OF st(1)]) auto
  moreover have "k < length (gs_players gs)"
    if "find (\<lambda>i. not_out (gs_players ?g ! i)) [0..<length (gs_players ?g)] = Some k" for k
    using that by (auto simp: find_Some_iff)
  moreover have "others_kept i gs gs" by (simp add: others_kept_def)
  ultimately show ?thesis
    unfolding resolveSingleWinner_def Let_def tot
    by (auto simp: others_kept_def split: option.split)
qed

section \<open>Properties\<close>

text \<open>
  C3: In crypto mode an operation that fails changes nothing: if an action, a street or a reveal is
  rejected (or would crash), the state is the one before, also when the failure would come after the
  first write.
\<close>

theorem rejected_unchanged:
  assumes "cryptoMode gs" and "board_ok gs" and "cards_ok gs" and "fst (apply_op op gs) \<noteq> None"
  shows "snd (apply_op op gs) = gs"
  using apply_op_crypto [OF assms(1-3), of op] assms(4) by blast

theorem rejected_unchanged_witness:
  "snd (apply_op (OpAction (mk_action ''b'' ActionFold 0)) (snd (StartHandCrypto (demo_table [100, 200]))))
     = snd (StartHandCrypto (demo_table [100, 200]))"
proof (rule rejected_unchanged)
  show "fst (apply_op (OpAction (mk_action ''b'' ActionFold 0)) (snd (StartHandCrypto (demo_table [100, 200])))) \<noteq> None"
    by code_simp
  show "cards_ok (snd (StartHandCrypto (demo_table [100, 200])))" by code_simp
  show "board_ok (snd (StartHandCrypto (demo_table [100, 200])))" by code_simp
  show "cryptoMode (snd (StartHandCrypto (demo_table [100, 200])))" by code_simp
qed

text \<open>
  C2: Cards from outside are sound: whatever actions, streets and reveals arrive, in any order and
  accepted or not, no card is ever on the table twice, the board only grows and has the size its
  phase asks for, and a player's two cards never change once they are known.
\<close>

theorem run_ops_cards:
  assumes "cryptoMode gs" and "board_ok gs" and "cards_ok gs"
  shows "cards_ok (run_ops ops gs) \<and> board_ok (run_ops ops gs) \<and> cards_grow gs (run_ops ops gs)"
proof -
  have "cryptoMode (run_ops ops gs) \<and> board_ok (run_ops ops gs) \<and> cards_ok (run_ops ops gs)
      \<and> cards_grow gs (run_ops ops gs)"
    using assms
  proof (induction ops arbitrary: gs)
    case Nil
    then show ?case by (simp add: run_ops_def cards_grow_def)
  next
    case (Cons op ops)
    note s = apply_op_crypto [OF Cons.prems, of op]
    have e: "run_ops (op # ops) gs = run_ops ops (snd (apply_op op gs))" by (simp add: run_ops_def)
    show ?case
      using Cons.IH [of "snd (apply_op op gs)"] s cards_grow_trans unfolding e by blast
  qed
  then show ?thesis by blast
qed

definition demo_street :: "hand_op list" where
  "demo_street = [OpAction (mk_action ''a'' ActionCall 0), OpAction (mk_action ''b'' ActionCheck 0),
     OpStreet [mk_card 2 0, mk_card 3 0, mk_card 4 0]]"

theorem run_ops_cards_witness:
  "cards_ok (run_ops demo_street (snd (StartHandCrypto (demo_table [100, 200]))))
    \<and> gs_phase (run_ops demo_street (snd (StartHandCrypto (demo_table [100, 200])))) = PhaseFlop"
proof
  have "cards_ok (snd (StartHandCrypto (demo_table [100, 200])))" by code_simp
  moreover have "board_ok (snd (StartHandCrypto (demo_table [100, 200])))" by code_simp
  moreover have "cryptoMode (snd (StartHandCrypto (demo_table [100, 200])))" by code_simp
  ultimately show "cards_ok (run_ops demo_street (snd (StartHandCrypto (demo_table [100, 200]))))"
    using run_ops_cards by blast
  show "gs_phase (run_ops demo_street (snd (StartHandCrypto (demo_table [100, 200])))) = PhaseFlop"
    by code_simp
qed

text \<open>
  C4: An accepted action is the current player's: the id is that of the seat to act, that seat can
  act, and no other seat loses chips, has its bets changed or changes its status (for a raise that
  does not wrap around an \<open>int64\<close>).
\<close>

theorem ApplyAction_only_current:
  assumes "hand_inv gs" and "\<not> raise_wraps a gs" and "ApplyAction a gs = (None, h)"
  shows "\<exists>i < length (gs_players gs). gs_actionIdx gs = int i \<and> p_id (gs_players gs ! i) = a_player a
    \<and> CanAct (gs_players gs ! i) \<and> others_kept i gs h"
proof -
  obtain p g where ph: "betting_phase (gs_phase gs)" and cur: "CurrentPlayer gs = Some p"
    and pid: "p_id p = a_player a"
    and g: "act a (nat (gs_actionIdx gs)) p gs = (None, g)" and h: "after_action a g = (None, h)"
    using assms(3) by (rule ApplyAction_ok)
  let ?i = "nat (gs_actionIdx gs)"
  have gi: "chips_inv gs" "turn_ok gs" using assms(1) ph by (auto simp: hand_inv_def)
  have i: "?i < length (gs_players gs)" "p = gs_players gs ! ?i" "CanAct p" "gs_actionIdx gs = int ?i"
    using cur gi(2) ph by (auto simp: CurrentPlayer_Some turn_ok_def)
  have c: "chips_inv g" using act_chips [OF gi(1) i(1-3) _ g] assms(2) cur by (auto simp: raise_wraps_def)
  note f = act_frame [OF g]
  have len: "length (gs_players g) = length (gs_players gs)" using f(2) by (rule map_eq_imp_length_eq)
  have ag: "others_kept ?i gs g" using act_others [OF g] len by (simp add: others_kept_def)
  let ?g = "g\<lparr>gs_log := gs_log g @ [a], gs_roundActions := gs_roundActions g + 1\<rparr>"
  have q: "quiet g ?g" by (rule quiet_upd [OF quiet_refl]) simp_all
  have c': "chips_inv ?g" by (rule quiet_chips_inv [OF q c])
  have lv: "live (gs_phase ?g)" using ph f(1) by (cases "gs_phase g") simp_all
  have ne: "gs_players ?g \<noteq> []" using i(1) len by auto
  have "others_kept ?i ?g h"
    using h resolveSingleWinner_others [OF c' ne] round_end_others [OF c' advanceAction_round_end [OF lv]]
    by (auto simp: after_action_def Let_def split: if_splits)
  then have "others_kept ?i g h" by (simp add: others_kept_def)
  from others_kept_trans [OF ag this] show ?thesis using i pid by blast
qed

theorem ApplyAction_only_current_witness:
  "fst (ApplyAction (mk_action ''a'' ActionFold 0) (snd (StartHandCrypto (demo_table [100, 200])))) = None
   \<and> (\<exists>i < 2. others_kept i (snd (StartHandCrypto (demo_table [100, 200]))) demo_folded)"
proof -
  let ?gs = "snd (StartHandCrypto (demo_table [100, 200]))"
  have r: "fst (ApplyAction (mk_action ''a'' ActionFold 0) (snd (StartHandCrypto (demo_table [100, 200])))) = None"
    by code_simp
  then have ok: "ApplyAction (mk_action ''a'' ActionFold 0) ?gs = (None, demo_folded)"
    unfolding demo_folded_def by (metis prod.collapse)
  have s: "fst (StartHandCrypto (demo_table [100, 200])) = None" by code_simp
  have f: "fresh_hand (demo_table [100, 200])" by code_simp
  have "StartHandCrypto (demo_table [100, 200]) = (None, ?gs)" using s by (metis prod.collapse)
  then have inv: "hand_inv ?gs" by (rule StartHandCrypto_hand(1) [OF f])
  have len: "length (gs_players (snd (StartHandCrypto (demo_table [100, 200])))) = 2" by code_simp
  have "\<not> raise_wraps (mk_action ''a'' ActionFold 0) ?gs" by (simp add: raise_wraps_def)
  from ApplyAction_only_current [OF inv this ok] len
  have "\<exists>i < 2. others_kept i ?gs demo_folded" by metis
  with r show ?thesis by blast
qed

text \<open>
  The player to act is never stuck: check is accepted when there is nothing to call, call when
  there is, and fold always.
\<close>

theorem passive_action_accepted:
  assumes "hand_inv gs" and "cryptoMode gs" and "board_ok gs" and "betting_phase (gs_phase gs)"
    and "CurrentPlayer gs = Some p"
  shows "fst (ApplyAction (mk_action (p_id p)
      (if p_currentBet p = gs_currentBet gs then ActionCheck else ActionCall) n) gs) = None
    \<and> fst (ApplyAction (mk_action (p_id p) ActionFold n) gs) = None"
proof -
  let ?i = "nat (gs_actionIdx gs)"
  have gi: "chips_inv gs" "turn_ok gs" using assms(1,4) by (auto simp: hand_inv_def)
  have p: "p \<in> set (gs_players gs)" "CanAct p"
    using assms(4,5) gi(2) by (auto simp: CurrentPlayer_Some turn_ok_def)
  have cb: "p_currentBet p \<le> gs_currentBet gs" "gs_currentBet gs \<le> 2 ^ 60" "0 \<le> p_currentBet p"
    using gi(1) p chips_inv_stacks(2) [OF gi(1) p(1)] by (auto simp: chips_inv_def)
  then have w: "w64 (gs_currentBet gs - p_currentBet p) = gs_currentBet gs - p_currentBet p"
    by (intro w64_id) (simp add: in64_def)
  have main: "fst (ApplyAction a gs) = None"
    if pl: "a_player a = p_id p" and ok: "fst (act a ?i p gs) = None" for a
  proof -
    obtain g where g: "act a ?i p gs = (None, g)" using ok by (metis prod.collapse)
    note f = act_frame [OF g]
    have "cryptoMode g" "betting_phase (gs_phase g)" "board_ok g"
      using f assms(2-4) by (simp_all add: cryptoMode_def board_ok_def)
    then have "fst (after_action a g) = None" by (rule after_action_board(1))
    then show ?thesis using pl g assms(4,5) by (simp add: ApplyAction_def)
  qed
  have "fst (act (mk_action (p_id p) (if p_currentBet p = gs_currentBet gs then ActionCheck else ActionCall) n) ?i p gs) = None"
    using cb by (simp add: act_def w)
  moreover have "fst (act (mk_action (p_id p) ActionFold n) ?i p gs) = None"
    by (simp add: act_def)
  ultimately show ?thesis using main by simp
qed

theorem passive_action_accepted_witness:
  "fst (ApplyAction (mk_action ''a'' ActionCall 0) (snd (StartHandCrypto (demo_table [100, 200])))) = None"
proof -
  let ?gs = "snd (StartHandCrypto (demo_table [100, 200]))"
  have s: "fst (StartHandCrypto (demo_table [100, 200])) = None" by code_simp
  have f: "fresh_hand (demo_table [100, 200])" by code_simp
  have "StartHandCrypto (demo_table [100, 200]) = (None, ?gs)" using s by (metis prod.collapse)
  then have inv: "hand_inv ?gs" by (rule StartHandCrypto_hand(1) [OF f])
  have b: "board_ok (snd (StartHandCrypto (demo_table [100, 200])))" by code_simp
  have c: "cryptoMode (snd (StartHandCrypto (demo_table [100, 200])))" by code_simp
  have ph: "betting_phase (gs_phase (snd (StartHandCrypto (demo_table [100, 200]))))" by code_simp
  have cp: "CurrentPlayer (snd (StartHandCrypto (demo_table [100, 200]))) \<noteq> None" by code_simp
  then obtain p where p: "CurrentPlayer ?gs = Some p" by blast
  have q: "(case CurrentPlayer (snd (StartHandCrypto (demo_table [100, 200]))) of None \<Rightarrow> False
      | Some p \<Rightarrow> p_id p = ''a'' \<and> p_currentBet p \<noteq> gs_currentBet (snd (StartHandCrypto (demo_table [100, 200]))))"
    by code_simp
  show ?thesis
    using passive_action_accepted [OF inv c b ph p, of 0] q by (simp add: p)
qed

end
