(* ===== verification/HandExamples.thy ===== *)
theory HandExamples
  imports HandCards
begin

text \<open>
  Behaviours of machine.go at its edges, each on the code as it is: an all-in never raises the
  bet, a raise may exceed the stack, the amount of a wire action can overflow, blinds that put
  everybody all-in leave the hand stuck, a local hand in which everybody is all-in ends on three
  board cards, and a pot whose players have all folded is lost.
\<close>

definition op_act :: "string \<Rightarrow> ActionType \<Rightarrow> i64 \<Rightarrow> hand_op" where
  "op_act pid t n = OpAction (mk_action pid t n)"

definition crypto_demo :: "int list \<Rightarrow> hand_op list \<Rightarrow> game_state" where
  "crypto_demo stks ops = run_ops ops (snd (StartHandCrypto (demo_table stks)))"

text \<open>
  All-in is never a raise: for a player who can act, going all-in leaves the bet to match, the
  minimum raise and the last raiser as they were, however many chips go in (the condition in the
  code compares \<open>CurrentBet + allin\<close> on both sides).
\<close>

theorem allin_never_raises:
  assumes "chips_inv gs" and "p \<in> set (gs_players gs)" and "CanAct p"
    and "a_type a = ActionAllIn" and "act a i p gs = (e, h)"
  shows "e = None \<and> gs_currentBet h = gs_currentBet gs \<and> gs_minRaise h = gs_minRaise gs
    \<and> gs_lastRaiserIdx h = gs_lastRaiserIdx gs"
proof -
  have cb: "p_currentBet p \<le> gs_currentBet gs" "gs_currentBet gs \<le> 2 ^ 60" "0 \<le> gs_currentBet gs"
    "stacks gs + bets gs < 2 ^ 59"
    using assms(1-3) by (auto simp: chips_inv_def)
  note ps = chips_inv_stacks(1-3,6) [OF assms(1,2)]
  have "w64 (p_currentBet p + p_stack p) = p_currentBet p + p_stack p"
    "w64 (gs_currentBet gs + p_stack p) = gs_currentBet gs + p_stack p"
    using cb ps by (auto intro!: w64_id simp: in64_def)
  then show ?thesis using assms(4,5) cb(1) by (auto simp: act_def Let_def)
qed

theorem allin_never_raises_witness:
  "let h = crypto_demo [1000, 1000, 1000] [op_act ''a'' ActionAllIn 0]
   in map p_currentBet (gs_players h) = [1000, 5, 10] \<and> gs_currentBet h = 10"
proof -
  let ?gs = "snd (StartHandCrypto (demo_table [1000, 1000, 1000]))"
  let ?p = "gs_players (snd (StartHandCrypto (demo_table [1000, 1000, 1000]))) ! 0"
  have c: "chips_inv (snd (StartHandCrypto (demo_table [1000, 1000, 1000])))" by code_simp
  have p: "gs_players (snd (StartHandCrypto (demo_table [1000, 1000, 1000]))) ! 0
     \<in> set (gs_players (snd (StartHandCrypto (demo_table [1000, 1000, 1000]))))" by code_simp
  have a: "CanAct (gs_players (snd (StartHandCrypto (demo_table [1000, 1000, 1000]))) ! 0)" by code_simp
  have b: "gs_currentBet (snd (StartHandCrypto (demo_table [1000, 1000, 1000]))) = 10" by code_simp
  obtain e h where "act (mk_action ''a'' ActionAllIn 0) 0 ?p ?gs = (e, h)" by fastforce
  from allin_never_raises [OF c p a _ this] have "gs_currentBet h = 10" using b by simp
  moreover have "map p_currentBet (gs_players (crypto_demo [1000, 1000, 1000] [op_act ''a'' ActionAllIn 0])) = [1000, 5, 10]"
    by code_simp
  moreover have "gs_currentBet (crypto_demo [1000, 1000, 1000] [op_act ''a'' ActionAllIn 0]) = 10" by code_simp
  ultimately show ?thesis by (simp add: Let_def)
qed

text \<open>
  So an all-in need not be called: heads up, the small blind moves all-in for 100 and the round
  is over at once, the big blind having put in 10.
\<close>

theorem allin_needs_no_call:
  "gs_phase (crypto_demo [100, 200] [op_act ''a'' ActionAllIn 0]) = PhaseAwaitingStreet
   \<and> map p_totalBet (gs_players (crypto_demo [100, 200] [op_act ''a'' ActionAllIn 0])) = [100, 10]"
  by code_simp

text \<open>
  A raise may exceed the stack: with 95 chips behind and 5 to call, a raise by 95 is accepted
  and the bet to match becomes 105, although its author has put in 100 and is all-in.
\<close>

theorem raise_over_stack:
  "map p_currentBet (gs_players (crypto_demo [100, 200] [op_act ''a'' ActionRaise 95])) = [100, 10]
   \<and> map p_stack (gs_players (crypto_demo [100, 200] [op_act ''a'' ActionRaise 95])) = [0, 190]
   \<and> gs_currentBet (crypto_demo [100, 200] [op_act ''a'' ActionRaise 95]) = 105"
  by code_simp

text \<open>
  The amount of a raise is not checked against overflow: a player with 10 chips behind facing a
  call of 90 raises by the largest \<open>int64\<close>; the action is accepted and leaves a stack of
  \<open>2 ^ 63 - 79\<close> chips.
\<close>

theorem raise_overflow_mints:
  "let h = crypto_demo [1000, 1000, 20] [op_act ''a'' ActionRaise 90, op_act ''b'' ActionFold 0,
       op_act ''c'' ActionRaise (2 ^ 63 - 1)]
   in map p_stack (gs_players h) = [900, 995, 2 ^ 63 - 79]"
  by code_simp

text \<open>
  Blinds that put both players all-in leave the hand without a player to act: every action then
  dereferences the nil current player, no street and no reveal is accepted, and the hand can never
  leave pre-flop.
\<close>

theorem blinds_all_in_stuck:
  "gs_phase (crypto_demo [5, 10] []) = PhasePreFlop
   \<and> ApplyAction a (crypto_demo [5, 10] []) = (Some NilDereference, crypto_demo [5, 10] [])
   \<and> ApplyStreet cards (crypto_demo [5, 10] []) = (Some (UnexpectedPhase PhasePreFlop), crypto_demo [5, 10] [])
   \<and> ApplyHoleReveal pid two (crypto_demo [5, 10] []) = (Some (UnexpectedPhase PhasePreFlop), crypto_demo [5, 10] [])"
proof -
  have p: "gs_phase (crypto_demo [5, 10] []) = PhasePreFlop" by code_simp
  have c: "CurrentPlayer (crypto_demo [5, 10] []) = None" by code_simp
  have d: "cryptoMode (crypto_demo [5, 10] [])" by code_simp
  show ?thesis using p c d by (simp add: ApplyAction_def ApplyStreet_def ApplyHoleReveal_def)
qed

definition local_demo :: "int list \<Rightarrow> Action list \<Rightarrow> game_state" where
  "local_demo stks as = fold (\<lambda>a gs. snd (ApplyAction a gs)) as (snd (StartHand [] (demo_table stks)))"

text \<open>
  With a local deck, when everybody is all-in before the flop the showdown takes place on the
  three flop cards: turn and river are never dealt (\<open>startNewBettingRound\<close> goes straight to the
  showdown, while with one active player left it runs the board out).
\<close>

theorem local_all_in_short_board:
  "let h = local_demo [100, 100] [mk_action ''a'' ActionRaise 90, mk_action ''b'' ActionAllIn 0]
   in gs_phase h = PhaseSettled \<and> length (gs_community h) = 3"
  by code_simp

definition lost_chips_ops :: "hand_op list" where
  "lost_chips_ops = [op_act ''a'' ActionRaise 10, op_act ''b'' ActionRaise 10, op_act ''a'' ActionRaise 10,
     op_act ''b'' ActionRaise 10, op_act ''a'' ActionRaise 10, op_act ''b'' ActionRaise 10, op_act ''a'' ActionFold 0,
     OpStreet [mk_card 2 0, mk_card 7 1, mk_card 9 2], OpStreet [mk_card 11 3], OpStreet [mk_card 13 1],
     OpReveal ''b'' (mk_card 14 0, mk_card 14 1), OpReveal ''c'' (mk_card 3 0, mk_card 4 1)]"

text \<open>
  Chips are lost when everybody with a share in a pot has folded: a short player raises over its
  stack (to 70 with 55 chips), the player with 60 in folds to it, and the 5 chips above 55 belong to
  a pot whose only player has folded. The settled table has 1060 of its 1065 chips.
\<close>

theorem side_pot_lost:
  "let h = crypto_demo [1000, 55, 10] lost_chips_ops
   in gs_phase h = PhaseSettled \<and> map p_stack (gs_players h) = [940, 120, 0]
      \<and> stacks (demo_table [1000, 55, 10]) = 1065"
  by code_simp

end
