(* ===== verification/NumTheory.thy ===== *)
theory NumTheory
  imports Main
begin

text \<open>
  The operations of \<open>math/big\<close> that the cryptographic code uses, on Isabelle's integers, and the
  number theory behind them: Fermat's little theorem and inverses. Only non-negative exponents and
  positive moduli occur in the program.
\<close>

section \<open>Primes\<close>

definition prime_int :: "int \<Rightarrow> bool" where
  "prime_int p \<longleftrightarrow> 1 < p \<and> (\<forall>d\<in>{2..<p}. \<not> d dvd p)"

lemma prime_int_gt: "prime_int p \<Longrightarrow> 1 < p"
  by (simp add: prime_int_def)

lemma prime_coprime:
  assumes "prime_int p" and "\<not> p dvd a"
  shows "coprime a p"
proof -
  let ?d = "gcd a p"
  have p: "1 < p" using assms(1) by (rule prime_int_gt)
  have "?d dvd p" by simp
  then have "?d \<le> p" using p by (simp add: zdvd_imp_le)
  moreover have "?d \<noteq> p" using assms(2) by (metis gcd_dvd1)
  moreover have "0 < ?d" using p by simp
  ultimately have "?d = 1 \<or> (2 \<le> ?d \<and> ?d < p)" by linarith
  then have "?d = 1 \<or> ?d \<in> {2..<p}" by simp
  then have "?d = 1" using assms(1) \<open>?d dvd p\<close> by (auto simp: prime_int_def)
  then show ?thesis by (simp add: coprime_iff_gcd_eq_1)
qed

lemma prime_dvd_mult: "prime_int p \<Longrightarrow> p dvd a * b \<longleftrightarrow> p dvd a \<or> p dvd b"
  by (metis coprime_commute coprime_dvd_mult_right_iff dvd_mult dvd_mult2 prime_coprime)

lemma prime_dvd_prod:
  assumes "prime_int p" and "finite S" and "p dvd (\<Prod>x\<in>S. f x)"
  shows "\<exists>x\<in>S. p dvd f x"
  using assms(2,3)
proof (induction S)
  case empty
  then show ?case using prime_int_gt [OF assms(1)] by (simp add: zdvd1_eq)
next
  case (insert x S)
  then show ?case using prime_dvd_mult [OF assms(1)] by auto
qed

lemma prime_not_dvd_small: "0 < x \<Longrightarrow> x < p \<Longrightarrow> \<not> p dvd (x :: int)"
  using zdvd_imp_le by fastforce

section \<open>Fermat's little theorem\<close>

theorem fermat:
  assumes p: "prime_int p" and a: "\<not> p dvd a"
  shows "a ^ nat (p - 1) mod p = 1"
proof -
  let ?S = "{1..<p}"
  let ?f = "\<lambda>x. (a * x) mod p"
  have gt: "1 < p" using p by (rule prime_int_gt)
  have inj: "inj_on ?f ?S"
  proof (rule inj_onI)
    fix x y assume x: "x \<in> ?S" and y: "y \<in> ?S" and "(a * x) mod p = (a * y) mod p"
    then have "p dvd a * (x - y)" by (simp add: mod_eq_dvd_iff right_diff_distrib)
    then have d: "p dvd x - y" using a prime_dvd_mult [OF p] by blast
    have "\<bar>x - y\<bar> < p" using x y by auto
    with d show "x = y" using zdvd_imp_le [of p "\<bar>x - y\<bar>"] by (cases "x = y") auto
  qed
  have "?f ` ?S \<subseteq> ?S"
  proof
    fix z assume "z \<in> ?f ` ?S"
    then obtain x where x: "x \<in> ?S" "z = ?f x" by blast
    have "\<not> p dvd a * x" using a prime_not_dvd_small [of x p] x(1) prime_dvd_mult [OF p] by auto
    then have "?f x \<noteq> 0" by (simp add: dvd_eq_mod_eq_0)
    moreover have "0 \<le> ?f x" "?f x < p" using gt by simp_all
    ultimately show "z \<in> ?S" using x(2) by auto
  qed
  then have perm: "?f ` ?S = ?S" using inj by (intro endo_inj_surj) auto
  let ?F = "\<Prod>x\<in>?S. x"
  have "?F = (\<Prod>x\<in>?f ` ?S. x)" using perm by simp
  also have "\<dots> = (\<Prod>x\<in>?S. ?f x)" using inj by (simp add: prod.reindex)
  finally have "?F mod p = (\<Prod>x\<in>?S. a * x) mod p" by (simp add: mod_prod_eq)
  also have "(\<Prod>x\<in>?S. a * x) = a ^ nat (p - 1) * ?F" by (simp add: prod.distrib)
  finally have "p dvd a ^ nat (p - 1) * ?F - ?F" by (metis mod_eq_dvd_iff)
  then have "p dvd (a ^ nat (p - 1) - 1) * ?F" by (simp add: left_diff_distrib)
  moreover have "\<not> p dvd ?F"
    using prime_dvd_prod [OF p, of ?S "\<lambda>x. x"] prime_not_dvd_small [of _ p] by fastforce
  ultimately have "p dvd a ^ nat (p - 1) - 1" using prime_dvd_mult [OF p] by blast
  then have "a ^ nat (p - 1) mod p = 1 mod p" by (simp add: mod_eq_dvd_iff)
  then show ?thesis using gt by simp
qed

section \<open>Modular exponentiation and inverse\<close>

definition big_Exp :: "int \<Rightarrow> int \<Rightarrow> int \<Rightarrow> int" where
  "big_Exp x y m = x ^ nat y mod m"

lemma big_Exp_range: "0 < m \<Longrightarrow> 0 \<le> big_Exp x y m \<and> big_Exp x y m < m"
  by (simp add: big_Exp_def)

lemma big_Exp_mod_base: "big_Exp (x mod m) y m = big_Exp x y m"
  by (simp add: big_Exp_def power_mod)

lemma big_Exp_mult: "0 \<le> y \<Longrightarrow> 0 \<le> z \<Longrightarrow> big_Exp (big_Exp x y m) z m = big_Exp x (y * z) m"
  by (simp add: big_Exp_def power_mod nat_mult_distrib power_mult)

lemma big_Exp_add:
  "0 \<le> y \<Longrightarrow> 0 \<le> z \<Longrightarrow> big_Exp x (y + z) m = (big_Exp x y m * big_Exp x z m) mod m"
  by (simp add: big_Exp_def nat_add_distrib power_add mod_mult_eq)

lemma big_Exp_commute: "0 \<le> y \<Longrightarrow> 0 \<le> z \<Longrightarrow> big_Exp (big_Exp x y m) z m = big_Exp (big_Exp x z m) y m"
  by (simp add: big_Exp_mult mult.commute)

lemma big_Exp_not_dvd: "prime_int p \<Longrightarrow> \<not> p dvd x \<Longrightarrow> \<not> p dvd big_Exp x y p"
proof -
  assume p: "prime_int p" and x: "\<not> p dvd x"
  have "\<not> p dvd x ^ n" for n
    by (induction n) (use x prime_dvd_mult [OF p] prime_int_gt [OF p] in \<open>auto simp: zdvd1_eq\<close>)
  then show ?thesis by (simp add: big_Exp_def dvd_mod_iff)
qed

text \<open>Exponents matter only modulo \<open>p - 1\<close>.\<close>

lemma big_Exp_reduce:
  assumes p: "prime_int p" and x: "\<not> p dvd x" and y: "0 \<le> y"
  shows "big_Exp x (y mod (p - 1)) p = big_Exp x y p"
proof -
  have gt: "0 < p - 1" using prime_int_gt [OF p] by simp
  have e: "big_Exp x (p - 1) p = 1" using fermat [OF p x] by (simp add: big_Exp_def)
  have one: "big_Exp 1 z p = 1" for z using prime_int_gt [OF p] by (simp add: big_Exp_def)
  have q: "0 \<le> y div (p - 1)" "0 \<le> y mod (p - 1)"
    using gt y by (simp_all add: pos_imp_zdiv_nonneg_iff)
  have step: "big_Exp x ((p - 1) * q + r) p = big_Exp x r p" if "0 \<le> q" "0 \<le> r" for q r
  proof -
    have "big_Exp x ((p - 1) * q + r) p = (big_Exp (big_Exp x (p - 1) p) q p * big_Exp x r p) mod p"
      using gt that by (simp add: big_Exp_add big_Exp_mult)
    then show ?thesis using gt by (simp add: e one) (simp add: big_Exp_def)
  qed
  from step [OF q] show ?thesis by simp
qed

lemma big_Exp_inverse:
  assumes p: "prime_int p" and x: "0 < x" "x < p" and ed: "0 \<le> e" "0 \<le> d" "e * d mod (p - 1) = 1 mod (p - 1)"
  shows "big_Exp (big_Exp x e p) d p = x"
proof -
  have nd: "\<not> p dvd x" using x by (rule prime_not_dvd_small)
  have "big_Exp (big_Exp x e p) d p = big_Exp x (e * d) p" using ed by (simp add: big_Exp_mult)
  also have "\<dots> = big_Exp x (1 mod (p - 1)) p"
    using big_Exp_reduce [OF p nd, of "e * d"] ed by simp
  also have "\<dots> = big_Exp x 1 p" using big_Exp_reduce [OF p nd, of 1] by simp
  finally show ?thesis using x by (simp add: big_Exp_def)
qed

function egcd :: "int \<Rightarrow> int \<Rightarrow> int \<times> int \<times> int" where
  "egcd a b = (if b \<le> 0 then (a, 1, 0)
     else let (g, x, y) = egcd b (a mod b) in (g, y, x - (a div b) * y))"
  by pat_completeness auto
termination by (relation "measure (\<lambda>(a, b). nat b)") auto

declare egcd.simps [simp del]

lemma egcd_correct:
  "0 \<le> a \<Longrightarrow> 0 \<le> b \<Longrightarrow> egcd a b = (g, x, y) \<Longrightarrow> g = gcd a b \<and> a * x + b * y = g"
proof (induction a b arbitrary: g x y rule: egcd.induct)
  case (1 a b)
  show ?case
  proof (cases "b \<le> 0")
    case True
    then have b: "b = 0" using 1 by simp
    have "egcd a b = (a, 1, 0)" by (subst egcd.simps) (simp add: b)
    then show ?thesis using 1 b by simp
  next
    case False
    obtain g' x' y' where r: "egcd b (a mod b) = (g', x', y')" by (metis prod_cases3)
    have IH: "g' = gcd b (a mod b) \<and> b * x' + (a mod b) * y' = g'"
      using "1.IH" [OF False _ _ r] False by simp
    have e: "g = g'" "x = y'" "y = x' - (a div b) * y'"
      using 1(4) False r by (auto simp: egcd.simps [of a b])
    have "a = b * (a div b) + a mod b" by simp
    then have "a * y' = (b * (a div b) + a mod b) * y'" by (rule arg_cong)
    then have "a * y' = b * (a div b) * y' + (a mod b) * y'" by (simp only: distrib_right)
    then have "a * x + b * y = g'" using IH unfolding e by (simp add: algebra_simps)
    moreover have "g' = gcd a b" using IH by (metis gcd.commute gcd_red_int)
    ultimately show ?thesis using e(1) by simp
  qed
qed

definition big_ModInverse :: "int \<Rightarrow> int \<Rightarrow> int option" where
  "big_ModInverse a n = (case egcd (a mod n) n of (g, x, y) \<Rightarrow> if g = 1 then Some (x mod n) else None)"

lemma big_ModInverse_Some:
  assumes n: "0 < n" and r: "big_ModInverse a n = Some x"
  shows "0 \<le> x \<and> x < n \<and> a * x mod n = 1 mod n"
proof -
  obtain g u v where e: "egcd (a mod n) n = (g, u, v)" by (metis prod_cases3)
  have g: "g = 1" "x = u mod n" using r by (auto simp: big_ModInverse_def e split: if_splits)
  have "g = gcd (a mod n) n \<and> (a mod n) * u + n * v = g" using egcd_correct [OF _ _ e] n by simp
  then have "(a mod n) * u + n * v = 1" using g by simp
  then have "((a mod n) * u + n * v) mod n = 1 mod n" by simp
  then have "a * (u mod n) mod n = 1 mod n" by (simp add: mod_mult_left_eq mod_mult_right_eq)
  then show ?thesis using n by (simp add: g(2))
qed

lemma big_ModInverse_coprime:
  assumes n: "0 < n" and c: "coprime a n"
  shows "\<exists>x. big_ModInverse a n = Some x"
proof -
  obtain g u v where e: "egcd (a mod n) n = (g, u, v)" by (metis prod_cases3)
  have "g = gcd (a mod n) n" using egcd_correct [OF _ _ e] n by simp
  also have "\<dots> = gcd a n" by (metis gcd.commute gcd_red_int)
  also have "\<dots> = 1" using c by simp
  finally show ?thesis by (simp add: big_ModInverse_def e)
qed

end
