(* ===== verification/Bytes.thy ===== *)
theory Bytes
  imports Prelude "HOL-Library.Word"
begin

unbundle bit_operations_syntax

text \<open>
  Byte strings as the program uses them: \<open>big.Int\<close>'s \<open>Bytes\<close> and \<open>SetBytes\<close>, the four-byte length
  prefixes, and \<open>crypto/sha256\<close>. Results of fallible functions are \<open>'e + 'a\<close>, composed with
  \<open>rbind\<close>.
\<close>

section \<open>Results\<close>

definition rbind :: "'e + 'a \<Rightarrow> ('a \<Rightarrow> 'e + 'b) \<Rightarrow> 'e + 'b" where
  "rbind r f = (case r of Inl e \<Rightarrow> Inl e | Inr a \<Rightarrow> f a)"

lemma rbind_simps [simp]: "rbind (Inl e) f = Inl e" "rbind (Inr a) f = f a"
  by (simp_all add: rbind_def)

lemma rbind_Inr: "rbind r f = Inr b \<longleftrightarrow> (\<exists>a. r = Inr a \<and> f a = Inr b)"
  by (cases r) simp_all

lemma rbind_cong [fundef_cong]:
  "r = r' \<Longrightarrow> (\<And>a. r' = Inr a \<Longrightarrow> f a = g a) \<Longrightarrow> rbind r f = rbind r' g"
  by (cases r') simp_all

text \<open>\<open>for\<close> over a slice with an early return on the first error.\<close>

fun rmap :: "('a \<Rightarrow> 'e + 'b) \<Rightarrow> 'a list \<Rightarrow> 'e + 'b list" where
  "rmap f [] = Inr []"
| "rmap f (x # xs) = rbind (f x) (\<lambda>y. rbind (rmap f xs) (\<lambda>ys. Inr (y # ys)))"

lemma rmap_Inr: "rmap f xs = Inr ys \<longleftrightarrow> list_all2 (\<lambda>x y. f x = Inr y) xs ys"
  by (induction xs arbitrary: ys) (auto simp: rbind_Inr list_all2_Cons1)

lemma rmap_total: "(\<And>x. x \<in> set xs \<Longrightarrow> f x = Inr (g x)) \<Longrightarrow> rmap f xs = Inr (map g xs)"
  by (induction xs) auto

section \<open>Bytes of numbers\<close>

type_synonym byte = "8 word"

function le_bytes :: "int \<Rightarrow> byte list" where
  "le_bytes n = (if n \<le> 0 then [] else word_of_int n # le_bytes (n div 256))"
  by pat_completeness auto
termination by (relation "measure nat") auto

declare le_bytes.simps [simp del]

lemma le_bytes_0 [simp]: "le_bytes 0 = []"
  by (simp add: le_bytes.simps [of 0])

definition big_Bytes :: "int \<Rightarrow> byte list" where
  "big_Bytes x = rev (le_bytes \<bar>x\<bar>)"

definition big_SetBytes :: "byte list \<Rightarrow> int" where
  "big_SetBytes bs = foldl (\<lambda>a b. 256 * a + uint b) 0 bs"

definition be32 :: "nat \<Rightarrow> byte list" where
  "be32 n = map (\<lambda>k. word_of_int (int n div 256 ^ k)) [3, 2, 1, 0]"

lemma length_be32 [simp]: "length (be32 n) = 4"
  by (simp add: be32_def)

lemma big_SetBytes_append: "big_SetBytes (xs @ [b]) = 256 * big_SetBytes xs + uint b"
  by (simp add: big_SetBytes_def)

lemma big_SetBytes_nonneg: "0 \<le> big_SetBytes bs"
  by (induction bs rule: rev_induct) (simp_all add: big_SetBytes_append, simp add: big_SetBytes_def)

lemma SetBytes_rev_le_bytes: "0 \<le> n \<Longrightarrow> big_SetBytes (rev (le_bytes n)) = n"
proof (induction n rule: le_bytes.induct)
  case (1 n)
  show ?case
  proof (cases "n = 0")
    case True
    then show ?thesis by (simp add: big_SetBytes_def)
  next
    case False
    have u: "uint (word_of_int n :: byte) = n mod 256"
      by (simp add: uint_word_of_int)
    have "big_SetBytes (rev (le_bytes n)) = 256 * (n div 256) + n mod 256"
      using False 1 by (simp add: le_bytes.simps [of n] big_SetBytes_append u)
    then show ?thesis by simp
  qed
qed

lemma SetBytes_Bytes [simp]: "0 \<le> x \<Longrightarrow> big_SetBytes (big_Bytes x) = x"
  by (simp add: big_Bytes_def SetBytes_rev_le_bytes)

lemma big_Bytes_inject: "0 \<le> x \<Longrightarrow> 0 \<le> y \<Longrightarrow> big_Bytes x = big_Bytes y \<longleftrightarrow> x = y"
  by (metis SetBytes_Bytes)

lemma length_le_bytes: "n < 256 ^ k \<Longrightarrow> length (le_bytes n) \<le> k"
proof (induction k arbitrary: n)
  case 0
  then show ?case by (simp add: le_bytes.simps [of n])
next
  case (Suc k)
  then have "n div 256 < 256 ^ k" by (simp add: div_less_iff_less_mult mult.commute)
  then show ?case using Suc.IH [of "n div 256"] by (simp add: le_bytes.simps [of n])
qed

lemma length_big_Bytes: "\<bar>x\<bar> < 256 ^ k \<Longrightarrow> length (big_Bytes x) \<le> k"
  by (simp add: big_Bytes_def length_le_bytes)

section \<open>SHA-256\<close>

type_synonym w32 = "32 word"

text \<open>
  The round constants and the initial state are the first 32 bits after the point of the cube and
  square roots of the first primes; they are computed here.
\<close>

definition floor_root :: "nat \<Rightarrow> int \<Rightarrow> int" where
  "floor_root k n = fold (\<lambda>i r. if (r + 2 ^ i) ^ k \<le> n then r + 2 ^ i else r) (rev [0..<40]) 0"

definition sha_primes :: "int list" where
  "sha_primes = filter (\<lambda>n. list_all (\<lambda>d. n mod d \<noteq> 0) [2..n - 1]) [2..311]"

definition sha_K :: "w32 list" where
  "sha_K = map (\<lambda>p. word_of_int (floor_root 3 (p * 2 ^ 96))) sha_primes"

type_synonym sha_state = "w32 \<times> w32 \<times> w32 \<times> w32 \<times> w32 \<times> w32 \<times> w32 \<times> w32"

definition sha_init :: sha_state where
  "sha_init = (case map (\<lambda>p. word_of_int (floor_root 2 (p * 2 ^ 64))) (take 8 sha_primes) of
     [a, b, c, d, e, f, g, h] \<Rightarrow> (a, b, c, d, e, f, g, h) | _ \<Rightarrow> (0, 0, 0, 0, 0, 0, 0, 0))"

definition rotr :: "nat \<Rightarrow> w32 \<Rightarrow> w32" where
  "rotr k x = drop_bit k x OR push_bit (32 - k) x"

definition sha_pad :: "byte list \<Rightarrow> byte list" where
  "sha_pad m = (let l = length m
     in m @ [0x80] @ replicate ((119 - l mod 64) mod 64) 0
        @ map (\<lambda>k. word_of_int (8 * int l div 256 ^ k)) [7, 6, 5, 4, 3, 2, 1, 0])"

fun be_words :: "byte list \<Rightarrow> w32 list" where
  "be_words (a # b # c # d # bs) =
     (push_bit 24 (ucast a) OR push_bit 16 (ucast b) OR push_bit 8 (ucast c) OR ucast d) # be_words bs"
| "be_words _ = []"

text \<open>The schedule keeps its last 16 words, newest first, and emits one word per step.\<close>

fun sha_schedule :: "nat \<Rightarrow> w32 list \<Rightarrow> w32 list" where
  "sha_schedule 0 ws = []"
| "sha_schedule (Suc n) ws =
     (let w15 = ws ! 1; w2 = ws ! 14;
          s0 = rotr 7 w15 XOR rotr 18 w15 XOR drop_bit 3 w15;
          s1 = rotr 17 w2 XOR rotr 19 w2 XOR drop_bit 10 w2;
          w = hd ws + s0 + ws ! 9 + s1
      in hd ws # sha_schedule n (tl ws @ [w]))"

definition sha_round :: "w32 \<times> w32 \<Rightarrow> sha_state \<Rightarrow> sha_state" where
  "sha_round kw st = (case st of (a, b, c, d, e, f, g, h) \<Rightarrow>
     let S1 = rotr 6 e XOR rotr 11 e XOR rotr 25 e;
         ch = (e AND f) XOR (NOT e AND g);
         t1 = h + S1 + ch + fst kw + snd kw;
         S0 = rotr 2 a XOR rotr 13 a XOR rotr 22 a;
         maj = (a AND b) XOR (a AND c) XOR (b AND c);
         t2 = S0 + maj
     in (t1 + t2, a, b, c, d + t1, e, f, g))"

definition sha_block :: "w32 list \<Rightarrow> sha_state \<Rightarrow> sha_state" where
  "sha_block ws st = (case (st, fold sha_round (zip sha_K (sha_schedule 64 ws)) st) of
     ((a, b, c, d, e, f, g, h), (a', b', c', d', e', f', g', h')) \<Rightarrow>
       (a + a', b + b', c + c', d + d', e + e', f + f', g + g', h + h'))"

fun sha_blocks :: "nat \<Rightarrow> w32 list \<Rightarrow> sha_state \<Rightarrow> sha_state" where
  "sha_blocks 0 ws st = st"
| "sha_blocks (Suc n) ws st = sha_blocks n (drop 16 ws) (sha_block (take 16 ws) st)"

definition word_bytes :: "w32 \<Rightarrow> byte list" where
  "word_bytes w = map (\<lambda>k. ucast (drop_bit k w)) [24, 16, 8, 0]"

definition sha256 :: "byte list \<Rightarrow> byte list" where
  "sha256 m = (let p = sha_pad m in
     case sha_blocks (length p div 64) (be_words p) sha_init of
       (a, b, c, d, e, f, g, h) \<Rightarrow> concat (map word_bytes [a, b, c, d, e, f, g, h]))"

lemma length_sha256 [simp]: "length (sha256 m) = 32"
  by (simp add: sha256_def Let_def word_bytes_def split: prod.split)

end
