(* ===== verification/SRA.thy ===== *)
theory SRA
  imports NumTheory Bytes
begin

text \<open>
  internal/crypto/params.go and internal/crypto/sra.go: the shared prime, cards as field elements,
  and the commutative SRA cipher. A \<open>*big.Int\<close> that may be nil is an \<open>int option\<close>. \<open>crypto/rand\<close>
  is the list of the numbers it returns (an exhausted list is a read error), and
  \<open>ProbablyPrime\<close> is primality.
\<close>

datatype crypto_error =
    ErrNotPrime | ErrRand | ErrNoInverse | ErrNilModulus | ErrNilExponent | ErrExponentRange
  | ErrNilKey | ErrNoPrivate | ErrMessage | ErrAt nat crypto_error
  | ErrThreshold | ErrTooFewShares | ErrNoShares
  | ErrCommitment | ErrNilProof | ErrProofEquation nat
  | ErrDeckSize nat nat | ErrNil | ErrIndex | ErrNotACard | ErrEmptyId | ErrEmptySession
  | ErrCiphertextMismatch | ErrTooFewPlayers | ErrLengths | ErrDealer | ErrPlayer | ErrRound
  | ErrUnknownRecipient | ErrDuplicateSeat | ErrLocalMissing | ErrPublicCount | ErrExtraPublic
  | ErrLocalExponent | ErrMissingExponent | ErrSerialise
  | ErrHandNum | ErrEmptyDeck | ErrStarted | ErrNotStarted | ErrUnknownPlayer | ErrDuplicateStep
  | ErrLocalStep | ErrWrongSeat | ErrBuffered | ErrNotTurn | ErrNotDone | ErrWrongHand
  | ErrBusy | ErrStreet | ErrRevealed | ErrNoJobs | ErrCardIndex | ErrNoPeelers | ErrNoJob
  | ErrModulusMismatch | ErrNoDeck | ErrWrongCard | ErrPanic

section \<open>Parameters\<close>

definition SharedPrime :: int where
  "SharedPrime = 0xffffffffffffffffc90fdaa22168c234c4c6628b80dc1cd129024e088a67cc74020bbea63b139b22514a08798e3404ddef9519b3cd3a431b302b0a6df25f14374fe1356d6d51c245e485b576625e7ec6f44c42e9a637ed6b0bff5cb6f406b7edee386bfb5a899fa5ae9f24117c4b1fe649286651ece45b3dc2007cb8a163bf0598da48361c55d39a69163fa8fd24cf5f83655d23dca3ad961c62f356208552bb9ed529077096966d670c354e4abc9804f1746c08ca18217c32905e462e36ce3be39e772c180e86039b2783a2ec07a28fb5c55df06f4c52c9de2bcbf6955817183995497cea956ae515d2261898fa051015728e5a8aacaa68ffffffffffffffff"

text \<open>\<open>CardToField\<close> panics (\<open>None\<close>) outside 0..51.\<close>

definition CardToField :: "int \<Rightarrow> int \<Rightarrow> int option" where
  "CardToField cardID p =
     (if cardID < 0 \<or> cardID > 51 then None else Some (big_Exp 2 (cardID + 1) p))"

definition FieldToCard :: "int \<Rightarrow> int \<Rightarrow> int" where
  "FieldToCard val p =
     (case find (\<lambda>i. big_Exp 2 (i + 1) p = val) (map int [0..<52]) of Some i \<Rightarrow> i | None \<Rightarrow> -1)"

definition BuildPlaintextDeck :: "int \<Rightarrow> int list" where
  "BuildPlaintextDeck p = map (\<lambda>i. the (CardToField (int i) p)) [0..<52]"

type_synonym playerID = string

definition str_bytes :: "string \<Rightarrow> byte list" where
  "str_bytes s = map of_char s"

definition SessionID :: "playerID list \<Rightarrow> byte list \<Rightarrow> byte list" where
  "SessionID playerIDs nonce = sha256 (concat (map (\<lambda>i. str_bytes i @ [0]) playerIDs) @ nonce)"

section \<open>Keys\<close>

record SRAKey =
  key_E :: "int option"
  key_D :: "int option"
  key_P :: "int option"

definition mk_key :: "int option \<Rightarrow> int option \<Rightarrow> int option \<Rightarrow> SRAKey" where
  "mk_key e d p = \<lparr>key_E = e, key_D = d, key_P = p\<rparr>"

lemma mk_key_sel [simp]: "key_E (mk_key e d p) = e" "key_D (mk_key e d p) = d" "key_P (mk_key e d p) = p"
  by (simp_all add: mk_key_def)

text \<open>The rejection loop over the numbers drawn below \<open>phi\<close>.\<close>

fun pick_e :: "int \<Rightarrow> int list \<Rightarrow> crypto_error + int" where
  "pick_e phi [] = Inl ErrRand"
| "pick_e phi (r # rs) =
     (let candidate = r + 2
      in if candidate \<ge> phi then pick_e phi rs
         else if gcd candidate phi = 1 then Inr candidate else pick_e phi rs)"

definition GenerateSRAKey :: "int option \<Rightarrow> int list \<Rightarrow> crypto_error + SRAKey" where
  "GenerateSRAKey po draws =
     (case po of None \<Rightarrow> Inl ErrNotPrime
      | Some p \<Rightarrow> if \<not> prime_int p then Inl ErrNotPrime
          else let phi = p - 1
               in rbind (pick_e phi draws) (\<lambda>e.
                    case big_ModInverse e phi of None \<Rightarrow> Inl ErrNoInverse
                    | Some d \<Rightarrow> Inr (mk_key (Some e) (Some d) (Some p))))"

definition PublicSRAKey :: "int option \<Rightarrow> int option \<Rightarrow> crypto_error + SRAKey" where
  "PublicSRAKey po eo =
     (case po of None \<Rightarrow> Inl ErrNilModulus | Some p \<Rightarrow>
        case eo of None \<Rightarrow> Inl ErrNilExponent | Some e \<Rightarrow>
          if e \<le> 0 \<or> e \<ge> p then Inl ErrExponentRange else Inr (mk_key (Some e) None (Some p)))"

definition IsPrivate :: "SRAKey option \<Rightarrow> bool" where
  "IsPrivate ko = (case ko of None \<Rightarrow> False | Some k \<Rightarrow> key_D k \<noteq> None)"

definition cloneSRAKey :: "SRAKey option \<Rightarrow> SRAKey option" where
  "cloneSRAKey ko = map_option (\<lambda>k. mk_key (key_E k) (key_D k) (key_P k)) ko"

definition cloneSRAKeyPublic :: "SRAKey option \<Rightarrow> SRAKey option" where
  "cloneSRAKeyPublic ko = map_option (\<lambda>k. mk_key (key_E k) None (key_P k)) ko"

definition PublicView :: "SRAKey option \<Rightarrow> SRAKey option" where
  "PublicView ko = cloneSRAKeyPublic ko"

definition validateMessage :: "int \<Rightarrow> int option \<Rightarrow> crypto_error option" where
  "validateMessage p mo = (case mo of None \<Rightarrow> Some ErrMessage
     | Some m \<Rightarrow> if m < 1 \<or> m > p - 2 then Some ErrMessage else None)"

definition Encrypt :: "SRAKey option \<Rightarrow> int option \<Rightarrow> crypto_error + int" where
  "Encrypt ko mo = (case ko of None \<Rightarrow> Inl ErrNilKey
     | Some k \<Rightarrow> (case (key_E k, key_P k) of
         (Some e, Some p) \<Rightarrow> (case validateMessage p mo of Some er \<Rightarrow> Inl er
            | None \<Rightarrow> Inr (big_Exp (the mo) e p))
       | _ \<Rightarrow> Inl ErrNilKey))"

definition Decrypt :: "SRAKey option \<Rightarrow> int option \<Rightarrow> crypto_error + int" where
  "Decrypt ko co = (case ko of None \<Rightarrow> Inl ErrNoPrivate
     | Some k \<Rightarrow> (case key_D k of None \<Rightarrow> Inl ErrNoPrivate
       | Some d \<Rightarrow> (case key_P k of None \<Rightarrow> Inl ErrNilModulus
         | Some p \<Rightarrow> (case validateMessage p co of Some er \<Rightarrow> Inl er
            | None \<Rightarrow> Inr (big_Exp (the co) d p)))))"

fun all_at :: "('a \<Rightarrow> crypto_error + 'b) \<Rightarrow> nat \<Rightarrow> 'a list \<Rightarrow> crypto_error + 'b list" where
  "all_at f i [] = Inr []"
| "all_at f i (c # cs) = (case f c of Inl e \<Rightarrow> Inl (ErrAt i e)
     | Inr x \<Rightarrow> rbind (all_at f (i + 1) cs) (\<lambda>xs. Inr (x # xs)))"

definition EncryptAll :: "SRAKey option \<Rightarrow> int option list \<Rightarrow> crypto_error + int list" where
  "EncryptAll ko cards = all_at (Encrypt ko) 0 cards"

definition DecryptAll :: "SRAKey option \<Rightarrow> int option list \<Rightarrow> crypto_error + int list" where
  "DecryptAll ko cards = all_at (Decrypt ko) 0 cards"

definition PublicKey :: "SRAKey option \<Rightarrow> int option" where
  "PublicKey ko = (case ko of None \<Rightarrow> None | Some k \<Rightarrow> key_E k)"

definition VerifyKeyPair :: "SRAKey option \<Rightarrow> bool" where
  "VerifyKeyPair ko = (case ko of None \<Rightarrow> False
     | Some k \<Rightarrow> (case (key_E k, key_D k, key_P k) of
         (Some e, Some d, Some p) \<Rightarrow> (e * d) mod (p - 1) = 1
       | _ \<Rightarrow> False))"

section \<open>Cards as field elements\<close>

lemma pow2_small: "i < 52 \<Longrightarrow> 2 ^ 52 < p \<Longrightarrow> big_Exp 2 (int i + 1) p = 2 ^ (i + 1)"
proof -
  assume i: "i < 52" and p: "(2 :: int) ^ 52 < p"
  have "(2 :: int) ^ (i + 1) \<le> 2 ^ 52" using i by (intro power_increasing) auto
  then have "(2 :: int) ^ (i + 1) < p" using p by linarith
  moreover have "nat (int i + 1) = i + 1" by simp
  ultimately show ?thesis by (simp add: big_Exp_def)
qed

lemma CardToField_small: "i < 52 \<Longrightarrow> 2 ^ 52 < p \<Longrightarrow> CardToField (int i) p = Some (2 ^ (i + 1))"
  using pow2_small [of i p] by (simp add: CardToField_def)

lemma BuildPlaintextDeck_nth: "i < 52 \<Longrightarrow> 2 ^ 52 < p \<Longrightarrow> BuildPlaintextDeck p ! i = 2 ^ (i + 1)"
  using CardToField_small [of i p] by (simp add: BuildPlaintextDeck_def del: upt_Suc)

lemma length_BuildPlaintextDeck [simp]: "length (BuildPlaintextDeck p) = 52"
  by (simp add: BuildPlaintextDeck_def)

lemma FieldToCard_deck:
  assumes i: "i < 52" and p: "2 ^ 52 < p"
  shows "FieldToCard (BuildPlaintextDeck p ! i) p = int i"
proof -
  let ?P = "\<lambda>k. big_Exp 2 (k + 1) p = BuildPlaintextDeck p ! i"
  have iff: "?P (int j) \<longleftrightarrow> j = i" if "j < 52" for j
    using pow2_small [OF that p] BuildPlaintextDeck_nth [OF i p] by simp
  have "find ?P (map int [0..<52]) = Some (int i)"
    unfolding find_Some_iff using i iff by (intro exI [of _ i]) auto
  then show ?thesis by (simp add: FieldToCard_def)
qed

lemma FieldToCard_range: "FieldToCard v p = -1 \<or> (0 \<le> FieldToCard v p \<and> FieldToCard v p < 52)"
proof (cases "find (\<lambda>i. big_Exp 2 (i + 1) p = v) (map int [0..<52])")
  case (Some x)
  then obtain i where "i < length (map int [0..<52])" "x = map int [0..<52] ! i"
    unfolding find_Some_iff by blast
  then have "x = int i" "i < 52" by simp_all
  then show ?thesis using Some by (simp add: FieldToCard_def)
qed (simp add: FieldToCard_def)

end
