(* ===== verification/Commit.thy ===== *)
theory Commit
  imports SRA
begin

text \<open>
  internal/crypto/commit.go, first half: hash commitments to byte strings and to decks. A card
  slot of a deck may be a nil pointer (\<open>None\<close>); the bytes of a random nonce are an argument
  (\<open>None\<close> when \<open>crypto/rand\<close> fails). \<open>serialiseDeck\<close> is \<open>None\<close> where the Go code panics.
\<close>

record Commitment =
  com_Hash :: "byte list"
  com_Nonce :: "byte list"

definition computeCommitmentHash :: "byte list \<Rightarrow> byte list \<Rightarrow> byte list" where
  "computeCommitmentHash data nonce = sha256 (be32 (length data) @ data @ nonce)"

definition NewCommitment :: "byte list option \<Rightarrow> byte list \<Rightarrow> crypto_error + Commitment" where
  "NewCommitment rnd data = (case rnd of None \<Rightarrow> Inl ErrRand
     | Some nonce \<Rightarrow> Inr \<lparr>com_Hash = computeCommitmentHash data nonce, com_Nonce = nonce\<rparr>)"

definition Verify :: "Commitment \<Rightarrow> byte list \<Rightarrow> crypto_error option" where
  "Verify c data = (let expected = computeCommitmentHash data (com_Nonce c)
     in if length expected \<noteq> length (com_Hash c) then Some ErrCommitment
        else let diff = fold (\<lambda>i d. d OR (expected ! i XOR com_Hash c ! i)) [0..<length expected] 0
          in if diff \<noteq> 0 then Some ErrCommitment else None)"

text \<open>
  Card \<open>i\<close> is right-aligned in the 256 bytes that end at \<open>256 * (i + 1)\<close>. A longer number starts
  before its slot: the slice bound is negative for the first card (panic) and runs into the
  previous slot for the others.
\<close>

definition put_card :: "byte list \<Rightarrow> nat \<Rightarrow> int option \<Rightarrow> byte list option" where
  "put_card out i v = (case v of None \<Rightarrow> None
     | Some x \<Rightarrow> let b = big_Bytes x; hi = i * 256 + 256
         in if length b > hi then None else Some (take (hi - length b) out @ b @ drop hi out))"

fun put_cards :: "byte list \<Rightarrow> nat \<Rightarrow> int option list \<Rightarrow> byte list option" where
  "put_cards out i [] = Some out"
| "put_cards out i (v # vs) = (case put_card out i v of None \<Rightarrow> None | Some o' \<Rightarrow> put_cards o' (i + 1) vs)"

definition serialiseDeck :: "int option list \<Rightarrow> byte list option" where
  "serialiseDeck deck = put_cards (replicate (length deck * 256) 0) 0 deck"

definition NewDeckCommitment :: "byte list option \<Rightarrow> int option list \<Rightarrow> crypto_error + Commitment" where
  "NewDeckCommitment rnd deck = (case serialiseDeck deck of None \<Rightarrow> Inl ErrPanic
     | Some d \<Rightarrow> NewCommitment rnd d)"

definition VerifyDeck :: "Commitment \<Rightarrow> int option list \<Rightarrow> crypto_error option" where
  "VerifyDeck c deck = (case serialiseDeck deck of None \<Rightarrow> Some ErrPanic | Some d \<Rightarrow> Verify c d)"

section \<open>The comparison\<close>

lemma or_eq_0: "(a :: byte) OR b = 0 \<longleftrightarrow> a = 0 \<and> b = 0"
  by (rule or_eq_0_iff)

lemma xor_eq_0: "(a :: byte) XOR b = 0 \<longleftrightarrow> a = b"
  by (auto simp: bit_eq_iff bit_xor_iff)

lemma fold_diff: "fold (\<lambda>i d. d OR (f i XOR g i :: byte)) is d = 0 \<longleftrightarrow> d = 0 \<and> (\<forall>i\<in>set is. f i = g i)"
  by (induction "is" arbitrary: d) (auto simp: or_eq_0 xor_eq_0)

lemma Verify_iff: "Verify c data = None \<longleftrightarrow> com_Hash c = computeCommitmentHash data (com_Nonce c)"
proof -
  define e h where "e = computeCommitmentHash data (com_Nonce c)" and "h = com_Hash c"
  have "Verify c data = None \<longleftrightarrow> length e = length h \<and> (\<forall>i\<in>set [0..<length e]. e ! i = h ! i)"
    unfolding Verify_def Let_def e_def [symmetric] h_def [symmetric] using fold_diff [of "(!) e" "(!) h" "[0..<length e]" 0]
    by (cases "length e = length h") simp_all
  also have "\<dots> \<longleftrightarrow> h = e" using nth_equalityI [of e h] by auto
  finally show ?thesis by (simp only: e_def h_def)
qed

lemma NewCommitment_verifies: "NewCommitment rnd data = Inr c \<Longrightarrow> Verify c data = None"
  by (auto simp: NewCommitment_def Verify_iff split: option.splits)

lemma NewDeckCommitment_verifies: "NewDeckCommitment rnd deck = Inr c \<Longrightarrow> VerifyDeck c deck = None"
  by (auto simp: NewDeckCommitment_def VerifyDeck_def NewCommitment_verifies split: option.splits)

section \<open>Serialised decks\<close>

definition in_slot :: "int \<Rightarrow> bool" where
  "in_slot x \<longleftrightarrow> 0 \<le> x \<and> x < 256 ^ 256"

definition slot :: "int \<Rightarrow> byte list" where
  "slot x = replicate (256 - length (big_Bytes x)) 0 @ big_Bytes x"

lemma in_slot_length: "in_slot x \<Longrightarrow> length (big_Bytes x) \<le> 256"
  by (rule length_big_Bytes) (simp add: in_slot_def)

lemma length_slot: "in_slot x \<Longrightarrow> length (slot x) = 256"
  by (simp add: slot_def in_slot_length)

lemma SetBytes_zeros: "big_SetBytes (replicate k 0 @ bs) = big_SetBytes bs"
  by (induction k) (simp_all add: big_SetBytes_def)

lemma slot_inject: "in_slot x \<Longrightarrow> in_slot y \<Longrightarrow> slot x = slot y \<longleftrightarrow> x = y"
  by (metis SetBytes_Bytes SetBytes_zeros in_slot_def slot_def)

lemma put_card_slot:
  assumes "in_slot x" and "length pre = i * 256"
  shows "put_card (pre @ replicate (256 + k) 0) i (Some x) = Some (pre @ slot x @ replicate k 0)"
proof -
  have l: "length (big_Bytes x) \<le> 256" using assms(1) by (rule in_slot_length)
  then have "i * 256 + 256 - length (big_Bytes x) = i * 256 + (256 - length (big_Bytes x))" by simp
  then show ?thesis using l assms(2) by (simp add: put_card_def Let_def slot_def)
qed

lemma put_cards_slots:
  "\<forall>x\<in>set xs. in_slot x \<Longrightarrow> length pre = i * 256
    \<Longrightarrow> put_cards (pre @ replicate (length xs * 256) 0) i (map Some xs) = Some (pre @ concat (map slot xs))"
proof (induction xs arbitrary: pre i)
  case (Cons x xs)
  have x: "in_slot x" using Cons.prems(1) by simp
  have r: "length (x # xs) * 256 = 256 + length xs * 256" by simp
  have "put_cards (pre @ replicate (length (x # xs) * 256) 0) i (map Some (x # xs))
      = put_cards ((pre @ slot x) @ replicate (length xs * 256) 0) (i + 1) (map Some xs)"
    unfolding r using put_card_slot [OF x Cons.prems(2), of "length xs * 256"]
    by (simp only: put_cards.simps list.map option.case append_assoc)
  also have "\<dots> = Some ((pre @ slot x) @ concat (map slot xs))"
    using Cons.prems by (intro Cons.IH) (simp_all add: length_slot)
  finally show ?case by simp
qed simp

lemma serialiseDeck_slots:
  "\<forall>x\<in>set xs. in_slot x \<Longrightarrow> serialiseDeck (map Some xs) = Some (concat (map slot xs))"
  using put_cards_slots [of xs "[]" 0] by (simp add: serialiseDeck_def)

lemma concat_slots_inject:
  "\<forall>x\<in>set xs. in_slot x \<Longrightarrow> \<forall>y\<in>set ys. in_slot y
    \<Longrightarrow> concat (map slot xs) = concat (map slot ys) \<Longrightarrow> xs = ys"
proof (induction xs arbitrary: ys)
  case Nil
  have "ys = []" using Nil length_slot by (cases ys) (fastforce simp: dest: arg_cong [where f = length])+
  then show ?case by simp
next
  case (Cons x xs)
  have x: "in_slot x" "\<forall>x\<in>set xs. in_slot x" using Cons.prems(1) by simp_all
  have "ys \<noteq> []"
    using Cons.prems(3) length_slot [OF x(1)] by (metis append_is_Nil_conv concat.simps list.map(1,2) list.size(3) zero_neq_numeral)
  then obtain y zs where ys: "ys = y # zs" by (cases ys) auto
  have y: "in_slot y" "\<forall>y\<in>set zs. in_slot y" using Cons.prems(2) by (simp_all add: ys)
  have "slot x = slot y \<and> concat (map slot xs) = concat (map slot zs)"
    using Cons.prems(3) length_slot [OF x(1)] length_slot [OF y(1)] by (simp add: ys append_eq_append_conv)
  then show ?case using Cons.IH [OF x(2) y(2)] slot_inject [OF x(1) y(1)] ys by simp
qed

text \<open>The bytes that are hashed, and what it means for two of them to collide.\<close>

definition commit_input :: "int list \<Rightarrow> byte list \<Rightarrow> byte list" where
  "commit_input xs nonce = be32 (length (concat (map slot xs))) @ concat (map slot xs) @ nonce"

definition sha_collision :: "byte list \<Rightarrow> byte list \<Rightarrow> bool" where
  "sha_collision a b \<longleftrightarrow> a \<noteq> b \<and> sha256 a = sha256 b"

lemma commit_input_inject:
  "\<forall>x\<in>set xs. in_slot x \<Longrightarrow> \<forall>y\<in>set ys. in_slot y
    \<Longrightarrow> commit_input xs nonce = commit_input ys nonce \<Longrightarrow> xs = ys"
  by (rule concat_slots_inject) (auto simp: commit_input_def append_eq_append_conv)

lemma VerifyDeck_slots:
  "\<forall>x\<in>set xs. in_slot x \<Longrightarrow> VerifyDeck c (map Some xs) = None
    \<longleftrightarrow> com_Hash c = sha256 (commit_input xs (com_Nonce c))"
  by (simp add: VerifyDeck_def serialiseDeck_slots Verify_iff computeCommitmentHash_def commit_input_def)

lemma VerifyDeck_result:
  assumes "\<forall>x\<in>set xs. in_slot x"
  shows "VerifyDeck c (map Some xs) = None \<or> VerifyDeck c (map Some xs) = Some ErrCommitment"
  using assms by (simp add: VerifyDeck_def serialiseDeck_slots Verify_def Let_def)

text \<open>
  C18: A deck commitment opens to one deck only: if it verifies against a deck whose cards fit their
  256-byte slots, then any other such deck is refused with the error of a wrong commitment, but for one
  case, in which the hashed strings of the two decks are a SHA-256 collision. (For longer cards this
  is false, see \<open>overlong_cards\<close>.)
\<close>

theorem deck_commitment_binding:
  assumes "VerifyDeck c (map Some xs) = None" and "\<forall>x\<in>set xs. in_slot x" and "\<forall>y\<in>set ys. in_slot y"
  shows "VerifyDeck c (map Some ys) = (if ys = xs \<or> sha_collision (commit_input ys (com_Nonce c)) (commit_input xs (com_Nonce c))
    then None else Some ErrCommitment)"
  using assms VerifyDeck_result [OF assms(3), of c] commit_input_inject [of ys xs "com_Nonce c"]
  by (auto simp: sha_collision_def VerifyDeck_slots)

definition demo_commitment :: Commitment where
  "demo_commitment = \<lparr>com_Hash = sha256 (commit_input [2, 4, 8] [7]), com_Nonce = [7]\<rparr>"

lemma deck_commitment_binding_witness:
  "VerifyDeck demo_commitment (map Some [2, 4, 8]) = None
   \<and> VerifyDeck demo_commitment (map Some [4, 2, 8])
      = (if sha_collision (commit_input [4, 2, 8] [7]) (commit_input [2, 4, 8] [7]) then None else Some ErrCommitment)"
proof -
  have s: "\<forall>x\<in>set [2, 4, 8 :: int]. in_slot x" "\<forall>x\<in>set [4, 2, 8 :: int]. in_slot x" by (simp_all add: in_slot_def)
  have v: "VerifyDeck demo_commitment (map Some [2, 4, 8]) = None"
    using s(1) by (simp only: VerifyDeck_slots) (simp add: demo_commitment_def)
  have n: "com_Nonce demo_commitment = [7]" by (simp add: demo_commitment_def)
  show ?thesis using deck_commitment_binding [OF v s] v unfolding n by simp
qed

lemma byte_256: "(256 :: byte) = 0"
  by code_simp

lemma le_bytes_power: "le_bytes (256 ^ k) = replicate k 0 @ [1]"
proof (induction k)
  case (Suc k)
  have "le_bytes (256 ^ Suc k) = word_of_int (256 * 256 ^ k) # le_bytes (256 ^ k)"
    by (simp add: le_bytes.simps [of "256 * 256 ^ k"] not_le)
  moreover have "(word_of_int (256 * 256 ^ k) :: byte) = 0"
    by (simp add: byte_256)
  ultimately show ?case using Suc.IH by simp
qed (simp add: le_bytes.simps)

lemma big_Bytes_power: "big_Bytes (256 ^ k) = 1 # replicate k 0"
  by (simp add: big_Bytes_def le_bytes_power)

lemma big_Bytes_power_add: "0 \<le> r \<Longrightarrow> r < 256 \<Longrightarrow> big_Bytes (256 ^ Suc k + r) = 1 # replicate k 0 @ [word_of_int r]"
proof -
  assume r: "0 \<le> r" "r < 256"
  have "le_bytes (256 ^ Suc k + r) = word_of_int (256 * 256 ^ k + r) # le_bytes (256 ^ k)"
    using r by (simp add: le_bytes.simps [of "256 * 256 ^ k + r"] add_pos_nonneg not_le)
  moreover have "(word_of_int (256 * 256 ^ k + r) :: byte) = word_of_int r"
    by (simp add: byte_256)
  moreover have "\<bar>256 ^ Suc k + r\<bar> = 256 ^ Suc k + r" using r by simp
  ultimately show ?thesis by (simp only: big_Bytes_def le_bytes_power) simp
qed

text \<open>
  Without that range the encoding is neither injective nor total: the bytes of a card that is too
  long run into the slot before it, and a first card that is too long makes the slice bound
  negative (a panic).
\<close>
theorem overlong_cards:
  "serialiseDeck [Some 0, Some (256 ^ 256 + 5)] = serialiseDeck [Some 1, Some 5]
   \<and> serialiseDeck [Some (256 ^ 256)] = None"
proof -
  have b: "big_Bytes (256 ^ 256 + 5) = 1 # replicate 255 0 @ [5]"
    using big_Bytes_power_add [of 5 255] by simp
  have "serialiseDeck [Some 0, Some (256 ^ 256 + 5)] = Some (replicate 255 0 @ (1 # replicate 255 0 @ [5]))"
    by (simp only: serialiseDeck_def put_cards.simps put_card_def Let_def option.case b) (simp add: big_Bytes_def)
  moreover have "serialiseDeck (map Some [1, 5]) = Some (replicate 255 0 @ (1 # replicate 255 0 @ [5]))"
    by (subst serialiseDeck_slots) (simp_all add: in_slot_def slot_def big_Bytes_def le_bytes.simps)
  moreover have "serialiseDeck [Some (256 ^ 256)] = None"
    by (simp only: serialiseDeck_def put_cards.simps put_card_def Let_def option.case big_Bytes_power) simp
  ultimately show ?thesis by simp
qed

end
