(* ===== verification/Shamir.thy ===== *)
theory Shamir
  imports Commit
begin

text \<open>
  internal/crypto/commit.go, second half: Shamir's secret sharing over the integers modulo \<open>p\<close>.
  The coefficients drawn from \<open>crypto/rand\<close> are an argument; a share read from the wire may have no
  value (\<open>None\<close>, a nil pointer). Main result: any set of at least \<open>t\<close>
  distinct shares reconstructs the secret.
\<close>

record ShamirShare =
  sh_Index :: int
  sh_Value :: "int option"

definition mk_share :: "int \<Rightarrow> int \<Rightarrow> ShamirShare" where
  "mk_share x y = \<lparr>sh_Index = x, sh_Value = Some y\<rparr>"

text \<open>The inner loop of \<open>SplitSecret\<close>: the value so far and the current power of \<open>x\<close>.\<close>

fun share_loop :: "int \<Rightarrow> int \<Rightarrow> int list \<Rightarrow> int \<Rightarrow> int \<Rightarrow> int" where
  "share_loop p x [] y xPow = y"
| "share_loop p x (c # cs) y xPow =
     (let trm = (c * xPow) mod p in share_loop p x cs ((y + trm) mod p) ((xPow * x) mod p))"

definition SplitSecret :: "int \<Rightarrow> int \<Rightarrow> int \<Rightarrow> int \<Rightarrow> int list \<Rightarrow> crypto_error + ShamirShare list" where
  "SplitSecret secret t n p draws =
     (if t < 2 then Inl ErrThreshold
      else if n < t then Inl ErrTooFewShares
      else if int (length draws) < t - 1 then Inl ErrRand
      else let cs = take (nat t - 1) draws
        in Inr (map (\<lambda>x. mk_share x (share_loop p x cs secret x)) [1..n]))"

text \<open>The inner loop of \<open>ReconstructSecret\<close> over the other shares.\<close>

definition lagrange_step :: "int \<Rightarrow> ShamirShare list \<Rightarrow> nat \<Rightarrow> nat \<Rightarrow> int \<times> int \<Rightarrow> int \<times> int" where
  "lagrange_step p shares i j nd =
     (if i = j then nd
      else let xi = sh_Index (shares ! i); xj = sh_Index (shares ! j)
        in ((fst nd * (p - xj)) mod p, (snd nd * ((xi - xj) mod p)) mod p))"

fun reconstruct_loop :: "int \<Rightarrow> ShamirShare list \<Rightarrow> nat list \<Rightarrow> int \<Rightarrow> crypto_error + int" where
  "reconstruct_loop p shares [] secret = Inr secret"
| "reconstruct_loop p shares (i # is) secret =
     (let nd = fold (lagrange_step p shares i) [0..<length shares] (1, 1)
      in case big_ModInverse (snd nd) p of None \<Rightarrow> Inl ErrNoInverse
         | Some denInv \<Rightarrow>
             (case sh_Value (shares ! i) of None \<Rightarrow> Inl ErrPanic
              | Some y \<Rightarrow> let legrange = ((y * fst nd) mod p * denInv) mod p
                  in reconstruct_loop p shares is ((secret + legrange) mod p)))"

definition ReconstructSecret :: "ShamirShare list \<Rightarrow> int \<Rightarrow> crypto_error + int" where
  "ReconstructSecret shares p =
     (if shares = [] then Inl ErrNoShares else reconstruct_loop p shares [0..<length shares] 0)"

section \<open>Polynomials by their values\<close>

text \<open>A function is polynomial of degree below \<open>n\<close> when \<open>n\<close> coefficients give it.\<close>

fun horner :: "int list \<Rightarrow> int \<Rightarrow> int" where
  "horner [] x = 0"
| "horner (c # cs) x = c + x * horner cs x"

definition poly_fun :: "nat \<Rightarrow> (int \<Rightarrow> int) \<Rightarrow> bool" where
  "poly_fun n f \<longleftrightarrow> (\<exists>cs. length cs = n \<and> f = horner cs)"

lemma horner_add: "length as = length bs \<Longrightarrow> horner (map2 (+) as bs) x = horner as x + horner bs x"
  by (induction as bs rule: list_induct2) (simp_all add: algebra_simps)

lemma horner_scale: "horner (map ((*) a) cs) x = a * horner cs x"
  by (induction cs) (simp_all add: algebra_simps)

lemma horner_zeros: "horner (cs @ replicate k 0) x = horner cs x"
proof (induction cs)
  case Nil
  show ?case by (induction k) simp_all
qed simp

lemma poly_fun_add: "poly_fun n f \<Longrightarrow> poly_fun n g \<Longrightarrow> poly_fun n (\<lambda>x. f x + g x)"
proof -
  assume "poly_fun n f" "poly_fun n g"
  then obtain as bs where "length as = n" "f = horner as" "length bs = n" "g = horner bs"
    by (auto simp: poly_fun_def)
  then show ?thesis
    unfolding poly_fun_def by (intro exI [of _ "map2 (+) as bs"]) (auto simp: horner_add)
qed

lemma poly_fun_scale: "poly_fun n f \<Longrightarrow> poly_fun n (\<lambda>x. a * f x)"
  unfolding poly_fun_def by (metis (no_types, lifting) ext horner_scale length_map)

lemma poly_fun_mono: "poly_fun n f \<Longrightarrow> n \<le> m \<Longrightarrow> poly_fun m f"
proof -
  assume "poly_fun n f" "n \<le> m"
  then obtain cs where "length cs = n" "f = horner cs" by (auto simp: poly_fun_def)
  then show ?thesis
    unfolding poly_fun_def using \<open>n \<le> m\<close>
    by (intro exI [of _ "cs @ replicate (m - n) 0"]) (auto simp: horner_zeros)
qed

lemma poly_fun_linear: "poly_fun n f \<Longrightarrow> poly_fun (Suc n) (\<lambda>x. (x - a) * f x)"
proof -
  assume "poly_fun n f"
  then obtain cs where cs: "length cs = n" "f = horner cs" by (auto simp: poly_fun_def)
  have s: "poly_fun (Suc n) (\<lambda>x. x * f x)"
    unfolding poly_fun_def using cs by (intro exI [of _ "0 # cs"]) auto
  have "poly_fun (Suc n) (\<lambda>x. x * f x + - a * f x)"
    using s poly_fun_mono [OF \<open>poly_fun n f\<close>] by (intro poly_fun_add poly_fun_scale) simp_all
  then show ?thesis by (simp add: algebra_simps)
qed

lemma poly_fun_prod: "finite S \<Longrightarrow> poly_fun (Suc (card S)) (\<lambda>x. \<Prod>j\<in>S. x - a j)"
proof (induction S rule: finite_induct)
  case empty
  show ?case unfolding poly_fun_def by (intro exI [of _ "[1]"]) auto
next
  case (insert j S)
  then show ?case using poly_fun_linear [OF insert.IH, of "a j"] by simp
qed

lemma poly_fun_sum: "finite S \<Longrightarrow> (\<And>i. i \<in> S \<Longrightarrow> poly_fun n (f i)) \<Longrightarrow> poly_fun n (\<lambda>x. \<Sum>i\<in>S. f i x)"
proof (induction S rule: finite_induct)
  case empty
  have "horner (replicate n 0) = (\<lambda>x. 0)" by (rule ext) (use horner_zeros [of "[]"] in simp)
  then show ?case unfolding poly_fun_def by (intro exI [of _ "replicate n 0"]) simp
next
  case (insert j S)
  then show ?case by (simp add: poly_fun_add)
qed

text \<open>Synthetic division by a linear factor.\<close>

lemma horner_divide: "\<exists>qs. length qs = length cs - 1 \<and> (\<forall>x. horner cs x = (x - a) * horner qs x + horner cs a)"
proof (induction cs)
  case (Cons c cs)
  then obtain qs where qs: "length qs = length cs - 1" "\<And>x. horner cs x = (x - a) * horner qs x + horner cs a"
    by auto
  show ?case
  proof (cases cs)
    case Nil
    then show ?thesis by (intro exI [of _ "[]"]) simp
  next
    case (Cons d ds)
    have "horner (c # cs) x = (x - a) * horner (horner cs a # qs) x + horner (c # cs) a" for x
    proof -
      have "x * horner cs x = x * ((x - a) * horner qs x + horner cs a)"
        by (rule arg_cong [OF qs(2)])
      then show ?thesis by (simp add: algebra_simps)
    qed
    moreover have "length (horner cs a # qs) = length (c # cs) - 1" using qs(1) Cons by simp
    ultimately show ?thesis by blast
  qed
qed simp

text \<open>Over a prime, \<open>n\<close> coefficients cannot vanish at \<open>n\<close> different points without vanishing.\<close>

lemma horner_vanish:
  assumes p: "prime_int p"
  shows "length cs \<le> card A \<Longrightarrow> finite A \<Longrightarrow> (\<And>a. a \<in> A \<Longrightarrow> p dvd horner cs a)
    \<Longrightarrow> (\<And>a b. a \<in> A \<Longrightarrow> b \<in> A \<Longrightarrow> a \<noteq> b \<Longrightarrow> \<not> p dvd a - b) \<Longrightarrow> p dvd horner cs x"
proof (induction "length cs" arbitrary: cs A x)
  case 0
  then show ?case by simp
next
  case (Suc n)
  have "A \<noteq> {}" using Suc.hyps(2) Suc.prems(1) by auto
  then obtain a where a: "a \<in> A" by blast
  obtain qs where qs: "length qs = length cs - 1" "\<And>x. horner cs x = (x - a) * horner qs x + horner cs a"
    using horner_divide [of cs a] by blast
  have root: "p dvd horner qs b" if b: "b \<in> A - {a}" for b
  proof -
    have "p dvd horner cs b - horner cs a"
      using Suc.prems(3) [of b] Suc.prems(3) [OF a] b by (intro dvd_diff) auto
    moreover have "horner cs b - horner cs a = (b - a) * horner qs b"
      using qs(2) [of b] by linarith
    ultimately have "p dvd (b - a) * horner qs b" by simp
    then show ?thesis using Suc.prems(4) [of b a] a b prime_dvd_mult [OF p] by auto
  qed
  have "p dvd horner qs x"
  proof (rule Suc.hyps(1) [of qs "A - {a}"])
    show "n = length qs" "length qs \<le> card (A - {a})" "finite (A - {a})"
      using Suc.hyps(2) Suc.prems(1,2) qs(1) a by simp_all
    show "\<not> p dvd b - c" if "b \<in> A - {a}" "c \<in> A - {a}" "b \<noteq> c" for b c
      using Suc.prems(4) that by blast
    show "p dvd horner qs b" if "b \<in> A - {a}" for b using that by (rule root)
  qed
  then have "p dvd (x - a) * horner qs x + horner cs a"
    by (intro dvd_add dvd_mult Suc.prems(3) [OF a])
  then show ?case by (simp only: qs(2) [of x, symmetric])
qed

lemma poly_fun_vanish:
  assumes "prime_int p" and "poly_fun n f" and "finite A" and "n \<le> card A"
    and "\<And>a. a \<in> A \<Longrightarrow> p dvd f a" and "\<And>a b. a \<in> A \<Longrightarrow> b \<in> A \<Longrightarrow> a \<noteq> b \<Longrightarrow> \<not> p dvd a - b"
  shows "p dvd f x"
proof -
  obtain cs where "length cs = n" "f = horner cs" using assms(2) by (auto simp: poly_fun_def)
  then show ?thesis using horner_vanish [OF assms(1), of cs A x] assms(3-6) by blast
qed

section \<open>The loops modulo \<open>p\<close>\<close>

lemma share_loop_mod: "share_loop p x cs y xPow mod p = (y + xPow * horner cs x) mod p"
proof (induction cs arbitrary: y xPow)
  case (Cons c cs)
  have "share_loop p x (c # cs) y xPow mod p
      = ((y + (c * xPow) mod p) mod p + ((xPow * x) mod p) * horner cs x) mod p"
    by (simp add: Let_def Cons.IH)
  also have "\<dots> = (y + c * xPow + xPow * x * horner cs x) mod p"
    by (intro mod_add_cong mod_mult_cong) (simp_all add: mod_simps)
  finally show ?case by (simp add: algebra_simps)
qed simp

definition lag_prod :: "int \<Rightarrow> ShamirShare list \<Rightarrow> nat \<Rightarrow> int \<Rightarrow> nat set \<Rightarrow> int" where
  "lag_prod p shares i x S = (\<Prod>j\<in>S - {i}. x - sh_Index (shares ! j))"

lemma lagrange_step_other:
  "i \<noteq> j \<Longrightarrow> lagrange_step p shares i j nd
    = ((fst nd * (p - sh_Index (shares ! j))) mod p,
       (snd nd * ((sh_Index (shares ! i) - sh_Index (shares ! j)) mod p)) mod p)"
  by (simp add: lagrange_step_def Let_def)

lemma lagrange_step_same [simp]: "lagrange_step p shares i i nd = nd"
  by (simp add: lagrange_step_def)

lemma lagrange_fold:
  "fst (fold (lagrange_step p shares i) [0..<m] (1, 1)) mod p = lag_prod p shares i 0 {..<m} mod p
   \<and> snd (fold (lagrange_step p shares i) [0..<m] (1, 1)) mod p
     = lag_prod p shares i (sh_Index (shares ! i)) {..<m} mod p"
proof (induction m)
  case 0
  then show ?case by (simp add: lag_prod_def)
next
  case (Suc m)
  let ?nd = "fold (lagrange_step p shares i) [0..<m] (1, 1)"
  have prod: "lag_prod p shares i x {..<Suc m}
      = (if i = m then 1 else x - sh_Index (shares ! m)) * lag_prod p shares i x {..<m}" for x
  proof (cases "i = m")
    case False
    then have "{..<Suc m} - {i} = insert m ({..<m} - {i})" by auto
    then show ?thesis using False by (simp add: lag_prod_def)
  qed (auto simp: lag_prod_def lessThan_Suc)
  show ?case
  proof (cases "i = m")
    case True
    then show ?thesis using Suc.IH prod by simp
  next
    case False
    let ?xi = "sh_Index (shares ! i)" and ?xj = "sh_Index (shares ! m)"
    have "(fst ?nd * (p - ?xj)) mod p = (lag_prod p shares i 0 {..<m} * (0 - ?xj)) mod p"
      using Suc.IH by (intro mod_mult_cong) (simp_all add: mod_eq_dvd_iff)
    also have "\<dots> = lag_prod p shares i 0 {..<Suc m} mod p"
      using prod False by (simp add: mult.commute)
    finally have a: "(fst ?nd * (p - ?xj)) mod p = lag_prod p shares i 0 {..<Suc m} mod p" .
    have "(snd ?nd * ((?xi - ?xj) mod p)) mod p = (lag_prod p shares i ?xi {..<m} * (?xi - ?xj)) mod p"
      using Suc.IH by (intro mod_mult_cong) simp_all
    also have "\<dots> = lag_prod p shares i ?xi {..<Suc m} mod p"
      using prod False by (simp add: mult.commute)
    finally have "(snd ?nd * ((?xi - ?xj) mod p)) mod p = lag_prod p shares i ?xi {..<Suc m} mod p" .
    then show ?thesis using a lagrange_step_other [OF False] by simp
  qed
qed

lemma reconstruct_loop_ok:
  assumes "\<And>i. i \<in> set is \<Longrightarrow> di i \<noteq> None \<and> di i
      = big_ModInverse (snd (fold (lagrange_step p shares i) [0..<length shares] (1, 1))) p \<and> sh_Value (shares ! i) \<noteq> None"
  shows "\<exists>s. reconstruct_loop p shares is secret = Inr s
    \<and> s mod p = (secret + (\<Sum>i\<leftarrow>is. the (sh_Value (shares ! i)) * the (di i)
                   * lag_prod p shares i 0 {..<length shares})) mod p
    \<and> (is \<noteq> [] \<longrightarrow> s mod p = s)"
  using assms
proof (induction "is" arbitrary: secret)
  case Nil
  then show ?case by simp
next
  case (Cons i "is")
  let ?nd = "fold (lagrange_step p shares i) [0..<length shares] (1, 1)"
  let ?y = "the (sh_Value (shares ! i))"
  note i = Cons.prems [OF list.set_intros(1)]
  obtain d y where dy: "di i = Some d" "sh_Value (shares ! i) = Some y" using i by blast
  have d: "di i = Some d" "big_ModInverse (snd ?nd) p = Some d"
    using dy(1) conjunct1 [OF conjunct2 [OF i]] by simp_all
  let ?l = "((?y * fst ?nd) mod p * d) mod p"
  have step: "reconstruct_loop p shares (i # is) secret
      = reconstruct_loop p shares is ((secret + ?l) mod p)"
    by (simp add: Let_def d dy(2))
  have l: "?l = (?y * d * lag_prod p shares i 0 {..<length shares}) mod p"
  proof -
    have "?l = (?y * d * fst ?nd) mod p" by (simp add: mod_simps mult_ac)
    also have "\<dots> = (?y * d * lag_prod p shares i 0 {..<length shares}) mod p"
      using lagrange_fold [of p shares i "length shares"] by (intro mod_mult_cong) simp_all
    finally show ?thesis .
  qed
  obtain s where s: "reconstruct_loop p shares is ((secret + ?l) mod p) = Inr s"
    "s mod p = ((secret + ?l) mod p + (\<Sum>i\<leftarrow>is. the (sh_Value (shares ! i)) * the (di i)
        * lag_prod p shares i 0 {..<length shares})) mod p" "is \<noteq> [] \<longrightarrow> s mod p = s"
    using Cons.IH [of "(secret + ?l) mod p"] Cons.prems by (meson list.set_intros(2))
  have "s mod p = s" using s(1,3) by (cases "is") auto
  moreover have "s mod p = (secret + (\<Sum>i\<leftarrow>i # is. the (sh_Value (shares ! i)) * the (di i)
      * lag_prod p shares i 0 {..<length shares})) mod p"
    using s(2) [unfolded l] by (simp add: d(1) mod_simps add.assoc)
  ultimately show ?case using s(1) step by auto
qed

section \<open>Reconstruction\<close>

lemma reconstruct_poly:
  assumes p: "prime_int p" and f: "poly_fun n f" "n \<le> length sub" "sub \<noteq> []"
    and y: "\<And>s. s \<in> set sub \<Longrightarrow> sh_Value s \<noteq> None \<and> the (sh_Value s) mod p = f (sh_Index s) mod p"
    and d: "\<And>i j. i < length sub \<Longrightarrow> j < length sub \<Longrightarrow> i \<noteq> j
              \<Longrightarrow> \<not> p dvd sh_Index (sub ! i) - sh_Index (sub ! j)"
  shows "ReconstructSecret sub p = Inr (f 0 mod p)"
proof -
  let ?m = "length sub"
  let ?X = "\<lambda>i. sh_Index (sub ! i)"
  let ?den = "\<lambda>i. snd (fold (lagrange_step p sub i) [0..<?m] (1, 1))"
  let ?inv = "\<lambda>i. big_ModInverse (?den i) p"
  have gt: "1 < p" using p by (rule prime_int_gt)
  have den: "\<not> p dvd ?den i" if "i < ?m" for i
  proof
    assume "p dvd ?den i"
    then have "p dvd lag_prod p sub i (?X i) {..<?m}"
      using lagrange_fold [of p sub i ?m] by (simp add: mod_eq_0_iff_dvd [symmetric])
    then obtain j where "j \<in> {..<?m} - {i}" "p dvd ?X i - ?X j"
      unfolding lag_prod_def using prime_dvd_prod [OF p, of "{..<?m} - {i}"] by blast
    then show False using d [of i j] that by auto
  qed
  have inv: "\<exists>v. ?inv i = Some v \<and> ?den i * v mod p = 1" if i: "i < ?m" for i
  proof -
    obtain v where v: "?inv i = Some v"
      using big_ModInverse_coprime [of p "?den i"] prime_coprime [OF p den [OF i]] gt by auto
    then show ?thesis using big_ModInverse_Some [OF _ v] gt by auto
  qed
  let ?L = "\<lambda>x. \<Sum>i\<in>{..<?m}. (the (sh_Value (sub ! i)) * the (?inv i)) * lag_prod p sub i x {..<?m}"
  have "p dvd ?L 0 + - 1 * f 0"
  proof (rule poly_fun_vanish [OF p, where n = ?m and A = "?X ` {..<?m}" and f = "\<lambda>x. ?L x + - 1 * f x" and x = 0])
    have "poly_fun ?m (\<lambda>x. lag_prod p sub i x {..<?m})" if "i \<in> {..<?m}" for i
      using poly_fun_prod [of "{..<?m} - {i}" "\<lambda>j. ?X j"] that f(3)
      by (simp add: lag_prod_def card_Diff_singleton)
    then have L: "poly_fun ?m ?L" by (intro poly_fun_sum poly_fun_scale) auto
    show "poly_fun ?m (\<lambda>x. ?L x + - 1 * f x)"
      by (rule poly_fun_add [OF L poly_fun_scale [OF poly_fun_mono [OF f(1,2)]]])
    show "finite (?X ` {..<?m})" by simp
    have "inj_on ?X {..<?m}" using d by (fastforce intro: inj_onI)
    then show "?m \<le> card (?X ` {..<?m})" by (simp add: card_image)
    show "\<not> p dvd a - b" if "a \<in> ?X ` {..<?m}" "b \<in> ?X ` {..<?m}" "a \<noteq> b" for a b
      using that d by auto
    show "p dvd ?L a + - 1 * f a" if a: "a \<in> ?X ` {..<?m}" for a
    proof -
      obtain k where k: "k < ?m" "a = ?X k" using a by auto
      have z: "lag_prod p sub i a {..<?m} = 0" if "i \<in> {..<?m} - {k}" for i
        unfolding lag_prod_def using k that by (intro prod_zero) auto
      have "?L a = (the (sh_Value (sub ! k)) * the (?inv k)) * lag_prod p sub k a {..<?m}
          + (\<Sum>i\<in>{..<?m} - {k}. (the (sh_Value (sub ! i)) * the (?inv i)) * lag_prod p sub i a {..<?m})"
        using k by (intro sum.remove) auto
      then have L: "?L a = the (sh_Value (sub ! k)) * the (?inv k) * lag_prod p sub k a {..<?m}"
        using z by simp
      obtain v where v: "?inv k = Some v" "?den k * v mod p = 1" using inv [OF k(1)] by blast
      have "lag_prod p sub k a {..<?m} mod p = ?den k mod p"
        using lagrange_fold [of p sub k ?m] k by simp
      then have "(v * lag_prod p sub k a {..<?m}) mod p = (v * ?den k) mod p"
        by (intro mod_mult_cong) simp_all
      then have one: "(v * lag_prod p sub k a {..<?m}) mod p = 1 mod p"
        using v(2) gt by (simp add: mult.commute)
      have "?L a mod p = (the (sh_Value (sub ! k)) * (v * lag_prod p sub k a {..<?m})) mod p"
        unfolding L by (simp add: v(1) mult.assoc)
      also have "\<dots> = (f a * 1) mod p"
        using one y [of "sub ! k"] k by (intro mod_mult_cong) simp_all
      finally show ?thesis by (simp add: mod_eq_dvd_iff)
    qed
  qed
  then have f0: "?L 0 mod p = f 0 mod p" by (simp add: mod_eq_dvd_iff)
  have inv': "?inv i \<noteq> None \<and> ?inv i = ?inv i \<and> sh_Value (sub ! i) \<noteq> None" if "i \<in> set [0..<?m]" for i
    using inv [of i] y [of "sub ! i"] that by auto
  obtain s where s: "reconstruct_loop p sub [0..<?m] 0 = Inr s" "s mod p = s"
    "s mod p = (0 + (\<Sum>i\<leftarrow>[0..<?m]. the (sh_Value (sub ! i)) * the (?inv i) * lag_prod p sub i 0 {..<?m})) mod p"
    using reconstruct_loop_ok [of "[0..<?m]" ?inv p sub 0, OF inv'] f(3) by auto
  have "(\<Sum>i\<leftarrow>[0..<?m]. the (sh_Value (sub ! i)) * the (?inv i) * lag_prod p sub i 0 {..<?m}) = ?L 0"
    by (simp add: interv_sum_list_conv_sum_set_nat atLeast0LessThan)
  then have "s = f 0 mod p" using s(2,3) f0 by simp
  then show ?thesis using s(1) f(3) by (simp add: ReconstructSecret_def)
qed

lemma SplitSecret_share:
  assumes "SplitSecret secret t n p draws = Inr shares" and "s \<in> set shares"
  shows "1 \<le> sh_Index s \<and> sh_Index s \<le> n
    \<and> sh_Value s \<noteq> None \<and> the (sh_Value s) mod p = horner (secret # take (nat t - 1) draws) (sh_Index s) mod p"
  using assms by (auto simp: SplitSecret_def Let_def share_loop_mod mk_share_def split: if_splits)

lemma SplitSecret_threshold: "SplitSecret secret t n p draws = Inr shares
    \<Longrightarrow> 2 \<le> t \<and> t \<le> n \<and> t - 1 \<le> int (length draws) \<and> length shares = nat n"
  by (auto simp: SplitSecret_def Let_def split: if_splits)

lemma split_reconstruct:
  assumes "SplitSecret secret t n p draws = Inr shares" and "prime_int p" and "n < p"
    and "set sub \<subseteq> set shares" and "distinct (map sh_Index sub)" and "t \<le> int (length sub)"
  shows "ReconstructSecret sub p = Inr (secret mod p)"
proof -
  let ?cs = "secret # take (nat t - 1) draws"
  have t: "2 \<le> t" "t - 1 \<le> int (length draws)"
    using SplitSecret_threshold [OF assms(1)] by simp_all
  have len: "length ?cs = nat t" using t by simp
  have idx: "1 \<le> sh_Index s \<and> sh_Index s \<le> n" if "s \<in> set sub" for s
    using SplitSecret_share [OF assms(1), of s] that assms(4) by auto
  have "ReconstructSecret sub p = Inr (horner ?cs 0 mod p)"
  proof (rule reconstruct_poly [OF assms(2)])
    show "poly_fun (nat t) (horner ?cs)" using len unfolding poly_fun_def by blast
    show "nat t \<le> length sub" "sub \<noteq> []" using assms(6) t by auto
    show "sh_Value s \<noteq> None \<and> the (sh_Value s) mod p = horner ?cs (sh_Index s) mod p" if "s \<in> set sub" for s
      using SplitSecret_share [OF assms(1), of s] that assms(4) by auto
    show "\<not> p dvd sh_Index (sub ! i) - sh_Index (sub ! j)"
      if "i < length sub" "j < length sub" "i \<noteq> j" for i j
    proof
      assume dv: "p dvd sh_Index (sub ! i) - sh_Index (sub ! j)"
      have "sh_Index (sub ! i) \<noteq> sh_Index (sub ! j)"
        using assms(5) that by (auto simp: distinct_conv_nth)
      moreover have "\<bar>sh_Index (sub ! i) - sh_Index (sub ! j)\<bar> < p"
        using idx [of "sub ! i"] idx [of "sub ! j"] that assms(3) by auto
      ultimately show False using dv zdvd_imp_le [of p "\<bar>sh_Index (sub ! i) - sh_Index (sub ! j)\<bar>"] by auto
    qed
  qed
  then show ?thesis by simp
qed

text \<open>
  C17: Any \<open>t\<close> or more different shares of one split give the secret back (modulo \<open>p\<close>), in any order,
  for a prime \<open>p\<close> above the number of shares.
\<close>

theorem shamir_reconstruct:
  assumes "SplitSecret secret t n p draws = Inr shares" and "prime_int p" and "n < p"
    and "set sub \<subseteq> set shares" and "distinct (map sh_Index sub)" and "t \<le> int (length sub)"
  shows "ReconstructSecret sub p = Inr (secret mod p)"
  by (rule split_reconstruct [OF assms])

lemma shamir_reconstruct_witness:
  "\<exists>shares. SplitSecret 5 2 3 7 [4] = Inr shares \<and> ReconstructSecret [shares ! 2, shares ! 0] 7 = Inr 5"
proof -
  let ?sh = "[mk_share 1 2, mk_share 2 6, mk_share 3 3]"
  have s: "SplitSecret 5 2 3 7 [4] = Inr ?sh" by code_simp
  have "prime_int 7" by code_simp
  then have "ReconstructSecret [?sh ! 2, ?sh ! 0] 7 = Inr (5 mod 7)"
    using s by (intro shamir_reconstruct [OF s]) (simp_all add: mk_share_def)
  then show ?thesis using s by simp
qed

end
