(* ===== verification/Cipher.thy ===== *)
theory Cipher
  imports SRA "HOL-Library.Multiset"
begin

text \<open>
  The contract the shuffle and the deal need of a cipher (locale \<open>commutative_cipher\<close>): a layer can
  be taken off whatever the order in which the layers were put on. It is interpreted on the SRA keys
  of a prime modulus.
\<close>

section \<open>The contract\<close>

locale commutative_cipher =
  fixes enc :: "'k \<Rightarrow> 'm \<Rightarrow> 'm" and dec :: "'k \<Rightarrow> 'm \<Rightarrow> 'm"
    and key :: "'g \<Rightarrow> 'k \<Rightarrow> bool" and space :: "'g \<Rightarrow> 'm set"
  assumes enc_space: "key g k \<Longrightarrow> m \<in> space g \<Longrightarrow> enc k m \<in> space g"
    and dec_space: "key g k \<Longrightarrow> m \<in> space g \<Longrightarrow> dec k m \<in> space g"
    and dec_enc: "key g k \<Longrightarrow> m \<in> space g \<Longrightarrow> dec k (enc k m) = m"
    and enc_dec: "key g k \<Longrightarrow> m \<in> space g \<Longrightarrow> enc k (dec k m) = m"
    and enc_commute: "key g k \<Longrightarrow> key g l \<Longrightarrow> m \<in> space g \<Longrightarrow> enc k (enc l m) = enc l (enc k m)"
begin

lemma layers_space:
  "\<forall>k\<in>set ks. key g k \<Longrightarrow> m \<in> space g \<Longrightarrow> fold enc ks m \<in> space g"
  by (induction ks arbitrary: m) (auto intro: enc_space)

lemma unlayers_space:
  "\<forall>k\<in>set ks. key g k \<Longrightarrow> m \<in> space g \<Longrightarrow> fold dec ks m \<in> space g"
  by (induction ks arbitrary: m) (auto intro: dec_space)

lemma enc_layers:
  "key g k \<Longrightarrow> \<forall>l\<in>set ks. key g l \<Longrightarrow> m \<in> space g \<Longrightarrow> fold enc ks (enc k m) = enc k (fold enc ks m)"
proof (induction ks arbitrary: m)
  case (Cons l ks)
  have l: "key g l" using Cons.prems by simp
  have "fold enc (l # ks) (enc k m) = fold enc ks (enc k (enc l m))"
    using enc_commute [OF l Cons.prems(1,3)] by simp
  also have "\<dots> = enc k (fold enc ks (enc l m))"
    using Cons.prems enc_space [OF l] by (intro Cons.IH) auto
  finally show ?case by simp
qed simp

text \<open>Taking off any one layer.\<close>

lemma peel_one:
  assumes "k \<in> set ks" and "\<forall>l\<in>set ks. key g l" and "m \<in> space g"
  shows "dec k (fold enc ks m) = fold enc (remove1 k ks) m"
  using assms
proof (induction ks arbitrary: m)
  case (Cons l ks)
  have l: "key g l" "\<forall>l\<in>set ks. key g l" using Cons.prems by auto
  show ?case
  proof (cases "k = l")
    case True
    have "dec k (fold enc (l # ks) m) = dec k (enc k (fold enc ks m))"
      using enc_layers [OF l Cons.prems(3)] True by simp
    then show ?thesis using dec_enc [of g k "fold enc ks m"] layers_space [OF l(2) Cons.prems(3)] l(1) True by simp
  next
    case False
    then show ?thesis
      using Cons.IH [OF _ l(2) enc_space [OF l(1) Cons.prems(3)]] Cons.prems(1) by auto
  qed
qed simp

lemma layers_mset:
  "mset ks = mset ls \<Longrightarrow> \<forall>k\<in>set ks. key g k \<Longrightarrow> m \<in> space g \<Longrightarrow> fold enc ks m = fold enc ls m"
proof (induction ks arbitrary: ls m)
  case (Cons k ks)
  have kl: "k \<in> set ls" using Cons.prems(1) by (metis list.set_intros(1) set_mset_mset)
  have k: "key g k" "\<forall>l\<in>set ks. key g l" using Cons.prems(2) by auto
  obtain us vs where ls: "ls = us @ k # vs" using kl by (meson split_list)
  have sets: "set ls = set (k # ks)" using Cons.prems(1) by (metis set_mset_mset)
  have us: "\<forall>l\<in>set us. key g l" using sets Cons.prems(2) ls by auto
  have "fold enc ls m = fold enc vs (fold enc us (enc k m))"
    using enc_layers [OF k(1) us Cons.prems(3)] by (simp add: ls)
  also have "\<dots> = fold enc (us @ vs) (enc k m)" by simp
  also have "\<dots> = fold enc ks (enc k m)"
    using Cons.prems(1) k Cons.prems(3)
    by (intro Cons.IH [symmetric] enc_space) (auto simp: ls)
  finally show ?case by simp
qed simp

text \<open>All layers come off, in any order.\<close>

theorem peel_all:
  "mset ks = mset ls \<Longrightarrow> \<forall>k\<in>set ks. key g k \<Longrightarrow> m \<in> space g \<Longrightarrow> fold dec ls (fold enc ks m) = m"
proof (induction ls arbitrary: ks)
  case (Cons l ls)
  have l: "l \<in> set ks" using Cons.prems(1) by (metis list.set_intros(1) set_mset_mset)
  have "fold dec (l # ls) (fold enc ks m) = fold dec ls (fold enc (remove1 l ks) m)"
    using peel_one [OF l Cons.prems(2,3)] by simp
  also have "\<dots> = m"
    using Cons.prems by (intro Cons.IH) (auto dest: notin_set_remove1)
  finally show ?case .
qed simp

lemma enc_inject:
  "key g k \<Longrightarrow> x \<in> space g \<Longrightarrow> y \<in> space g \<Longrightarrow> enc k x = enc k y \<longleftrightarrow> x = y"
  by (metis dec_enc)

lemma layers_inject:
  "\<forall>k\<in>set ks. key g k \<Longrightarrow> x \<in> space g \<Longrightarrow> y \<in> space g \<Longrightarrow> fold enc ks x = fold enc ks y \<longleftrightarrow> x = y"
  by (induction ks arbitrary: x y) (auto simp: enc_inject enc_space)

end

section \<open>SRA keys\<close>

definition sra_key :: "int \<Rightarrow> SRAKey \<Rightarrow> bool" where
  "sra_key p k \<longleftrightarrow> prime_int p \<and> key_P k = Some p
     \<and> (\<exists>e d. key_E k = Some e \<and> key_D k = Some d \<and> 0 \<le> e \<and> 0 \<le> d \<and> e * d mod (p - 1) = 1 mod (p - 1))"

definition sra_space :: "int \<Rightarrow> int set" where
  "sra_space p = {1..p - 2}"

definition sra_enc :: "SRAKey \<Rightarrow> int \<Rightarrow> int" where
  "sra_enc k m = big_Exp m (the (key_E k)) (the (key_P k))"

definition sra_dec :: "SRAKey \<Rightarrow> int \<Rightarrow> int" where
  "sra_dec k m = big_Exp m (the (key_D k)) (the (key_P k))"

text \<open>An exponent with an inverse modulo \<open>p - 1\<close> is odd, so it fixes \<open>p - 1\<close>.\<close>

lemma minus_one_power: "odd n \<Longrightarrow> 2 < p \<Longrightarrow> (p - 1) ^ n mod p = (p - 1 :: int)"
proof -
  assume n: "odd n" and p: "2 < p"
  have "(p - 1) mod p = (- 1) mod p" by (simp add: mod_eq_dvd_iff)
  then have "(p - 1) ^ n mod p = (- 1) ^ n mod p" by (metis power_mod)
  also have "(- 1 :: int) ^ n mod p = - 1 mod p" using n by simp
  also have "- 1 mod p = p - 1" using p by (intro zmod_minus1) simp
  finally show ?thesis .
qed

lemma exponent_space:
  assumes p: "prime_int p" and ed: "0 \<le> e" "0 \<le> d" "e * d mod (p - 1) = 1 mod (p - 1)"
    and m: "m \<in> sra_space p"
  shows "big_Exp m e p \<in> sra_space p"
proof -
  have gt: "2 < p" using m by (simp add: sra_space_def)
  have "odd p"
  proof
    assume "even p"
    moreover have "(2 :: int) \<in> {2..<p}" using gt by simp
    ultimately show False using p by (auto simp: prime_int_def)
  qed
  have odd_d: "odd d"
  proof
    assume "even d"
    moreover have "(p - 1) dvd e * d - 1" using ed(3) by (simp add: mod_eq_dvd_iff)
    moreover have "even (p - 1)" using \<open>odd p\<close> by simp
    ultimately have "even (e * d - 1)" using dvd_trans [of 2 "p - 1" "e * d - 1"] by blast
    then show False using \<open>even d\<close> by simp
  qed
  let ?c = "big_Exp m e p"
  have m': "0 < m" "m < p" "\<not> p dvd m"
    using m prime_not_dvd_small [of m p] by (auto simp: sra_space_def)
  have r: "0 \<le> ?c" "?c < p" using big_Exp_range [of p m e] gt by simp_all
  have "?c \<noteq> 0" using big_Exp_not_dvd [OF p m'(3), of e] by auto
  moreover have "?c \<noteq> p - 1"
  proof
    assume c: "?c = p - 1"
    have "m = big_Exp ?c d p" using big_Exp_inverse [OF p m'(1,2) ed] by simp
    also have "\<dots> = (p - 1) ^ nat d mod p" by (simp only: c) (simp add: big_Exp_def)
    also have "\<dots> = p - 1"
      using minus_one_power [of "nat d" p] odd_d ed(2) gt by (simp add: even_nat_iff)
    finally show False using m by (simp add: sra_space_def)
  qed
  ultimately show ?thesis using r by (simp add: sra_space_def)
qed

interpretation sra: commutative_cipher sra_enc sra_dec sra_key sra_space
proof unfold_locales
  fix p k m assume k: "sra_key p k" and m: "m \<in> sra_space p"
  obtain e d where e: "prime_int p" "key_P k = Some p" "key_E k = Some e" "key_D k = Some d"
    "0 \<le> e" "0 \<le> d" "e * d mod (p - 1) = 1 mod (p - 1)" "d * e mod (p - 1) = 1 mod (p - 1)"
    using k by (auto simp: sra_key_def mult.commute)
  have m': "0 < m" "m < p" using m by (auto simp: sra_space_def)
  show "sra_enc k m \<in> sra_space p" "sra_dec k m \<in> sra_space p"
    using exponent_space [OF e(1,5-7) m] exponent_space [OF e(1,6,5,8) m]
    by (simp_all add: sra_enc_def sra_dec_def e(2-4))
  show "sra_dec k (sra_enc k m) = m" "sra_enc k (sra_dec k m) = m"
    using big_Exp_inverse [OF e(1) m' e(5-7)] big_Exp_inverse [OF e(1) m' e(6,5,8)]
    by (simp_all add: sra_enc_def sra_dec_def e(2-4))
next
  fix p k l m assume "sra_key p k" "sra_key p l" "m \<in> sra_space p"
  then show "sra_enc k (sra_enc l m) = sra_enc l (sra_enc k m)"
    by (auto simp: sra_key_def sra_enc_def big_Exp_commute)
qed

section \<open>The methods of a key\<close>

lemma Encrypt_ok: "sra_key p k \<Longrightarrow> m \<in> sra_space p \<Longrightarrow> Encrypt (Some k) (Some m) = Inr (sra_enc k m)"
  by (auto simp: sra_key_def sra_space_def Encrypt_def validateMessage_def sra_enc_def)

lemma Decrypt_ok: "sra_key p k \<Longrightarrow> m \<in> sra_space p \<Longrightarrow> Decrypt (Some k) (Some m) = Inr (sra_dec k m)"
  by (auto simp: sra_key_def sra_space_def Decrypt_def validateMessage_def sra_dec_def)

lemma all_at_total:
  "(\<And>x. x \<in> set xs \<Longrightarrow> f x = Inr (g x)) \<Longrightarrow> all_at f i xs = Inr (map g xs)"
  by (induction xs arbitrary: i) auto

lemma EncryptAll_ok:
  "sra_key p k \<Longrightarrow> \<forall>m\<in>set ms. m \<in> sra_space p \<Longrightarrow> EncryptAll (Some k) (map Some ms) = Inr (map (sra_enc k) ms)"
  unfolding EncryptAll_def
  by (subst all_at_total [of _ _ "\<lambda>m. sra_enc k (the m)"]) (auto simp: Encrypt_ok comp_def)

lemma pick_e_ok:
  "pick_e phi draws = Inr e \<Longrightarrow> \<forall>r\<in>set draws. 0 \<le> r \<Longrightarrow> 2 \<le> e \<and> e < phi \<and> gcd e phi = 1"
  by (induction draws) (auto simp: Let_def split: if_splits)

lemma GenerateSRAKey_key:
  assumes "GenerateSRAKey (Some p) draws = Inr k" and "\<forall>r\<in>set draws. 0 \<le> r"
  shows "sra_key p k" and "VerifyKeyPair (Some k)"
proof -
  obtain e d where e: "prime_int p" "pick_e (p - 1) draws = Inr e" "big_ModInverse e (p - 1) = Some d"
    "k = mk_key (Some e) (Some d) (Some p)"
    using assms(1) by (auto simp: GenerateSRAKey_def Let_def rbind_Inr split: if_splits option.splits)
  have "2 \<le> e \<and> e < p - 1" using pick_e_ok [OF e(2) assms(2)] by blast
  then have gt: "1 < p - 1" by simp
  have "0 \<le> d \<and> d < p - 1 \<and> e * d mod (p - 1) = 1 mod (p - 1)"
    using big_ModInverse_Some [OF _ e(3)] gt by simp
  then show "sra_key p k" "VerifyKeyPair (Some k)"
    using e(1) \<open>2 \<le> e \<and> e < p - 1\<close> gt by (auto simp: sra_key_def VerifyKeyPair_def e(4))
qed

lemma VerifyKeyPair_key:
  assumes "VerifyKeyPair (Some k)" and "prime_int p" and "key_P k = Some p"
    and "0 \<le> the (key_E k)" and "0 \<le> the (key_D k)" and "2 < p"
  shows "sra_key p k"
  using assms by (auto simp: VerifyKeyPair_def sra_key_def split: option.splits)

end
