(* ===== verification/ShuffleProto.thy ===== *)
theory ShuffleProto
  imports Cipher Shamir Cards
begin

text \<open>
  internal/crypto/shuffle.go: one player's encrypt-and-permute step, its verification, the full
  shuffle, and the encrypted deck. What a step reads from the outside is a \<open>step_rand\<close>: the seed
  bytes and the nonce read from \<open>crypto/rand\<close> (\<open>None\<close> is a read error) and, for the
  \<open>math/rand\<close> generator, the indices it draws as a function of its seed. A nil slice and an empty
  slice are both \<open>[]\<close>.
\<close>

record step_rand =
  sr_seed :: "byte list option"
  sr_rng :: "int \<Rightarrow> nat list"
  sr_nonce :: "byte list option"

record ShuffleStep =
  st_PlayerID :: playerID
  st_InputDeck :: "int option list"
  st_OutputDeck :: "int option list"
  st_Permutation :: "nat list"
  st_Commitment :: "Commitment option"

record ShuffleProtocol =
  sp_P :: int
  sp_SessionID :: "byte list"
  sp_NumCards :: nat

definition NewShuffleProtocol :: "int \<Rightarrow> byte list \<Rightarrow> ShuffleProtocol" where
  "NewShuffleProtocol p sessionID = \<lparr>sp_P = p, sp_SessionID = sessionID, sp_NumCards = 52\<rparr>"

definition randomPermutation :: "step_rand \<Rightarrow> nat \<Rightarrow> crypto_error + nat list" where
  "randomPermutation rnd n = (case sr_seed rnd of None \<Rightarrow> Inl ErrRand
     | Some seedBytes \<Rightarrow>
         let seed = foldl (\<lambda>s b. w64 (s * 256 + uint b)) 0 seedBytes
         in Inr (rand_Shuffle n (sr_rng rnd seed) [0..<n]))"

definition ExecuteStep ::
  "ShuffleProtocol \<Rightarrow> playerID \<Rightarrow> int option list \<Rightarrow> SRAKey option \<Rightarrow> step_rand \<Rightarrow> crypto_error + ShuffleStep" where
  "ExecuteStep sp pid deck key rnd =
     (if key = None \<or> \<not> IsPrivate key then Inl ErrNoPrivate
      else if length deck \<noteq> sp_NumCards sp then Inl (ErrDeckSize (sp_NumCards sp) (length deck))
      else rbind (EncryptAll key deck) (\<lambda>encrypted.
        rbind (randomPermutation rnd (sp_NumCards sp)) (\<lambda>perm.
          let permuted = map (\<lambda>srcIndex. Some (encrypted ! srcIndex)) perm
          in rbind (NewDeckCommitment (sr_nonce rnd) permuted) (\<lambda>commitment.
            Inr \<lparr>st_PlayerID = pid, st_InputDeck = deck, st_OutputDeck = permuted,
                 st_Permutation = perm, st_Commitment = Some commitment\<rparr>))))"

definition VerifyStep :: "ShuffleStep option \<Rightarrow> crypto_error option" where
  "VerifyStep so = (case so of None \<Rightarrow> Some ErrNil
     | Some step \<Rightarrow> (case st_Commitment step of None \<Rightarrow> Some ErrCommitment
         | Some c \<Rightarrow> VerifyDeck c (st_OutputDeck step)))"

text \<open>The loop of \<open>RunFullShuffle\<close> over players, keys and randomness.\<close>

fun shuffle_loop ::
  "ShuffleProtocol \<Rightarrow> (playerID \<times> SRAKey option \<times> step_rand) list \<Rightarrow> int option list
    \<Rightarrow> crypto_error + int option list \<times> ShuffleStep list" where
  "shuffle_loop sp [] current = Inr (current, [])"
| "shuffle_loop sp ((pid, key, rnd) # xs) current =
     rbind (ExecuteStep sp pid current key rnd) (\<lambda>step.
       case VerifyStep (Some step) of Some e \<Rightarrow> Inl e
       | None \<Rightarrow> rbind (shuffle_loop sp xs (st_OutputDeck step)) (\<lambda>(out, steps).
           Inr (out, step # steps)))"

definition RunFullShuffle ::
  "ShuffleProtocol \<Rightarrow> playerID list \<Rightarrow> SRAKey option list \<Rightarrow> step_rand list \<Rightarrow> int option list
    \<Rightarrow> crypto_error + int option list \<times> ShuffleStep list" where
  "RunFullShuffle sp players keys rnds initialDeck =
     (if length players \<noteq> length keys then Inl ErrLengths
      else shuffle_loop sp (zip players (zip keys rnds)) initialDeck)"

record EncryptedDeck =
  ed_Cards :: "int list"
  ed_P :: int
  ed_SessionID :: "byte list"

definition NewEncryptedDeck :: "int option list \<Rightarrow> int \<Rightarrow> byte list \<Rightarrow> crypto_error + EncryptedDeck" where
  "NewEncryptedDeck cards p sessionID =
     (if length cards \<noteq> 52 then Inl (ErrDeckSize 52 (length cards))
      else if None \<in> set cards then Inl ErrPanic
      else Inr \<lparr>ed_Cards = map the cards, ed_P = p, ed_SessionID = sessionID\<rparr>)"

definition CardAt :: "EncryptedDeck \<Rightarrow> int \<Rightarrow> crypto_error + int" where
  "CardAt ed index =
     (if index < 0 \<or> index \<ge> int (length (ed_Cards ed)) then Inl ErrIndex
      else Inr (ed_Cards ed ! nat index))"

section \<open>One step\<close>

lemma randomPermutation_perm:
  assumes "randomPermutation rnd n = Inr perm"
  shows "mset perm = mset [0..<n]" and "length perm = n"
proof -
  show "mset perm = mset [0..<n]"
    using assms mset_rand_Shuffle [of n "[0..<n]"]
    by (auto simp: randomPermutation_def Let_def split: option.splits)
  then show "length perm = n" by (metis diff_zero length_upt size_mset)
qed

lemma mset_nth_perm: "mset perm = mset [0..<length xs] \<Longrightarrow> mset (map (\<lambda>i. xs ! i) perm) = mset xs"
  by (metis map_nth mset_map)

lemma mset_map_eq: "mset xs = mset ys \<Longrightarrow> mset (map f xs) = mset (map f ys)"
  by (metis mset_map)

text \<open>A step publishes its own encryption of the deck, permuted, and its commitment verifies.\<close>

lemma ExecuteStep_result:
  assumes e: "ExecuteStep sp pid (map Some ms) (Some k) rnd = Inr step"
    and k: "sra_key p k" and ms: "set ms \<subseteq> sra_space p"
  shows "\<exists>out. st_OutputDeck step = map Some out \<and> mset out = mset (map (sra_enc k) ms)
     \<and> set out \<subseteq> sra_space p \<and> VerifyStep (Some step) = None \<and> length ms = sp_NumCards sp"
proof -
  have enc: "EncryptAll (Some k) (map Some ms) = Inr (map (sra_enc k) ms)"
    using EncryptAll_ok [OF k] ms by blast
  obtain perm c where perm: "randomPermutation rnd (sp_NumCards sp) = Inr perm"
    and len: "length ms = sp_NumCards sp"
    and com: "NewDeckCommitment (sr_nonce rnd) (map (\<lambda>i. Some (map (sra_enc k) ms ! i)) perm) = Inr c"
    and st: "st_OutputDeck step = map (\<lambda>i. Some (map (sra_enc k) ms ! i)) perm" "st_Commitment step = Some c"
    using e by (auto simp: ExecuteStep_def rbind_Inr Let_def enc split: if_splits)
  let ?out = "map (\<lambda>i. map (sra_enc k) ms ! i) perm"
  have "st_OutputDeck step = map Some ?out" using st by simp
  moreover have m: "mset ?out = mset (map (sra_enc k) ms)"
    using randomPermutation_perm [OF perm] len by (intro mset_nth_perm) simp
  moreover have "set ?out \<subseteq> sra_space p"
  proof -
    have "set ?out = sra_enc k ` set ms" using m by (metis set_map set_mset_mset)
    then show ?thesis using sra.enc_space [OF k] ms by auto
  qed
  moreover have "VerifyStep (Some step) = None"
    using NewDeckCommitment_verifies [OF com] by (simp add: VerifyStep_def st)
  ultimately show ?thesis using len by blast
qed

section \<open>The full shuffle\<close>

lemma shuffle_loop_result:
  "shuffle_loop sp (zip players (zip (map Some ks) rnds)) (map Some ms) = Inr (out, steps)
    \<Longrightarrow> length players = length ks \<Longrightarrow> length rnds = length ks
    \<Longrightarrow> \<forall>k\<in>set ks. sra_key p k \<Longrightarrow> set ms \<subseteq> sra_space p
    \<Longrightarrow> \<exists>os. out = map Some os \<and> mset os = mset (map (fold sra_enc ks) ms) \<and> set os \<subseteq> sra_space p
        \<and> length steps = length ks"
proof (induction ks arbitrary: players rnds ms out steps)
  case Nil
  then show ?case by auto
next
  case (Cons k ks)
  obtain pid ps where players: "players = pid # ps" using Cons.prems(2) by (cases players) auto
  obtain rnd rs where rnds: "rnds = rnd # rs" using Cons.prems(3) by (cases rnds) auto
  have k: "sra_key p k" using Cons.prems(4) by simp
  obtain step o' ss where step: "ExecuteStep sp pid (map Some ms) (Some k) rnd = Inr step"
    and rest: "shuffle_loop sp (zip ps (zip (map Some ks) rs)) (st_OutputDeck step) = Inr (out, ss)"
    and steps: "steps = step # ss"
    using Cons.prems(1) by (auto simp: players rnds rbind_Inr split: option.splits)
  obtain ms' where ms': "st_OutputDeck step = map Some ms'" "mset ms' = mset (map (sra_enc k) ms)"
    "set ms' \<subseteq> sra_space p"
    using ExecuteStep_result [OF step k Cons.prems(5)] by blast
  obtain os where os: "out = map Some os" "mset os = mset (map (fold sra_enc ks) ms')"
    "set os \<subseteq> sra_space p" "length ss = length ks"
    using Cons.IH [OF rest [unfolded ms'(1)]] Cons.prems(2-4) ms'(3) by (auto simp: players rnds)
  have "mset (map (fold sra_enc ks) ms') = mset (map (fold sra_enc (k # ks)) ms)"
    using mset_map_eq [OF ms'(2), of "fold sra_enc ks"] by (simp add: comp_def)
  then show ?case using os steps by (auto simp: o_def)
qed

text \<open>
  Whatever the players' permutations are, the shuffled deck is a rearrangement of the deck under
  all the players' layers.
\<close>

lemma RunFullShuffle_result:
  assumes "RunFullShuffle sp players (map Some ks) rnds (map Some ms) = Inr (out, steps)"
    and "length rnds = length ks" and "\<forall>k\<in>set ks. sra_key p k" and "set ms \<subseteq> sra_space p"
  shows "\<exists>os. out = map Some os \<and> mset os = mset (map (fold sra_enc ks) ms) \<and> set os \<subseteq> sra_space p
     \<and> length steps = length ks"
  using assms by (intro shuffle_loop_result [of sp players]) (auto simp: RunFullShuffle_def split: if_splits)

end
