(* ===== verification/ZKP.thy ===== *)
theory ZKP
  imports Cipher
begin

text \<open>
  internal/crypto/zkp.go: the Chaum-Pedersen style proof attached to every partial decryption.
  The numbers read from \<open>crypto/rand\<close> are an argument. A method called on a nil \<open>*big.Int\<close>
  panics (\<open>ErrPanic\<close>). Main results: an honest proof verifies; the verifier accepts a proof for any
  exponent, because the key \<open>H\<close> it checks against is part of the proof.
\<close>

record ZKProof =
  zk_A :: "int option"
  zk_B :: "int option"
  zk_S :: "int option"
  zk_H :: "int option"

definition mk_proof :: "int \<Rightarrow> int \<Rightarrow> int \<Rightarrow> int \<Rightarrow> ZKProof" where
  "mk_proof a b s h = \<lparr>zk_A = Some a, zk_B = Some b, zk_S = Some s, zk_H = Some h\<rparr>"

definition zk_g :: int where
  "zk_g = 2"

definition with_length :: "int \<Rightarrow> byte list" where
  "with_length v = (let b = big_Bytes v in be32 (length b) @ b)"

definition computeChallenge :: "int \<Rightarrow> int \<Rightarrow> int \<Rightarrow> int \<Rightarrow> int \<Rightarrow> int \<Rightarrow> byte list \<Rightarrow> int" where
  "computeChallenge P h ciphertext result A B sessionID =
     (let digest = sha256 (concat (map with_length [P, h, ciphertext, result, A, B]) @ sessionID)
      in big_SetBytes digest mod (P - 1))"

text \<open>
  The first number drawn is dropped by the loop, which draws again until a number is not zero; a
  read error in the loop leaves a nil \<open>r\<close>, whose \<open>Sign\<close> panics.
\<close>

fun pick_r :: "int list \<Rightarrow> crypto_error + int" where
  "pick_r [] = Inl ErrPanic"
| "pick_r (r # rs) = (if r \<noteq> 0 then Inr r else pick_r rs)"

definition ProveDecryption ::
  "SRAKey option \<Rightarrow> int option \<Rightarrow> int option \<Rightarrow> byte list \<Rightarrow> int list \<Rightarrow> crypto_error + ZKProof" where
  "ProveDecryption ko ciphertext result sessionID draws =
     (case ko of None \<Rightarrow> Inl ErrNoPrivate
      | Some k \<Rightarrow> (case key_D k of None \<Rightarrow> Inl ErrNoPrivate
        | Some d \<Rightarrow> (case key_P k of None \<Rightarrow> Inl ErrNilModulus
          | Some P \<Rightarrow>
              let phi = P - 1; h = big_Exp zk_g d P
              in if draws = [] then Inl ErrRand
                 else rbind (pick_r (tl draws)) (\<lambda>r.
                   case (ciphertext, result) of
                     (Some ct, Some res) \<Rightarrow>
                       let A = big_Exp zk_g r P; B = big_Exp ct r P;
                           c = computeChallenge P h ct res A B sessionID;
                           s = (c * d + r) mod phi
                       in Inr (mk_proof A B s h)
                   | _ \<Rightarrow> Inl ErrPanic))))"

definition VerifyDecryption ::
  "ZKProof option \<Rightarrow> int option \<Rightarrow> int option \<Rightarrow> int \<Rightarrow> byte list \<Rightarrow> crypto_error option" where
  "VerifyDecryption po ciphertext result P sessionID =
     (case po of None \<Rightarrow> Some ErrNilProof
      | Some proof' \<Rightarrow> (case (zk_A proof', zk_B proof', zk_S proof', zk_H proof') of
          (Some A, Some B, Some S, Some H) \<Rightarrow>
            (case (ciphertext, result) of
               (Some ct, Some res) \<Rightarrow>
                 let c = computeChallenge P H ct res A B sessionID
                 in if big_Exp zk_g S P \<noteq> (big_Exp H c P * A) mod P then Some (ErrProofEquation 1)
                    else if big_Exp ct S P \<noteq> (big_Exp res c P * B) mod P then Some (ErrProofEquation 2)
                    else None
             | _ \<Rightarrow> Some ErrPanic)
        | _ \<Rightarrow> Some ErrNilProof))"

record PartialDecryption =
  pd_PlayerID :: playerID
  pd_CardIndex :: int
  pd_Ciphertext :: "int option"
  pd_Result :: "int option"
  pd_Proof :: "ZKProof option"

definition pd_Verify :: "PartialDecryption option \<Rightarrow> int \<Rightarrow> byte list \<Rightarrow> crypto_error option" where
  "pd_Verify pdo P sessionID = (case pdo of None \<Rightarrow> Some ErrNil
     | Some pd \<Rightarrow> VerifyDecryption (pd_Proof pd) (pd_Ciphertext pd) (pd_Result pd) P sessionID)"

section \<open>Completeness\<close>

lemma pick_r_ok: "pick_r rs = Inr r \<Longrightarrow> r \<in> set rs \<and> r \<noteq> 0"
  by (induction rs) (auto split: if_splits)

lemma pick_r_total: "\<exists>r\<in>set rs. r \<noteq> 0 \<Longrightarrow> \<exists>r. pick_r rs = Inr r"
  by (induction rs) auto

lemma computeChallenge_nonneg: "1 < P \<Longrightarrow> 0 \<le> computeChallenge P h ct res A B sid"
  by (simp add: computeChallenge_def Let_def)

text \<open>One verification equation: base \<open>x\<close>, its power under the exponent, challenge and nonce.\<close>

lemma proof_equation:
  assumes p: "prime_int p" and x: "\<not> p dvd x" and n: "0 \<le> c" "0 \<le> d" "0 \<le> r"
  shows "big_Exp x ((c * d + r) mod (p - 1)) p = (big_Exp (big_Exp x d p) c p * big_Exp x r p) mod p"
proof -
  have "big_Exp x ((c * d + r) mod (p - 1)) p = big_Exp x (c * d + r) p"
    using n by (intro big_Exp_reduce [OF p x]) simp
  also have "\<dots> = (big_Exp x (d * c) p * big_Exp x r p) mod p"
    using n by (simp add: big_Exp_add mult.commute)
  finally show ?thesis using n by (simp add: big_Exp_mult)
qed

text \<open>
  The proof made for exponent \<open>d\<close> and the power of the ciphertext under \<open>d\<close> verifies, whatever
  \<open>d\<close> is: nothing ties it to a key that was announced before.
\<close>

lemma ProveDecryption_verifies:
  assumes pr: "ProveDecryption (Some k) (Some ct) (Some (big_Exp ct d p)) sid draws = Inr pf"
    and k: "key_D k = Some d" "key_P k = Some p" and p: "prime_int p" "2 < p"
    and d: "0 \<le> d" and ct: "\<not> p dvd ct" and r: "\<forall>r\<in>set draws. 0 \<le> r"
  shows "VerifyDecryption (Some pf) (Some ct) (Some (big_Exp ct d p)) p sid = None"
proof -
  let ?res = "big_Exp ct d p" and ?h = "big_Exp zk_g d p"
  obtain r where dr: "pick_r (tl draws) = Inr r" "draws \<noteq> []"
    and pf: "pf = mk_proof (big_Exp zk_g r p) (big_Exp ct r p)
        ((computeChallenge p ?h ct ?res (big_Exp zk_g r p) (big_Exp ct r p) sid * d + r) mod (p - 1)) ?h"
    using pr by (auto simp: ProveDecryption_def k Let_def rbind_Inr split: if_splits)
  have "r \<in> set draws" using pick_r_ok [OF dr(1)] dr(2) by (cases draws) auto
  then have r0: "0 \<le> r" using r by blast
  let ?c = "computeChallenge p ?h ct ?res (big_Exp zk_g r p) (big_Exp ct r p) sid"
  have c: "0 \<le> ?c" using computeChallenge_nonneg p(2) by simp
  have g: "\<not> p dvd zk_g" using p(2) by (simp add: zk_g_def prime_not_dvd_small)
  show ?thesis
    using proof_equation [OF p(1) g c d r0] proof_equation [OF p(1) ct c d r0]
    by (simp add: VerifyDecryption_def pf mk_proof_def Let_def)
qed

lemma ProveDecryption_total:
  assumes "key_D k = Some d" and "key_P k = Some p" and "draws \<noteq> []" and "\<exists>r\<in>set (tl draws). r \<noteq> 0"
  shows "\<exists>pf. ProveDecryption (Some k) (Some ct) (Some res) sid draws = Inr pf"
  using pick_r_total [OF assms(4)] assms(1-3) by (auto simp: ProveDecryption_def Let_def)

end
