(* ===== verification/DealProto.thy ===== *)
theory DealProto
  imports ShuffleProto ZKP
begin

text \<open>
  internal/crypto/deal.go and crypto_game.go: peeling layers off a card with a proof per layer,
  finishing a card, the deck positions of the deal, and the single-process game that runs the
  shuffle and the deal for all players. Randomness for the proofs is a list of draws per peel.
\<close>

section \<open>Peels\<close>

definition Peel ::
  "SRAKey option \<Rightarrow> int option \<Rightarrow> int \<Rightarrow> playerID \<Rightarrow> byte list \<Rightarrow> int list \<Rightarrow> crypto_error + PartialDecryption" where
  "Peel key ciphertext cardIndex pid sessionID draws =
     (if key = None \<or> \<not> IsPrivate key then Inl ErrNoPrivate
      else if pid = [] then Inl ErrEmptyId
      else if cardIndex < 0 then Inl ErrCardIndex
      else if ciphertext = None then Inl ErrNil
      else if sessionID = [] then Inl ErrEmptySession
      else rbind (Decrypt key ciphertext) (\<lambda>result.
        rbind (ProveDecryption key ciphertext (Some result) sessionID draws) (\<lambda>pf.
          Inr \<lparr>pd_PlayerID = pid, pd_CardIndex = cardIndex, pd_Ciphertext = ciphertext,
               pd_Result = Some result, pd_Proof = Some pf\<rparr>)))"

definition VerifyAndApply ::
  "int option \<Rightarrow> PartialDecryption option \<Rightarrow> int \<Rightarrow> byte list \<Rightarrow> crypto_error + int" where
  "VerifyAndApply current pdo p sessionID =
     (case current of None \<Rightarrow> Inl ErrNil
      | Some cur \<Rightarrow> (case pdo of None \<Rightarrow> Inl ErrNil
        | Some pd \<Rightarrow> (case (pd_Ciphertext pd, pd_Result pd, pd_Proof pd) of
            (Some ct, Some res, Some _) \<Rightarrow>
              if cur \<noteq> ct then Inl ErrCiphertextMismatch
              else (case pd_Verify (Some pd) p sessionID of Some e \<Rightarrow> Inl e | None \<Rightarrow> Inr res)
          | _ \<Rightarrow> Inl ErrNil)))"

definition FinishPublic :: "int option \<Rightarrow> int option \<Rightarrow> crypto_error + card" where
  "FinishPublic value po = (case value of None \<Rightarrow> Inl ErrNil
     | Some v \<Rightarrow> (case po of None \<Rightarrow> Inl ErrNilModulus
         | Some p \<Rightarrow> let cardID = FieldToCard v p
             in if cardID = -1 then Inl ErrNotACard else Inr (CardFromID cardID)))"

definition FinishHole :: "SRAKey option \<Rightarrow> int option \<Rightarrow> int option \<Rightarrow> crypto_error + card" where
  "FinishHole key remaining po =
     (if key = None \<or> \<not> IsPrivate key then Inl ErrNoPrivate
      else rbind (Decrypt key remaining) (\<lambda>plain. FinishPublic (Some plain) po))"

section \<open>Deck positions\<close>

definition HoleCardIndex :: "int \<Rightarrow> int \<Rightarrow> int \<Rightarrow> int \<Rightarrow> crypto_error + int" where
  "HoleCardIndex nPlayers dealerIdx playerIdx round =
     (if nPlayers < 2 then Inl ErrTooFewPlayers
      else if dealerIdx < 0 \<or> dealerIdx \<ge> nPlayers then Inl ErrDealer
      else if playerIdx < 0 \<or> playerIdx \<ge> nPlayers then Inl ErrPlayer
      else if round \<noteq> 0 \<and> round \<noteq> 1 then Inl ErrRound
      else Inr (round * nPlayers + go_rem (playerIdx - dealerIdx - 1 + nPlayers) nPlayers))"

definition CommunityStartPos :: "int \<Rightarrow> int" where
  "CommunityStartPos nPlayers = 2 * nPlayers"

definition FlopIndexes :: "int \<Rightarrow> crypto_error + int list" where
  "FlopIndexes nPlayers = (if nPlayers < 2 then Inl ErrTooFewPlayers
     else let start = CommunityStartPos nPlayers in Inr [start + 1, start + 2, start + 3])"

definition TurnIndex :: "int \<Rightarrow> crypto_error + int" where
  "TurnIndex nPlayers = (if nPlayers < 2 then Inl ErrTooFewPlayers else Inr (CommunityStartPos nPlayers + 5))"

definition RiverIndex :: "int \<Rightarrow> crypto_error + int" where
  "RiverIndex nPlayers = (if nPlayers < 2 then Inl ErrTooFewPlayers else Inr (CommunityStartPos nPlayers + 7))"

definition PeelOrder :: "playerID list \<Rightarrow> playerID \<Rightarrow> crypto_error + playerID list" where
  "PeelOrder seatOrder recipient =
     (if recipient = [] then Inr seatOrder
      else if recipient \<in> set seatOrder then Inr (filter (\<lambda>i. i \<noteq> recipient) seatOrder)
      else Inl ErrUnknownRecipient)"

section \<open>The deal of one process\<close>

record DealProtocol =
  dp_Deck :: EncryptedDeck
  dp_Players :: "playerID list"
  dp_Keys :: "SRAKey option list"
  dp_SessionID :: "byte list"

definition NewDealProtocol :: "EncryptedDeck \<Rightarrow> playerID list \<Rightarrow> SRAKey option list \<Rightarrow> DealProtocol" where
  "NewDealProtocol deck players keys =
     \<lparr>dp_Deck = deck, dp_Players = players, dp_Keys = keys, dp_SessionID = ed_SessionID deck\<rparr>"

text \<open>
  The loop shared by \<open>RevealToPlayer\<close> and \<open>RevealCommunity\<close>: every player peels in turn, except
  index \<open>skip\<close> when there is one; the peels are verified and logged. The arguments are the players
  still to come with their keys and draws, and the index of the first of them.
\<close>

fun peel_loop ::
  "int \<Rightarrow> byte list \<Rightarrow> int \<Rightarrow> int option \<Rightarrow> int \<Rightarrow> (playerID \<times> SRAKey option \<times> int list) list \<Rightarrow> int
    \<Rightarrow> PartialDecryption list \<Rightarrow> crypto_error + int \<times> PartialDecryption list" where
  "peel_loop p sid deckIndex skip i [] current partials = Inr (current, partials)"
| "peel_loop p sid deckIndex skip i ((pid, key, draws) # xs) current partials =
     (if skip = Some i then peel_loop p sid deckIndex skip (i + 1) xs current partials
      else rbind (Peel key (Some current) deckIndex pid sid draws) (\<lambda>partl.
        rbind (VerifyAndApply (Some current) (Some partl) p sid) (\<lambda>next'.
          peel_loop p sid deckIndex skip (i + 1) xs next' (partials @ [partl]))))"

definition RevealToPlayer ::
  "DealProtocol \<Rightarrow> int \<Rightarrow> int \<Rightarrow> int list list \<Rightarrow> crypto_error + card \<times> PartialDecryption list" where
  "RevealToPlayer dp deckIndex recipientIdx draws =
     rbind (CardAt (dp_Deck dp) deckIndex) (\<lambda>ciphertext.
       rbind (peel_loop (ed_P (dp_Deck dp)) (dp_SessionID dp) deckIndex (Some recipientIdx) 0
                (zip (dp_Players dp) (zip (dp_Keys dp) draws)) ciphertext [])
         (\<lambda>(current, partials).
           if recipientIdx < 0 \<or> recipientIdx \<ge> int (length (dp_Keys dp)) then Inl ErrPanic
           else rbind (FinishHole (dp_Keys dp ! nat recipientIdx) (Some current) (Some (ed_P (dp_Deck dp))))
             (\<lambda>c. Inr (c, partials))))"

definition RevealCommunity ::
  "DealProtocol \<Rightarrow> int \<Rightarrow> int list list \<Rightarrow> crypto_error + card \<times> PartialDecryption list" where
  "RevealCommunity dp deckIndex draws =
     rbind (CardAt (dp_Deck dp) deckIndex) (\<lambda>ciphertext.
       rbind (peel_loop (ed_P (dp_Deck dp)) (dp_SessionID dp) deckIndex None 0
                (zip (dp_Players dp) (zip (dp_Keys dp) draws)) ciphertext [])
         (\<lambda>(current, partials).
           rbind (FinishPublic (Some current) (Some (ed_P (dp_Deck dp)))) (\<lambda>c. Inr (c, partials))))"

text \<open>
  \<open>DealHoleCards\<close>: deck position by deck position, \<open>draws pos\<close> being the randomness used there. The
  result is one pair of cards per player.
\<close>

fun hole_loop ::
  "DealProtocol \<Rightarrow> (int \<Rightarrow> int list list) \<Rightarrow> (int \<times> nat) list \<Rightarrow> int \<Rightarrow> (card \<times> card) list
    \<Rightarrow> crypto_error + (card \<times> card) list" where
  "hole_loop dp draws [] deckPos result = Inr result"
| "hole_loop dp draws ((playerIdx, round) # xs) deckPos result =
     rbind (RevealToPlayer dp deckPos playerIdx (draws deckPos)) (\<lambda>(c, _).
       let pair = result ! nat playerIdx;
           pair' = (if round = 0 then (c, snd pair) else (fst pair, c))
       in hole_loop dp draws xs (deckPos + 1) (result[nat playerIdx := pair']))"

definition deal_walk :: "int \<Rightarrow> int \<Rightarrow> (int \<times> nat) list" where
  "deal_walk n dealerIdx =
     concat (map (\<lambda>round. map (\<lambda>i. (go_rem (dealerIdx + 1 + i) n, round)) (map int [0..<nat n])) [0, 1])"

definition DealHoleCards ::
  "DealProtocol \<Rightarrow> int \<Rightarrow> (int \<Rightarrow> int list list) \<Rightarrow> crypto_error + (card \<times> card) list" where
  "DealHoleCards dp dealerIdx draws =
     (let n = int (length (dp_Players dp))
      in hole_loop dp draws (deal_walk n dealerIdx) 0 (replicate (nat n) (zero_card, zero_card)))"

text \<open>\<open>n\<close> cards from \<open>pos\<close> on, with their peels.\<close>

fun community_loop ::
  "DealProtocol \<Rightarrow> (int \<Rightarrow> int list list) \<Rightarrow> nat \<Rightarrow> int \<Rightarrow> crypto_error + card list \<times> PartialDecryption list" where
  "community_loop dp draws 0 pos = Inr ([], [])"
| "community_loop dp draws (Suc n) pos =
     rbind (RevealCommunity dp pos (draws pos)) (\<lambda>(c, partials).
       rbind (community_loop dp draws n (pos + 1)) (\<lambda>(cards, ps). Inr (c # cards, partials @ ps)))"

fun DealCommunityCards ::
  "DealProtocol \<Rightarrow> (int \<Rightarrow> int list list) \<Rightarrow> int \<Rightarrow> nat list \<Rightarrow> crypto_error + card list list" where
  "DealCommunityCards dp draws startPos [] = Inr []"
| "DealCommunityCards dp draws startPos (cnt # batches) =
     rbind (community_loop dp draws cnt (startPos + 1)) (\<lambda>(cards, _).
       rbind (DealCommunityCards dp draws (startPos + 1 + int cnt) batches) (\<lambda>css. Inr (cards # css)))"

fun VerifyAllProofs_from :: "nat \<Rightarrow> PartialDecryption list \<Rightarrow> int \<Rightarrow> byte list \<Rightarrow> crypto_error option" where
  "VerifyAllProofs_from i [] P sid = None"
| "VerifyAllProofs_from i (pd # pds) P sid = (case pd_Verify (Some pd) P sid of
     Some e \<Rightarrow> Some (ErrAt i e) | None \<Rightarrow> VerifyAllProofs_from (i + 1) pds P sid)"

definition VerifyAllProofs :: "PartialDecryption list \<Rightarrow> int \<Rightarrow> byte list \<Rightarrow> crypto_error option" where
  "VerifyAllProofs partials P sid = VerifyAllProofs_from 0 partials P sid"

definition SubstitutePartialDecryption :: "PartialDecryption \<Rightarrow> int option \<Rightarrow> PartialDecryption" where
  "SubstitutePartialDecryption pd wrongResult = pd\<lparr>pd_Result := wrongResult\<rparr>"

end
