(* ===== verification/CryptoGame.thy ===== *)
theory CryptoGame
  imports DealProto GameState
begin

text \<open>
  internal/crypto/crypto_game.go: the whole mental-poker deck in one process, and the theorems on
  the deal: every deck position decrypts to a card, the 52 positions give the 52 cards, and the
  positions used by the deal are different ones.
\<close>

record CryptoGame =
  cg_P :: int
  cg_SessionID :: "byte list"
  cg_Players :: "playerID list"
  cg_Keys :: "SRAKey option list"
  cg_Deck :: "EncryptedDeck option"
  cg_ShuffleLog :: "ShuffleStep list"
  cg_DealLog :: "PartialDecryption list"

text \<open>The modulus is an argument, \<open>SharedPrime\<close> in the program; \<open>draws\<close> has one list per player.\<close>

definition NewCryptoGame :: "int \<Rightarrow> playerID list \<Rightarrow> byte list \<Rightarrow> int list list \<Rightarrow> crypto_error + CryptoGame" where
  "NewCryptoGame p playersIDs nonce draws =
     (if length playersIDs < 2 then Inl ErrTooFewPlayers
      else let sid = SessionID playersIDs nonce
        in rbind (rmap (\<lambda>(pid, ds). GenerateSRAKey (Some p) ds) (zip playersIDs draws)) (\<lambda>keys.
             Inr \<lparr>cg_P = p, cg_SessionID = sid, cg_Players = playersIDs, cg_Keys = map Some keys,
                  cg_Deck = None, cg_ShuffleLog = [], cg_DealLog = []\<rparr>))"

definition RunShuffle :: "step_rand list \<Rightarrow> CryptoGame \<Rightarrow> (crypto_error, CryptoGame) outcome" where
  "RunShuffle rnds cg =
     (let sp = NewShuffleProtocol (cg_P cg) (cg_SessionID cg);
          initialDeck = map Some (BuildPlaintextDeck (cg_P cg))
      in case RunFullShuffle sp (cg_Players cg) (cg_Keys cg) rnds initialDeck of
           Inl e \<Rightarrow> (Some e, cg)
         | Inr (finalDeck, steps) \<Rightarrow>
             (case NewEncryptedDeck finalDeck (cg_P cg) (cg_SessionID cg) of
                Inl e \<Rightarrow> (Some e, cg\<lparr>cg_ShuffleLog := steps, cg_Deck := None\<rparr>)
              | Inr deck \<Rightarrow> (None, cg\<lparr>cg_ShuffleLog := steps, cg_Deck := Some deck\<rparr>)))"

definition playerIndex :: "CryptoGame \<Rightarrow> playerID \<Rightarrow> int" where
  "playerIndex cg pid = index_of_id pid (cg_Players cg) 0"

text \<open>The seats get their cards one after the other; a seat that is not a player stops the loop.\<close>

fun assign_holes :: "CryptoGame \<Rightarrow> (card \<times> card) list \<Rightarrow> player list \<Rightarrow> (crypto_error, player list) outcome" where
  "assign_holes cg holes [] = (None, [])"
| "assign_holes cg holes (p # ps) =
     (let pIdx = playerIndex cg (p_id p)
      in if pIdx = -1 then (Some ErrPlayer, p # ps)
         else let h = holes ! nat pIdx; r = assign_holes cg holes ps
           in (fst r, p\<lparr>p_holes := h\<rparr> # snd r))"

definition DealToEngine ::
  "CryptoGame \<Rightarrow> (int \<Rightarrow> int list list) \<Rightarrow> game_state \<Rightarrow> (crypto_error, game_state) outcome" where
  "DealToEngine cg draws gs = (case cg_Deck cg of None \<Rightarrow> (Some ErrNoDeck, gs)
     | Some deck \<Rightarrow>
         let dp = NewDealProtocol deck (cg_Players cg) (cg_Keys cg)
         in case DealHoleCards dp (int (gs_dealerIdx gs)) draws of Inl e \<Rightarrow> (Some e, gs)
            | Inr holeCards \<Rightarrow>
                (case assign_holes cg holeCards (gs_players gs) of
                   (Some e, ps) \<Rightarrow> (Some e, gs\<lparr>gs_players := ps\<rparr>)
                 | (None, ps) \<Rightarrow> (None, gs\<lparr>gs_players := ps, gs_deck := None\<rparr>)))"

text \<open>\<open>dealBatch\<close> appends the peels to the log card by card, also before an error.\<close>

fun batch_loop ::
  "DealProtocol \<Rightarrow> (int \<Rightarrow> int list list) \<Rightarrow> nat \<Rightarrow> int \<Rightarrow> CryptoGame
    \<Rightarrow> (crypto_error + card list) \<times> CryptoGame" where
  "batch_loop dp draws 0 pos cg = (Inr [], cg)"
| "batch_loop dp draws (Suc n) pos cg =
     (case RevealCommunity dp pos (draws pos) of Inl e \<Rightarrow> (Inl e, cg)
      | Inr (c, partials) \<Rightarrow>
          let r = batch_loop dp draws n (pos + 1) (cg\<lparr>cg_DealLog := cg_DealLog cg @ partials\<rparr>)
          in (rbind (fst r) (\<lambda>cards. Inr (c # cards)), snd r))"

definition dealBatch ::
  "int \<Rightarrow> nat \<Rightarrow> (int \<Rightarrow> int list list) \<Rightarrow> CryptoGame \<Rightarrow> (crypto_error + card list) \<times> CryptoGame" where
  "dealBatch startPos n draws cg = (case cg_Deck cg of None \<Rightarrow> (Inl ErrPanic, cg)
     | Some deck \<Rightarrow> batch_loop (NewDealProtocol deck (cg_Players cg) (cg_Keys cg)) draws n (startPos + 1) cg)"

definition DealFlop :: "int \<Rightarrow> (int \<Rightarrow> int list list) \<Rightarrow> CryptoGame \<Rightarrow> (crypto_error + card list) \<times> CryptoGame" where
  "DealFlop startPos = dealBatch startPos 3"

definition DealTurn :: "int \<Rightarrow> (int \<Rightarrow> int list list) \<Rightarrow> CryptoGame \<Rightarrow> (crypto_error + card list) \<times> CryptoGame" where
  "DealTurn startPos = dealBatch startPos 1"

definition DealRiver :: "int \<Rightarrow> (int \<Rightarrow> int list list) \<Rightarrow> CryptoGame \<Rightarrow> (crypto_error + card list) \<times> CryptoGame" where
  "DealRiver startPos = dealBatch startPos 1"


definition HolecardStartPos :: "CryptoGame \<Rightarrow> int" where
  "HolecardStartPos cg = int (length (cg_Players cg)) * 2"

definition VerifyFullLog :: "CryptoGame \<Rightarrow> crypto_error option" where
  "VerifyFullLog cg = VerifyAllProofs (cg_DealLog cg) (cg_P cg) (cg_SessionID cg)"

section \<open>Honest peels\<close>

definition good_draws :: "int list \<Rightarrow> bool" where
  "good_draws ds \<longleftrightarrow> ds \<noteq> [] \<and> (\<forall>r\<in>set ds. 0 \<le> r) \<and> (\<exists>r\<in>set (tl ds). r \<noteq> 0)"

lemma Peel_ok:
  assumes k: "sra_key p k" and ct: "ct \<in> sra_space p" and a: "pid \<noteq> []" "0 \<le> idx" "sid \<noteq> []" and ds: "good_draws ds"
  shows "\<exists>pd. Peel (Some k) (Some ct) idx pid sid ds = Inr pd
     \<and> VerifyAndApply (Some ct) (Some pd) p sid = Inr (sra_dec k ct) \<and> pd_Verify (Some pd) p sid = None
     \<and> pd_Ciphertext pd = Some ct \<and> pd_Result pd = Some (sra_dec k ct) \<and> pd_PlayerID pd = pid \<and> pd_CardIndex pd = idx"
proof -
  obtain d where d: "key_D k = Some d" "key_P k = Some p" "0 \<le> d" "prime_int p"
    using k by (auto simp: sra_key_def)
  have p: "2 < p" "\<not> p dvd ct" using ct by (auto simp: sra_space_def prime_not_dvd_small)
  have res: "sra_dec k ct = big_Exp ct d p" by (simp add: sra_dec_def d)
  obtain pf where pf: "ProveDecryption (Some k) (Some ct) (Some (big_Exp ct d p)) sid ds = Inr pf"
    using ProveDecryption_total [OF d(1,2), of ds] ds unfolding good_draws_def by blast
  have v: "VerifyDecryption (Some pf) (Some ct) (Some (big_Exp ct d p)) p sid = None"
    using ProveDecryption_verifies [OF pf d(1,2,4) p(1) d(3) p(2)] ds by (simp add: good_draws_def)
  have "IsPrivate (Some k)" by (simp add: IsPrivate_def d)
  then have "Peel (Some k) (Some ct) idx pid sid ds
     = Inr \<lparr>pd_PlayerID = pid, pd_CardIndex = idx, pd_Ciphertext = Some ct,
            pd_Result = Some (big_Exp ct d p), pd_Proof = Some pf\<rparr>"
    using Decrypt_ok [OF k ct] pf a by (simp add: Peel_def res)
  then show ?thesis using v by (simp add: VerifyAndApply_def pd_Verify_def res)
qed

text \<open>The players that peel when index \<open>skip\<close> is left out.\<close>

fun peeling :: "int option \<Rightarrow> int \<Rightarrow> 'a list \<Rightarrow> 'a list" where
  "peeling skip i [] = []"
| "peeling skip i (k # ks) = (if skip = Some i then peeling skip (i + 1) ks else k # peeling skip (i + 1) ks)"

lemma peeling_None [simp]: "peeling None i ks = ks"
  by (induction ks arbitrary: i) auto

lemma peeling_before: "j < i \<Longrightarrow> peeling (Some j) i ks = ks"
  by (induction ks arbitrary: i) auto

lemma peeling_Some:
  "j < length ks \<Longrightarrow> peeling (Some (i + int j)) i ks = take j ks @ drop (Suc j) ks"
proof (induction ks arbitrary: i j)
  case (Cons k ks)
  show ?case
  proof (cases j)
    case 0
    then show ?thesis by (simp add: peeling_before)
  next
    case (Suc j')
    then show ?thesis using Cons.IH [of j' "i + 1"] Cons.prems by (simp add: ac_simps)
  qed
qed simp

lemma peel_loop_ok:
  assumes "0 \<le> idx" and "sid \<noteq> []"
  shows "length ks = length players \<Longrightarrow> length draws = length players \<Longrightarrow> \<forall>k\<in>set ks. sra_key p k
    \<Longrightarrow> [] \<notin> set players \<Longrightarrow> \<forall>ds\<in>set draws. good_draws ds \<Longrightarrow> ct \<in> sra_space p
    \<Longrightarrow> \<exists>ps. peel_loop p sid idx skip i (zip players (zip (map Some ks) draws)) ct partials
          = Inr (fold sra_dec (peeling skip i ks) ct, partials @ ps)
        \<and> (\<forall>pd\<in>set ps. pd_Verify (Some pd) p sid = None)"
proof (induction ks arbitrary: players draws i ct partials)
  case Nil
  then show ?case by simp
next
  case (Cons k ks)
  obtain pid ps' where players: "players = pid # ps'" using Cons.prems(1) by (cases players) auto
  obtain ds rs where draws: "draws = ds # rs" using Cons.prems(2) players by (cases draws) auto
  have k: "sra_key p k" and pid: "pid \<noteq> []" and ds: "good_draws ds"
    using Cons.prems by (auto simp: players draws)
  have rest: "length ks = length ps'" "length rs = length ps'" "\<forall>k\<in>set ks. sra_key p k"
    "[] \<notin> set ps'" "\<forall>ds\<in>set rs. good_draws ds"
    using Cons.prems by (auto simp: players draws)
  show ?case
  proof (cases "skip = Some i")
    case True
    then show ?thesis using Cons.IH [OF rest Cons.prems(6), of "i + 1"] by (simp add: players draws)
  next
    case False
    obtain pd where pd: "Peel (Some k) (Some ct) idx pid sid ds = Inr pd"
      "VerifyAndApply (Some ct) (Some pd) p sid = Inr (sra_dec k ct)" "pd_Verify (Some pd) p sid = None"
      using Peel_ok [OF k Cons.prems(6) pid assms ds] by blast
    obtain ps where ps: "peel_loop p sid idx skip (i + 1) (zip ps' (zip (map Some ks) rs)) (sra_dec k ct) (partials @ [pd])
        = Inr (fold sra_dec (peeling skip (i + 1) ks) (sra_dec k ct), (partials @ [pd]) @ ps)"
      "\<forall>pd\<in>set ps. pd_Verify (Some pd) p sid = None"
      using Cons.IH [OF rest sra.dec_space [OF k Cons.prems(6)], of "i + 1" "partials @ [pd]"] by blast
    then show ?thesis using False pd by (intro exI [of _ "pd # ps"]) (simp add: players draws)
  qed
qed

section \<open>The deck as field elements\<close>

text \<open>
  The moduli for which the encoding of cards works: prime, within 2048 bits, and the 52 powers of
  two are different messages. Every prime above \<open>2 ^ 53\<close> is one, and so is 107.
\<close>

definition card_prime :: "int \<Rightarrow> bool" where
  "card_prime p \<longleftrightarrow> prime_int p \<and> p \<le> 256 ^ 256 \<and> distinct (BuildPlaintextDeck p)
     \<and> (\<forall>m\<in>set (BuildPlaintextDeck p). 1 \<le> m \<and> m \<le> p - 2)"

lemma BuildPlaintextDeck_nth_Exp: "i < 52 \<Longrightarrow> BuildPlaintextDeck p ! i = big_Exp 2 (int i + 1) p"
  by (simp add: BuildPlaintextDeck_def CardToField_def del: upt_Suc)

lemma card_prime_large: "prime_int p \<Longrightarrow> 2 ^ 53 < p \<Longrightarrow> p \<le> 256 ^ 256 \<Longrightarrow> card_prime p"
proof -
  assume p: "prime_int p" "2 ^ 53 < p" "p \<le> 256 ^ 256"
  have nth: "BuildPlaintextDeck p ! i = 2 ^ (i + 1)" if "i < 52" for i
    using BuildPlaintextDeck_nth [OF that] p(2) by simp
  have "distinct (BuildPlaintextDeck p)"
    by (auto simp: distinct_conv_nth nth)
  moreover have "1 \<le> m \<and> m \<le> p - 2" if m: "m \<in> set (BuildPlaintextDeck p)" for m
  proof -
    obtain i where "i < 52" "m = 2 ^ (i + 1)"
      using m nth by (metis in_set_conv_nth length_BuildPlaintextDeck)
    moreover have "(2 :: int) ^ (i + 1) \<le> 2 ^ 52" using \<open>i < 52\<close> by (intro power_increasing) auto
    moreover have "(1 :: int) \<le> 2 ^ (i + 1)" by (rule one_le_power) simp
    moreover have "(2 :: int) ^ 52 + 2 < 2 ^ 53" by simp
    ultimately show ?thesis using p(2) by (intro conjI) linarith+
  qed
  ultimately show ?thesis using p by (simp add: card_prime_def)
qed

lemma FieldToCard_card_prime:
  assumes "card_prime p" and i: "i < 52"
  shows "FieldToCard (BuildPlaintextDeck p ! i) p = int i"
proof -
  let ?P = "\<lambda>k. big_Exp 2 (k + 1) p = BuildPlaintextDeck p ! i"
  have iff: "?P (int j) \<longleftrightarrow> j = i" if "j < 52" for j
    using assms that nth_eq_iff_index_eq [of "BuildPlaintextDeck p" j i] BuildPlaintextDeck_nth_Exp [of j p]
    by (simp add: card_prime_def)
  have "find ?P (map int [0..<52]) = Some (int i)"
    unfolding find_Some_iff using i iff by (intro exI [of _ i]) auto
  then show ?thesis by (simp add: FieldToCard_def)
qed

definition plain_card :: "int \<Rightarrow> int \<Rightarrow> card" where
  "plain_card p m = CardFromID (FieldToCard m p)"

lemma FinishPublic_plain:
  assumes "card_prime p" and "m \<in> set (BuildPlaintextDeck p)"
  shows "FinishPublic (Some m) (Some p) = Inr (plain_card p m)"
proof -
  obtain i where "i < 52" "m = BuildPlaintextDeck p ! i"
    using assms(2) by (metis in_set_conv_nth length_BuildPlaintextDeck)
  then show ?thesis using FieldToCard_card_prime [OF assms(1)] by (simp add: FinishPublic_def plain_card_def)
qed

lemma plain_cards: "card_prime p \<Longrightarrow> map (plain_card p) (BuildPlaintextDeck p) = map (\<lambda>i. CardFromID (int i)) [0..<52]"
  by (rule nth_equalityI) (simp_all add: plain_card_def FieldToCard_card_prime del: upt_Suc)

lemma mset_plain_cards:
  assumes "card_prime p"
  shows "mset (map (plain_card p) (BuildPlaintextDeck p)) = mset NewDeck"
proof -
  have "set (map (\<lambda>i. CardFromID (int i)) [0..<52]) = set NewDeck"
  proof
    show "set (map (\<lambda>i. CardFromID (int i)) [0..<52]) \<subseteq> set NewDeck"
      by (auto simp: set_NewDeck CardFromID_dealt)
    show "set NewDeck \<subseteq> set (map (\<lambda>i. CardFromID (int i)) [0..<52])"
    proof
      fix c assume "c \<in> set NewDeck"
      then have "dealt c" by (simp add: set_NewDeck)
      then obtain i where "c = CardFromID (int i)" "i < 52"
        using CardID_range [of c] CardFromID_CardID [of c] nonneg_int_cases [of "CardID c"] by (metis of_nat_less_numeral_iff)
      then show "c \<in> set (map (\<lambda>i. CardFromID (int i)) [0..<52])" by auto
    qed
  qed
  moreover have "inj_on (\<lambda>i. CardFromID (int i)) {0..<52}"
  proof (rule inj_onI)
    fix i j :: nat assume i: "i \<in> {0..<52}" "j \<in> {0..<52}" and eq: "CardFromID (int i) = CardFromID (int j)"
    have "CardID (CardFromID (int i)) = int i" "CardID (CardFromID (int j)) = int j"
      using i by (auto intro!: CardID_CardFromID)
    then show "i = j" using eq by (metis of_nat_eq_iff)
  qed
  then have "distinct (map (\<lambda>i. CardFromID (int i)) [0..<52])"
    by (simp only: distinct_map set_upt distinct_upt simp_thms)
  ultimately have "mset (map (\<lambda>i. CardFromID (int i)) [0..<52]) = mset NewDeck"
    using distinct_NewDeck set_eq_iff_mset_eq_distinct by blast
  then show ?thesis by (simp only: plain_cards [OF assms])
qed

section \<open>Every position of the shuffled deck\<close>

text \<open>What the shuffle leaves: the plaintext deck under the layers of all keys, rearranged.\<close>

definition layered_deck :: "int \<Rightarrow> SRAKey list \<Rightarrow> int list \<Rightarrow> int list \<Rightarrow> bool" where
  "layered_deck p ks ms cards \<longleftrightarrow>
     mset ms = mset (BuildPlaintextDeck p) \<and> cards = map (fold sra_enc ks) ms"

lemma mset_map_split: "mset ys = mset (map f xs) \<Longrightarrow> \<exists>zs. mset zs = mset xs \<and> ys = map f zs"
proof (induction ys arbitrary: xs)
  case (Cons y ys)
  have "y \<in> set (map f xs)" using Cons.prems by (metis list.set_intros(1) set_mset_mset)
  then obtain x where x: "x \<in> set xs" "y = f x" by auto
  have "mset ys = mset (map f (remove1 x xs))"
    using Cons.prems x by (simp add: image_mset_Diff) (metis add_mset_remove_trivial image_mset_add_mset insert_DiffM set_mset_mset)
  then obtain zs where "mset zs = mset (remove1 x xs)" "ys = map f zs" using Cons.IH by blast
  then show ?case using x by (intro exI [of _ "x # zs"]) auto
qed simp

lemma fold_skip_peel:
  assumes ks: "\<forall>k\<in>set ks. sra_key p k" and m: "m \<in> sra_space p" and j: "j < length ks"
  shows "sra_dec (ks ! j) (fold sra_dec (take j ks @ drop (Suc j) ks) (fold sra_enc ks m)) = m"
proof -
  have "mset ks = mset ((take j ks @ drop (Suc j) ks) @ [ks ! j])"
    using j by (metis append.assoc id_take_nth_drop mset_append mset.simps(2) mset_single_iff union_commute add_mset_add_single append_Cons append_Nil)
  then have "fold sra_dec ((take j ks @ drop (Suc j) ks) @ [ks ! j]) (fold sra_enc ks m) = m"
    by (rule sra.peel_all [OF _ ks m])
  then show ?thesis by simp
qed

lemma layered_deck_length: "layered_deck p ks ms cards \<Longrightarrow> length ms = 52 \<and> length cards = 52"
  by (metis layered_deck_def length_BuildPlaintextDeck length_map size_mset)

text \<open>A deal over keys of one group, honest players and enough randomness.\<close>

definition deal_ready :: "int \<Rightarrow> SRAKey list \<Rightarrow> int list \<Rightarrow> DealProtocol \<Rightarrow> bool" where
  "deal_ready p ks ms dp \<longleftrightarrow> card_prime p \<and> (\<forall>k\<in>set ks. sra_key p k)
     \<and> dp_Keys dp = map Some ks \<and> length ks = length (dp_Players dp) \<and> [] \<notin> set (dp_Players dp)
     \<and> dp_SessionID dp \<noteq> [] \<and> ed_P (dp_Deck dp) = p \<and> layered_deck p ks ms (ed_Cards (dp_Deck dp))"

definition draws_ready :: "DealProtocol \<Rightarrow> int list list \<Rightarrow> bool" where
  "draws_ready dp draws \<longleftrightarrow> length draws = length (dp_Players dp) \<and> (\<forall>ds\<in>set draws. good_draws ds)"

lemma deal_ready_plain:
  assumes "deal_ready p ks ms dp" and "idx < 52"
  shows "ms ! idx \<in> set (BuildPlaintextDeck p)" and "ms ! idx \<in> sra_space p"
    and "CardAt (dp_Deck dp) (int idx) = Inr (fold sra_enc ks (ms ! idx))"
    and "fold sra_enc ks (ms ! idx) \<in> sra_space p"
proof -
  have l: "layered_deck p ks ms (ed_Cards (dp_Deck dp))" and c: "card_prime p"
    and ks: "\<forall>k\<in>set ks. sra_key p k"
    using assms(1) by (auto simp: deal_ready_def)
  have len: "length ms = 52" "length (ed_Cards (dp_Deck dp)) = 52" using layered_deck_length [OF l] by auto
  have "set ms = set (BuildPlaintextDeck p)" using l by (metis layered_deck_def set_mset_mset)
  then show m: "ms ! idx \<in> set (BuildPlaintextDeck p)" using assms(2) len by (metis nth_mem)
  then show s: "ms ! idx \<in> sra_space p" using c by (simp add: card_prime_def sra_space_def)
  show "CardAt (dp_Deck dp) (int idx) = Inr (fold sra_enc ks (ms ! idx))"
    using l len assms(2) by (simp add: CardAt_def layered_deck_def)
  show "fold sra_enc ks (ms ! idx) \<in> sra_space p" using sra.layers_space [OF ks s] .
qed

lemma RevealCommunity_ok:
  assumes d: "deal_ready p ks ms dp" and i: "idx < 52" and dr: "draws_ready dp draws"
  shows "\<exists>ps. RevealCommunity dp (int idx) draws = Inr (plain_card p (ms ! idx), ps)
     \<and> (\<forall>pd\<in>set ps. pd_Verify (Some pd) p (dp_SessionID dp) = None)"
proof -
  note m = deal_ready_plain [OF d i]
  have ks: "\<forall>k\<in>set ks. sra_key p k" and c: "card_prime p" and eq: "dp_Keys dp = map Some ks" "ed_P (dp_Deck dp) = p"
    using d by (auto simp: deal_ready_def)
  obtain ps where ps: "peel_loop p (dp_SessionID dp) (int idx) None 0 (zip (dp_Players dp) (zip (map Some ks) draws))
        (fold sra_enc ks (ms ! idx)) [] = Inr (fold sra_dec ks (fold sra_enc ks (ms ! idx)), ps)"
      "\<forall>pd\<in>set ps. pd_Verify (Some pd) p (dp_SessionID dp) = None"
    using peel_loop_ok [of "int idx" "dp_SessionID dp" ks "dp_Players dp" draws p _ None 0 "[]"] d dr m(4)
    unfolding deal_ready_def draws_ready_def by fastforce
  have "fold sra_dec ks (fold sra_enc ks (ms ! idx)) = ms ! idx" by (rule sra.peel_all [OF refl ks m(2)])
  then show ?thesis using ps FinishPublic_plain [OF c m(1)] by (simp add: RevealCommunity_def m(3) eq)
qed

lemma RevealToPlayer_ok:
  assumes d: "deal_ready p ks ms dp" and i: "idx < 52" and dr: "draws_ready dp draws" and j: "j < length (dp_Players dp)"
  shows "\<exists>ps. RevealToPlayer dp (int idx) (int j) draws = Inr (plain_card p (ms ! idx), ps)
     \<and> (\<forall>pd\<in>set ps. pd_Verify (Some pd) p (dp_SessionID dp) = None)"
proof -
  note m = deal_ready_plain [OF d i]
  have ks: "\<forall>k\<in>set ks. sra_key p k" and c: "card_prime p" and eq: "dp_Keys dp = map Some ks" "ed_P (dp_Deck dp) = p"
    and len: "length ks = length (dp_Players dp)"
    using d by (auto simp: deal_ready_def)
  let ?others = "take j ks @ drop (Suc j) ks"
  let ?cur = "fold sra_dec ?others (fold sra_enc ks (ms ! idx))"
  have p: "peeling (Some (int j)) 0 ks = ?others" using peeling_Some [of j ks 0] j len by simp
  obtain ps where ps: "peel_loop p (dp_SessionID dp) (int idx) (Some (int j)) 0 (zip (dp_Players dp) (zip (map Some ks) draws))
        (fold sra_enc ks (ms ! idx)) [] = Inr (?cur, ps)"
      "\<forall>pd\<in>set ps. pd_Verify (Some pd) p (dp_SessionID dp) = None"
    using peel_loop_ok [of "int idx" "dp_SessionID dp" ks "dp_Players dp" draws p _ "Some (int j)" 0 "[]"] d dr m(4)
    unfolding deal_ready_def draws_ready_def p by fastforce
  have kj: "sra_key p (ks ! j)" "IsPrivate (Some (ks ! j))"
    using ks j len by (auto simp: sra_key_def IsPrivate_def) (metis nth_mem option.distinct(1))+
  have "?cur \<in> sra_space p"
    using ks by (intro sra.unlayers_space m(4)) (auto dest: in_set_takeD in_set_dropD)
  then have "Decrypt (Some (ks ! j)) (Some ?cur) = Inr (ms ! idx)"
    using Decrypt_ok [OF kj(1)] fold_skip_peel [OF ks m(2), of j] j len by simp
  then have "FinishHole (Some (ks ! j)) (Some ?cur) (Some p) = Inr (plain_card p (ms ! idx))"
    using kj(2) FinishPublic_plain [OF c m(1)] by (simp add: FinishHole_def)
  then show ?thesis using ps j len by (simp add: RevealToPlayer_def m(3) eq)
qed

section \<open>From key generation to the dealt deck\<close>

definition rand_ready :: "step_rand \<Rightarrow> bool" where
  "rand_ready rnd \<longleftrightarrow> sr_seed rnd \<noteq> None \<and> sr_nonce rnd \<noteq> None"

lemma card_prime_slot: "card_prime p \<Longrightarrow> m \<in> sra_space p \<Longrightarrow> in_slot m"
  by (auto simp: card_prime_def sra_space_def in_slot_def)

lemma ExecuteStep_total:
  assumes c: "card_prime p" and k: "sra_key p k" and ms: "set ms \<subseteq> sra_space p"
    and len: "length ms = sp_NumCards sp" and rnd: "rand_ready rnd"
  shows "\<exists>step. ExecuteStep sp pid (map Some ms) (Some k) rnd = Inr step"
proof -
  obtain perm where perm: "randomPermutation rnd (sp_NumCards sp) = Inr perm"
    using rnd by (auto simp: randomPermutation_def rand_ready_def Let_def)
  have enc: "EncryptAll (Some k) (map Some ms) = Inr (map (sra_enc k) ms)"
    using EncryptAll_ok [OF k] ms by blast
  let ?out = "map (\<lambda>i. map (sra_enc k) ms ! i) perm"
  have "set ?out = sra_enc k ` set ms"
    using mset_nth_perm [of perm "map (sra_enc k) ms"] randomPermutation_perm [OF perm] len
    by (metis length_map set_map set_mset_mset)
  then have "\<forall>m\<in>set ?out. in_slot m"
    using sra.enc_space [OF k] ms card_prime_slot [OF c] by auto
  then have "\<exists>com. NewDeckCommitment (sr_nonce rnd) (map Some ?out) = Inr com"
    using serialiseDeck_slots [of ?out] rnd
    by (auto simp: NewDeckCommitment_def NewCommitment_def rand_ready_def simp del: map_map list.map)
  moreover have "IsPrivate (Some k)" using k by (auto simp: IsPrivate_def sra_key_def)
  ultimately show ?thesis
    using len enc perm by (auto simp: ExecuteStep_def rbind_Inr Let_def comp_def)
qed

lemma shuffle_loop_total:
  "card_prime p \<Longrightarrow> length players = length ks \<Longrightarrow> length rnds = length ks
    \<Longrightarrow> \<forall>k\<in>set ks. sra_key p k \<Longrightarrow> set ms \<subseteq> sra_space p \<Longrightarrow> length ms = sp_NumCards sp
    \<Longrightarrow> \<forall>r\<in>set rnds. rand_ready r
    \<Longrightarrow> \<exists>out steps. shuffle_loop sp (zip players (zip (map Some ks) rnds)) (map Some ms) = Inr (out, steps)"
proof (induction ks arbitrary: players rnds ms)
  case Nil
  then show ?case by simp
next
  case (Cons k ks)
  obtain pid ps where players: "players = pid # ps" using Cons.prems(2) by (cases players) auto
  obtain rnd rs where rnds: "rnds = rnd # rs" using Cons.prems(3) by (cases rnds) auto
  have k: "sra_key p k" "rand_ready rnd" using Cons.prems by (simp_all add: rnds)
  obtain step where step: "ExecuteStep sp pid (map Some ms) (Some k) rnd = Inr step"
    using ExecuteStep_total [OF Cons.prems(1) k(1) Cons.prems(5,6) k(2)] by blast
  obtain os where os: "st_OutputDeck step = map Some os" "mset os = mset (map (sra_enc k) ms)"
    "set os \<subseteq> sra_space p" "VerifyStep (Some step) = None"
    using ExecuteStep_result [OF step k(1) Cons.prems(5)] by blast
  have "length os = length ms" using os(2) by (metis length_map size_mset)
  then obtain out steps where "shuffle_loop sp (zip ps (zip (map Some ks) rs)) (map Some os) = Inr (out, steps)"
    using Cons.IH [of ps rs os] Cons.prems os(3) by (auto simp: players rnds)
  then show ?case using step os by (simp add: players rnds)
qed

lemma RunShuffle_ok:
  assumes c: "card_prime p" "cg_P cg = p" and ks: "cg_Keys cg = map Some ks" "\<forall>k\<in>set ks. sra_key p k"
    and len: "length ks = length (cg_Players cg)" "length rnds = length (cg_Players cg)"
    and r: "\<forall>r\<in>set rnds. rand_ready r"
  shows "\<exists>cg' deck ms. RunShuffle rnds cg = (None, cg') \<and> cg_Deck cg' = Some deck
     \<and> layered_deck p ks ms (ed_Cards deck) \<and> ed_P deck = p \<and> ed_SessionID deck = cg_SessionID cg
     \<and> cg_Players cg' = cg_Players cg \<and> cg_Keys cg' = cg_Keys cg"
proof -
  let ?sp = "NewShuffleProtocol p (cg_SessionID cg)" and ?ms = "BuildPlaintextDeck p"
  have sp: "set ?ms \<subseteq> sra_space p" "length ?ms = sp_NumCards ?sp"
    using c(1) by (auto simp: card_prime_def sra_space_def NewShuffleProtocol_def)
  obtain out steps where o: "RunFullShuffle ?sp (cg_Players cg) (map Some ks) rnds (map Some ?ms) = Inr (out, steps)"
    using shuffle_loop_total [of p "cg_Players cg" ks rnds ?ms ?sp] c ks len r sp
    by (auto simp: RunFullShuffle_def)
  obtain os where os: "out = map Some os" "mset os = mset (map (fold sra_enc ks) ?ms)"
    using RunFullShuffle_result [OF o _ ks(2) sp(1)] len by auto
  obtain ms where ms: "mset ms = mset ?ms" "os = map (fold sra_enc ks) ms"
    using mset_map_split [OF os(2)] by blast
  have "length os = 52" using os(2) by (metis length_BuildPlaintextDeck length_map size_mset)
  then have "NewEncryptedDeck out p (cg_SessionID cg)
      = Inr \<lparr>ed_Cards = os, ed_P = p, ed_SessionID = cg_SessionID cg\<rparr>"
    by (auto simp: NewEncryptedDeck_def os(1) comp_def)
  then show ?thesis
    using o ms by (auto simp: RunShuffle_def c(2) ks(1) layered_deck_def)
qed

lemma NewCryptoGame_keys:
  assumes "NewCryptoGame p players nonce draws = Inr cg" and "\<forall>ds\<in>set draws. \<forall>r\<in>set ds. 0 \<le> r"
    and "length draws = length players"
  shows "cg_P cg = p \<and> cg_Players cg = players \<and> 2 \<le> length players \<and> cg_SessionID cg \<noteq> []
     \<and> (\<exists>ks. cg_Keys cg = map Some ks \<and> length ks = length players \<and> (\<forall>k\<in>set ks. sra_key p k))"
proof -
  obtain keys where keys: "rmap (\<lambda>(pid, ds). GenerateSRAKey (Some p) ds) (zip players draws) = Inr keys"
    and cg: "2 \<le> length players" "cg = \<lparr>cg_P = p, cg_SessionID = SessionID players nonce, cg_Players = players,
      cg_Keys = map Some keys, cg_Deck = None, cg_ShuffleLog = [], cg_DealLog = []\<rparr>"
    using assms(1) by (auto simp: NewCryptoGame_def Let_def rbind_Inr split: if_splits)
  have all: "list_all2 (\<lambda>x k. (case x of (pid, ds) \<Rightarrow> GenerateSRAKey (Some p) ds) = Inr k) (zip players draws) keys"
    using keys by (simp add: rmap_Inr)
  have len: "length keys = length players" using list_all2_lengthD [OF all] assms(3) by simp
  have "sra_key p k" if k: "k \<in> set keys" for k
  proof -
    obtain i where i: "i < length keys" "k = keys ! i" using k by (metis in_set_conv_nth)
    then have "GenerateSRAKey (Some p) (draws ! i) = Inr k"
      using list_all2_nthD2 [OF all, of i] assms(3) len by (simp add: split_beta)
    then show ?thesis using assms(2,3) i len by (intro GenerateSRAKey_key) auto
  qed
  moreover have "length (SessionID players nonce) = 32" by (simp add: SessionID_def length_sha256)
  ultimately show ?thesis using cg len by auto
qed

text \<open>
  C12: The mental-poker deck is the 52-card deck in some order. For a game started with any players,
  keys generated over a card modulus, and any shuffles: there is an order of the 52 cards such that
  position \<open>i\<close> reveals card \<open>i\<close> of it, publicly and to every player, whatever the randomness of the
  proofs, and every peel carries a proof that verifies.
\<close>

theorem crypto_deck_deals_all_cards:
  assumes "NewCryptoGame p players nonce kdraws = Inr cg" and "card_prime p"
    and "\<forall>ds\<in>set kdraws. \<forall>r\<in>set ds. 0 \<le> r" and "length kdraws = length players"
    and "[] \<notin> set players" and "length rnds = length players" and "\<forall>r\<in>set rnds. rand_ready r"
  shows "\<exists>cg' deck cards. RunShuffle rnds cg = (None, cg') \<and> cg_Deck cg' = Some deck
     \<and> mset cards = mset NewDeck
     \<and> (let dp = NewDealProtocol deck (cg_Players cg') (cg_Keys cg')
        in \<forall>i<52. \<forall>draws. draws_ready dp draws \<longrightarrow>
             (\<exists>ps. RevealCommunity dp (int i) draws = Inr (cards ! i, ps)
                \<and> (\<forall>pd\<in>set ps. pd_Verify (Some pd) p (dp_SessionID dp) = None))
           \<and> (\<forall>j<length players. \<exists>ps. RevealToPlayer dp (int i) (int j) draws = Inr (cards ! i, ps)
                \<and> (\<forall>pd\<in>set ps. pd_Verify (Some pd) p (dp_SessionID dp) = None)))"
proof -
  obtain ks where cg: "cg_P cg = p" "cg_Players cg = players" "cg_SessionID cg \<noteq> []"
    "cg_Keys cg = map Some ks" "length ks = length players" "\<forall>k\<in>set ks. sra_key p k"
    using NewCryptoGame_keys [OF assms(1,3,4)] by blast
  obtain cg' deck ms where s: "RunShuffle rnds cg = (None, cg')" "cg_Deck cg' = Some deck"
    "layered_deck p ks ms (ed_Cards deck)" "ed_P deck = p" "ed_SessionID deck = cg_SessionID cg"
    "cg_Players cg' = players" "cg_Keys cg' = map Some ks"
    using RunShuffle_ok [OF assms(2) cg(1,4,6), of rnds] cg assms(6,7) by auto
  let ?dp = "NewDealProtocol deck (cg_Players cg') (cg_Keys cg')"
  have d: "deal_ready p ks ms ?dp"
    using s cg assms(2,5) by (simp add: deal_ready_def NewDealProtocol_def)
  have pl: "length players = length (dp_Players ?dp)" by (simp add: NewDealProtocol_def s(6))
  let ?cards = "map (plain_card p) ms"
  have len: "length ms = 52" using layered_deck_length [OF s(3)] by simp
  have "mset ?cards = mset NewDeck"
    using mset_map_eq [of ms "BuildPlaintextDeck p" "plain_card p"] s(3) mset_plain_cards [OF assms(2)]
    by (simp add: layered_deck_def)
  moreover have "let dp = ?dp in \<forall>i<52. \<forall>draws. draws_ready dp draws \<longrightarrow>
             (\<exists>ps. RevealCommunity dp (int i) draws = Inr (?cards ! i, ps)
                \<and> (\<forall>pd\<in>set ps. pd_Verify (Some pd) p (dp_SessionID dp) = None))
           \<and> (\<forall>j<length players. \<exists>ps. RevealToPlayer dp (int i) (int j) draws = Inr (?cards ! i, ps)
                \<and> (\<forall>pd\<in>set ps. pd_Verify (Some pd) p (dp_SessionID dp) = None))"
    unfolding Let_def
  proof (intro allI impI conjI)
    fix i :: nat and draws assume i: "i < 52" and dr: "draws_ready ?dp draws"
    show "\<exists>ps. RevealCommunity ?dp (int i) draws = Inr (?cards ! i, ps)
                \<and> (\<forall>pd\<in>set ps. pd_Verify (Some pd) p (dp_SessionID ?dp) = None)"
      using RevealCommunity_ok [OF d i dr] i len by simp
    fix j :: nat assume "j < length players"
    then show "\<exists>ps. RevealToPlayer ?dp (int i) (int j) draws = Inr (?cards ! i, ps)
                \<and> (\<forall>pd\<in>set ps. pd_Verify (Some pd) p (dp_SessionID ?dp) = None)"
      using RevealToPlayer_ok [OF d i dr, of j] i len pl by simp
  qed
  ultimately show ?thesis using s(1,2) by blast
qed

definition demo_rand :: step_rand where
  "demo_rand = \<lparr>sr_seed = Some [1], sr_rng = (\<lambda>s. [3, 1]), sr_nonce = Some [9]\<rparr>"

lemma card_prime_107: "card_prime 107"
proof -
  have "prime_int 107" by code_simp
  moreover have "distinct (BuildPlaintextDeck 107)" by code_simp
  moreover have "\<forall>m\<in>set (BuildPlaintextDeck 107). 1 \<le> m \<and> m \<le> 107 - 2" by code_simp
  moreover have "(107 :: int) \<le> 256 ^ 256" by simp
  ultimately show ?thesis by (simp only: card_prime_def simp_thms)
qed

lemma crypto_deck_deals_all_cards_witness:
  "\<exists>cg cg' cards. NewCryptoGame 107 [''a'', ''b''] [] [[1], [3]] = Inr cg
     \<and> RunShuffle [demo_rand, demo_rand] cg = (None, cg') \<and> mset cards = mset NewDeck"
proof -
  have k: "GenerateSRAKey (Some 107) [1] = Inr (mk_key (Some 3) (Some 71) (Some 107))"
    "GenerateSRAKey (Some 107) [3] = Inr (mk_key (Some 5) (Some 85) (Some 107))"
    by code_simp+
  then obtain cg where cg: "NewCryptoGame 107 [''a'', ''b''] [] [[1], [3]] = Inr cg"
    by (auto simp: NewCryptoGame_def Let_def)
  have "\<forall>r\<in>set [demo_rand, demo_rand]. rand_ready r" by (simp add: demo_rand_def rand_ready_def)
  then show ?thesis
    using crypto_deck_deals_all_cards [OF cg card_prime_107, of "[demo_rand, demo_rand]"] cg by auto
qed

end
