(* ===== verification/DealHoles.thy ===== *)
theory DealHoles
  imports CryptoGame
begin

text \<open>
  The deck positions of the deal (internal/crypto/deal.go): the walk of \<open>DealHoleCards\<close> visits the
  positions that \<open>HoleCardIndex\<close> computes, all positions of a hand are different, and the hole
  cards that the deal hands out are the cards at those positions.
\<close>

section \<open>Positions\<close>

lemma walk_index:
  assumes "2 \<le> n" and "0 \<le> d" "d < n" and "0 \<le> i" "i < n"
  shows "HoleCardIndex n d (go_rem (d + 1 + i) n) (int r) = (if r < 2 then Inr (int r * n + i) else Inl ErrRound)"
proof -
  let ?w = "(d + 1 + i) mod n"
  have w: "0 \<le> ?w" "?w < n" using assms by simp_all
  have "(?w - d - 1 + n) mod n = (?w - (d + 1)) mod n" by (simp add: algebra_simps mod_eq_dvd_iff)
  also have "\<dots> = (d + 1 + i - (d + 1)) mod n" by (simp only: mod_simps)
  also have "\<dots> = i" using assms by simp
  finally have "(?w - d - 1 + n) mod n = i" .
  moreover have "HoleCardIndex n d v (int r) = (if r < 2 then Inr (int r * n + i) else Inl ErrRound)"
    if "0 \<le> v" "v < n" "(v - d - 1 + n) mod n = i" for v
    using that assms by (auto simp: HoleCardIndex_def)
  ultimately show ?thesis using assms w by simp
qed

lemma length_deal_walk: "length (deal_walk n d) = 2 * nat n"
  by (simp add: deal_walk_def)

lemma deal_walk_nth:
  "k < 2 * nat n \<Longrightarrow> deal_walk n d ! k
    = (if k < nat n then (go_rem (d + 1 + int k) n, 0) else (go_rem (d + 1 + int (k - nat n)) n, 1))"
  by (auto simp: deal_walk_def nth_append)

lemma deal_walk_index:
  assumes "2 \<le> n" and "0 \<le> d" "d < n" and "k < 2 * nat n"
  shows "HoleCardIndex n d (fst (deal_walk n d ! k)) (int (snd (deal_walk n d ! k))) = Inr (int k)"
  using assms walk_index [OF assms(1-3), of "int k" 0] walk_index [OF assms(1-3), of "int (k - nat n)" 1]
  by (auto simp: deal_walk_nth of_nat_diff)

text \<open>
  The deal visits deck positions \<open>0, 1, ..., 2n-1\<close>, and position \<open>k\<close> is the one that
  \<open>HoleCardIndex\<close> gives for the player and round of step \<open>k\<close>.
\<close>

theorem deal_walk_positions:
  assumes "2 \<le> n" and "0 \<le> d" and "d < n"
  shows "map (\<lambda>(playerIdx, round). HoleCardIndex n d playerIdx (int round)) (deal_walk n d)
    = map (\<lambda>k. Inr (int k)) [0..<2 * nat n]"
  using deal_walk_index [OF assms]
  by (intro nth_equalityI) (simp_all add: length_deal_walk split_beta)

lemma deal_walk_positions_witness:
  "map (\<lambda>(playerIdx, round). HoleCardIndex 3 2 playerIdx (int round)) (deal_walk 3 2)
    = map (\<lambda>k. Inr (int k)) [0..<2 * nat 3]"
  by (rule deal_walk_positions) simp_all

text \<open>Different players or rounds have different positions.\<close>

lemma HoleCardIndex_range:
  assumes "HoleCardIndex n d i r = Inr k"
  shows "r * n \<le> k \<and> k < r * n + n \<and> 0 \<le> k \<and> k < 2 * n"
proof -
  have g: "2 \<le> n" "0 \<le> d" "d < n" "0 \<le> i" "i < n" "r = 0 \<or> r = 1" "k = r * n + go_rem (i - d - 1 + n) n"
    using assms by (auto simp: HoleCardIndex_def split: if_splits)
  have "0 \<le> i - d - 1 + n" using g by linarith
  then have "0 \<le> go_rem (i - d - 1 + n) n" "go_rem (i - d - 1 + n) n < n" using g by simp_all
  then show ?thesis using g(6,7) by auto
qed

lemma HoleCardIndex_inject:
  assumes "HoleCardIndex n d i r = Inr k" and "HoleCardIndex n d j s = Inr k"
  shows "i = j \<and> r = s"
proof -
  have g: "2 \<le> n" "0 \<le> d" "d < n" "0 \<le> i" "i < n" "0 \<le> j" "j < n" "r = 0 \<or> r = 1" "s = 0 \<or> s = 1"
    "k = r * n + go_rem (i - d - 1 + n) n" "k = s * n + go_rem (j - d - 1 + n) n"
    using assms by (auto simp: HoleCardIndex_def split: if_splits)
  have rs: "r = s"
    using HoleCardIndex_range [OF assms(1)] HoleCardIndex_range [OF assms(2)] g(8,9) by auto
  have nn: "0 \<le> i - d - 1 + n" "0 \<le> j - d - 1 + n" using g by linarith+
  then have "(i - d - 1 + n) mod n = (j - d - 1 + n) mod n" using g rs by simp
  then have "n dvd i - j" by (simp add: mod_eq_dvd_iff)
  moreover have "\<bar>i - j\<bar> < n" using g by linarith
  ultimately have "i = j" using dvd_imp_le_int [of "i - j" n] by fastforce
  then show ?thesis using rs by simp
qed

text \<open>
  No deck position is used twice in a hand, and up to 22 players fit the deck: the hole positions,
  the flop, the turn and the river are different indices below 52.
\<close>

theorem deal_positions_distinct:
  assumes "2 \<le> n" and "n \<le> 22" and "0 \<le> d" and "d < n"
  shows "\<exists>hs fl t r. map (\<lambda>(playerIdx, round). HoleCardIndex n d playerIdx (int round)) (deal_walk n d) = map Inr hs
     \<and> FlopIndexes n = Inr fl \<and> TurnIndex n = Inr t \<and> RiverIndex n = Inr r
     \<and> length hs = 2 * nat n \<and> distinct (hs @ fl @ [t, r]) \<and> (\<forall>k\<in>set (hs @ fl @ [t, r]). 0 \<le> k \<and> k < 52)"
proof -
  let ?hs = "map int [0..<2 * nat n]"
  let ?fl = "[2 * n + 1, 2 * n + 2, 2 * n + 3]"
  have hs: "map (\<lambda>(playerIdx, round). HoleCardIndex n d playerIdx (int round)) (deal_walk n d) = map Inr ?hs"
    using deal_walk_index [OF assms(1,3,4)] by (intro nth_equalityI) (simp_all add: length_deal_walk split_beta)
  have "FlopIndexes n = Inr ?fl" "TurnIndex n = Inr (2 * n + 5)" "RiverIndex n = Inr (2 * n + 7)"
    using assms by (simp_all add: FlopIndexes_def TurnIndex_def RiverIndex_def CommunityStartPos_def Let_def)
  moreover have "distinct (?hs @ ?fl @ [2 * n + 5, 2 * n + 7])"
    using assms by (auto simp: distinct_map)
  moreover have "\<forall>k\<in>set (?hs @ ?fl @ [2 * n + 5, 2 * n + 7]). 0 \<le> k \<and> k < 52"
    using assms by auto
  moreover have "length ?hs = 2 * nat n" by simp
  ultimately show ?thesis using hs by blast
qed

lemma deal_positions_distinct_witness:
  "\<exists>hs fl t r. map (\<lambda>(playerIdx, round). HoleCardIndex 9 4 playerIdx (int round)) (deal_walk 9 4) = map Inr hs
     \<and> FlopIndexes 9 = Inr fl \<and> TurnIndex 9 = Inr t \<and> RiverIndex 9 = Inr r
     \<and> length hs = 2 * nat 9 \<and> distinct (hs @ fl @ [t, r]) \<and> (\<forall>k\<in>set (hs @ fl @ [t, r]). 0 \<le> k \<and> k < 52)"
  by (rule deal_positions_distinct) simp_all

section \<open>The hole cards\<close>

definition hole_of :: "nat \<Rightarrow> card \<times> card \<Rightarrow> card" where
  "hole_of r h = (if r = 0 then fst h else snd h)"

lemma hole_loop_ok:
  assumes "\<And>k. k < length w \<Longrightarrow> \<exists>ps. RevealToPlayer dp (pos + int k) (fst (w ! k)) (draws (pos + int k)) = Inr (f (pos + int k), ps)"
    and "distinct w" and "\<forall>x\<in>set w. 0 \<le> fst x \<and> nat (fst x) < length res \<and> snd x < 2"
  shows "\<exists>res'. hole_loop dp draws w pos res = Inr res' \<and> length res' = length res
     \<and> (\<forall>k<length w. hole_of (snd (w ! k)) (res' ! nat (fst (w ! k))) = f (pos + int k))
     \<and> (\<forall>i r. i < length res \<longrightarrow> r < 2 \<longrightarrow> (int i, r) \<notin> set w \<longrightarrow> hole_of r (res' ! i) = hole_of r (res ! i))"
  using assms
proof (induction w arbitrary: pos res)
  case Nil
  then show ?case by simp
next
  case (Cons x w)
  obtain i r where x: "x = (i, r)" by (cases x)
  have i: "0 \<le> i" "nat i < length res" "r < 2" using Cons.prems(3) by (auto simp: x)
  obtain ps where ps: "RevealToPlayer dp pos i (draws pos) = Inr (f pos, ps)"
    using Cons.prems(1) [of 0] by (auto simp: x)
  define res1 where "res1 = res[nat i := (if r = 0 then (f pos, snd (res ! nat i)) else (fst (res ! nat i), f pos))]"
  have step: "hole_loop dp draws (x # w) pos res = hole_loop dp draws w (pos + 1) res1"
    by (simp add: x ps res1_def Let_def)
  have "\<exists>res'. hole_loop dp draws w (pos + 1) res1 = Inr res' \<and> length res' = length res1
     \<and> (\<forall>k<length w. hole_of (snd (w ! k)) (res' ! nat (fst (w ! k))) = f (pos + 1 + int k))
     \<and> (\<forall>i r. i < length res1 \<longrightarrow> r < 2 \<longrightarrow> (int i, r) \<notin> set w \<longrightarrow> hole_of r (res' ! i) = hole_of r (res1 ! i))"
  proof (rule Cons.IH)
    show "\<exists>ps. RevealToPlayer dp (pos + 1 + int k) (fst (w ! k)) (draws (pos + 1 + int k)) = Inr (f (pos + 1 + int k), ps)"
      if "k < length w" for k
      using Cons.prems(1) [of "Suc k"] that by (simp add: ac_simps)
  qed (use Cons.prems(2,3) in \<open>auto simp: res1_def\<close>)
  then obtain res' where r': "hole_loop dp draws w (pos + 1) res1 = Inr res'" "length res' = length res1"
    "\<And>k. k < length w \<Longrightarrow> hole_of (snd (w ! k)) (res' ! nat (fst (w ! k))) = f (pos + 1 + int k)"
    "\<And>i r. i < length res1 \<Longrightarrow> r < 2 \<Longrightarrow> (int i, r) \<notin> set w \<Longrightarrow> hole_of r (res' ! i) = hole_of r (res1 ! i)"
    by blast
  have len: "length res1 = length res" by (simp add: res1_def)
  have hd: "hole_of r (res' ! nat i) = f pos"
    using r'(4) [of "nat i" r] i Cons.prems(2) len by (simp add: x res1_def hole_of_def)
  have "hole_of (snd ((x # w) ! k)) (res' ! nat (fst ((x # w) ! k))) = f (pos + int k)" if "k < length (x # w)" for k
    using that hd r'(3) by (cases k) (simp_all add: x ac_simps)
  moreover have "hole_of s (res' ! j) = hole_of s (res ! j)"
    if "j < length res" "s < 2" "(int j, s) \<notin> set (x # w)" for j s
    using r'(4) [of j s] that len i by (auto simp: x res1_def hole_of_def nth_list_update)
  ultimately show ?case using r'(1,2) step len by (metis (no_types, lifting))
qed

lemma HoleCardIndex_total:
  "2 \<le> n \<Longrightarrow> 0 \<le> d \<Longrightarrow> d < n \<Longrightarrow> 0 \<le> i \<Longrightarrow> i < n \<Longrightarrow> r < 2 \<Longrightarrow> \<exists>k. HoleCardIndex n d i (int r) = Inr k"
  by (auto simp: HoleCardIndex_def)

lemma deal_walk_distinct:
  assumes "2 \<le> n" "0 \<le> d" "d < n"
  shows "distinct (deal_walk n d)"
proof (rule distinct_conv_nth [THEN iffD2], intro allI impI notI)
  fix i j assume "i < length (deal_walk n d)" "j < length (deal_walk n d)" "i \<noteq> j"
    "deal_walk n d ! i = deal_walk n d ! j"
  then show False
    using deal_walk_index [OF assms, of i] deal_walk_index [OF assms, of j] by (simp add: length_deal_walk)
qed

lemma deal_walk_range:
  assumes "2 \<le> n" "0 \<le> d" and "x \<in> set (deal_walk n d)"
  shows "0 \<le> fst x \<and> fst x < n \<and> snd x < 2"
  using assms by (auto simp: deal_walk_def)

lemma deal_walk_covers:
  assumes "2 \<le> n" "0 \<le> d" "d < n" "0 \<le> i" "i < n" "r < 2" "HoleCardIndex n d i (int r) = Inr k"
  shows "0 \<le> k \<and> k < 2 * n \<and> deal_walk n d ! nat k = (i, r)"
proof -
  have k: "0 \<le> k" "k < 2 * n" using HoleCardIndex_range [OF assms(7)] by auto
  let ?x = "deal_walk n d ! nat k"
  have "HoleCardIndex n d (fst ?x) (int (snd ?x)) = Inr k"
    using deal_walk_index [OF assms(1-3), of "nat k"] k by simp
  then have "fst ?x = i \<and> int (snd ?x) = int r" using HoleCardIndex_inject assms(7) by blast
  then show ?thesis using k by (simp add: prod_eq_iff)
qed

text \<open>The plaintext card at a position, of a deck of which the order is known.\<close>

lemma DealHoleCards_ok:
  assumes d: "deal_ready p ks ms dp" and dr: "\<And>k. draws_ready dp (draws k)"
    and n: "2 \<le> length (dp_Players dp)" "2 * length (dp_Players dp) \<le> 52"
    and dealer: "dealer < length (dp_Players dp)"
  shows "\<exists>holes. DealHoleCards dp (int dealer) draws = Inr holes \<and> length holes = length (dp_Players dp)
     \<and> (\<forall>i<length (dp_Players dp). \<forall>r<2. \<exists>k. HoleCardIndex (int (length (dp_Players dp))) (int dealer) (int i) (int r) = Inr k
          \<and> 0 \<le> k \<and> k < 2 * int (length (dp_Players dp)) \<and> hole_of r (holes ! i) = plain_card p (ms ! nat k))"
proof -
  let ?n = "length (dp_Players dp)" and ?w = "deal_walk (int (length (dp_Players dp))) (int dealer)"
  have dn: "0 \<le> int dealer" "int dealer < int ?n" "2 \<le> int ?n" using dealer n by simp_all
  have "\<exists>holes. hole_loop dp draws ?w 0 (replicate ?n (zero_card, zero_card)) = Inr holes
     \<and> length holes = length (replicate ?n (zero_card, zero_card))
     \<and> (\<forall>k<length ?w. hole_of (snd (?w ! k)) (holes ! nat (fst (?w ! k))) = plain_card p (ms ! nat (0 + int k)))
     \<and> (\<forall>i r. i < length (replicate ?n (zero_card, zero_card)) \<longrightarrow> r < 2 \<longrightarrow> (int i, r) \<notin> set ?w
          \<longrightarrow> hole_of r (holes ! i) = hole_of r (replicate ?n (zero_card, zero_card) ! i))"
  proof (rule hole_loop_ok [where f = "\<lambda>k. plain_card p (ms ! nat k)"])
    fix k assume k: "k < length ?w"
    have "?w ! k \<in> set ?w" using k by (rule nth_mem)
    then have "0 \<le> fst (?w ! k)" "fst (?w ! k) < int ?n" using deal_walk_range [OF dn(3,1)] by auto
    then obtain j where "fst (?w ! k) = int j" "j < ?n" by (metis nonneg_int_cases of_nat_less_iff)
    then show "\<exists>ps. RevealToPlayer dp (0 + int k) (fst (?w ! k)) (draws (0 + int k)) = Inr (plain_card p (ms ! nat (0 + int k)), ps)"
      using RevealToPlayer_ok [OF d _ dr, of k j "int k"] k n by (auto simp: length_deal_walk)
  next
    show "distinct ?w" by (rule deal_walk_distinct [OF dn(3,1,2)])
    show "\<forall>x\<in>set ?w. 0 \<le> fst x \<and> nat (fst x) < length (replicate ?n (zero_card, zero_card)) \<and> snd x < 2"
      using deal_walk_range [OF dn(3,1)] by (auto simp: nat_less_iff)
  qed
  then obtain holes where h: "DealHoleCards dp (int dealer) draws = Inr holes" "length holes = ?n"
    "\<And>k. k < length ?w \<Longrightarrow> hole_of (snd (?w ! k)) (holes ! nat (fst (?w ! k))) = plain_card p (ms ! k)"
    by (auto simp: DealHoleCards_def Let_def)
  have "\<exists>k. HoleCardIndex (int ?n) (int dealer) (int i) (int r) = Inr k \<and> 0 \<le> k \<and> k < 2 * int ?n
      \<and> hole_of r (holes ! i) = plain_card p (ms ! nat k)" if ir: "i < ?n" "r < 2" for i r
  proof -
    obtain k where k: "HoleCardIndex (int ?n) (int dealer) (int i) (int r) = Inr k"
      using HoleCardIndex_total [OF dn(3,1,2), of "int i" r] ir by auto
    have c: "0 \<le> k \<and> k < 2 * int ?n \<and> ?w ! nat k = (int i, r)"
      using ir dn by (intro deal_walk_covers [OF _ _ _ _ _ _ k]) auto
    then show ?thesis using h(3) [of "nat k"] k by (auto simp: length_deal_walk nat_less_iff)
  qed
  then show ?thesis using h(1,2) by blast
qed

section \<open>Dealing into the engine\<close>

lemma index_of_id_nth: "distinct ids \<Longrightarrow> i < length ids \<Longrightarrow> index_of_id (ids ! i) ids j = int (i + j)"
proof (induction ids arbitrary: i j)
  case (Cons x ids)
  then show ?case by (cases i) auto
qed simp

lemma assign_holes_ok:
  "distinct (cg_Players cg) \<Longrightarrow> \<forall>p\<in>set ps. p_id p \<in> set (cg_Players cg)
    \<Longrightarrow> \<exists>ps'. assign_holes cg holes ps = (None, ps') \<and> map p_id ps' = map p_id ps
       \<and> (\<forall>s<length ps. p_holes (ps' ! s) = holes ! nat (index_of_id (p_id (ps ! s)) (cg_Players cg) 0))"
proof (induction ps)
  case (Cons p ps)
  obtain i where i: "i < length (cg_Players cg)" "p_id p = cg_Players cg ! i"
    using Cons.prems(2) by (auto simp: in_set_conv_nth)
  have idx: "playerIndex cg (p_id p) = int i"
    using index_of_id_nth [OF Cons.prems(1) i(1), of 0] by (simp add: playerIndex_def i(2))
  obtain ps' where ps': "assign_holes cg holes ps = (None, ps')" "map p_id ps' = map p_id ps"
    "\<forall>s<length ps. p_holes (ps' ! s) = holes ! nat (index_of_id (p_id (ps ! s)) (cg_Players cg) 0)"
    using Cons.IH Cons.prems by auto
  have "p_holes ((p\<lparr>p_holes := holes ! i\<rparr> # ps') ! s) = holes ! nat (index_of_id (p_id ((p # ps) ! s)) (cg_Players cg) 0)"
    if "s < length (p # ps)" for s
    using that ps'(3) idx by (cases s) (simp_all add: playerIndex_def)
  then show ?case using idx ps' by (simp add: Let_def)
qed simp

lemma holes_distinct:
  fixes pos :: "nat \<Rightarrow> nat \<Rightarrow> int"
  assumes "distinct cards"
    and h: "\<And>i r. i < length holes \<Longrightarrow> r < 2 \<Longrightarrow> hole_of r (holes ! i) = cards ! nat (pos i r) \<and> nat (pos i r) < length cards"
    and inj: "\<And>i j r s. i < length holes \<Longrightarrow> j < length holes \<Longrightarrow> r < 2 \<Longrightarrow> s < 2
        \<Longrightarrow> nat (pos i r) = nat (pos j s) \<Longrightarrow> i = j \<and> r = s"
  shows "distinct (concat (map (\<lambda>h. [fst h, snd h]) holes))
     \<and> set (concat (map (\<lambda>h. [fst h, snd h]) holes)) \<subseteq> set cards"
proof -
  let ?f = "\<lambda>(i, r). hole_of r (holes ! i)" and ?P = "List.product [0..<length holes] [0, 1 :: nat]"
  have "map (\<lambda>h. [fst h, snd h]) holes = map (\<lambda>i. [hole_of 0 (holes ! i), hole_of 1 (holes ! i)]) [0..<length holes]"
    by (rule nth_equalityI) (simp_all add: hole_of_def)
  then have eq: "concat (map (\<lambda>h. [fst h, snd h]) holes) = map ?f ?P"
    by (simp add: product_concat_map map_concat comp_def)
  have "inj_on ?f (set ?P)"
  proof (rule inj_onI)
    fix x y assume "x \<in> set ?P" "y \<in> set ?P" "?f x = ?f y"
    then obtain i r j s where x: "x = (i, r)" "y = (j, s)" "i < length holes" "j < length holes" "r < 2" "s < 2"
      "hole_of r (holes ! i) = hole_of s (holes ! j)" by auto
    then have "cards ! nat (pos i r) = cards ! nat (pos j s)" using h by simp
    then have "nat (pos i r) = nat (pos j s)"
      using assms(1) h x by (simp add: nth_eq_iff_index_eq)
    then show "x = y" using inj x by blast
  qed
  then have "distinct (map ?f ?P)" by (simp add: distinct_map distinct_product)
  moreover have "set (map ?f ?P) \<subseteq> set cards" using h by fastforce
  ultimately show ?thesis by (simp only: eq)
qed

text \<open>
  The hand dealt through the mental-poker deck: for a game started and shuffled as in the program
  with as many seats as players, \<open>DealToEngine\<close> succeeds, removes the engine's own deck, and gives
  every seat two cards of one order of the 52 cards, at the positions of its player; no card is
  given twice.
\<close>

theorem DealToEngine_deals:
  assumes "NewCryptoGame p players nonce kdraws = Inr cg" and "card_prime p"
    and "\<forall>ds\<in>set kdraws. \<forall>r\<in>set ds. 0 \<le> r" and "length kdraws = length players"
    and "[] \<notin> set players" and "distinct players" and "length players \<le> 22"
    and "length rnds = length players" and "\<forall>r\<in>set rnds. rand_ready r"
    and "\<And>k. length (draws k) = length players \<and> (\<forall>ds\<in>set (draws k). good_draws ds)"
    and "map p_id (gs_players gs) = players" and "gs_dealerIdx gs < length players"
  shows "\<exists>cg' gs'. RunShuffle rnds cg = (None, cg') \<and> DealToEngine cg' draws gs = (None, gs')
     \<and> gs_deck gs' = None \<and> map p_id (gs_players gs') = players
     \<and> (let cs = concat (map (\<lambda>q. [fst (p_holes q), snd (p_holes q)]) (gs_players gs'))
        in distinct cs \<and> (\<forall>c\<in>set cs. dealt c))"
proof -
  obtain ks where cg: "cg_P cg = p" "cg_Players cg = players" "cg_SessionID cg \<noteq> []"
    "cg_Keys cg = map Some ks" "length ks = length players" "\<forall>k\<in>set ks. sra_key p k" "2 \<le> length players"
    using NewCryptoGame_keys [OF assms(1,3,4)] by blast
  obtain cg' deck ms where s: "RunShuffle rnds cg = (None, cg')" "cg_Deck cg' = Some deck"
    "layered_deck p ks ms (ed_Cards deck)" "ed_P deck = p" "ed_SessionID deck = cg_SessionID cg"
    "cg_Players cg' = players" "cg_Keys cg' = map Some ks"
    using RunShuffle_ok [OF assms(2) cg(1,4,6), of rnds] cg assms(8,9) by auto
  let ?dp = "NewDealProtocol deck players (map Some ks)"
  have d: "deal_ready p ks ms ?dp" and pl: "dp_Players ?dp = players"
    using s cg assms(2,5) by (simp_all add: deal_ready_def NewDealProtocol_def)
  have dr: "draws_ready ?dp (draws k)" for k using assms(10) [of k] by (simp add: draws_ready_def pl)
  obtain holes where h: "DealHoleCards ?dp (int (gs_dealerIdx gs)) draws = Inr holes" "length holes = length players"
    "\<And>i r. i < length players \<Longrightarrow> r < 2 \<Longrightarrow> \<exists>k. HoleCardIndex (int (length players)) (int (gs_dealerIdx gs)) (int i) (int r) = Inr k
          \<and> 0 \<le> k \<and> k < 2 * int (length players) \<and> hole_of r (holes ! i) = plain_card p (ms ! nat k)"
    using DealHoleCards_ok [OF d, of draws "gs_dealerIdx gs", OF dr] cg(7) assms(7,12) unfolding pl by auto
  obtain ps' where ps': "assign_holes cg' holes (gs_players gs) = (None, ps')" "map p_id ps' = map p_id (gs_players gs)"
    "\<forall>s<length (gs_players gs). p_holes (ps' ! s) = holes ! nat (index_of_id (p_id (gs_players gs ! s)) players 0)"
    using assign_holes_ok [of cg' "gs_players gs" holes] assms(6,11) s(6) by auto
  have len: "length (gs_players gs) = length players" "length ps' = length players"
    using assms(11) ps'(2) by (metis length_map)+
  have ph: "p_holes (ps' ! s) = holes ! s" if "s < length players" for s
    using ps'(3) that index_of_id_nth [OF assms(6) that, of 0] len assms(11) by (metis add.right_neutral nat_int nth_map)
  have "map p_holes ps' = holes" using len h(2) ph by (intro nth_equalityI) simp_all
  then have cs: "concat (map (\<lambda>q. [fst (p_holes q), snd (p_holes q)]) ps') = concat (map (\<lambda>h. [fst h, snd h]) holes)"
    by (auto simp: comp_def)
  obtain pos where pos: "\<And>i r. i < length players \<Longrightarrow> r < 2 \<Longrightarrow>
      HoleCardIndex (int (length players)) (int (gs_dealerIdx gs)) (int i) (int r) = Inr (pos i r)
      \<and> 0 \<le> pos i r \<and> pos i r < 2 * int (length players) \<and> hole_of r (holes ! i) = plain_card p (ms ! nat (pos i r))"
    using h(3) by metis
  let ?cs = "concat (map (\<lambda>h. [fst h, snd h]) holes)"
  have perm: "mset (map (plain_card p) ms) = mset NewDeck"
    using mset_map_eq [of ms "BuildPlaintextDeck p" "plain_card p"] s(3) mset_plain_cards [OF assms(2)]
    by (simp add: layered_deck_def)
  have "distinct ?cs \<and> set ?cs \<subseteq> set (map (plain_card p) ms)"
  proof (rule holes_distinct)
    show "distinct (map (plain_card p) ms)" using perm distinct_NewDeck mset_eq_imp_distinct_iff by blast
    show "hole_of r (holes ! i) = map (plain_card p) ms ! nat (pos i r) \<and> nat (pos i r) < length (map (plain_card p) ms)"
      if "i < length holes" "r < 2" for i r
      using pos [of i r] that h(2) layered_deck_length [OF s(3)] assms(7) by auto
    show "i = j \<and> r = s'" if "i < length holes" "j < length holes" "r < 2" "s' < 2" "nat (pos i r) = nat (pos j s')" for i j r s'
      using pos [of i r] pos [of j s'] that h(2) HoleCardIndex_inject [of "int (length players)" "int (gs_dealerIdx gs)" "int i" "int r" "pos i r" "int j" "int s'"]
      by auto
  qed
  moreover have "set (map (plain_card p) ms) = set NewDeck" using perm by (metis set_mset_mset)
  ultimately have cards: "distinct ?cs" "\<forall>c\<in>set ?cs. dealt c" by (auto simp: set_NewDeck)
  have "DealToEngine cg' draws gs = (None, gs\<lparr>gs_players := ps', gs_deck := None\<rparr>)"
    using h(1) ps'(1) by (simp add: DealToEngine_def s(2,6,7) Let_def)
  then show ?thesis using s(1) cards [folded cs] ps'(2) assms(11) by (simp add: Let_def)
qed

definition demo_seats :: game_state where
  "demo_seats = NewGameState ''t'' 1 [NewPlayer ''a'' ''A'' 100, NewPlayer ''b'' ''B'' 100] 1 5 10"

lemma demo_seats_simps: "map p_id (gs_players demo_seats) = [''a'', ''b'']" "gs_dealerIdx demo_seats = 1"
  by code_simp+

lemma DealToEngine_deals_witness:
  "\<exists>cg cg' gs'. NewCryptoGame 107 [''a'', ''b''] [] [[1], [3]] = Inr cg
     \<and> RunShuffle [demo_rand, demo_rand] cg = (None, cg')
     \<and> DealToEngine cg' (\<lambda>k. [[0, 1], [0, 1]]) demo_seats = (None, gs')"
proof -
  have k: "GenerateSRAKey (Some 107) [1] = Inr (mk_key (Some 3) (Some 71) (Some 107))"
    "GenerateSRAKey (Some 107) [3] = Inr (mk_key (Some 5) (Some 85) (Some 107))"
    by code_simp+
  then obtain cg where cg: "NewCryptoGame 107 [''a'', ''b''] [] [[1], [3]] = Inr cg"
    by (auto simp: NewCryptoGame_def Let_def)
  have r: "\<forall>r\<in>set [demo_rand, demo_rand]. rand_ready r" by (simp add: demo_rand_def rand_ready_def)
  have "\<exists>cg' gs'. RunShuffle [demo_rand, demo_rand] cg = (None, cg')
     \<and> DealToEngine cg' (\<lambda>k. [[0, 1], [0, 1]]) demo_seats = (None, gs')
     \<and> gs_deck gs' = None \<and> map p_id (gs_players gs') = [''a'', ''b'']
     \<and> (let cs = concat (map (\<lambda>q. [fst (p_holes q), snd (p_holes q)]) (gs_players gs'))
        in distinct cs \<and> (\<forall>c\<in>set cs. dealt c))"
    by (rule DealToEngine_deals [OF cg card_prime_107])
      (simp_all add: demo_seats_simps good_draws_def r)
  then show ?thesis using cg by blast
qed

section \<open>What a peel does not show\<close>

text \<open>
  C19: The proof of a peel shows that the same exponent was used on the generator and on the
  ciphertext, and nothing more: its public key \<open>H\<close> is chosen by the prover. So for every exponent
  there is a partial decryption under any player's name that is verified and applied, also when
  the exponent is not that player's key.
\<close>

theorem any_exponent_peels:
  assumes "prime_int p" and "ct \<in> sra_space p" and "0 \<le> d"
  shows "\<exists>pd. pd_PlayerID pd = pid \<and> pd_CardIndex pd = idx
     \<and> VerifyAndApply (Some ct) (Some pd) p sid = Inr (big_Exp ct d p)"
proof -
  let ?k = "mk_key None (Some d) (Some p)" and ?r = "big_Exp ct d p"
  have p: "2 < p" "\<not> p dvd ct" using assms(2) by (auto simp: sra_space_def prime_not_dvd_small)
  obtain pf where pf: "ProveDecryption (Some ?k) (Some ct) (Some ?r) sid [0, 1] = Inr pf"
    using ProveDecryption_total [of ?k d p "[0, 1]" ct ?r sid] by auto
  have "VerifyDecryption (Some pf) (Some ct) (Some ?r) p sid = None"
    using ProveDecryption_verifies [OF pf _ _ assms(1) p(1) assms(3) p(2)] by simp
  then show ?thesis
    by (intro exI [of _ "\<lparr>pd_PlayerID = pid, pd_CardIndex = idx, pd_Ciphertext = Some ct,
         pd_Result = Some ?r, pd_Proof = Some pf\<rparr>"]) (simp add: VerifyAndApply_def pd_Verify_def)
qed

lemma any_exponent_peels_witness:
  "\<exists>pd. pd_PlayerID pd = ''a'' \<and> pd_CardIndex pd = 0
     \<and> VerifyAndApply (Some 9) (Some pd) 107 [1] = Inr (big_Exp 9 0 107)"
  by (rule any_exponent_peels) (code_simp, simp_all add: sra_space_def)

end
