(* ===== verification/Keyring.thy ===== *)
theory Keyring
  imports Cipher
begin

text \<open>
  internal/crypto/keyring.go: one node's own key and everyone's public exponents. The map of public
  exponents that a keyring is built from is an association list with different keys. Methods on a
  nil keyring are the \<open>None\<close> cases.
\<close>

record Keyring =
  kr_localID :: playerID
  kr_local :: SRAKey
  kr_pubs :: "playerID \<rightharpoonup> SRAKey"
  kr_order :: "playerID list"

text \<open>The loop over the seats: no empty and no repeated ID.\<close>

fun check_seats :: "playerID set \<Rightarrow> playerID list \<Rightarrow> crypto_error option" where
  "check_seats seen [] = None"
| "check_seats seen (i # is) =
     (if i = [] then Some ErrEmptyId
      else if i \<in> seen then Some ErrDuplicateSeat
      else check_seats (insert i seen) is)"

text \<open>The loop that decodes each seat's exponent.\<close>

fun public_keys ::
  "int option \<Rightarrow> (playerID \<times> byte list) list \<Rightarrow> playerID list \<Rightarrow> crypto_error + (playerID \<rightharpoonup> SRAKey)" where
  "public_keys p publicE [] = Inr (\<lambda>_. None)"
| "public_keys p publicE (i # is) =
     (case map_of publicE i of None \<Rightarrow> Inl ErrMissingExponent
      | Some raw \<Rightarrow> if raw = [] then Inl ErrMissingExponent
          else rbind (PublicSRAKey p (Some (big_SetBytes raw))) (\<lambda>pub.
            rbind (public_keys p publicE is) (\<lambda>pubs. Inr (pubs(i \<mapsto> pub)))))"

definition NewKeyring ::
  "playerID \<Rightarrow> SRAKey option \<Rightarrow> (playerID \<times> byte list) list \<Rightarrow> playerID list \<Rightarrow> crypto_error + Keyring" where
  "NewKeyring localID lo publicE seatOrder =
     (if localID = [] then Inl ErrEmptyId
      else if lo = None \<or> \<not> IsPrivate lo then Inl ErrNoPrivate
      else let k = the lo
        in if key_P k = None \<or> key_E k = None then Inl ErrNilKey
           else if length seatOrder < 2 then Inl ErrTooFewPlayers
           else case check_seats {} seatOrder of Some e \<Rightarrow> Inl e | None \<Rightarrow>
             if localID \<notin> set seatOrder then Inl ErrLocalMissing
             else if length publicE \<noteq> length seatOrder then Inl ErrPublicCount
             else if \<not> list_all (\<lambda>(i, _). i \<in> set seatOrder) publicE then Inl ErrExtraPublic
             else if key_E k \<noteq> Some (big_SetBytes (case map_of publicE localID of None \<Rightarrow> [] | Some b \<Rightarrow> b))
               then Inl ErrLocalExponent
             else rbind (public_keys (key_P k) publicE seatOrder) (\<lambda>pubs.
               Inr \<lparr>kr_localID = localID, kr_local = k, kr_pubs = pubs, kr_order = seatOrder\<rparr>))"

definition LocalID :: "Keyring option \<Rightarrow> playerID" where
  "LocalID kr = (case kr of None \<Rightarrow> [] | Some r \<Rightarrow> kr_localID r)"

definition LocalKey :: "Keyring option \<Rightarrow> SRAKey option" where
  "LocalKey kr = (case kr of None \<Rightarrow> None | Some r \<Rightarrow> cloneSRAKey (Some (kr_local r)))"

definition SeatOrder :: "Keyring option \<Rightarrow> playerID list" where
  "SeatOrder kr = (case kr of None \<Rightarrow> [] | Some r \<Rightarrow> kr_order r)"

definition Public :: "Keyring option \<Rightarrow> playerID \<Rightarrow> SRAKey option" where
  "Public kr peerID = (case kr of None \<Rightarrow> None | Some r \<Rightarrow> cloneSRAKeyPublic (kr_pubs r peerID))"

definition PublicExponents :: "Keyring option \<Rightarrow> int option list" where
  "PublicExponents kr = (case kr of None \<Rightarrow> []
     | Some r \<Rightarrow> map (\<lambda>i. Option.bind (kr_pubs r i) key_E) (kr_order r))"

definition Len :: "Keyring option \<Rightarrow> nat" where
  "Len kr = (case kr of None \<Rightarrow> 0 | Some r \<Rightarrow> length (kr_order r))"

fun seat_find :: "playerID \<Rightarrow> playerID list \<Rightarrow> nat \<Rightarrow> nat option" where
  "seat_find pid [] i = None"
| "seat_find pid (x # xs) i = (if x = pid then Some i else seat_find pid xs (i + 1))"

definition kr_SeatIndex :: "Keyring option \<Rightarrow> playerID \<Rightarrow> nat option" where
  "kr_SeatIndex kr peerID = (case kr of None \<Rightarrow> None | Some r \<Rightarrow> seat_find peerID (kr_order r) 0)"

definition Modulus :: "Keyring option \<Rightarrow> int option" where
  "Modulus kr = (case kr of None \<Rightarrow> None | Some r \<Rightarrow> key_P (kr_local r))"

section \<open>Seats\<close>

lemma seat_find_Some: "seat_find pid xs i = Some j \<Longrightarrow> i \<le> j \<and> j < i + length xs \<and> xs ! (j - i) = pid"
  by (induction xs arbitrary: i) (fastforce split: if_splits simp: nth_Cons')+

lemma seat_find_None: "seat_find pid xs i = None \<longleftrightarrow> pid \<notin> set xs"
  by (induction xs arbitrary: i) auto

lemma seat_find_nth: "distinct xs \<Longrightarrow> j < length xs \<Longrightarrow> seat_find (xs ! j) xs i = Some (i + j)"
proof (induction xs arbitrary: i j)
  case (Cons x xs)
  then show ?case by (cases j) auto
qed simp

lemma check_seats_None: "check_seats seen xs = None \<Longrightarrow> distinct xs \<and> [] \<notin> set xs \<and> set xs \<inter> seen = {}"
  by (induction xs arbitrary: seen) (auto split: if_splits)

lemma public_keys_Inr:
  "public_keys p publicE xs = Inr pubs \<Longrightarrow> i \<in> set xs
    \<Longrightarrow> \<exists>raw. map_of publicE i = Some raw \<and> raw \<noteq> []
        \<and> pubs i = Some (mk_key (Some (big_SetBytes raw)) None p)"
  by (induction xs arbitrary: pubs)
    (auto simp: rbind_Inr PublicSRAKey_def split: option.splits if_splits)

lemma public_keys_dom: "public_keys p publicE xs = Inr pubs \<Longrightarrow> dom pubs = set xs"
proof (induction xs arbitrary: pubs)
  case (Cons i xs)
  obtain pub qs where "public_keys p publicE xs = Inr qs" "pubs = qs(i \<mapsto> pub)"
    using Cons.prems by (auto simp: rbind_Inr split: option.splits if_splits)
  then show ?case using Cons.IH by (metis dom_fun_upd list.simps(15) option.distinct(1))
qed simp

text \<open>What a keyring guarantees once it is built.\<close>

definition keyring_ok :: "Keyring \<Rightarrow> bool" where
  "keyring_ok r \<longleftrightarrow> distinct (kr_order r) \<and> [] \<notin> set (kr_order r) \<and> 2 \<le> length (kr_order r)
     \<and> kr_localID r \<in> set (kr_order r) \<and> IsPrivate (Some (kr_local r)) \<and> key_P (kr_local r) \<noteq> None
     \<and> dom (kr_pubs r) = set (kr_order r) \<and> (\<forall>k\<in>ran (kr_pubs r). key_D k = None)"

lemma NewKeyring_ok:
  assumes "NewKeyring localID lo publicE seatOrder = Inr r"
  shows "keyring_ok r" and "kr_order r = seatOrder" and "kr_localID r = localID" and "lo = Some (kr_local r)"
proof -
  have n: "lo = Some (kr_local r)" "IsPrivate lo" "key_P (kr_local r) \<noteq> None" "2 \<le> length seatOrder"
    "check_seats {} seatOrder = None" "localID \<in> set seatOrder" "kr_order r = seatOrder" "kr_localID r = localID"
    and pubs: "public_keys (key_P (kr_local r)) publicE seatOrder = Inr (kr_pubs r)"
    using assms by (auto simp: NewKeyring_def Let_def rbind_Inr split: if_splits option.splits)
  have dom: "dom (kr_pubs r) = set seatOrder" by (rule public_keys_dom [OF pubs])
  have "key_D k = None" if k: "k \<in> ran (kr_pubs r)" for k
  proof -
    obtain i where i: "kr_pubs r i = Some k" using k by (auto simp: ran_def)
    then have "i \<in> set seatOrder" using dom by auto
    then show ?thesis using public_keys_Inr [OF pubs, of i] i by auto
  qed
  then show "keyring_ok r" using n check_seats_None [OF n(5)] dom by (simp add: keyring_ok_def)
  show "kr_order r = seatOrder" "kr_localID r = localID" "lo = Some (kr_local r)" by fact+
qed

lemma SeatIndex_order:
  "keyring_ok r \<Longrightarrow> j < length (kr_order r) \<Longrightarrow> kr_SeatIndex (Some r) (kr_order r ! j) = Some j"
  using seat_find_nth [of "kr_order r" j 0] by (simp add: kr_SeatIndex_def keyring_ok_def)

lemma SeatIndex_Some:
  "kr_SeatIndex (Some r) pid = Some j \<Longrightarrow> j < length (kr_order r) \<and> kr_order r ! j = pid"
  using seat_find_Some [of pid "kr_order r" 0 j] by (simp add: kr_SeatIndex_def)

text \<open>The seat of this node.\<close>

definition local_seat :: "Keyring \<Rightarrow> nat" where
  "local_seat kr = the (kr_SeatIndex (Some kr) (kr_localID kr))"

lemma local_seat_order:
  assumes "keyring_ok kr"
  shows "local_seat kr < length (kr_order kr)" and "kr_order kr ! local_seat kr = kr_localID kr"
    and "i < length (kr_order kr) \<Longrightarrow> kr_order kr ! i = kr_localID kr \<longleftrightarrow> i = local_seat kr"
proof -
  obtain j where j: "j < length (kr_order kr)" "kr_order kr ! j = kr_localID kr"
    using assms by (auto simp: keyring_ok_def in_set_conv_nth)
  have l: "local_seat kr = j" using SeatIndex_order [OF assms j(1)] j(2) by (simp add: local_seat_def)
  show "local_seat kr < length (kr_order kr)" "kr_order kr ! local_seat kr = kr_localID kr"
    using j by (simp_all add: l)
  show "kr_order kr ! i = kr_localID kr \<longleftrightarrow> i = local_seat kr" if "i < length (kr_order kr)"
    using assms that j nth_eq_iff_index_eq [of "kr_order kr" i j] unfolding l keyring_ok_def by metis
qed

text \<open>
  A keyring never hands out another seat's private exponent: what \<open>Public\<close> returns, for the local
  seat too, has the exponent that was announced in the lobby, the shared modulus and no \<open>d\<close>.
\<close>

theorem keyring_public_only:
  assumes "NewKeyring localID lo publicE seatOrder = Inr r"
  shows "\<forall>i. if i \<in> set seatOrder
     then \<exists>raw. map_of publicE i = Some raw \<and> raw \<noteq> []
        \<and> Public (Some r) i = Some (mk_key (Some (big_SetBytes raw)) None (Modulus (Some r)))
     else Public (Some r) i = None"
proof -
  have pubs: "public_keys (key_P (kr_local r)) publicE seatOrder = Inr (kr_pubs r)"
    using assms by (auto simp: NewKeyring_def Let_def rbind_Inr split: if_splits option.splits)
  have "kr_pubs r i = None" if "i \<notin> set seatOrder" for i
    using public_keys_dom [OF pubs] that by auto
  moreover have "\<exists>raw. map_of publicE i = Some raw \<and> raw \<noteq> []
      \<and> Public (Some r) i = Some (mk_key (Some (big_SetBytes raw)) None (Modulus (Some r)))"
    if "i \<in> set seatOrder" for i
    using public_keys_Inr [OF pubs that] by (auto simp: Public_def cloneSRAKeyPublic_def Modulus_def)
  ultimately show ?thesis by (simp add: Public_def cloneSRAKeyPublic_def)
qed

lemma keyring_public_only_witness:
  "\<exists>r. NewKeyring ''a'' (Some (mk_key (Some 3) (Some 71) (Some 107))) [(''a'', [3]), (''b'', [5])] [''a'', ''b''] = Inr r
     \<and> Public (Some r) ''b'' = Some (mk_key (Some 5) None (Some 107))"
proof -
  have "big_SetBytes [3] = 3" "big_SetBytes [5] = 5" by (simp_all add: big_SetBytes_def)
  then obtain r where r: "NewKeyring ''a'' (Some (mk_key (Some 3) (Some 71) (Some 107))) [(''a'', [3]), (''b'', [5])] [''a'', ''b''] = Inr r"
    "Modulus (Some r) = Some 107"
    by (auto simp: NewKeyring_def IsPrivate_def Let_def PublicSRAKey_def Modulus_def)
  then show ?thesis using keyring_public_only [OF r(1)] \<open>big_SetBytes [5] = 5\<close> by (auto dest: spec [of _ "''b''"])
qed

end
