(* ===== verification/ShuffleSession.thy ===== *)
theory ShuffleSession
  imports Keyring CryptoGame
begin

text \<open>
  internal/crypto/shuffle_session.go: the replicated turn-taking state machine of the shuffle. Each
  operation is a function on the session state; its first component is what the Go method returns
  (an error, or the optional message to broadcast), also when the state it leaves has changed. The
  randomness of a local step is an argument of every operation that may execute one.
\<close>

section \<open>State\<close>

record ShuffleMessage =
  sm_HandNum :: int
  sm_PlayerID :: playerID
  sm_OutputDeck :: "int option list"
  sm_Commitment :: "Commitment option"

record ShuffleSession =
  ss_kr :: Keyring
  ss_proto :: ShuffleProtocol
  ss_handNum :: int
  ss_sessionID :: "byte list"
  ss_initial :: "int option list"
  ss_started :: bool
  ss_nextIndex :: nat
  ss_current :: "int option list"
  ss_pending :: "nat \<rightharpoonup> ShuffleMessage"
  ss_applied :: "nat \<rightharpoonup> ShuffleMessage"
  ss_localPerm :: "nat list"

type_synonym ss_result = "(crypto_error + ShuffleMessage option) \<times> ShuffleSession"

definition ShuffleMessageFromStep :: "int \<Rightarrow> ShuffleStep option \<Rightarrow> crypto_error + ShuffleMessage" where
  "ShuffleMessageFromStep handNum so = (case so of None \<Rightarrow> Inl ErrNil
     | Some step \<Rightarrow> if st_OutputDeck step = [] then Inl ErrNil
         else if st_Commitment step = None then Inl ErrNil
         else Inr \<lparr>sm_HandNum = handNum, sm_PlayerID = st_PlayerID step,
                   sm_OutputDeck = st_OutputDeck step, sm_Commitment = st_Commitment step\<rparr>)"

definition newShuffleSession ::
  "Keyring option \<Rightarrow> byte list \<Rightarrow> int \<Rightarrow> int option list \<Rightarrow> crypto_error + ShuffleSession" where
  "newShuffleSession kr sessionID handNum initial = (case kr of None \<Rightarrow> Inl ErrNil
     | Some r \<Rightarrow> if Len kr < 2 then Inl ErrTooFewPlayers
         else if sessionID = [] then Inl ErrEmptySession
         else if handNum < 1 then Inl ErrHandNum
         else (case Modulus kr of None \<Rightarrow> Inl ErrNilModulus
           | Some p \<Rightarrow> if initial = [] then Inl ErrEmptyDeck
               else Inr \<lparr>ss_kr = r, ss_proto = \<lparr>sp_P = p, sp_SessionID = sessionID, sp_NumCards = length initial\<rparr>,
                  ss_handNum = handNum, ss_sessionID = sessionID, ss_initial = initial,
                  ss_started = False, ss_nextIndex = 0, ss_current = [],
                  ss_pending = Map.empty, ss_applied = Map.empty, ss_localPerm = []\<rparr>))"

definition NewShuffleSession :: "Keyring option \<Rightarrow> byte list \<Rightarrow> int \<Rightarrow> crypto_error + ShuffleSession" where
  "NewShuffleSession kr sessionID handNum = (case kr of None \<Rightarrow> Inl ErrNil
     | Some _ \<Rightarrow> (case Modulus kr of None \<Rightarrow> Inl ErrNilModulus
         | Some m \<Rightarrow> newShuffleSession kr sessionID handNum (map Some (BuildPlaintextDeck m))))"

section \<open>Operations\<close>

definition doneLocked :: "ShuffleSession \<Rightarrow> bool" where
  "doneLocked s \<longleftrightarrow> ss_nextIndex s \<ge> length (kr_order (ss_kr s))"

definition expectedPlayerLocked :: "ShuffleSession \<Rightarrow> playerID" where
  "expectedPlayerLocked s =
     (if ss_nextIndex s \<ge> length (kr_order (ss_kr s)) then [] else kr_order (ss_kr s) ! ss_nextIndex s)"

definition validateIncomingLocked :: "ShuffleSession \<Rightarrow> ShuffleMessage option \<Rightarrow> crypto_error option" where
  "validateIncomingLocked s mo = (case mo of None \<Rightarrow> Some ErrNil
     | Some msg \<Rightarrow>
         if sm_PlayerID msg = [] then Some ErrEmptyId
         else if length (sm_OutputDeck msg) \<noteq> sp_NumCards (ss_proto s)
           then Some (ErrDeckSize (sp_NumCards (ss_proto s)) (length (sm_OutputDeck msg)))
         else if None \<in> set (sm_OutputDeck msg) then Some ErrNil
         else if sm_Commitment msg = None then Some ErrCommitment
         else if sm_HandNum msg \<noteq> ss_handNum s then Some ErrWrongHand
         else None)"

text \<open>Two messages are equal when all their parts are: nil slots only match nil slots.\<close>

definition shuffleMessagesEqual :: "ShuffleMessage \<Rightarrow> ShuffleMessage \<Rightarrow> bool" where
  "shuffleMessagesEqual a b \<longleftrightarrow> sm_HandNum a = sm_HandNum b \<and> sm_PlayerID a = sm_PlayerID b
     \<and> sm_OutputDeck a = sm_OutputDeck b \<and> sm_Commitment a = sm_Commitment b"

definition verifyAndAdoptLocked :: "ShuffleMessage \<Rightarrow> ShuffleSession \<Rightarrow> (crypto_error, ShuffleSession) outcome" where
  "verifyAndAdoptLocked msg s =
     (let step = \<lparr>st_PlayerID = sm_PlayerID msg, st_InputDeck = [], st_OutputDeck = sm_OutputDeck msg,
                  st_Permutation = [], st_Commitment = sm_Commitment msg\<rparr>
      in case VerifyStep (Some step) of Some e \<Rightarrow> (Some e, s)
         | None \<Rightarrow> (None, s\<lparr>ss_applied := (ss_applied s)(ss_nextIndex s \<mapsto> msg),
                            ss_current := sm_OutputDeck msg, ss_nextIndex := ss_nextIndex s + 1\<rparr>))"

text \<open>The loop over buffered steps; each round adopts one seat, so it stops at the last seat.\<close>

lemma verifyAndAdopt_next:
  "verifyAndAdoptLocked msg s = (None, s') \<Longrightarrow> ss_nextIndex s' = ss_nextIndex s + 1 \<and> ss_kr s' = ss_kr s"
  by (auto simp: verifyAndAdoptLocked_def Let_def split: option.splits)

function drainPendingLocked :: "ShuffleSession \<Rightarrow> (crypto_error, ShuffleSession) outcome" where
  "drainPendingLocked s =
     (if doneLocked s then (None, s)
      else if expectedPlayerLocked s = kr_localID (ss_kr s) then (None, s)
      else case ss_pending s (ss_nextIndex s) of None \<Rightarrow> (None, s)
        | Some msg \<Rightarrow>
            (case verifyAndAdoptLocked msg (s\<lparr>ss_pending := (ss_pending s)(ss_nextIndex s := None)\<rparr>) of
               (Some e, s') \<Rightarrow> (Some e, s')
             | (None, s') \<Rightarrow> drainPendingLocked s'))"
  by pat_completeness auto
termination
  by (relation "measure (\<lambda>s. length (kr_order (ss_kr s)) - ss_nextIndex s)")
    (auto simp: doneLocked_def dest!: verifyAndAdopt_next [OF sym])

declare drainPendingLocked.simps [simp del]

definition executeLocalLocked :: "step_rand \<Rightarrow> ShuffleSession \<Rightarrow> ss_result" where
  "executeLocalLocked rnd s =
     (if expectedPlayerLocked s \<noteq> kr_localID (ss_kr s) then (Inl ErrNotTurn, s)
      else case ExecuteStep (ss_proto s) (kr_localID (ss_kr s)) (ss_current s) (LocalKey (Some (ss_kr s))) rnd of
        Inl e \<Rightarrow> (Inl e, s)
      | Inr step \<Rightarrow>
          let s1 = s\<lparr>ss_localPerm := st_Permutation step\<rparr>
          in case ShuffleMessageFromStep (ss_handNum s) (Some step) of Inl e \<Rightarrow> (Inl e, s1)
             | Inr msg \<Rightarrow>
                 (case verifyAndAdoptLocked msg s1 of (Some e, s2) \<Rightarrow> (Inl e, s2)
                  | (None, s2) \<Rightarrow> (case drainPendingLocked s2 of (Some e, s3) \<Rightarrow> (Inl e, s3)
                      | (None, s3) \<Rightarrow> (Inr (Some msg), s3))))"

definition afterApplyLocked :: "step_rand \<Rightarrow> ShuffleSession \<Rightarrow> ss_result" where
  "afterApplyLocked rnd s = (case drainPendingLocked s of (Some e, s1) \<Rightarrow> (Inl e, s1)
     | (None, s1) \<Rightarrow> if \<not> doneLocked s1 \<and> expectedPlayerLocked s1 = kr_localID (ss_kr s1)
         then executeLocalLocked rnd s1 else (Inr None, s1))"

definition Start :: "step_rand \<Rightarrow> ShuffleSession \<Rightarrow> ss_result" where
  "Start rnd s = (if ss_started s \<or> ss_nextIndex s \<noteq> 0 then (Inl ErrStarted, s)
     else let s1 = s\<lparr>ss_started := True, ss_current := ss_initial s\<rparr>
       in if expectedPlayerLocked s1 = kr_localID (ss_kr s1) then executeLocalLocked rnd s1 else (Inr None, s1))"

definition HandleMessage :: "step_rand \<Rightarrow> ShuffleMessage option \<Rightarrow> ShuffleSession \<Rightarrow> ss_result" where
  "HandleMessage rnd mo s =
     (if \<not> ss_started s then (Inl ErrNotStarted, s)
      else case validateIncomingLocked s mo of Some e \<Rightarrow> (Inl e, s)
      | None \<Rightarrow>
          let msg = the mo
          in case kr_SeatIndex (Some (ss_kr s)) (sm_PlayerID msg) of None \<Rightarrow> (Inl ErrUnknownPlayer, s)
          | Some seat \<Rightarrow>
              if seat < ss_nextIndex s then
                (case ss_applied s seat of
                   Some prev \<Rightarrow> if shuffleMessagesEqual prev msg then (Inr None, s) else (Inl ErrDuplicateStep, s)
                 | None \<Rightarrow> (Inl ErrDuplicateStep, s))
              else if seat = ss_nextIndex s then
                (if sm_PlayerID msg \<noteq> expectedPlayerLocked s then (Inl ErrWrongSeat, s)
                 else if sm_PlayerID msg = kr_localID (ss_kr s) then (Inl ErrLocalStep, s)
                 else case verifyAndAdoptLocked msg s of (Some e, s1) \<Rightarrow> (Inl e, s1)
                   | (None, s1) \<Rightarrow> afterApplyLocked rnd s1)
              else if sm_PlayerID msg = kr_localID (ss_kr s) then (Inl ErrWrongSeat, s)
              else (case ss_pending s seat of
                   Some prev \<Rightarrow> if shuffleMessagesEqual prev msg then (Inr None, s) else (Inl ErrBuffered, s)
                 | None \<Rightarrow> (Inr None, s\<lparr>ss_pending := (ss_pending s)(seat \<mapsto> msg)\<rparr>)))"

definition ss_EncryptedDeck :: "ShuffleSession \<Rightarrow> crypto_error + EncryptedDeck" where
  "ss_EncryptedDeck s = (if \<not> doneLocked s then Inl ErrNotDone
     else case Modulus (Some (ss_kr s)) of None \<Rightarrow> Inl ErrPanic
       | Some p \<Rightarrow> NewEncryptedDeck (ss_current s) p (ss_sessionID s))"

section \<open>The invariant\<close>

text \<open>A well-formed step of seat \<open>i\<close>, and one whose commitment verifies.\<close>

definition msg_wf :: "ShuffleSession \<Rightarrow> nat \<Rightarrow> ShuffleMessage \<Rightarrow> bool" where
  "msg_wf s i m \<longleftrightarrow> i < length (kr_order (ss_kr s)) \<and> sm_PlayerID m = kr_order (ss_kr s) ! i
     \<and> length (sm_OutputDeck m) = sp_NumCards (ss_proto s) \<and> None \<notin> set (sm_OutputDeck m)
     \<and> sm_Commitment m \<noteq> None \<and> sm_HandNum m = ss_handNum s"

definition msg_ok :: "ShuffleSession \<Rightarrow> nat \<Rightarrow> ShuffleMessage \<Rightarrow> bool" where
  "msg_ok s i m \<longleftrightarrow> msg_wf s i m \<and> VerifyDeck (the (sm_Commitment m)) (sm_OutputDeck m) = None"

text \<open>
  Exactly the seats before \<open>nextIndex\<close> are applied, each with a verified step of that seat; buffered
  steps are well-formed steps of other nodes' seats from \<open>k\<close> on; the current deck is the output of
  the last applied step.
\<close>

definition ss_core :: "nat \<Rightarrow> ShuffleSession \<Rightarrow> bool" where
  "ss_core k s \<longleftrightarrow> keyring_ok (ss_kr s) \<and> ss_nextIndex s \<le> length (kr_order (ss_kr s))
     \<and> (\<forall>i. ss_applied s i \<noteq> None \<longleftrightarrow> i < ss_nextIndex s)
     \<and> (\<forall>i m. ss_applied s i = Some m \<longrightarrow> msg_ok s i m)
     \<and> (\<forall>i m. ss_pending s i = Some m \<longrightarrow> k \<le> i \<and> kr_order (ss_kr s) ! i \<noteq> kr_localID (ss_kr s) \<and> msg_wf s i m)
     \<and> (ss_nextIndex s = 0 \<longrightarrow> ss_started s \<longrightarrow> ss_current s = ss_initial s)
     \<and> (\<forall>m. ss_nextIndex s \<noteq> 0 \<longrightarrow> ss_applied s (ss_nextIndex s - 1) = Some m \<longrightarrow> ss_current s = sm_OutputDeck m)
     \<and> (\<not> ss_started s \<longrightarrow> ss_nextIndex s = 0 \<and> ss_pending s = Map.empty)"

definition ss_inv :: "ShuffleSession \<Rightarrow> bool" where
  "ss_inv s \<longleftrightarrow> ss_core (ss_nextIndex s + 1) s"

text \<open>What every operation keeps: the table, and every step once it is applied.\<close>

definition ss_ext :: "ShuffleSession \<Rightarrow> ShuffleSession \<Rightarrow> bool" where
  "ss_ext s s' \<longleftrightarrow> ss_kr s' = ss_kr s \<and> ss_proto s' = ss_proto s \<and> ss_handNum s' = ss_handNum s
     \<and> ss_sessionID s' = ss_sessionID s \<and> ss_initial s' = ss_initial s
     \<and> (ss_started s \<longrightarrow> ss_started s') \<and> ss_nextIndex s \<le> ss_nextIndex s'
     \<and> ss_applied s \<subseteq>\<^sub>m ss_applied s'"

lemma ss_ext_refl [simp]: "ss_ext s s"
  by (simp add: ss_ext_def)

lemma ss_ext_trans: "ss_ext s t \<Longrightarrow> ss_ext t u \<Longrightarrow> ss_ext s u"
  by (auto simp: ss_ext_def intro: map_le_trans)

lemma msg_frame:
  "ss_kr s' = ss_kr s \<Longrightarrow> ss_proto s' = ss_proto s \<Longrightarrow> ss_handNum s' = ss_handNum s
    \<Longrightarrow> msg_wf s' = msg_wf s \<and> msg_ok s' = msg_ok s"
  by (intro conjI ext) (simp_all add: msg_wf_def msg_ok_def)

lemma msg_updates [simp]:
  "msg_wf (s\<lparr>ss_applied := a\<rparr>) = msg_wf s" "msg_ok (s\<lparr>ss_applied := a\<rparr>) = msg_ok s"
  "msg_wf (s\<lparr>ss_pending := a\<rparr>) = msg_wf s" "msg_ok (s\<lparr>ss_pending := a\<rparr>) = msg_ok s"
  "msg_wf (s\<lparr>ss_current := d\<rparr>) = msg_wf s" "msg_ok (s\<lparr>ss_current := d\<rparr>) = msg_ok s"
  "msg_wf (s\<lparr>ss_nextIndex := n\<rparr>) = msg_wf s" "msg_ok (s\<lparr>ss_nextIndex := n\<rparr>) = msg_ok s"
  "msg_wf (s\<lparr>ss_started := b\<rparr>) = msg_wf s" "msg_ok (s\<lparr>ss_started := b\<rparr>) = msg_ok s"
  "msg_wf (s\<lparr>ss_localPerm := ps\<rparr>) = msg_wf s" "msg_ok (s\<lparr>ss_localPerm := ps\<rparr>) = msg_ok s"
  by (simp_all add: msg_wf_def msg_ok_def fun_eq_iff)

lemma adopt_eq:
  "sm_Commitment m = Some c \<Longrightarrow> verifyAndAdoptLocked m s = (case VerifyDeck c (sm_OutputDeck m) of
      Some e \<Rightarrow> (Some e, s)
    | None \<Rightarrow> (None, s\<lparr>ss_applied := (ss_applied s)(ss_nextIndex s \<mapsto> m), ss_current := sm_OutputDeck m,
                      ss_nextIndex := ss_nextIndex s + 1\<rparr>))"
  by (simp add: verifyAndAdoptLocked_def VerifyStep_def)

lemma ss_core_mono: "ss_core k s \<Longrightarrow> (\<And>i m. ss_pending s i = Some m \<Longrightarrow> k' \<le> i) \<Longrightarrow> ss_core k' s"
  by (simp add: ss_core_def)

lemma adopt_cases:
  assumes "verifyAndAdoptLocked m s = (r, s')" and "msg_wf s (ss_nextIndex s) m"
  shows "if msg_ok s (ss_nextIndex s) m
    then r = None \<and> s' = s\<lparr>ss_applied := (ss_applied s)(ss_nextIndex s \<mapsto> m), ss_current := sm_OutputDeck m,
                          ss_nextIndex := ss_nextIndex s + 1\<rparr>
    else r \<noteq> None \<and> s' = s"
proof -
  obtain c where c: "sm_Commitment m = Some c" using assms(2) by (auto simp: msg_wf_def)
  show ?thesis
  proof (cases "VerifyDeck c (sm_OutputDeck m)")
    case None
    then have "msg_ok s (ss_nextIndex s) m" using assms(2) c by (simp add: msg_ok_def)
    then show ?thesis using assms(1) adopt_eq [OF c, of s] None by simp
  next
    case (Some e)
    then have "\<not> msg_ok s (ss_nextIndex s) m" using c by (simp add: msg_ok_def)
    then show ?thesis using assms(1) adopt_eq [OF c, of s] Some by (cases r) auto
  qed
qed

lemma adopt_core:
  assumes c: "ss_core k s" and st: "ss_started s" and wf: "msg_wf s (ss_nextIndex s) m"
    and a: "verifyAndAdoptLocked m s = (r, s')"
  shows "ss_core k s' \<and> ss_ext s s' \<and> ss_started s' \<and> ss_pending s' = ss_pending s"
proof (cases "msg_ok s (ss_nextIndex s) m")
  case True
  let ?s = "s\<lparr>ss_applied := (ss_applied s)(ss_nextIndex s \<mapsto> m), ss_current := sm_OutputDeck m,
     ss_nextIndex := ss_nextIndex s + 1\<rparr>"
  have s': "s' = ?s" using adopt_cases [OF a wf] True by simp
  have "ss_applied s (ss_nextIndex s) = None" using c by (auto simp: ss_core_def)
  then have "ss_applied s \<subseteq>\<^sub>m ss_applied ?s" by (auto simp: map_le_def)
  then show ?thesis
    using c st True wf unfolding s' msg_wf_def [of s "ss_nextIndex s"] by (auto simp: ss_core_def ss_ext_def less_Suc_eq)
next
  case False
  then show ?thesis using adopt_cases [OF a wf] c st by simp
qed

lemma ss_coreD:
  assumes "ss_core k s"
  shows "ss_applied s i \<noteq> None \<longleftrightarrow> i < ss_nextIndex s"
    and "ss_applied s i = Some m \<Longrightarrow> msg_ok s i m"
    and "ss_pending s i = Some m \<Longrightarrow> k \<le> i"
    and "ss_nextIndex s \<noteq> 0 \<Longrightarrow> ss_applied s (ss_nextIndex s - 1) = Some m \<Longrightarrow> ss_current s = sm_OutputDeck m"
  using assms unfolding ss_core_def by blast+

lemma ss_core_le: "ss_core k s \<Longrightarrow> k' \<le> k \<Longrightarrow> ss_core k' s"
  using ss_core_mono ss_coreD(3) le_trans by blast

lemma core_applied:
  assumes "ss_core k s" and "i < ss_nextIndex s"
  shows "\<exists>m. ss_applied s i = Some m \<and> msg_ok s i m"
  using ss_coreD(1,2) [OF assms(1), of i] assms(2) by blast

lemma drain_core:
  "ss_core (ss_nextIndex s) s \<Longrightarrow> ss_started s \<Longrightarrow> drainPendingLocked s = (r, s')
    \<Longrightarrow> ss_inv s' \<and> ss_ext s s' \<and> ss_started s'"
proof (induction s arbitrary: r s' rule: drainPendingLocked.induct)
  case (1 s)
  let ?n = "ss_nextIndex s"
  show ?case
  proof (cases "doneLocked s \<or> expectedPlayerLocked s = kr_localID (ss_kr s) \<or> ss_pending s ?n = None")
    case True
    then have s': "s' = s" "r = None"
      using "1.prems"(3) drainPendingLocked.simps [of s] by (auto split: if_splits)
    have "?n \<noteq> i" if "ss_pending s i = Some m" for i m
    proof -
      have "msg_wf s i m" "kr_order (ss_kr s) ! i \<noteq> kr_localID (ss_kr s)"
        using "1.prems"(1) that by (auto simp: ss_core_def)
      then show ?thesis
        using True that by (auto simp: doneLocked_def expectedPlayerLocked_def msg_wf_def)
    qed
    moreover have "?n \<le> i" if "ss_pending s i = Some m" for i m
      using "1.prems"(1) that by (simp add: ss_core_def)
    ultimately have "ss_core (?n + 1) s"
      by (intro ss_core_mono [OF "1.prems"(1)]) (metis Suc_eq_plus1 Suc_leI le_neq_implies_less)
    then show ?thesis using "1.prems"(2) by (simp add: s' ss_inv_def)
  next
    case False
    then obtain m where m: "ss_pending s ?n = Some m" by auto
    let ?t = "s\<lparr>ss_pending := (ss_pending s)(?n := None)\<rparr>"
    have "ss_core ?n ?t" using "1.prems"(1,2) by (simp add: ss_core_def)
    moreover have "?n + 1 \<le> i" if "ss_pending ?t i = Some m" for i m
    proof -
      have "i \<noteq> ?n" "ss_pending s i = Some m" using that by (auto split: if_splits)
      then show ?thesis using "1.prems"(1) by (fastforce simp: ss_core_def)
    qed
    ultimately have t: "ss_core (?n + 1) ?t" by (rule ss_core_mono)
    have wf: "msg_wf ?t (ss_nextIndex ?t) m" using "1.prems"(1) m by (simp add: ss_core_def)
    obtain r1 s1 where a: "verifyAndAdoptLocked m ?t = (r1, s1)" by (cases "verifyAndAdoptLocked m ?t") auto
    have s1: "ss_core (?n + 1) s1" "ss_ext ?t s1" "ss_started s1"
      using adopt_core [OF t _ wf a] "1.prems"(2) by simp_all
    have ext: "ss_ext s s1" using s1(2) by (simp add: ss_ext_def)
    have d: "drainPendingLocked s = (case (r1, s1) of (Some e, s') \<Rightarrow> (Some e, s') | (None, s') \<Rightarrow> drainPendingLocked s')"
      using False m a by (simp add: drainPendingLocked.simps [of s])
    show ?thesis
    proof (cases r1)
      case None
      then have "ss_nextIndex s1 = ?n + 1" using verifyAndAdopt_next [of m ?t s1] a by simp
      then have "ss_inv s' \<and> ss_ext s1 s' \<and> ss_started s'"
        using False s1 "1.prems"(3) d None by (intro "1.IH" [OF _ _ m a [symmetric] None]) auto
      then show ?thesis using ext ss_ext_trans by blast
    next
      case (Some e)
      then have "s1 = ?t" using adopt_cases [OF a wf] by (auto split: if_splits)
      then show ?thesis using Some d "1.prems"(2,3) t ext by (auto simp: ss_inv_def)
    qed
  qed
qed

lemma all_at_length: "all_at f i xs = Inr ys \<Longrightarrow> length ys = length xs"
  by (induction xs arbitrary: i ys) (auto simp: rbind_Inr split: sum.splits)

text \<open>Whatever the key and the deck are, a step that succeeds is complete and verifies.\<close>

lemma ExecuteStep_shape:
  assumes "ExecuteStep sp pid deck key rnd = Inr step"
  shows "st_PlayerID step = pid \<and> length (st_OutputDeck step) = sp_NumCards sp \<and> None \<notin> set (st_OutputDeck step)
     \<and> (\<exists>c. st_Commitment step = Some c \<and> VerifyDeck c (st_OutputDeck step) = None)"
proof -
  obtain enc perm c where e: "randomPermutation rnd (sp_NumCards sp) = Inr perm"
    "NewDeckCommitment (sr_nonce rnd) (map (\<lambda>i. Some (enc ! i)) perm) = Inr c"
    "step = \<lparr>st_PlayerID = pid, st_InputDeck = deck, st_OutputDeck = map (\<lambda>i. Some (enc ! i)) perm,
       st_Permutation = perm, st_Commitment = Some c\<rparr>"
    using assms by (auto simp: ExecuteStep_def rbind_Inr Let_def split: if_splits)
  then show ?thesis
    using NewDeckCommitment_verifies [OF e(2)] randomPermutation_perm(2) [OF e(1)] by auto
qed

lemma executeLocal_core:
  assumes c: "ss_inv s" and st: "ss_started s" and nd: "\<not> doneLocked s" and e: "executeLocalLocked rnd s = (r, s')"
  shows "ss_inv s' \<and> ss_ext s s' \<and> ss_started s'"
proof -
  have core: "ss_core (ss_nextIndex s + 1) s" using c by (simp add: ss_inv_def)
  show ?thesis
  proof (cases "expectedPlayerLocked s = kr_localID (ss_kr s)
      \<and> (\<exists>step. ExecuteStep (ss_proto s) (kr_localID (ss_kr s)) (ss_current s) (LocalKey (Some (ss_kr s))) rnd = Inr step)")
    case False
    then have "s' = s" using e by (auto simp: executeLocalLocked_def split: if_splits sum.splits)
    then show ?thesis using c st by simp
  next
    case True
    then obtain step where step: "ExecuteStep (ss_proto s) (kr_localID (ss_kr s)) (ss_current s) (LocalKey (Some (ss_kr s))) rnd = Inr step"
      by blast
    note sh = ExecuteStep_shape [OF step]
    let ?s1 = "s\<lparr>ss_localPerm := st_Permutation step\<rparr>"
    have s1: "ss_core (ss_nextIndex s + 1) ?s1" "ss_ext s ?s1" using core by (simp_all add: ss_core_def ss_ext_def)
    show ?thesis
    proof (cases "ShuffleMessageFromStep (ss_handNum s) (Some step)")
      case (Inl er)
      then have "s' = ?s1" using e True step by (simp add: executeLocalLocked_def)
      then show ?thesis using s1 st by (simp add: ss_inv_def)
    next
      case (Inr msg)
      then have m: "sm_PlayerID msg = kr_localID (ss_kr s)" "sm_OutputDeck msg = st_OutputDeck step"
        "sm_Commitment msg = st_Commitment step" "sm_HandNum msg = ss_handNum s"
        using sh by (auto simp: ShuffleMessageFromStep_def split: if_splits)
      have wf: "msg_wf ?s1 (ss_nextIndex ?s1) msg"
        using True nd sh m by (auto simp: msg_wf_def doneLocked_def expectedPlayerLocked_def)
      obtain r2 s2 where a: "verifyAndAdoptLocked msg ?s1 = (r2, s2)" by (cases "verifyAndAdoptLocked msg ?s1") auto
      have "msg_ok ?s1 (ss_nextIndex ?s1) msg" using wf sh m by (auto simp: msg_ok_def)
      then have r2: "r2 = None" using adopt_cases [OF a wf] by simp
      have s2: "ss_core (ss_nextIndex s + 1) s2" "ss_ext ?s1 s2" "ss_started s2"
        using adopt_core [OF s1(1) _ wf a] st by simp_all
      have n: "ss_nextIndex s2 = ss_nextIndex s + 1" using verifyAndAdopt_next a r2 by fastforce
      obtain r3 s3 where d: "drainPendingLocked s2 = (r3, s3)" by (cases "drainPendingLocked s2") auto
      have "ss_inv s3 \<and> ss_ext s2 s3 \<and> ss_started s3" using drain_core [of s2] s2(1,3) n d by simp
      moreover have "s' = s3" using e True step Inr a r2 d by (auto simp: executeLocalLocked_def split: option.splits)
      ultimately show ?thesis using s1(2) s2(2) ss_ext_trans by blast
    qed
  qed
qed

lemma afterApply_core:
  assumes "ss_core (ss_nextIndex s) s" and "ss_started s" and a: "afterApplyLocked rnd s = (r, s')"
  shows "ss_inv s' \<and> ss_ext s s'"
proof -
  obtain r1 s1 where d: "drainPendingLocked s = (r1, s1)" by (cases "drainPendingLocked s") auto
  have s1: "ss_inv s1 \<and> ss_ext s s1 \<and> ss_started s1" using drain_core [OF assms(1,2) d] .
  show ?thesis
  proof (cases "r1 = None \<and> \<not> doneLocked s1 \<and> expectedPlayerLocked s1 = kr_localID (ss_kr s1)")
    case True
    then have "executeLocalLocked rnd s1 = (r, s')" using a d by (simp add: afterApplyLocked_def)
    then show ?thesis using executeLocal_core s1 True ss_ext_trans by blast
  next
    case False
    then have "s' = s1" using a d by (auto simp: afterApplyLocked_def split: option.splits if_splits)
    then show ?thesis using s1 by simp
  qed
qed

lemma Start_core:
  assumes "ss_inv s" and "Start rnd s = (r, s')"
  shows "ss_inv s' \<and> ss_ext s s'"
proof (cases "ss_started s \<or> ss_nextIndex s \<noteq> 0")
  case True
  then show ?thesis using assms by (simp add: Start_def)
next
  case False
  let ?s1 = "s\<lparr>ss_started := True, ss_current := ss_initial s\<rparr>"
  have s1: "ss_inv ?s1" "ss_ext s ?s1" using assms(1) False by (simp_all add: ss_inv_def ss_core_def ss_ext_def)
  have "\<not> doneLocked ?s1"
    using s1(1) False by (auto simp: doneLocked_def ss_inv_def ss_core_def keyring_ok_def)
  then show ?thesis
    using assms(2) False s1 executeLocal_core [OF s1(1), of rnd r s'] ss_ext_trans [OF s1(2)]
    by (auto simp: Start_def Let_def split: if_splits)
qed

lemma HandleMessage_core:
  assumes inv: "ss_inv s" and h: "HandleMessage rnd mo s = (r, s')"
  shows "ss_inv s' \<and> ss_ext s s'"
proof (cases "s' = s")
  case True
  then show ?thesis using inv by simp
next
  case False
  note core = inv [unfolded ss_inv_def]
  have v: "ss_started s" "validateIncomingLocked s mo = None"
    using h False by (auto simp: HandleMessage_def split: if_splits option.splits)
  then obtain msg where msg: "mo = Some msg" by (cases mo) (auto simp: validateIncomingLocked_def)
  obtain seat where seat: "kr_SeatIndex (Some (ss_kr s)) (sm_PlayerID msg) = Some seat"
    using h False v msg by (auto simp: HandleMessage_def split: option.splits)
  have wf: "msg_wf s seat msg"
    using v(2) SeatIndex_Some [OF seat] by (auto simp: msg msg_wf_def validateIncomingLocked_def split: if_splits)
  consider (now) "seat = ss_nextIndex s" | (later) "ss_nextIndex s < seat" | (before) "seat < ss_nextIndex s" by linarith
  then show ?thesis
  proof cases
    case now
    obtain r1 s1 where a: "verifyAndAdoptLocked msg s = (r1, s1)" by (cases "verifyAndAdoptLocked msg s") auto
    have s1: "ss_core (ss_nextIndex s + 1) s1" "ss_ext s s1" "ss_started s1"
      using adopt_core [OF core v(1) _ a] wf now by simp_all
    show ?thesis
    proof (cases r1)
      case None
      then have n: "ss_nextIndex s1 = ss_nextIndex s + 1" using verifyAndAdopt_next a by fastforce
      have "afterApplyLocked rnd s1 = (r, s')"
        using h False v seat now a None by (auto simp: HandleMessage_def msg Let_def split: if_splits)
      then show ?thesis using afterApply_core [of s1] s1 n ss_ext_trans by (metis (no_types, lifting))
    next
      case (Some e)
      then have "s' = s1" using h False v seat now a by (auto simp: HandleMessage_def msg Let_def split: if_splits)
      moreover have "s1 = s" using adopt_cases [OF a] wf now Some by (auto split: if_splits)
      ultimately show ?thesis using inv by simp
    qed
  next
    case later
    have s': "s' = s\<lparr>ss_pending := (ss_pending s)(seat \<mapsto> msg)\<rparr>" "sm_PlayerID msg \<noteq> kr_localID (ss_kr s)"
      using h False v seat later by (auto simp: HandleMessage_def msg Let_def split: if_splits option.splits)
    have "kr_order (ss_kr s) ! seat \<noteq> kr_localID (ss_kr s)" using SeatIndex_Some [OF seat] s'(2) by simp
    then show ?thesis using core wf later v(1) unfolding s'(1) by (simp add: ss_inv_def ss_core_def ss_ext_def)
  next
    case before
    then have "s' = s" using h v seat by (auto simp: HandleMessage_def msg Let_def split: if_splits option.splits)
    then show ?thesis using False by simp
  qed
qed

section \<open>Reachable sessions\<close>

text \<open>Any starts and any messages, in any order, valid or not.\<close>

inductive ss_reach :: "ShuffleSession \<Rightarrow> ShuffleSession \<Rightarrow> bool" for s0 where
  initially: "ss_reach s0 s0"
| starts: "ss_reach s0 s \<Longrightarrow> ss_reach s0 (snd (Start rnd s))"
| handles: "ss_reach s0 s \<Longrightarrow> ss_reach s0 (snd (HandleMessage rnd mo s))"

lemma ss_reach_inv: "ss_reach s0 s \<Longrightarrow> ss_inv s0 \<Longrightarrow> ss_inv s \<and> ss_ext s0 s"
proof (induction rule: ss_reach.induct)
  case (starts s rnd)
  then show ?case using Start_core [of s rnd] ss_ext_trans by (metis prod.collapse)
next
  case (handles s rnd mo)
  then show ?case using HandleMessage_core [of s rnd mo] ss_ext_trans by (metis prod.collapse)
qed simp

lemma newShuffleSession_inv:
  assumes "newShuffleSession (Some kr) sid h initial = Inr s0" and "keyring_ok kr"
  shows "ss_inv s0" and "ss_kr s0 = kr" and "ss_handNum s0 = h" and "ss_initial s0 = initial"
    and "sp_NumCards (ss_proto s0) = length initial" and "\<not> ss_started s0"
  using assms by (auto simp: newShuffleSession_def ss_inv_def ss_core_def split: if_splits option.splits)

text \<open>
  C14: The chain of a shuffle session, whatever messages arrive: exactly the seats before the next one
  are applied, each step comes from the player of its seat, is for this hand, has the full number
  of cards and matches its commitment, and the current deck is the output of the last one.
\<close>

theorem shuffle_session_chain:
  assumes "newShuffleSession (Some kr) sid h initial = Inr s0" and "keyring_ok kr" and "ss_reach s0 s"
  shows "ss_nextIndex s \<le> length (kr_order kr) \<and> (\<forall>i. ss_applied s i \<noteq> None \<longleftrightarrow> i < ss_nextIndex s)
     \<and> (\<forall>i m. ss_applied s i = Some m \<longrightarrow> sm_PlayerID m = kr_order kr ! i \<and> sm_HandNum m = h
          \<and> length (sm_OutputDeck m) = length initial \<and> None \<notin> set (sm_OutputDeck m)
          \<and> (\<exists>c. sm_Commitment m = Some c \<and> VerifyDeck c (sm_OutputDeck m) = None)
          \<and> (i + 1 = ss_nextIndex s \<longrightarrow> ss_current s = sm_OutputDeck m))"
proof -
  note n = newShuffleSession_inv [OF assms(1,2)]
  have s: "ss_inv s" "ss_ext s0 s" using ss_reach_inv [OF assms(3) n(1)] by auto
  have f: "ss_kr s = kr" "ss_handNum s = h" "sp_NumCards (ss_proto s) = length initial"
    using s(2) n by (auto simp: ss_ext_def)
  have "sm_PlayerID m = kr_order kr ! i \<and> sm_HandNum m = h
          \<and> length (sm_OutputDeck m) = length initial \<and> None \<notin> set (sm_OutputDeck m)
          \<and> (\<exists>c. sm_Commitment m = Some c \<and> VerifyDeck c (sm_OutputDeck m) = None)
          \<and> (i + 1 = ss_nextIndex s \<longrightarrow> ss_current s = sm_OutputDeck m)" if m: "ss_applied s i = Some m" for i m
  proof -
    have "msg_ok s i m" using s(1) m by (simp add: ss_inv_def ss_core_def)
    moreover have "i + 1 = ss_nextIndex s \<longrightarrow> ss_current s = sm_OutputDeck m"
    proof
      assume "i + 1 = ss_nextIndex s"
      then have "ss_nextIndex s \<noteq> 0" "ss_nextIndex s - 1 = i" by linarith+
      then show "ss_current s = sm_OutputDeck m" using s(1) m by (simp add: ss_inv_def ss_core_def)
    qed
    ultimately show ?thesis using f by (auto simp: msg_ok_def msg_wf_def)
  qed
  then show ?thesis using s(1) f by (simp add: ss_inv_def ss_core_def)
qed

text \<open>A step that has been applied is final: no later start or message replaces it.\<close>

theorem shuffle_step_final:
  assumes "newShuffleSession (Some kr) sid h initial = Inr s0" and "keyring_ok kr"
    and "ss_reach s0 s" and "ss_reach s t" and "ss_applied s i = Some m"
  shows "ss_applied t i = Some m \<and> ss_nextIndex s \<le> ss_nextIndex t"
proof -
  have "ss_inv s" using ss_reach_inv [OF assms(3) newShuffleSession_inv(1) [OF assms(1,2)]] by simp
  then have "ss_ext s t" using ss_reach_inv [OF assms(4)] by simp
  then show ?thesis using assms(5) by (auto simp: ss_ext_def map_le_def dom_def)
qed

section \<open>Delivery order does not matter\<close>

text \<open>
  A table of honest remote steps: one verified step per remote seat, over decks of valid messages,
  with a local key of the same group.
\<close>

definition valid_deck :: "int \<Rightarrow> int option list \<Rightarrow> bool" where
  "valid_deck p d \<longleftrightarrow> None \<notin> set d \<and> (\<forall>m. Some m \<in> set d \<longrightarrow> m \<in> sra_space p)"

definition honest_table :: "int \<Rightarrow> (nat \<Rightarrow> ShuffleMessage) \<Rightarrow> ShuffleSession \<Rightarrow> bool" where
  "honest_table p msgs s \<longleftrightarrow> card_prime p \<and> sra_key p (kr_local (ss_kr s))
     \<and> valid_deck p (ss_initial s) \<and> length (ss_initial s) = sp_NumCards (ss_proto s) \<and> ss_initial s \<noteq> []
     \<and> (\<forall>i<length (kr_order (ss_kr s)). i \<noteq> local_seat (ss_kr s) \<longrightarrow>
          msg_ok s i (msgs i) \<and> valid_deck p (sm_OutputDeck (msgs i)))"

text \<open>The session after the steps of the seats in \<open>S\<close> have arrived, before buffered steps are drained.\<close>

definition arrived :: "(nat \<Rightarrow> ShuffleMessage) \<Rightarrow> nat set \<Rightarrow> ShuffleSession \<Rightarrow> bool" where
  "arrived msgs S s \<longleftrightarrow> ss_core (ss_nextIndex s) s \<and> ss_started s
     \<and> (\<forall>i < ss_nextIndex s. i \<noteq> local_seat (ss_kr s) \<longrightarrow> i \<in> S \<and> ss_applied s i = Some (msgs i))
     \<and> (\<forall>i. ss_pending s i = (if ss_nextIndex s \<le> i \<and> i \<in> S then Some (msgs i) else None))
     \<and> S \<subseteq> {..<length (kr_order (ss_kr s))} - {local_seat (ss_kr s)}"

definition settled :: "(nat \<Rightarrow> ShuffleMessage) \<Rightarrow> nat set \<Rightarrow> ShuffleSession \<Rightarrow> bool" where
  "settled msgs S s \<longleftrightarrow> arrived msgs S s \<and> ss_nextIndex s \<notin> S \<and> ss_nextIndex s \<noteq> local_seat (ss_kr s)"

lemma expected_local:
  "keyring_ok (ss_kr s) \<Longrightarrow> expectedPlayerLocked s = kr_localID (ss_kr s) \<longleftrightarrow> ss_nextIndex s = local_seat (ss_kr s)"
  using local_seat_order [of "ss_kr s"] by (auto simp: expectedPlayerLocked_def keyring_ok_def)

lemma honest_ext: "ss_ext s s' \<Longrightarrow> honest_table p msgs s \<Longrightarrow> honest_table p msgs s'"
proof -
  assume e: "ss_ext s s'" and h: "honest_table p msgs s"
  have "msg_ok s' = msg_ok s" using msg_frame [of s' s] e by (simp add: ss_ext_def)
  then show ?thesis using e h by (simp add: honest_table_def ss_ext_def)
qed

lemma adopt_arrived:
  assumes a: "arrived msgs S s" and m: "msg_ok s (ss_nextIndex s) m"
    and i: "ss_nextIndex s \<noteq> local_seat (ss_kr s) \<longrightarrow> m = msgs (ss_nextIndex s)"
    and S': "S' = (if ss_nextIndex s = local_seat (ss_kr s) then S else insert (ss_nextIndex s) S)"
  shows "\<exists>s'. verifyAndAdoptLocked m (s\<lparr>ss_pending := (ss_pending s)(ss_nextIndex s := None)\<rparr>) = (None, s')
     \<and> arrived msgs S' s' \<and> ss_ext s s' \<and> ss_nextIndex s' = ss_nextIndex s + 1"
proof -
  let ?n = "ss_nextIndex s" and ?t = "s\<lparr>ss_pending := (ss_pending s)(ss_nextIndex s := None)\<rparr>"
  have core: "ss_core ?n s" "ss_started s" using a by (auto simp: arrived_def)
  have mt: "msg_ok ?t (ss_nextIndex ?t) m" "msg_wf ?t (ss_nextIndex ?t) m" using m by (simp_all add: msg_ok_def)
  obtain r s' where ad: "verifyAndAdoptLocked m ?t = (r, s')" by (cases "verifyAndAdoptLocked m ?t") auto
  have s': "r = None" "s' = ?t\<lparr>ss_applied := (ss_applied s)(?n \<mapsto> m), ss_current := sm_OutputDeck m, ss_nextIndex := Suc ?n\<rparr>"
    using adopt_cases [OF ad mt(2)] mt(1) by simp_all
  have "ss_core ?n ?t" using core by (simp add: ss_core_def)
  then have "ss_core (?n + 1) ?t" by (rule ss_core_mono) (use core in \<open>fastforce simp: ss_core_def split: if_splits\<close>)
  then have c': "ss_core (?n + 1) s'" "ss_ext ?t s'" "ss_started s'" using adopt_core [OF _ _ mt(2) ad] core by simp_all
  have n': "?n < length (kr_order (ss_kr s))" using m by (simp add: msg_ok_def msg_wf_def)
  have "arrived msgs S' s'"
    using a c'(1,3) i n' unfolding arrived_def s'(2) S' by (auto simp: less_Suc_eq Suc_le_eq le_less)
  moreover have "ss_ext s s'" using c'(2) by (simp add: ss_ext_def)
  ultimately show ?thesis using ad s' by simp
qed

lemma drain_arrived:
  "arrived msgs S s \<Longrightarrow> honest_table p msgs s
    \<Longrightarrow> \<exists>s'. drainPendingLocked s = (None, s') \<and> arrived msgs S s' \<and> ss_nextIndex s' \<notin> S \<and> ss_ext s s'"
proof (induction s rule: drainPendingLocked.induct)
  case (1 s)
  let ?n = "ss_nextIndex s"
  have kr: "keyring_ok (ss_kr s)" using "1.prems"(1) by (simp add: arrived_def ss_core_def)
  show ?case
  proof (cases "?n \<in> S")
    case False
    then have "drainPendingLocked s = (None, s)"
      using "1.prems"(1) by (auto simp: drainPendingLocked.simps [of s] arrived_def)
    then show ?thesis using False "1.prems"(1) by simp
  next
    case True
    then have n: "?n < length (kr_order (ss_kr s))" "?n \<noteq> local_seat (ss_kr s)" "ss_pending s ?n = Some (msgs ?n)"
      using "1.prems"(1) by (auto simp: arrived_def)
    have ok: "msg_ok s ?n (msgs ?n)" using "1.prems"(2) n by (simp add: honest_table_def)
    obtain s1 where s1: "verifyAndAdoptLocked (msgs ?n) (s\<lparr>ss_pending := (ss_pending s)(?n := None)\<rparr>) = (None, s1)"
      "arrived msgs S s1" "ss_ext s s1"
      using adopt_arrived [OF "1.prems"(1) ok _ refl] True n(2) by (auto simp: insert_absorb)
    have nd: "\<not> doneLocked s" "expectedPlayerLocked s \<noteq> kr_localID (ss_kr s)"
      using n expected_local [OF kr] by (simp_all add: doneLocked_def)
    then have d: "drainPendingLocked s = drainPendingLocked s1"
      using n(3) s1(1) by (simp add: drainPendingLocked.simps [of s])
    have "\<exists>s'. drainPendingLocked s1 = (None, s') \<and> arrived msgs S s' \<and> ss_nextIndex s' \<notin> S \<and> ss_ext s1 s'"
      by (rule "1.IH" [OF nd n(3) s1(1) [symmetric] refl s1(2) honest_ext [OF s1(3) "1.prems"(2)]])
    then show ?thesis using d s1(3) ss_ext_trans by auto
  qed
qed

lemma valid_deck_map: "valid_deck p d \<Longrightarrow> d = map Some (map the d) \<and> set (map the d) \<subseteq> sra_space p"
proof (induction d)
  case (Cons c d)
  then obtain m where "valid_deck p d" "c = Some m" "m \<in> sra_space p"
    by (cases c) (auto simp: valid_deck_def)
  then show ?case using Cons.IH by auto
qed simp

lemma local_arrived:
  assumes a: "arrived msgs S s" and h: "honest_table p msgs s" and n: "ss_nextIndex s = local_seat (ss_kr s)"
    and rnd: "rand_ready rnd"
  shows "\<exists>m s'. executeLocalLocked rnd s = (Inr (Some m), s') \<and> settled msgs S s' \<and> ss_ext s s'
     \<and> ss_applied s' (local_seat (ss_kr s)) = Some m"
proof -
  let ?n = "ss_nextIndex s" and ?k = "kr_local (ss_kr s)"
  have core: "ss_core ?n s" "ss_started s" using a by (simp_all add: arrived_def)
  then have kr: "keyring_ok (ss_kr s)" by (simp add: ss_core_def)
  have "S \<subseteq> {..<length (kr_order (ss_kr s))} - {local_seat (ss_kr s)}" using a by (simp add: arrived_def)
  then have nS: "?n \<notin> S" using n by blast
  have hs: "card_prime p" "sra_key p ?k" "ss_initial s \<noteq> []" "length (ss_initial s) = sp_NumCards (ss_proto s)"
    using h by (simp_all add: honest_table_def)
  have nn: "?n < length (kr_order (ss_kr s))" using local_seat_order(1) [OF kr] n by simp
  have cur: "valid_deck p (ss_current s) \<and> length (ss_current s) = sp_NumCards (ss_proto s)"
  proof (cases ?n)
    case 0
    then show ?thesis using core h by (simp add: ss_core_def honest_table_def)
  next
    case (Suc k)
    then have k: "k < ?n" "k \<noteq> local_seat (ss_kr s)" using n by simp_all
    then have ak: "ss_applied s k = Some (msgs k)" using a by (simp add: arrived_def)
    then have "ss_current s = sm_OutputDeck (msgs k)" using core Suc by (simp add: ss_core_def)
    then show ?thesis using h k nn by (auto simp: honest_table_def msg_ok_def msg_wf_def)
  qed
  then obtain ds where ds: "ss_current s = map Some ds" "set ds \<subseteq> sra_space p" "length ds = sp_NumCards (ss_proto s)"
    using valid_deck_map [of p "ss_current s"] by (metis length_map)
  have key: "LocalKey (Some (ss_kr s)) = Some ?k" by (simp add: LocalKey_def cloneSRAKey_def mk_key_def)
  obtain step where step: "ExecuteStep (ss_proto s) (kr_localID (ss_kr s)) (ss_current s) (LocalKey (Some (ss_kr s))) rnd = Inr step"
    using ExecuteStep_total [OF hs(1,2) ds(2,3) rnd] by (auto simp: ds(1) key)
  note sh = ExecuteStep_shape [OF step]
  let ?s1 = "s\<lparr>ss_localPerm := st_Permutation step\<rparr>"
  let ?m = "\<lparr>sm_HandNum = ss_handNum s, sm_PlayerID = kr_localID (ss_kr s), sm_OutputDeck = st_OutputDeck step,
     sm_Commitment = st_Commitment step\<rparr>"
  have "sp_NumCards (ss_proto s) \<noteq> 0" using hs(3,4) by (metis length_0_conv)
  then have "st_OutputDeck step \<noteq> []" using sh by auto
  then have msg: "ShuffleMessageFromStep (ss_handNum s) (Some step) = Inr ?m"
    using sh by (auto simp: ShuffleMessageFromStep_def)
  have "ss_core ?n ?s1" using core by (simp add: ss_core_def)
  then have a1: "arrived msgs S ?s1" using a by (simp add: arrived_def)
  have e1: "ss_ext s ?s1" by (simp add: ss_ext_def)
  have ok: "msg_ok ?s1 (ss_nextIndex ?s1) ?m"
    using sh nn local_seat_order(2) [OF kr] n by (auto simp: msg_ok_def msg_wf_def)
  have "(ss_pending ?s1)(ss_nextIndex ?s1 := None) = ss_pending ?s1"
    using a nS by (auto simp: arrived_def)
  then obtain s2 where s2: "verifyAndAdoptLocked ?m ?s1 = (None, s2)" "arrived msgs S s2" "ss_ext ?s1 s2"
    "ss_nextIndex s2 = ?n + 1"
    using adopt_arrived [OF a1 ok, of S] n by auto
  obtain s3 where s3: "drainPendingLocked s2 = (None, s3)" "arrived msgs S s3" "ss_nextIndex s3 \<notin> S" "ss_ext s2 s3"
    using drain_arrived [OF s2(2)] honest_ext [OF s2(3) honest_ext [OF e1 h]] by blast
  have ext: "ss_ext s s3" using e1 s2(3) s3(4) ss_ext_trans by blast
  have "ss_nextIndex s3 \<noteq> local_seat (ss_kr s3)" using s2(4) s3(4) ext n by (simp add: ss_ext_def)
  then have "settled msgs S s3" using s3 by (simp add: settled_def)
  moreover have "executeLocalLocked rnd s = (Inr (Some ?m), s3)"
    using expected_local [OF kr] n step msg s2(1) s3(1) by (simp add: executeLocalLocked_def Let_def)
  moreover have "ss_applied s3 ?n = Some ?m"
  proof -
    have "s2 = ?s1\<lparr>ss_applied := (ss_applied s)(?n \<mapsto> ?m), ss_current := st_OutputDeck step, ss_nextIndex := Suc ?n\<rparr>"
      using adopt_cases [OF s2(1)] ok by (simp add: msg_ok_def)
    then have "ss_applied s2 ?n = Some ?m" by simp
    then show ?thesis using s3(4) by (auto simp: ss_ext_def map_le_def dom_def)
  qed
  ultimately show ?thesis using ext n by auto
qed

lemma afterApply_arrived:
  assumes a: "arrived msgs S s" and h: "honest_table p msgs s" and rnd: "rand_ready rnd"
  shows "\<exists>r s'. afterApplyLocked rnd s = (Inr r, s') \<and> settled msgs S s' \<and> ss_ext s s'"
proof -
  obtain s1 where s1: "drainPendingLocked s = (None, s1)" "arrived msgs S s1" "ss_nextIndex s1 \<notin> S" "ss_ext s s1"
    using drain_arrived [OF a h] by blast
  have kr: "keyring_ok (ss_kr s1)" using s1(2) by (simp add: arrived_def ss_core_def)
  show ?thesis
  proof (cases "ss_nextIndex s1 = local_seat (ss_kr s1)")
    case True
    then have nd: "\<not> doneLocked s1" using local_seat_order(1) [OF kr] by (simp add: doneLocked_def)
    obtain m s2 where "executeLocalLocked rnd s1 = (Inr (Some m), s2)" "settled msgs S s2" "ss_ext s1 s2"
      using local_arrived [OF s1(2) honest_ext [OF s1(4) h] True rnd] by blast
    then show ?thesis using s1(1,4) nd True expected_local [OF kr] ss_ext_trans
      by (auto simp: afterApplyLocked_def)
  next
    case False
    then show ?thesis using s1 expected_local [OF kr] by (auto simp: afterApplyLocked_def settled_def)
  qed
qed

lemma Start_arrived:
  assumes s: "ss_inv s" "\<not> ss_started s" and h: "honest_table p msgs s" and rnd: "rand_ready rnd"
  shows "\<exists>r s'. Start rnd s = (Inr r, s') \<and> settled msgs {} s' \<and> ss_ext s s'"
proof -
  let ?s1 = "s\<lparr>ss_started := True, ss_current := ss_initial s\<rparr>"
  have z: "ss_nextIndex s = 0" "ss_pending s = Map.empty" using s by (auto simp: ss_inv_def ss_core_def)
  have c1: "ss_core 0 ?s1" using s z by (simp add: ss_inv_def ss_core_def)
  then have a1: "arrived msgs {} ?s1" and e1: "ss_ext s ?s1"
    using z s(2) by (simp_all add: arrived_def ss_ext_def)
  have kr: "keyring_ok (ss_kr ?s1)" using c1 by (simp add: ss_core_def)
  show ?thesis
  proof (cases "ss_nextIndex ?s1 = local_seat (ss_kr ?s1)")
    case True
    obtain m s2 where "executeLocalLocked rnd ?s1 = (Inr (Some m), s2)" "settled msgs {} s2" "ss_ext ?s1 s2"
      using local_arrived [OF a1 honest_ext [OF e1 h] True rnd] by blast
    then show ?thesis using True s(2) z(1) expected_local [OF kr] e1 ss_ext_trans
      by (auto simp: Start_def Let_def)
  next
    case False
    then show ?thesis using a1 e1 s(2) z(1) expected_local [OF kr]
      by (auto simp: Start_def Let_def settled_def)
  qed
qed

lemma HandleMessage_arrived:
  assumes st: "settled msgs S s" and h: "honest_table p msgs s" and rnd: "rand_ready rnd"
    and i: "i < length (kr_order (ss_kr s))" "i \<noteq> local_seat (ss_kr s)"
  shows "\<exists>r s'. HandleMessage rnd (Some (msgs i)) s = (Inr r, s') \<and> settled msgs (insert i S) s' \<and> ss_ext s s'"
proof -
  have a: "arrived msgs S s" and n: "ss_nextIndex s \<notin> S" "ss_nextIndex s \<noteq> local_seat (ss_kr s)"
    using st by (auto simp: settled_def)
  have core: "ss_core (ss_nextIndex s) s" "ss_started s" using a by (simp_all add: arrived_def)
  then have kr: "keyring_ok (ss_kr s)" by (simp add: ss_core_def)
  have ok: "msg_ok s i (msgs i)" using h i by (simp add: honest_table_def)
  have "kr_order (ss_kr s) ! i \<noteq> []" using kr i(1) by (metis keyring_ok_def nth_mem)
  then have v: "validateIncomingLocked s (Some (msgs i)) = None"
    using ok by (auto simp: msg_ok_def msg_wf_def validateIncomingLocked_def)
  have seat: "kr_SeatIndex (Some (ss_kr s)) (sm_PlayerID (msgs i)) = Some i"
    using ok SeatIndex_order [OF kr i(1)] by (simp add: msg_ok_def msg_wf_def)
  have nl: "sm_PlayerID (msgs i) \<noteq> kr_localID (ss_kr s)"
    using ok local_seat_order(3) [OF kr i(1)] i(2) by (simp add: msg_ok_def msg_wf_def)
  note H = HandleMessage_def [of rnd "Some (msgs i)" s]
  consider (now) "i = ss_nextIndex s" | (later) "ss_nextIndex s < i" | (before) "i < ss_nextIndex s" by linarith
  then show ?thesis
  proof cases
    case before
    then have "i \<in> S" "ss_applied s i = Some (msgs i)" using a i by (simp_all add: arrived_def)
    then have "HandleMessage rnd (Some (msgs i)) s = (Inr None, s) \<and> insert i S = S"
      using v seat before core(2) by (auto simp: H shuffleMessagesEqual_def)
    then show ?thesis using st by auto
  next
    case later
    show ?thesis
    proof (cases "i \<in> S")
      case True
      then have "ss_pending s i = Some (msgs i)" using a later by (simp add: arrived_def)
      then have "HandleMessage rnd (Some (msgs i)) s = (Inr None, s) \<and> insert i S = S"
        using v seat later core(2) nl True by (auto simp: H shuffleMessagesEqual_def)
      then show ?thesis using st by auto
    next
      case False
      let ?s1 = "s\<lparr>ss_pending := (ss_pending s)(i \<mapsto> msgs i)\<rparr>"
      have "ss_pending s i = None" using a False by (simp add: arrived_def)
      then have hm: "HandleMessage rnd (Some (msgs i)) s = (Inr None, ?s1)"
        using v seat later core(2) nl by (simp add: H)
      have inv: "ss_inv s"
        unfolding ss_inv_def using core(1)
      proof (rule ss_core_mono)
        fix j m assume "ss_pending s j = Some m"
        then have "ss_nextIndex s \<le> j" "j \<in> S" using a by (simp_all add: arrived_def split: if_splits)
        then show "ss_nextIndex s + 1 \<le> j" using n(1) by (cases "j = ss_nextIndex s") auto
      qed
      have e: "ss_inv ?s1 \<and> ss_ext s ?s1" using HandleMessage_core [OF inv hm] .
      then have "ss_core (ss_nextIndex ?s1) ?s1"
        unfolding ss_inv_def by (blast intro: ss_core_le le_add1)
      then have "arrived msgs (insert i S) ?s1"
        unfolding arrived_def using a i later by (intro conjI allI impI) (simp_all add: arrived_def)
      then have "settled msgs (insert i S) ?s1" using n later by (simp add: settled_def)
      then show ?thesis using hm e by auto
    qed
  next
    case now
    have "(ss_pending s)(ss_nextIndex s := None) = ss_pending s" using a n(1) by (auto simp: arrived_def)
    then obtain s1 where s1: "verifyAndAdoptLocked (msgs i) s = (None, s1)" "arrived msgs (insert i S) s1" "ss_ext s s1"
      using adopt_arrived [OF a, of "msgs i" "insert i S"] ok now n(2) by auto
    obtain r s2 where s2: "afterApplyLocked rnd s1 = (Inr r, s2)" "settled msgs (insert i S) s2" "ss_ext s1 s2"
      using afterApply_arrived [OF s1(2) honest_ext [OF s1(3) h] rnd] by blast
    have "sm_PlayerID (msgs i) = expectedPlayerLocked s"
      using ok i(1) now by (simp add: expectedPlayerLocked_def msg_ok_def msg_wf_def)
    then have "HandleMessage rnd (Some (msgs i)) s = (Inr r, s2)"
      using v seat now core(2) nl s1(1) s2(1) by (simp add: HandleMessage_def Let_def)
    then show ?thesis using s2(2) ss_ext_trans [OF s1(3) s2(3)] by blast
  qed
qed

definition deliver :: "step_rand \<Rightarrow> (nat \<Rightarrow> ShuffleMessage) \<Rightarrow> nat list \<Rightarrow> ShuffleSession \<Rightarrow> ShuffleSession" where
  "deliver rnd msgs order s = foldl (\<lambda>s i. snd (HandleMessage rnd (Some (msgs i)) s)) s order"

lemma deliver_settled:
  "settled msgs S s \<Longrightarrow> honest_table p msgs s \<Longrightarrow> rand_ready rnd
    \<Longrightarrow> set order \<subseteq> {..<length (kr_order (ss_kr s))} - {local_seat (ss_kr s)}
    \<Longrightarrow> settled msgs (S \<union> set order) (deliver rnd msgs order s) \<and> ss_ext s (deliver rnd msgs order s)"
proof (induction order arbitrary: s S)
  case Nil
  then show ?case by (simp add: deliver_def)
next
  case (Cons i order)
  obtain r s1 where s1: "HandleMessage rnd (Some (msgs i)) s = (Inr r, s1)" "settled msgs (insert i S) s1" "ss_ext s s1"
    using HandleMessage_arrived [OF Cons.prems(1-3), of i] Cons.prems(4) by auto
  have "settled msgs (insert i S \<union> set order) (deliver rnd msgs order s1) \<and> ss_ext s1 (deliver rnd msgs order s1)"
    using Cons.prems s1 by (intro Cons.IH honest_ext [OF s1(3)]) (auto simp: ss_ext_def)
  moreover have "deliver rnd msgs (i # order) s = deliver rnd msgs order s1" by (simp add: deliver_def s1(1))
  ultimately show ?case using ss_ext_trans [OF s1(3)] by simp
qed

lemma session_converges:
  assumes "newShuffleSession (Some kr) sid h initial = Inr s0" and "keyring_ok kr"
    and "honest_table p msgs s0" and "rand_ready rnd"
    and "set order = {..<length (kr_order kr)} - {local_seat kr}"
  shows "\<exists>s. s = deliver rnd msgs order (snd (Start rnd s0)) \<and> doneLocked s
     \<and> (\<forall>i<length (kr_order kr). i \<noteq> local_seat kr \<longrightarrow> ss_applied s i = Some (msgs i))
     \<and> (\<exists>m. ss_applied s (local_seat kr) = Some m \<and> msg_ok s0 (local_seat kr) m)
     \<and> (\<exists>m. ss_applied s (length (kr_order kr) - 1) = Some m \<and> ss_current s = sm_OutputDeck m)"
proof -
  note n = newShuffleSession_inv [OF assms(1,2)]
  obtain r s1 where s1: "Start rnd s0 = (Inr r, s1)" "settled msgs {} s1" "ss_ext s0 s1"
    using Start_arrived [OF n(1,6) assms(3,4)] by blast
  have kr1: "ss_kr s1 = kr" using s1(3) n(2) by (simp add: ss_ext_def)
  let ?s = "deliver rnd msgs order s1"
  have s: "settled msgs ({} \<union> set order) ?s" "ss_ext s1 ?s"
    using deliver_settled [OF s1(2) honest_ext [OF s1(3) assms(3)] assms(4), of order] assms(5) kr1 by auto
  have kr: "ss_kr ?s = kr" using s(2) kr1 by (simp add: ss_ext_def)
  have "ss_nextIndex ?s \<notin> set order" "ss_nextIndex ?s \<noteq> local_seat kr"
    using s(1) kr by (simp_all add: settled_def)
  then have ge: "length (kr_order kr) \<le> ss_nextIndex ?s"
    unfolding assms(5) by (metis DiffI lessThan_iff not_le singletonD)
  have core: "ss_core (ss_nextIndex ?s) ?s" and a: "arrived msgs (set order) ?s"
    using s(1) by (simp_all add: settled_def arrived_def)
  have eq: "ss_nextIndex ?s = length (kr_order kr)" using core ge kr by (simp add: ss_core_def)
  have len: "2 \<le> length (kr_order kr)" using assms(2) by (simp add: keyring_ok_def)
  have "msg_ok ?s = msg_ok s0" using msg_frame [of ?s s0] ss_ext_trans [OF s1(3) s(2)] by (simp add: ss_ext_def)
  then have app: "\<exists>m. ss_applied ?s i = Some m \<and> msg_ok s0 i m" if "i < length (kr_order kr)" for i
    using core_applied [OF core, of i] eq that by simp
  obtain m where m: "ss_applied ?s (length (kr_order kr) - 1) = Some m"
    using app [of "length (kr_order kr) - 1"] len by fastforce
  have "ss_nextIndex ?s \<noteq> 0" "ss_applied ?s (ss_nextIndex ?s - 1) = Some m"
    using eq len m by (metis not_numeral_le_zero, simp)
  then have "ss_current ?s = sm_OutputDeck m" using ss_coreD(4) [OF core] by blast
  then have "\<exists>m. ss_applied ?s (length (kr_order kr) - 1) = Some m \<and> ss_current ?s = sm_OutputDeck m"
    using m by blast
  moreover have "\<forall>i<length (kr_order kr). i \<noteq> local_seat kr \<longrightarrow> ss_applied ?s i = Some (msgs i)"
    using a eq kr by (simp add: arrived_def)
  ultimately show ?thesis
    using s1(1) eq kr app [OF local_seat_order(1) [OF assms(2)]] by (auto simp: doneLocked_def)
qed

text \<open>
  C13: However the network orders and repeats them, once a started session has received the step of
  every other seat it is done: its own step was made when its turn came, every other seat's
  applied step is the one received, and the encrypted deck is available.
\<close>

theorem shuffle_session_converges:
  assumes "newShuffleSession (Some kr) sid h initial = Inr s0" and "keyring_ok kr"
    and "honest_table p msgs s0" and "rand_ready rnd"
    and "set order = {..<length (kr_order kr)} - {local_seat kr}"
  shows "\<exists>s. s = deliver rnd msgs order (snd (Start rnd s0)) \<and> doneLocked s
     \<and> (\<forall>i<length (kr_order kr). i \<noteq> local_seat kr \<longrightarrow> ss_applied s i = Some (msgs i))
     \<and> (\<exists>m. ss_applied s (local_seat kr) = Some m \<and> msg_ok s0 (local_seat kr) m)
     \<and> (\<exists>m. ss_applied s (length (kr_order kr) - 1) = Some m \<and> ss_current s = sm_OutputDeck m)"
  using session_converges [OF assms] .

end
