(* ===== verification/ShuffleCases.thy ===== *)
theory ShuffleCases
  imports ShuffleSession
begin

text \<open>
  Concrete shuffle sessions, as instances of the theorems of \<open>ShuffleSession\<close>, and one behaviour
  that a peer can provoke: a bad step buffered for the seat after ours makes our own step vanish.
\<close>

section \<open>A table of three\<close>

definition demo_key :: SRAKey where
  "demo_key = mk_key (Some 3) (Some 71) (Some 107)"

definition demo_kr :: Keyring where
  "demo_kr = \<lparr>kr_localID = ''b'', kr_local = demo_key,
     kr_pubs = (\<lambda>i. if i \<in> set [''a'', ''b'', ''c''] then Some (mk_key (Some 3) None (Some 107)) else None),
     kr_order = [''a'', ''b'', ''c'']\<rparr>"

definition demo_step :: "string \<Rightarrow> int list \<Rightarrow> ShuffleMessage" where
  "demo_step pid ms = \<lparr>sm_HandNum = 1, sm_PlayerID = pid, sm_OutputDeck = map Some ms,
     sm_Commitment = Some \<lparr>com_Hash = sha256 (commit_input ms [7]), com_Nonce = [7]\<rparr>\<rparr>"

definition demo_msgs :: "nat \<Rightarrow> ShuffleMessage" where
  "demo_msgs i = (if i = 0 then demo_step ''a'' [16, 9] else demo_step ''c'' [5, 6])"

definition demo_session :: ShuffleSession where
  "demo_session = \<lparr>ss_kr = demo_kr, ss_proto = \<lparr>sp_P = 107, sp_SessionID = [1], sp_NumCards = 2\<rparr>,
     ss_handNum = 1, ss_sessionID = [1], ss_initial = [Some 2, Some 4], ss_started = False, ss_nextIndex = 0,
     ss_current = [], ss_pending = Map.empty, ss_applied = Map.empty, ss_localPerm = []\<rparr>"

lemma demo_sel [simp]:
  "kr_order demo_kr = [''a'', ''b'', ''c'']" "kr_localID demo_kr = ''b''" "kr_local demo_kr = demo_key"
  "ss_kr demo_session = demo_kr" "ss_handNum demo_session = 1" "ss_initial demo_session = [Some 2, Some 4]"
  "sp_NumCards (ss_proto demo_session) = 2"
  by (simp_all add: demo_kr_def demo_session_def)

lemma demo_key_ok: "sra_key 107 demo_key" "IsPrivate (Some demo_key)"
proof -
  have "prime_int 107" by code_simp
  then show "sra_key 107 demo_key" by (simp add: sra_key_def demo_key_def)
  show "IsPrivate (Some demo_key)" by (simp add: IsPrivate_def demo_key_def)
qed

lemma demo_kr_ok: "keyring_ok demo_kr"
  using demo_key_ok by (auto simp: keyring_ok_def demo_kr_def ran_def demo_key_def split: if_splits)

lemma demo_seat: "local_seat demo_kr = 1"
  by (simp add: local_seat_def kr_SeatIndex_def demo_kr_def)

lemma demo_session_new: "newShuffleSession (Some demo_kr) [1] 1 [Some 2, Some 4] = Inr demo_session"
  by (simp add: newShuffleSession_def Len_def Modulus_def demo_kr_def demo_key_def demo_session_def)

lemma demo_step_ok:
  "\<forall>m\<in>set ms. in_slot m \<Longrightarrow> VerifyDeck (the (sm_Commitment (demo_step pid ms))) (sm_OutputDeck (demo_step pid ms)) = None"
  by (simp add: demo_step_def VerifyDeck_slots)

lemma demo_honest: "honest_table 107 demo_msgs demo_session"
proof -
  have ok: "msg_ok demo_session i (demo_msgs i) \<and> valid_deck 107 (sm_OutputDeck (demo_msgs i))"
    if "i < 3" "i \<noteq> 1" for i
  proof -
    have "VerifyDeck (the (sm_Commitment (demo_msgs i))) (sm_OutputDeck (demo_msgs i)) = None"
      using demo_step_ok [of "[16, 9]" "''a''"] demo_step_ok [of "[5, 6]" "''c''"]
      by (simp add: demo_msgs_def in_slot_def)
    moreover have "i = 0 \<or> i = 2" using that by auto
    ultimately show ?thesis
      by (auto simp: msg_ok_def msg_wf_def demo_msgs_def demo_step_def valid_deck_def sra_space_def)
  qed
  moreover have "valid_deck 107 [Some 2, Some 4]" by (auto simp: valid_deck_def sra_space_def)
  ultimately show ?thesis
    using card_prime_107 demo_key_ok demo_seat by (simp add: honest_table_def)
qed

lemma shuffle_session_chain_witness:
  "ss_reach demo_session (snd (Start demo_rand demo_session))
   \<and> (\<forall>i. ss_applied (snd (Start demo_rand demo_session)) i \<noteq> None
        \<longleftrightarrow> i < ss_nextIndex (snd (Start demo_rand demo_session)))"
proof -
  have r: "ss_reach demo_session (snd (Start demo_rand demo_session))"
    by (intro ss_reach.starts ss_reach.initially)
  then show ?thesis using shuffle_session_chain [OF demo_session_new demo_kr_ok r] by blast
qed

lemma demo_arrived:
  "\<exists>s. ss_reach demo_session s \<and> ss_applied s 0 = Some (demo_msgs 0)"
proof -
  let ?s = "deliver demo_rand demo_msgs [0, 2] (snd (Start demo_rand demo_session))"
  have "rand_ready demo_rand" by (simp add: rand_ready_def demo_rand_def)
  moreover have "set [0, 2] = {..<length (kr_order demo_kr)} - {local_seat demo_kr}"
    by (auto simp: demo_seat)
  ultimately have "ss_applied ?s 0 = Some (demo_msgs 0)"
    using session_converges [OF demo_session_new demo_kr_ok demo_honest, of demo_rand "[0, 2]"]
    by (auto simp: demo_seat)
  moreover have "ss_reach demo_session ?s"
    by (simp add: deliver_def ss_reach.intros)
  ultimately show ?thesis by blast
qed

lemma shuffle_session_converges_witness:
  "doneLocked (deliver demo_rand demo_msgs [2, 0, 2] (snd (Start demo_rand demo_session)))"
proof -
  have "rand_ready demo_rand" by (simp add: rand_ready_def demo_rand_def)
  moreover have "set [2, 0, 2] = {..<length (kr_order demo_kr)} - {local_seat demo_kr}"
    by (auto simp: demo_seat)
  ultimately show ?thesis
    using shuffle_session_converges [OF demo_session_new demo_kr_ok demo_honest, of demo_rand "[2, 0, 2]"] by blast
qed

lemma shuffle_step_final_witness:
  "\<exists>s t. ss_reach demo_session s \<and> ss_applied s 0 = Some (demo_msgs 0)
     \<and> ss_reach s t \<and> ss_applied t 0 = Some (demo_msgs 0)"
proof -
  obtain s where s: "ss_reach demo_session s" "ss_applied s 0 = Some (demo_msgs 0)" using demo_arrived by blast
  have t: "ss_reach s (snd (HandleMessage demo_rand (Some (demo_step ''a'' [3, 4])) s))"
    by (intro ss_reach.handles ss_reach.initially)
  show ?thesis using shuffle_step_final [OF demo_session_new demo_kr_ok s(1) t s(2)] s t by blast
qed

section \<open>A lost step\<close>

lemma order_nth_local:
  assumes "ss_inv s" and "local_seat (ss_kr s) < ss_nextIndex s"
  shows "expectedPlayerLocked s \<noteq> kr_localID (ss_kr s)"
proof -
  have "keyring_ok (ss_kr s)" using assms(1) by (simp add: ss_inv_def ss_core_def)
  then show ?thesis using expected_local assms(2) by fastforce
qed

text \<open>After its turn a node never sends a step again.\<close>

lemma no_more_steps:
  assumes inv: "ss_inv s" and l: "local_seat (ss_kr s) < ss_nextIndex s" and st: "ss_started s"
  shows "fst (Start rnd s) \<noteq> Inr (Some out)" and "fst (HandleMessage rnd mo s) \<noteq> Inr (Some out)"
proof -
  show "fst (Start rnd s) \<noteq> Inr (Some out)" using st by (simp add: Start_def)
  have after: "fst (afterApplyLocked rnd s1) \<noteq> Inr (Some out)"
    if s1: "ss_core (ss_nextIndex s1) s1" "ss_started s1" "ss_ext s s1" for s1
  proof -
    obtain r2 s2 where d: "drainPendingLocked s1 = (r2, s2)" by (cases "drainPendingLocked s1") auto
    have "ss_inv s2 \<and> ss_ext s1 s2" using drain_core [OF s1(1,2) d] by simp
    then have "expectedPlayerLocked s2 \<noteq> kr_localID (ss_kr s2)"
      using l s1(3) by (intro order_nth_local) (auto simp: ss_ext_def)
    then show ?thesis using d by (simp add: afterApplyLocked_def split: option.splits)
  qed
  show "fst (HandleMessage rnd mo s) \<noteq> Inr (Some out)"
  proof
    assume h: "fst (HandleMessage rnd mo s) = Inr (Some out)"
    then have v: "validateIncomingLocked s mo = None"
      using st by (auto simp: HandleMessage_def split: option.splits)
    then obtain msg where msg: "mo = Some msg" by (cases mo) (auto simp: validateIncomingLocked_def)
    obtain seat where seat: "kr_SeatIndex (Some (ss_kr s)) (sm_PlayerID msg) = Some seat"
      using h st v msg by (auto simp: HandleMessage_def split: option.splits)
    have now: "seat = ss_nextIndex s"
      using h st v msg seat by (auto simp: HandleMessage_def Let_def split: option.splits if_splits)
    have wf: "msg_wf s (ss_nextIndex s) msg"
      using v SeatIndex_Some [OF seat] now by (auto simp: msg msg_wf_def validateIncomingLocked_def split: if_splits)
    obtain r1 s1 where a: "verifyAndAdoptLocked msg s = (r1, s1)" by (cases "verifyAndAdoptLocked msg s") auto
    have r1: "r1 = None" and ap: "fst (afterApplyLocked rnd s1) = Inr (Some out)"
      using h st v msg seat now a by (auto simp: HandleMessage_def Let_def split: option.splits if_splits)
    have "ss_core (ss_nextIndex s + 1) s1 \<and> ss_ext s s1 \<and> ss_started s1"
      using adopt_core [OF inv [unfolded ss_inv_def] st wf a] by simp
    moreover have "ss_nextIndex s1 = ss_nextIndex s + 1" using verifyAndAdopt_next a r1 by fastforce
    ultimately show False using after [of s1] ap by simp
  qed
qed

lemma no_more_steps_reach:
  assumes "ss_reach s t" and "ss_inv s" and "local_seat (ss_kr s) < ss_nextIndex s" and "ss_started s"
  shows "fst (Start rnd t) \<noteq> Inr (Some out) \<and> fst (HandleMessage rnd mo t) \<noteq> Inr (Some out)"
proof -
  have "ss_inv t" "ss_ext s t" using ss_reach_inv [OF assms(1,2)] by auto
  then show ?thesis using no_more_steps [of t] assms(3,4) by (auto simp: ss_ext_def)
qed

lemma drain_bad:
  assumes "\<not> doneLocked s" and "expectedPlayerLocked s \<noteq> kr_localID (ss_kr s)"
    and "ss_pending s (ss_nextIndex s) = Some m" and "sm_Commitment m = Some c" and "VerifyDeck c (sm_OutputDeck m) = Some e"
  shows "drainPendingLocked s = (Some e, s\<lparr>ss_pending := (ss_pending s)(ss_nextIndex s := None)\<rparr>)"
  using assms adopt_eq [OF assms(4)] by (simp add: drainPendingLocked.simps [of s])

text \<open>
  A buffered step of the next seat that does not match its commitment makes the local step vanish:
  it is applied locally, but the call returns the neighbour's error instead of the step, and no
  later call of this session ever returns a step to broadcast.
\<close>

theorem local_step_lost:
  assumes inv: "ss_inv s" and st: "ss_started s" and turn: "ss_nextIndex s = local_seat (ss_kr s)"
    and next': "ss_nextIndex s + 1 < length (kr_order (ss_kr s))"
    and step: "ExecuteStep (ss_proto s) (kr_localID (ss_kr s)) (ss_current s) (LocalKey (Some (ss_kr s))) rnd = Inr step"
    and nonempty: "sp_NumCards (ss_proto s) \<noteq> 0"
    and bad: "ss_pending s (ss_nextIndex s + 1) = Some m" "VerifyDeck (the (sm_Commitment m)) (sm_OutputDeck m) = Some e"
  shows "\<exists>s'. executeLocalLocked rnd s = (Inl e, s') \<and> ss_applied s' (ss_nextIndex s) \<noteq> None
     \<and> (\<forall>t rnd' mo out. ss_reach s' t \<longrightarrow>
          fst (Start rnd' t) \<noteq> Inr (Some out) \<and> fst (HandleMessage rnd' mo t) \<noteq> Inr (Some out))"
proof -
  note core = inv [unfolded ss_inv_def]
  have kr: "keyring_ok (ss_kr s)" using core by (simp add: ss_core_def)
  note sh = ExecuteStep_shape [OF step]
  let ?s1 = "s\<lparr>ss_localPerm := st_Permutation step\<rparr>"
  let ?m = "\<lparr>sm_HandNum = ss_handNum s, sm_PlayerID = kr_localID (ss_kr s), sm_OutputDeck = st_OutputDeck step,
     sm_Commitment = st_Commitment step\<rparr>"
  obtain c where c: "st_Commitment step = Some c" "VerifyDeck c (st_OutputDeck step) = None" using sh by blast
  have "st_OutputDeck step \<noteq> []" using sh nonempty by auto
  then have msg: "ShuffleMessageFromStep (ss_handNum s) (Some step) = Inr ?m"
    using c sh by (simp add: ShuffleMessageFromStep_def)
  let ?s2 = "?s1\<lparr>ss_applied := (ss_applied s)(ss_nextIndex s \<mapsto> ?m), ss_current := st_OutputDeck step,
     ss_nextIndex := ss_nextIndex s + 1\<rparr>"
  have a: "verifyAndAdoptLocked ?m ?s1 = (None, ?s2)" using adopt_eq [of ?m c ?s1] c by simp
  have mwf: "msg_wf s (ss_nextIndex s + 1) m" using core bad(1) by (simp add: ss_core_def)
  then obtain cm where cm: "sm_Commitment m = Some cm" by (auto simp: msg_wf_def)
  let ?s3 = "?s2\<lparr>ss_pending := (ss_pending s)(ss_nextIndex s + 1 := None)\<rparr>"
  have "expectedPlayerLocked ?s2 \<noteq> kr_localID (ss_kr ?s2)"
    using expected_local [of ?s2] kr turn by simp
  then have d: "drainPendingLocked ?s2 = (Some e, ?s3)"
    using next' bad cm drain_bad [of ?s2 m cm e] by (simp add: doneLocked_def)
  have ex: "executeLocalLocked rnd s = (Inl e, ?s3)"
    using expected_local [OF kr] turn step msg a d by (simp add: executeLocalLocked_def Let_def)
  have nd: "\<not> doneLocked s" using next' by (simp add: doneLocked_def)
  have "ss_inv ?s3 \<and> ss_ext s ?s3 \<and> ss_started ?s3" by (rule executeLocal_core [OF inv st nd ex])
  then have "fst (Start rnd' t) \<noteq> Inr (Some out) \<and> fst (HandleMessage rnd' mo t) \<noteq> Inr (Some out)"
    if "ss_reach ?s3 t" for t rnd' mo out
    using no_more_steps_reach [OF that] turn by simp
  then show ?thesis using ex by (intro exI [of _ ?s3]) simp
qed

lemma sha256_nonempty: "sha256 m \<noteq> []"
  by (metis length_sha256 list.size(3) zero_neq_numeral)

definition demo_bad :: ShuffleMessage where
  "demo_bad = \<lparr>sm_HandNum = 1, sm_PlayerID = ''c'', sm_OutputDeck = [Some 5, Some 6],
     sm_Commitment = Some \<lparr>com_Hash = [], com_Nonce = []\<rparr>\<rparr>"

text \<open>Seat 0 has been applied, and seat 2 has sent its bad step early.\<close>

definition demo_turn :: ShuffleSession where
  "demo_turn = demo_session\<lparr>ss_started := True, ss_nextIndex := 1, ss_current := [Some 16, Some 9],
     ss_applied := [0 \<mapsto> demo_msgs 0], ss_pending := [2 \<mapsto> demo_bad]\<rparr>"

lemma demo_turn_inv: "ss_inv demo_turn"
proof -
  have "msg_ok demo_session 0 (demo_msgs 0)" using demo_honest demo_seat by (simp add: honest_table_def)
  moreover have "msg_wf demo_session 2 demo_bad" by (simp add: msg_wf_def demo_bad_def)
  ultimately show ?thesis
    using demo_kr_ok by (auto simp: ss_inv_def ss_core_def demo_turn_def demo_msgs_def demo_step_def split: if_splits)
qed

lemma local_step_lost_witness:
  "\<exists>s'. executeLocalLocked demo_rand demo_turn = (Inl ErrCommitment, s') \<and> ss_applied s' 1 \<noteq> None
     \<and> (\<forall>t rnd' mo out. ss_reach s' t \<longrightarrow>
          fst (Start rnd' t) \<noteq> Inr (Some out) \<and> fst (HandleMessage rnd' mo t) \<noteq> Inr (Some out))"
proof -
  have r: "rand_ready demo_rand" by (simp add: rand_ready_def demo_rand_def)
  have key: "LocalKey (Some demo_kr) = Some demo_key" by (simp add: LocalKey_def cloneSRAKey_def mk_key_def)
  have sp: "sp_NumCards (ss_proto demo_turn) = 2" by (simp add: demo_turn_def)
  obtain step where "ExecuteStep (ss_proto demo_turn) ''b'' (map Some [16, 9]) (Some demo_key) demo_rand = Inr step"
    using ExecuteStep_total [OF card_prime_107 demo_key_ok(1) _ _ r, of "[16, 9]" "ss_proto demo_turn" "''b''"] sp
    by (auto simp: sra_space_def)
  then have step: "ExecuteStep (ss_proto demo_turn) (kr_localID (ss_kr demo_turn)) (ss_current demo_turn)
      (LocalKey (Some (ss_kr demo_turn))) demo_rand = Inr step"
    using key by (simp add: demo_turn_def)
  have "serialiseDeck [Some 5, Some 6] = Some (concat (map slot [5, 6]))"
    using serialiseDeck_slots [of "[5, 6]"] by (simp add: in_slot_def)
  then have bad: "VerifyDeck (the (sm_Commitment demo_bad)) (sm_OutputDeck demo_bad) = Some ErrCommitment"
    by (simp add: demo_bad_def VerifyDeck_def Verify_def computeCommitmentHash_def sha256_nonempty Let_def)
  have p: "ss_pending demo_turn (ss_nextIndex demo_turn + 1) = Some demo_bad" by (simp add: demo_turn_def)
  have "\<exists>s'. executeLocalLocked demo_rand demo_turn = (Inl ErrCommitment, s') \<and> ss_applied s' (ss_nextIndex demo_turn) \<noteq> None
     \<and> (\<forall>t rnd' mo out. ss_reach s' t \<longrightarrow>
          fst (Start rnd' t) \<noteq> Inr (Some out) \<and> fst (HandleMessage rnd' mo t) \<noteq> Inr (Some out))"
    by (rule local_step_lost [OF demo_turn_inv _ _ _ step _ p bad]) (simp_all add: demo_turn_def demo_seat)
  then show ?thesis by (simp add: demo_turn_def)
qed

end
