(* ===== verification/DealSession.thy ===== *)
theory DealSession
  imports Keyring CryptoGame
begin

text \<open>
  internal/crypto/deal_session.go: the replicated turn-taking state machine of the deal. A sequence
  (holes, a street, a reveal) is a list of peel jobs; a job collects one peel per peeler, in order.
  As in the shuffle session, an operation returns what the Go method returns and the state it
  leaves. \<open>rnd\<close> gives the proof randomness of a local peel of a card. The methods assume a session
  that is not nil.
\<close>

section \<open>State\<close>

type_synonym Street = int

abbreviation (input) StreetNone :: Street where "StreetNone \<equiv> 0"
abbreviation (input) StreetFlop :: Street where "StreetFlop \<equiv> 1"
abbreviation (input) StreetTurn :: Street where "StreetTurn \<equiv> 2"
abbreviation (input) StreetRiver :: Street where "StreetRiver \<equiv> 3"

datatype jobKind = jobIdle | jobHole | jobPublic

datatype seqKind = seqIdle | seqHoles | seqStreet | seqReveal

record peelJob =
  pj_kind :: jobKind
  pj_cardIndex :: int
  pj_recipient :: playerID
  pj_round :: int

definition hole_job :: "int \<Rightarrow> playerID \<Rightarrow> int \<Rightarrow> peelJob" where
  "hole_job idx pid r = \<lparr>pj_kind = jobHole, pj_cardIndex = idx, pj_recipient = pid, pj_round = r\<rparr>"

definition public_job :: "int \<Rightarrow> int \<Rightarrow> peelJob" where
  "public_job idx r = \<lparr>pj_kind = jobPublic, pj_cardIndex = idx, pj_recipient = [], pj_round = r\<rparr>"

definition no_job :: peelJob where
  "no_job = \<lparr>pj_kind = jobIdle, pj_cardIndex = 0, pj_recipient = [], pj_round = 0\<rparr>"

record PeelMessage =
  pm_HandNum :: int
  pm_PlayerID :: playerID
  pm_CardIndex :: int
  pm_Ciphertext :: "int option"
  pm_Result :: "int option"
  pm_Proof :: "ZKProof option"

definition PeelMessageFromPD :: "int \<Rightarrow> PartialDecryption option \<Rightarrow> crypto_error + PeelMessage" where
  "PeelMessageFromPD handNum pdo = (case pdo of None \<Rightarrow> Inl ErrNil
     | Some pd \<Rightarrow> if pd_Ciphertext pd = None \<or> pd_Result pd = None \<or> pd_Proof pd = None then Inl ErrNil
         else Inr \<lparr>pm_HandNum = handNum, pm_PlayerID = pd_PlayerID pd, pm_CardIndex = pd_CardIndex pd,
                   pm_Ciphertext = pd_Ciphertext pd, pm_Result = pd_Result pd, pm_Proof = pd_Proof pd\<rparr>)"

definition peelMessageToPD :: "PeelMessage \<Rightarrow> PartialDecryption" where
  "peelMessageToPD msg = \<lparr>pd_PlayerID = pm_PlayerID msg, pd_CardIndex = pm_CardIndex msg,
     pd_Ciphertext = pm_Ciphertext msg, pd_Result = pm_Result msg, pd_Proof = pm_Proof msg\<rparr>"

text \<open>Proofs with a missing part are never equal, not even to themselves.\<close>

definition proofsEqual :: "ZKProof option \<Rightarrow> ZKProof option \<Rightarrow> bool" where
  "proofsEqual a b = (case (a, b) of (None, None) \<Rightarrow> True
     | (Some x, Some y) \<Rightarrow>
         if None \<in> {zk_A x, zk_A y, zk_B x, zk_B y, zk_S x, zk_S y, zk_H x, zk_H y} then False
         else zk_A x = zk_A y \<and> zk_B x = zk_B y \<and> zk_S x = zk_S y \<and> zk_H x = zk_H y
     | _ \<Rightarrow> False)"

definition peelMessagesEqual :: "PeelMessage \<Rightarrow> PeelMessage \<Rightarrow> bool" where
  "peelMessagesEqual a b =
     (if pm_HandNum a \<noteq> pm_HandNum b \<or> pm_PlayerID a \<noteq> pm_PlayerID b \<or> pm_CardIndex a \<noteq> pm_CardIndex b then False
      else if None \<in> {pm_Ciphertext a, pm_Ciphertext b, pm_Result a, pm_Result b}
        then pm_Ciphertext a = None \<and> pm_Ciphertext b = None \<and> pm_Result a = None \<and> pm_Result b = None
      else pm_Ciphertext a = pm_Ciphertext b \<and> pm_Result a = pm_Result b \<and> proofsEqual (pm_Proof a) (pm_Proof b))"

record DealSession =
  ds_kr :: Keyring
  ds_handNum :: int
  ds_sessionID :: "byte list"
  ds_p :: int
  ds_dealerIdx :: int
  ds_cards :: "int option list"
  ds_seq :: seqKind
  ds_seqJobs :: "peelJob list"
  ds_seqJobIdx :: nat
  ds_street :: Street
  ds_revealID :: playerID
  ds_jobKind :: jobKind
  ds_cardIndex :: int
  ds_recipient :: playerID
  ds_peelers :: "playerID list"
  ds_nextPeel :: nat
  ds_current :: "int option"
  ds_pending :: "nat \<rightharpoonup> PeelMessage"
  ds_applied :: "nat \<rightharpoonup> PeelMessage"
  ds_currentJob :: peelJob
  ds_localHoles :: "int option \<times> int option"
  ds_revealed :: "playerID \<rightharpoonup> int option \<times> int option"
  ds_community :: "int option list"
  ds_decoded :: "int \<rightharpoonup> int"
  ds_holesDone :: bool
  ds_streetDone :: bool
  ds_revealDone :: bool
  ds_lastStreet :: Street
  ds_holesStarted :: bool
  ds_outbound :: "PeelMessage list"

type_synonym ds_result = "(crypto_error + PeelMessage option) \<times> DealSession"

definition newDealSession ::
  "Keyring option \<Rightarrow> int option list \<Rightarrow> byte list \<Rightarrow> int option \<Rightarrow> int \<Rightarrow> int \<Rightarrow> crypto_error + DealSession" where
  "newDealSession kr cards sessionID po handNum dealerIdx = (case kr of None \<Rightarrow> Inl ErrNil
     | Some r \<Rightarrow> if Len kr < 2 then Inl ErrTooFewPlayers
         else if sessionID = [] then Inl ErrEmptySession
         else if handNum < 1 then Inl ErrHandNum
         else if dealerIdx < 0 \<or> dealerIdx \<ge> int (Len kr) then Inl ErrDealer
         else (case po of None \<Rightarrow> Inl ErrNilModulus
           | Some p \<Rightarrow> if Modulus kr = None then Inl ErrNilModulus
               else if Modulus kr \<noteq> Some p then Inl ErrModulusMismatch
               else if cards = [] then Inl ErrEmptyDeck
               else Inr \<lparr>ds_kr = r, ds_handNum = handNum, ds_sessionID = sessionID, ds_p = p,
                  ds_dealerIdx = dealerIdx, ds_cards = cards,
                  ds_seq = seqIdle, ds_seqJobs = [], ds_seqJobIdx = 0, ds_street = StreetNone, ds_revealID = [],
                  ds_jobKind = jobIdle, ds_cardIndex = 0, ds_recipient = [], ds_peelers = [], ds_nextPeel = 0,
                  ds_current = None, ds_pending = Map.empty, ds_applied = Map.empty, ds_currentJob = no_job,
                  ds_localHoles = (None, None), ds_revealed = Map.empty, ds_community = [], ds_decoded = Map.empty,
                  ds_holesDone = False, ds_streetDone = False, ds_revealDone = False, ds_lastStreet = StreetNone,
                  ds_holesStarted = False, ds_outbound = []\<rparr>))"

definition NewDealSession :: "Keyring option \<Rightarrow> EncryptedDeck option \<Rightarrow> int \<Rightarrow> int \<Rightarrow> crypto_error + DealSession" where
  "NewDealSession kr deck handNum dealerIdx = (case deck of None \<Rightarrow> Inl ErrNil
     | Some d \<Rightarrow> if length (ed_Cards d) \<noteq> 52 then Inl (ErrDeckSize 52 (length (ed_Cards d)))
         else newDealSession kr (map Some (ed_Cards d)) (ed_SessionID d) (Some (ed_P d)) handNum dealerIdx)"

section \<open>One job\<close>

definition jobCompleteLocked :: "DealSession \<Rightarrow> bool" where
  "jobCompleteLocked s \<longleftrightarrow> ds_nextPeel s \<ge> length (ds_peelers s)"

definition expectedPeelerLocked :: "DealSession \<Rightarrow> playerID" where
  "expectedPeelerLocked s =
     (if ds_seq s = seqIdle \<or> ds_jobKind s = jobIdle then []
      else if ds_nextPeel s \<ge> length (ds_peelers s) then [] else ds_peelers s ! ds_nextPeel s)"

definition peelerIndex :: "playerID list \<Rightarrow> playerID \<Rightarrow> nat option" where
  "peelerIndex peelers pid = seat_find pid peelers 0"

definition installJobLocked :: "peelJob \<Rightarrow> DealSession \<Rightarrow> (crypto_error, DealSession) outcome" where
  "installJobLocked j s =
     (if pj_cardIndex j < 0 \<or> pj_cardIndex j \<ge> int (length (ds_cards s)) then (Some ErrIndex, s)
      else case PeelOrder (SeatOrder (Some (ds_kr s))) (pj_recipient j) of Inl e \<Rightarrow> (Some e, s)
      | Inr peelers \<Rightarrow> if peelers = [] then (Some ErrNoPeelers, s)
          else (None, s\<lparr>ds_jobKind := pj_kind j, ds_cardIndex := pj_cardIndex j, ds_recipient := pj_recipient j,
             ds_peelers := peelers, ds_nextPeel := 0, ds_current := ds_cards s ! nat (pj_cardIndex j),
             ds_pending := Map.empty, ds_applied := Map.empty, ds_currentJob := j\<rparr>))"

definition applyIncomingLocked :: "PeelMessage \<Rightarrow> DealSession \<Rightarrow> (crypto_error, DealSession) outcome" where
  "applyIncomingLocked msg s =
     (case VerifyAndApply (ds_current s) (Some (peelMessageToPD msg)) (ds_p s) (ds_sessionID s) of Inl e \<Rightarrow> (Some e, s)
      | Inr next' \<Rightarrow> (case peelerIndex (ds_peelers s) (pm_PlayerID msg) of None \<Rightarrow> (Some ErrUnknownPlayer, s)
          | Some seat \<Rightarrow> (None, s\<lparr>ds_applied := (ds_applied s)(seat \<mapsto> msg), ds_current := Some next',
                                 ds_nextPeel := ds_nextPeel s + 1\<rparr>)))"

lemma applyIncoming_next:
  "applyIncomingLocked msg s = (None, s') \<Longrightarrow> ds_nextPeel s' = ds_nextPeel s + 1 \<and> ds_peelers s' = ds_peelers s
     \<and> ds_seqJobs s' = ds_seqJobs s \<and> ds_seqJobIdx s' = ds_seqJobIdx s"
  by (auto simp: applyIncomingLocked_def split: sum.splits option.splits)

function ds_drainPendingLocked :: "DealSession \<Rightarrow> (crypto_error, DealSession) outcome" where
  "ds_drainPendingLocked s =
     (if jobCompleteLocked s then (None, s)
      else if ds_peelers s ! ds_nextPeel s = kr_localID (ds_kr s) then (None, s)
      else case ds_pending s (ds_nextPeel s) of None \<Rightarrow> (None, s)
        | Some msg \<Rightarrow>
            (case applyIncomingLocked msg (s\<lparr>ds_pending := (ds_pending s)(ds_nextPeel s := None)\<rparr>) of
               (Some e, s') \<Rightarrow> (Some e, s')
             | (None, s') \<Rightarrow> ds_drainPendingLocked s'))"
  by pat_completeness auto
termination
  by (relation "measure (\<lambda>s. length (ds_peelers s) - ds_nextPeel s)")
    (auto simp: jobCompleteLocked_def dest!: applyIncoming_next [OF sym])

declare ds_drainPendingLocked.simps [simp del]

definition set_round :: "int \<Rightarrow> 'a \<Rightarrow> 'a \<times> 'a \<Rightarrow> 'a \<times> 'a" where
  "set_round r x h = (if r = 0 then (x, snd h) else (fst h, x))"

definition finishJobLocked :: "DealSession \<Rightarrow> (crypto_error, DealSession) outcome" where
  "finishJobLocked s =
     (let j = ds_currentJob s
      in if pj_kind j = jobHole then
           (if ds_recipient s = kr_localID (ds_kr s) then
              (case Decrypt (LocalKey (Some (ds_kr s))) (ds_current s) of Inl e \<Rightarrow> (Some e, s)
               | Inr plain \<Rightarrow> (None, s\<lparr>ds_localHoles := set_round (pj_round j) (Some plain) (ds_localHoles s),
                                      ds_decoded := (ds_decoded s)(pj_cardIndex j \<mapsto> plain)\<rparr>))
            else (None, s))
         else
           (let s1 = s\<lparr>ds_decoded := (ds_decoded s)(pj_cardIndex j := ds_current s)\<rparr>;
                s2 = (if ds_seq s = seqStreet then s1\<lparr>ds_community := ds_community s @ [ds_current s]\<rparr> else s1);
                s3 = (if ds_seq s = seqReveal then
                        (let pair = (case ds_revealed s (ds_revealID s) of None \<Rightarrow> (None, None) | Some h \<Rightarrow> h)
                         in s2\<lparr>ds_revealed := (ds_revealed s)(ds_revealID s \<mapsto> set_round (pj_round j) (ds_current s) pair)\<rparr>)
                      else s2)
            in (None, s3)))"

section \<open>The job loop\<close>

text \<open>What is left to do: jobs of the sequence, and peels of the job.\<close>

definition jobs_left :: "DealSession \<Rightarrow> nat" where
  "jobs_left s = length (ds_seqJobs s) - ds_seqJobIdx s"

definition peels_left :: "DealSession \<Rightarrow> nat" where
  "peels_left s = length (ds_peelers s) - ds_nextPeel s"

lemma drain_left:
  "ds_drainPendingLocked s = (r, s') \<Longrightarrow> ds_peelers s' = ds_peelers s \<and> ds_nextPeel s \<le> ds_nextPeel s'
     \<and> ds_seqJobs s' = ds_seqJobs s \<and> ds_seqJobIdx s' = ds_seqJobIdx s"
proof (induction s arbitrary: r s' rule: ds_drainPendingLocked.induct)
  case (1 s)
  let ?t = "s\<lparr>ds_pending := (ds_pending s)(ds_nextPeel s := None)\<rparr>"
  show ?case
  proof (cases "jobCompleteLocked s \<or> ds_peelers s ! ds_nextPeel s = kr_localID (ds_kr s) \<or> ds_pending s (ds_nextPeel s) = None")
    case True
    then have "s' = s" using "1.prems" ds_drainPendingLocked.simps [of s] by (auto split: if_splits)
    then show ?thesis by simp
  next
    case False
    then obtain m where m: "ds_pending s (ds_nextPeel s) = Some m" by auto
    obtain r1 s1 where a: "applyIncomingLocked m ?t = (r1, s1)" by (cases "applyIncomingLocked m ?t") auto
    have d: "ds_drainPendingLocked s = (case (r1, s1) of (Some e, s') \<Rightarrow> (Some e, s') | (None, s') \<Rightarrow> ds_drainPendingLocked s')"
      using False m a by (simp add: ds_drainPendingLocked.simps [of s])
    show ?thesis
    proof (cases r1)
      case None
      have "ds_peelers s' = ds_peelers s1 \<and> ds_nextPeel s1 \<le> ds_nextPeel s'
         \<and> ds_seqJobs s' = ds_seqJobs s1 \<and> ds_seqJobIdx s' = ds_seqJobIdx s1"
        using False "1.prems" d None by (intro "1.IH" [OF _ _ m a [symmetric] None]) auto
      then show ?thesis using applyIncoming_next [of m ?t s1] a None by simp
    next
      case (Some e)
      then have "s1 = ?t" using a by (auto simp: applyIncomingLocked_def split: sum.splits option.splits)
      then show ?thesis using Some d "1.prems" by simp
    qed
  qed
qed

lemma finishJob_left:
  "finishJobLocked s = (r, s') \<Longrightarrow> ds_peelers s' = ds_peelers s \<and> ds_nextPeel s' = ds_nextPeel s
     \<and> ds_seqJobs s' = ds_seqJobs s \<and> ds_seqJobIdx s' = ds_seqJobIdx s"
  by (auto simp: finishJobLocked_def Let_def split: if_splits sum.splits)

lemma installJob_left:
  "installJobLocked j s = (r, s') \<Longrightarrow> ds_seqJobs s' = ds_seqJobs s \<and> ds_seqJobIdx s' = ds_seqJobIdx s"
  by (auto simp: installJobLocked_def split: if_splits sum.splits)

function ds_afterApplyLocked :: "(int \<Rightarrow> int list) \<Rightarrow> DealSession \<Rightarrow> ds_result"
  and ds_executeLocalLocked :: "(int \<Rightarrow> int list) \<Rightarrow> DealSession \<Rightarrow> ds_result"
  and advanceSequenceLocked :: "(int \<Rightarrow> int list) \<Rightarrow> DealSession \<Rightarrow> ds_result" where
  "ds_afterApplyLocked rnd s =
     (case ds_drainPendingLocked s of (Some e, s1) \<Rightarrow> (Inl e, s1)
      | (None, s1) \<Rightarrow>
          if jobCompleteLocked s1 then
            (case finishJobLocked s1 of (Some e, s2) \<Rightarrow> (Inl e, s2) | (None, s2) \<Rightarrow> advanceSequenceLocked rnd s2)
          else if ds_peelers s1 ! ds_nextPeel s1 = kr_localID (ds_kr s1) then ds_executeLocalLocked rnd s1
          else (Inr None, s1))"
| "ds_executeLocalLocked rnd s =
     (if jobCompleteLocked s then (Inl ErrNotTurn, s)
      else if ds_peelers s ! ds_nextPeel s \<noteq> kr_localID (ds_kr s) then (Inl ErrNotTurn, s)
      else case Peel (LocalKey (Some (ds_kr s))) (ds_current s) (ds_cardIndex s) (kr_localID (ds_kr s))
                  (ds_sessionID s) (rnd (ds_cardIndex s)) of
        Inl e \<Rightarrow> (Inl e, s)
      | Inr pd \<Rightarrow> (case PeelMessageFromPD (ds_handNum s) (Some pd) of Inl e \<Rightarrow> (Inl e, s)
          | Inr msg \<Rightarrow> (case applyIncomingLocked msg s of (Some e, s1) \<Rightarrow> (Inl e, s1)
              | (None, s1) \<Rightarrow> (case ds_afterApplyLocked rnd s1 of (Inl e, s2) \<Rightarrow> (Inl e, s2)
                  | (Inr extra, s2) \<Rightarrow>
                      (Inr (Some msg), s2\<lparr>ds_outbound := ds_outbound s2 @ (case extra of None \<Rightarrow> [] | Some m \<Rightarrow> [m])\<rparr>)))))"
| "advanceSequenceLocked rnd s =
     (if ds_seqJobIdx s + 1 \<ge> length (ds_seqJobs s) then
        (let s1 = s\<lparr>ds_seqJobIdx := ds_seqJobIdx s + 1\<rparr>;
             s2 = (case ds_seq s of seqHoles \<Rightarrow> s1\<lparr>ds_holesDone := True\<rparr>
                   | seqStreet \<Rightarrow> s1\<lparr>ds_streetDone := True, ds_lastStreet := ds_street s\<rparr>
                   | seqReveal \<Rightarrow> s1\<lparr>ds_revealDone := True\<rparr> | seqIdle \<Rightarrow> s1)
         in (Inr None, s2\<lparr>ds_seq := seqIdle, ds_jobKind := jobIdle\<rparr>))
      else case installJobLocked (ds_seqJobs s ! (ds_seqJobIdx s + 1)) (s\<lparr>ds_seqJobIdx := ds_seqJobIdx s + 1\<rparr>) of
        (Some e, s1) \<Rightarrow> (Inl e, s1)
      | (None, s1) \<Rightarrow> if ds_peelers s1 ! 0 = kr_localID (ds_kr s1) then ds_executeLocalLocked rnd s1 else (Inr None, s1))"
  by pat_completeness auto
termination
proof (relation "inv_image (less_than <*lex*> (less_than <*lex*> less_than))
    (\<lambda>x. case x of Inl (rnd, s) \<Rightarrow> (jobs_left s, peels_left s, 1)
      | Inr (Inl (rnd, s)) \<Rightarrow> (jobs_left s, peels_left s, 0)
      | Inr (Inr (rnd, s)) \<Rightarrow> (jobs_left s, 0, 0 :: nat))", goal_cases)
  case 1
  show ?case by auto
qed (auto simp: jobs_left_def peels_left_def jobCompleteLocked_def
      dest!: drain_left [OF sym] finishJob_left [OF sym] installJob_left [OF sym] applyIncoming_next [OF sym])

declare ds_afterApplyLocked.simps [simp del] ds_executeLocalLocked.simps [simp del] advanceSequenceLocked.simps [simp del]

section \<open>Operations\<close>

definition startCurrentJobLocked :: "(int \<Rightarrow> int list) \<Rightarrow> DealSession \<Rightarrow> ds_result" where
  "startCurrentJobLocked rnd s =
     (if ds_peelers s ! 0 = kr_localID (ds_kr s) then ds_executeLocalLocked rnd s else (Inr None, s))"

definition startSequenceLocked ::
  "(int \<Rightarrow> int list) \<Rightarrow> seqKind \<Rightarrow> peelJob list \<Rightarrow> Street \<Rightarrow> playerID \<Rightarrow> DealSession \<Rightarrow> ds_result" where
  "startSequenceLocked rnd kind jobs street revealID s =
     (if jobs = [] then (Inl ErrNoJobs, s)
      else let s1 = s\<lparr>ds_seq := kind, ds_seqJobs := jobs, ds_seqJobIdx := 0, ds_street := street, ds_revealID := revealID\<rparr>
        in case installJobLocked (hd jobs) s1 of (Some e, s2) \<Rightarrow> (Inl e, s2\<lparr>ds_seq := seqIdle\<rparr>)
           | (None, s2) \<Rightarrow> startCurrentJobLocked rnd s2)"

text \<open>The jobs of the holes: left of the dealer, two rounds.\<close>

definition hole_jobs :: "playerID list \<Rightarrow> int \<Rightarrow> crypto_error + peelJob list" where
  "hole_jobs order dealerIdx =
     (let n = int (length order)
      in rmap (\<lambda>(playerIdx, round). rbind (HoleCardIndex n dealerIdx playerIdx (int round)) (\<lambda>idx.
           Inr (hole_job idx (order ! nat playerIdx) (int round)))) (deal_walk n dealerIdx))"

definition BeginHoles :: "(int \<Rightarrow> int list) \<Rightarrow> DealSession \<Rightarrow> ds_result" where
  "BeginHoles rnd s =
     (if ds_seq s \<noteq> seqIdle then (Inl ErrBusy, s)
      else if ds_holesStarted s \<or> ds_holesDone s then (Inl ErrStarted, s)
      else case hole_jobs (SeatOrder (Some (ds_kr s))) (ds_dealerIdx s) of Inl e \<Rightarrow> (Inl e, s)
      | Inr jobs \<Rightarrow> startSequenceLocked rnd seqHoles jobs StreetNone [] (s\<lparr>ds_holesStarted := True\<rparr>))"

definition street_jobs :: "int \<Rightarrow> Street \<Rightarrow> crypto_error + peelJob list" where
  "street_jobs n street =
     (if street = StreetFlop then rbind (FlopIndexes n) (\<lambda>idxs. Inr (map (\<lambda>i. public_job i 0) idxs))
      else if street = StreetTurn then rbind (TurnIndex n) (\<lambda>i. Inr [public_job i 0])
      else if street = StreetRiver then rbind (RiverIndex n) (\<lambda>i. Inr [public_job i 0])
      else Inl ErrStreet)"

definition BeginStreet :: "(int \<Rightarrow> int list) \<Rightarrow> Street \<Rightarrow> DealSession \<Rightarrow> ds_result" where
  "BeginStreet rnd street s =
     (if ds_seq s \<noteq> seqIdle then (Inl ErrBusy, s)
      else if \<not> ds_holesDone s then (Inl ErrNotDone, s)
      else if street \<noteq> ds_lastStreet s + 1 then (Inl ErrStreet, s)
      else case street_jobs (int (Len (Some (ds_kr s)))) street of Inl e \<Rightarrow> (Inl e, s)
      | Inr jobs \<Rightarrow> startSequenceLocked rnd seqStreet jobs street [] (s\<lparr>ds_streetDone := False\<rparr>))"

definition reveal_jobs :: "int \<Rightarrow> int \<Rightarrow> int \<Rightarrow> crypto_error + peelJob list" where
  "reveal_jobs n dealerIdx playerIdx =
     rmap (\<lambda>round. rbind (HoleCardIndex n dealerIdx playerIdx round) (\<lambda>idx. Inr (public_job idx round))) [0, 1]"

definition BeginReveal :: "(int \<Rightarrow> int list) \<Rightarrow> playerID \<Rightarrow> DealSession \<Rightarrow> ds_result" where
  "BeginReveal rnd pid s =
     (if ds_seq s \<noteq> seqIdle then (Inl ErrBusy, s)
      else if \<not> ds_holesDone s then (Inl ErrNotDone, s)
      else case kr_SeatIndex (Some (ds_kr s)) pid of None \<Rightarrow> (Inl ErrUnknownPlayer, s)
      | Some playerIdx \<Rightarrow>
          if (case ds_revealed s pid of None \<Rightarrow> False | Some (a, b) \<Rightarrow> a \<noteq> None \<and> b \<noteq> None) then (Inl ErrRevealed, s)
          else (case reveal_jobs (int (Len (Some (ds_kr s)))) (ds_dealerIdx s) (int playerIdx) of Inl e \<Rightarrow> (Inl e, s)
            | Inr jobs \<Rightarrow> startSequenceLocked rnd seqReveal jobs StreetNone pid (s\<lparr>ds_revealDone := False\<rparr>)))"

text \<open>A peel for a seat that is gone, with its reconstructed key; \<open>draws\<close> is its proof randomness.\<close>

definition PeelOnBehalf ::
  "(int \<Rightarrow> int list) \<Rightarrow> int list \<Rightarrow> playerID \<Rightarrow> SRAKey option \<Rightarrow> DealSession \<Rightarrow> ds_result" where
  "PeelOnBehalf rnd draws pid key s =
     (if pid = [] then (Inl ErrEmptyId, s)
      else if pid = kr_localID (ds_kr s) then (Inl ErrLocalStep, s)
      else if ds_seq s = seqIdle \<or> ds_jobKind s = jobIdle then (Inl ErrNoJob, s)
      else if expectedPeelerLocked s \<noteq> pid then (Inl ErrNotTurn, s)
      else if key = None \<or> \<not> IsPrivate key then (Inl ErrNoPrivate, s)
      else case Peel key (ds_current s) (ds_cardIndex s) pid (ds_sessionID s) draws of Inl e \<Rightarrow> (Inl e, s)
      | Inr pd \<Rightarrow> (case PeelMessageFromPD (ds_handNum s) (Some pd) of Inl e \<Rightarrow> (Inl e, s)
          | Inr msg \<Rightarrow> (case applyIncomingLocked msg s of (Some e, s1) \<Rightarrow> (Inl e, s1)
              | (None, s1) \<Rightarrow> (case ds_afterApplyLocked rnd s1 of (Inl e, s2) \<Rightarrow> (Inl e, s2)
                  | (Inr extra, s2) \<Rightarrow>
                      (Inr (Some msg), s2\<lparr>ds_outbound := ds_outbound s2 @ (case extra of None \<Rightarrow> [] | Some m \<Rightarrow> [m])\<rparr>)))))"

definition ds_validateIncomingLocked :: "DealSession \<Rightarrow> PeelMessage option \<Rightarrow> crypto_error option" where
  "ds_validateIncomingLocked s mo = (case mo of None \<Rightarrow> Some ErrNil
     | Some msg \<Rightarrow>
         if pm_PlayerID msg = [] then Some ErrEmptyId
         else if pm_Ciphertext msg = None \<or> pm_Result msg = None \<or> pm_Proof msg = None then Some ErrNil
         else if pm_HandNum msg \<noteq> ds_handNum s then Some ErrWrongHand
         else if pm_CardIndex msg \<noteq> ds_cardIndex s then Some ErrWrongCard
         else None)"

definition HandlePeel :: "(int \<Rightarrow> int list) \<Rightarrow> PeelMessage option \<Rightarrow> DealSession \<Rightarrow> ds_result" where
  "HandlePeel rnd mo s =
     (if ds_seq s = seqIdle \<or> ds_jobKind s = jobIdle then (Inl ErrNoJob, s)
      else case ds_validateIncomingLocked s mo of Some e \<Rightarrow> (Inl e, s)
      | None \<Rightarrow>
          let msg = the mo
          in case peelerIndex (ds_peelers s) (pm_PlayerID msg) of None \<Rightarrow> (Inl ErrUnknownPlayer, s)
          | Some seat \<Rightarrow>
              if seat < ds_nextPeel s then
                (case ds_applied s seat of
                   Some prev \<Rightarrow> if peelMessagesEqual prev msg then (Inr None, s) else (Inl ErrDuplicateStep, s)
                 | None \<Rightarrow> (Inl ErrDuplicateStep, s))
              else if seat = ds_nextPeel s then
                (if pm_PlayerID msg \<noteq> ds_peelers s ! ds_nextPeel s then (Inl ErrWrongSeat, s)
                 else if pm_PlayerID msg = kr_localID (ds_kr s) then (Inl ErrLocalStep, s)
                 else case applyIncomingLocked msg s of (Some e, s1) \<Rightarrow> (Inl e, s1)
                   | (None, s1) \<Rightarrow> ds_afterApplyLocked rnd s1)
              else if pm_PlayerID msg = kr_localID (ds_kr s) then (Inl ErrWrongSeat, s)
              else (case ds_pending s seat of
                   Some prev \<Rightarrow> if peelMessagesEqual prev msg then (Inr None, s) else (Inl ErrBuffered, s)
                 | None \<Rightarrow> (Inr None, s\<lparr>ds_pending := (ds_pending s)(seat \<mapsto> msg)\<rparr>)))"

section \<open>What the session shows\<close>

definition Outbound :: "DealSession \<Rightarrow> PeelMessage list \<times> DealSession" where
  "Outbound s = (ds_outbound s, s\<lparr>ds_outbound := []\<rparr>)"

definition finish_pair :: "int \<Rightarrow> int option \<times> int option \<Rightarrow> crypto_error \<Rightarrow> crypto_error + card \<times> card" where
  "finish_pair p h missing = (case h of
     (Some a, Some b) \<Rightarrow> rbind (FinishPublic (Some a) (Some p)) (\<lambda>c0.
        rbind (FinishPublic (Some b) (Some p)) (\<lambda>c1. Inr (c0, c1)))
   | _ \<Rightarrow> Inl missing)"

definition LocalHoles :: "DealSession \<Rightarrow> crypto_error + card \<times> card" where
  "LocalHoles s = finish_pair (ds_p s) (ds_localHoles s) ErrNotDone"

definition CommunityCards :: "DealSession \<Rightarrow> crypto_error + card list" where
  "CommunityCards s = rmap (\<lambda>v. FinishPublic v (Some (ds_p s))) (ds_community s)"

definition RevealedHoles :: "DealSession \<Rightarrow> playerID \<Rightarrow> crypto_error + card \<times> card" where
  "RevealedHoles s pid = finish_pair (ds_p s)
     (case ds_revealed s pid of None \<Rightarrow> (None, None) | Some h \<Rightarrow> h) ErrNotDone"

end
