(* ===== verification/DealInv.thy ===== *)
theory DealInv
  imports DealSession DealHoles
begin

text \<open>
  The invariant of a deal session. The locale \<open>peel_table\<close> is the contract between the session and
  what is known of its messages: \<open>ok\<close> holds of the peels that are applied, \<open>D k v\<close> of a value that
  is stored for deck position \<open>k\<close>; its assumptions say that a complete run of \<open>ok\<close> peels gives such
  a value. It is interpreted below, once with nothing known about the messages and once with
  peels made with the right keys.
\<close>

section \<open>Runs of peels\<close>

text \<open>Each peel takes the value before it, verifies, and its result is the next value.\<close>

fun peel_run :: "(PeelMessage \<Rightarrow> bool) \<Rightarrow> int \<Rightarrow> byte list \<Rightarrow> PeelMessage list \<Rightarrow> int \<Rightarrow> int \<Rightarrow> bool" where
  "peel_run ok p sid [] c c' \<longleftrightarrow> c = c'"
| "peel_run ok p sid (m # ms) c c' \<longleftrightarrow> ok m \<and> pm_Ciphertext m = Some c
     \<and> pd_Verify (Some (peelMessageToPD m)) p sid = None
     \<and> (\<exists>r. pm_Result m = Some r \<and> peel_run ok p sid ms r c')"

lemma peel_run_append:
  "peel_run ok p sid (ms @ [m]) c c' \<longleftrightarrow> (\<exists>d. peel_run ok p sid ms c d \<and> ok m \<and> pm_Ciphertext m = Some d
     \<and> pd_Verify (Some (peelMessageToPD m)) p sid = None \<and> pm_Result m = Some c')"
  by (induction ms arbitrary: c) auto

lemma peel_run_mono: "peel_run ok p sid ms c d \<Longrightarrow> \<forall>m\<in>set ms. ok' m \<Longrightarrow> peel_run ok' p sid ms c d"
  by (induction ms arbitrary: c) auto

definition ds_fits :: "DealSession \<Rightarrow> PeelMessage \<Rightarrow> bool" where
  "ds_fits s m \<longleftrightarrow> pm_HandNum m = ds_handNum s \<and> pm_CardIndex m = ds_cardIndex s"

text \<open>The board positions in the order they are dealt, and how many each street has dealt.\<close>

definition board_at :: "int \<Rightarrow> int list" where
  "board_at n = [2 * n + 1, 2 * n + 2, 2 * n + 3, 2 * n + 5, 2 * n + 7]"

definition street_count :: "Street \<Rightarrow> nat" where
  "street_count st = (if st \<le> 0 then 0 else if st = 1 then 3 else if st = 2 then 4 else 5)"

text \<open>The jobs of each kind of sequence.\<close>

definition holes_wf :: "DealSession \<Rightarrow> peelJob \<Rightarrow> bool" where
  "holes_wf s j \<longleftrightarrow> pj_kind j = jobHole \<and> (pj_round j = 0 \<or> pj_round j = 1)
     \<and> (\<exists>seat<length (kr_order (ds_kr s)). pj_recipient j = kr_order (ds_kr s) ! seat
          \<and> HoleCardIndex (int (length (kr_order (ds_kr s)))) (ds_dealerIdx s) (int seat) (pj_round j) = Inr (pj_cardIndex j))"

definition reveal_wf :: "DealSession \<Rightarrow> peelJob \<Rightarrow> bool" where
  "reveal_wf s j \<longleftrightarrow> pj_kind j = jobPublic \<and> pj_recipient j = [] \<and> (pj_round j = 0 \<or> pj_round j = 1)
     \<and> (\<exists>seat. kr_SeatIndex (Some (ds_kr s)) (ds_revealID s) = Some seat
          \<and> HoleCardIndex (int (length (kr_order (ds_kr s)))) (ds_dealerIdx s) (int seat) (pj_round j) = Inr (pj_cardIndex j))"

definition street_wf :: "DealSession \<Rightarrow> bool" where
  "street_wf s \<longleftrightarrow> ds_street s = ds_lastStreet s + 1
     \<and> ds_seqJobs s = map (\<lambda>i. public_job i 0)
          (take (street_count (ds_street s) - street_count (ds_lastStreet s))
             (drop (street_count (ds_lastStreet s)) (board_at (int (length (kr_order (ds_kr s)))))))"

definition seq_wf :: "DealSession \<Rightarrow> bool" where
  "seq_wf s \<longleftrightarrow> (case ds_seq s of seqIdle \<Rightarrow> True
     | seqHoles \<Rightarrow> (\<forall>j\<in>set (ds_seqJobs s). holes_wf s j)
     | seqReveal \<Rightarrow> (\<forall>j\<in>set (ds_seqJobs s). reveal_wf s j)
     | seqStreet \<Rightarrow> street_wf s)"

text \<open>
  The current job: its peelers are the seats but the recipient, the applied peels are a run from the
  card to the current value by the first peelers, and each buffered peel is of another seat, in the
  place of that peeler.
\<close>

definition pending_wf :: "(PeelMessage \<Rightarrow> bool) \<Rightarrow> DealSession \<Rightarrow> bool" where
  "pending_wf ok s \<longleftrightarrow> (\<forall>i m. ds_pending s i = Some m \<longrightarrow> i < length (ds_peelers s) \<and> pm_PlayerID m = ds_peelers s ! i
     \<and> pm_PlayerID m \<noteq> kr_localID (ds_kr s) \<and> ds_fits s m \<and> ok m)"

definition job_inv :: "(PeelMessage \<Rightarrow> bool) \<Rightarrow> DealSession \<Rightarrow> bool" where
  "job_inv ok s \<longleftrightarrow>
     pj_kind (ds_currentJob s) = ds_jobKind s \<and> pj_cardIndex (ds_currentJob s) = ds_cardIndex s
     \<and> pj_recipient (ds_currentJob s) = ds_recipient s
     \<and> 0 \<le> ds_cardIndex s \<and> nat (ds_cardIndex s) < length (ds_cards s)
     \<and> PeelOrder (kr_order (ds_kr s)) (ds_recipient s) = Inr (ds_peelers s) \<and> ds_nextPeel s \<le> length (ds_peelers s)
     \<and> (\<exists>c ms. ds_current s = Some c \<and> ds_applied s = (\<lambda>i. if i < ds_nextPeel s then Some (ms ! i) else None)
          \<and> map pm_PlayerID ms = take (ds_nextPeel s) (ds_peelers s) \<and> (\<forall>m\<in>set ms. ds_fits s m)
          \<and> peel_run ok (ds_p s) (ds_sessionID s) ms (the (ds_cards s ! nat (ds_cardIndex s))) c)
     \<and> pending_wf ok s"

text \<open>What the session has stored; \<open>e\<close> board cards are stored ahead of the job counter.\<close>

definition hole_slot :: "(int \<Rightarrow> int \<Rightarrow> bool) \<Rightarrow> DealSession \<Rightarrow> nat \<Rightarrow> int \<Rightarrow> int option \<Rightarrow> bool" where
  "hole_slot D s seat r x \<longleftrightarrow> (\<forall>v. x = Some v \<longrightarrow>
     (\<exists>k. HoleCardIndex (int (length (kr_order (ds_kr s)))) (ds_dealerIdx s) (int seat) r = Inr k \<and> D k v))"

definition store_inv :: "(int \<Rightarrow> int \<Rightarrow> bool) \<Rightarrow> nat \<Rightarrow> DealSession \<Rightarrow> bool" where
  "store_inv D e s \<longleftrightarrow>
     (\<forall>k v. ds_decoded s k = Some v \<longrightarrow> D k v)
     \<and> hole_slot D s (local_seat (ds_kr s)) 0 (fst (ds_localHoles s)) \<and> hole_slot D s (local_seat (ds_kr s)) 1 (snd (ds_localHoles s))
     \<and> (\<forall>pid h. ds_revealed s pid = Some h \<longrightarrow> (\<exists>seat. kr_SeatIndex (Some (ds_kr s)) pid = Some seat
           \<and> hole_slot D s seat 0 (fst h) \<and> hole_slot D s seat 1 (snd h)))
     \<and> 0 \<le> ds_lastStreet s \<and> ds_lastStreet s \<le> 3
     \<and> length (ds_community s) = street_count (ds_lastStreet s) + (if ds_seq s = seqStreet then ds_seqJobIdx s + e else 0)
     \<and> (\<forall>i<length (ds_community s). \<exists>v. ds_community s ! i = Some v \<and> D (board_at (int (length (kr_order (ds_kr s)))) ! i) v)"

definition ds_table :: "Keyring \<Rightarrow> int \<Rightarrow> byte list \<Rightarrow> int \<Rightarrow> int \<Rightarrow> int option list \<Rightarrow> DealSession \<Rightarrow> bool" where
  "ds_table kr hand sid p dealer cards s \<longleftrightarrow> ds_kr s = kr \<and> ds_handNum s = hand \<and> ds_sessionID s = sid \<and> ds_p s = p
     \<and> ds_dealerIdx s = dealer \<and> ds_cards s = cards"

definition active_inv :: "(PeelMessage \<Rightarrow> bool) \<Rightarrow> DealSession \<Rightarrow> bool" where
  "active_inv ok s \<longleftrightarrow> ds_seq s \<noteq> seqIdle \<and> ds_jobKind s \<noteq> jobIdle \<and> ds_seqJobIdx s < length (ds_seqJobs s)
     \<and> ds_currentJob s = ds_seqJobs s ! ds_seqJobIdx s \<and> seq_wf s \<and> job_inv ok s"

definition ds_inv :: "(PeelMessage \<Rightarrow> bool) \<Rightarrow> (int \<Rightarrow> int \<Rightarrow> bool) \<Rightarrow> DealSession \<Rightarrow> bool" where
  "ds_inv ok D s \<longleftrightarrow> store_inv D 0 s
     \<and> (ds_seq s = seqIdle \<and> ds_jobKind s = jobIdle \<or> active_inv ok s)"

lemma rmap_mem: "rmap f xs = Inr ys \<Longrightarrow> y \<in> set ys \<Longrightarrow> \<exists>x\<in>set xs. f x = Inr y"
  by (fastforce simp: rmap_Inr list_all2_conv_all_nth in_set_conv_nth)

section \<open>Steps\<close>

text \<open>
  What can happen to a session: its operations, with any arguments; a received peel satisfies \<open>ok\<close>,
  and so does a peel made with the key of a seat that is gone.
\<close>

inductive ds_step :: "(PeelMessage \<Rightarrow> bool) \<Rightarrow> DealSession \<Rightarrow> DealSession \<Rightarrow> bool" for ok where
  holes: "BeginHoles rnd s = (r, s') \<Longrightarrow> ds_step ok s s'"
| street: "BeginStreet rnd street s = (r, s') \<Longrightarrow> ds_step ok s s'"
| reveal: "BeginReveal rnd pid s = (r, s') \<Longrightarrow> ds_step ok s s'"
| peel: "\<forall>m. mo = Some m \<longrightarrow> ok m \<Longrightarrow> HandlePeel rnd mo s = (r, s') \<Longrightarrow> ds_step ok s s'"
| behalf: "\<forall>pd m. Peel key (ds_current s) (ds_cardIndex s) pid (ds_sessionID s) draws = Inr pd
      \<and> PeelMessageFromPD (ds_handNum s) (Some pd) = Inr m \<longrightarrow> ok m
    \<Longrightarrow> PeelOnBehalf rnd draws pid key s = (r, s') \<Longrightarrow> ds_step ok s s'"
| outbound: "Outbound s = (ms, s') \<Longrightarrow> ds_step ok s s'"

inductive ds_reach :: "(PeelMessage \<Rightarrow> bool) \<Rightarrow> DealSession \<Rightarrow> DealSession \<Rightarrow> bool" for ok s0 where
  start: "ds_reach ok s0 s0"
| step: "ds_reach ok s0 s \<Longrightarrow> ds_step ok s s' \<Longrightarrow> ds_reach ok s0 s'"

section \<open>The contract\<close>

text \<open>Steps that only touch the peels of the current job.\<close>

definition peel_ext :: "DealSession \<Rightarrow> DealSession \<Rightarrow> bool" where
  "peel_ext s s' \<longleftrightarrow> (\<exists>a c n pe. s' = s\<lparr>ds_applied := a, ds_current := c, ds_nextPeel := n, ds_pending := pe\<rparr>)"

lemma peel_ext_refl [simp]: "peel_ext s s"
  unfolding peel_ext_def
  by (intro exI [of _ "ds_applied s"] exI [of _ "ds_current s"] exI [of _ "ds_nextPeel s"] exI [of _ "ds_pending s"]) simp

lemma peel_ext_apply: "peel_ext s (s\<lparr>ds_applied := a, ds_current := c, ds_nextPeel := n\<rparr>)"
  unfolding peel_ext_def by (intro exI [of _ a] exI [of _ c] exI [of _ n] exI [of _ "ds_pending s"]) simp

lemma peel_ext_pending: "peel_ext s (s\<lparr>ds_pending := pe\<rparr>)"
  unfolding peel_ext_def
  by (intro exI [of _ "ds_applied s"] exI [of _ "ds_current s"] exI [of _ "ds_nextPeel s"] exI [of _ pe]) simp

lemma peel_ext_trans: "peel_ext s t \<Longrightarrow> peel_ext t u \<Longrightarrow> peel_ext s u"
  unfolding peel_ext_def by fastforce

lemma peel_ext_frame:
  assumes "peel_ext s s'"
  shows "store_inv D e s' = store_inv D e s" and "seq_wf s' = seq_wf s" and "ds_table kr hand sid p dealer cards s' = ds_table kr hand sid p dealer cards s"
    and "ds_seq s' = ds_seq s" and "ds_jobKind s' = ds_jobKind s" and "ds_seqJobs s' = ds_seqJobs s"
    and "ds_seqJobIdx s' = ds_seqJobIdx s" and "ds_currentJob s' = ds_currentJob s"
    and "ds_peelers s' = ds_peelers s" and "ds_kr s' = ds_kr s"
  using assms
  by (auto simp: peel_ext_def store_inv_def seq_wf_def ds_table_def hole_slot_def holes_wf_def reveal_wf_def street_wf_def split: seqKind.splits)

lemma PeelOrder_Inr:
  "PeelOrder order r = Inr ps \<Longrightarrow> (r = [] \<longrightarrow> ps = order) \<and> (r \<noteq> [] \<longrightarrow> ps = filter (\<lambda>i. i \<noteq> r) order \<and> r \<in> set order)"
  by (auto simp: PeelOrder_def split: if_splits)

lemma PeelOrder_distinct: "PeelOrder order r = Inr ps \<Longrightarrow> distinct order \<Longrightarrow> distinct ps"
  using PeelOrder_Inr [of order r ps] by (cases "r = []") auto

lemma applyIncoming_cases:
  assumes a: "applyIncomingLocked m s = (r, s')" and d: "distinct (ds_peelers s)" and n: "ds_nextPeel s < length (ds_peelers s)"
    and m: "pm_PlayerID m = ds_peelers s ! ds_nextPeel s" and c: "ds_current s = Some c"
  shows "r \<noteq> None \<and> s' = s \<or> (\<exists>v. r = None \<and> pm_Ciphertext m = Some c \<and> pm_Result m = Some v
     \<and> pd_Verify (Some (peelMessageToPD m)) (ds_p s) (ds_sessionID s) = None
     \<and> s' = s\<lparr>ds_applied := (ds_applied s)(ds_nextPeel s \<mapsto> m), ds_current := Some v, ds_nextPeel := ds_nextPeel s + 1\<rparr>)"
proof -
  have seat: "peelerIndex (ds_peelers s) (pm_PlayerID m) = Some (ds_nextPeel s)"
    using seat_find_nth [OF d n, of 0] by (simp add: peelerIndex_def m)
  show ?thesis
  proof (cases "VerifyAndApply (Some c) (Some (peelMessageToPD m)) (ds_p s) (ds_sessionID s)")
    case (Inl e)
    then show ?thesis using a by (auto simp: applyIncomingLocked_def c)
  next
    case (Inr v)
    then have "pm_Ciphertext m = Some c \<and> pm_Result m = Some v \<and> pd_Verify (Some (peelMessageToPD m)) (ds_p s) (ds_sessionID s) = None"
      by (auto simp: VerifyAndApply_def peelMessageToPD_def split: option.splits if_splits)
    then show ?thesis using a Inr by (auto simp: applyIncomingLocked_def c seat)
  qed
qed

lemma pending_wf_mono:
  assumes "pending_wf ok s" "ds_pending t \<subseteq>\<^sub>m ds_pending s" "ds_peelers t = ds_peelers s" "ds_kr t = ds_kr s"
    "ds_handNum t = ds_handNum s" "ds_cardIndex t = ds_cardIndex s"
  shows "pending_wf ok t"
  unfolding pending_wf_def
proof (intro allI impI)
  fix i m assume "ds_pending t i = Some m"
  then have "ds_pending s i = Some m" using assms(2) by (force simp: map_le_def dom_def)
  then have "i < length (ds_peelers s) \<and> pm_PlayerID m = ds_peelers s ! i \<and> pm_PlayerID m \<noteq> kr_localID (ds_kr s)
      \<and> ds_fits s m \<and> ok m"
    using assms(1) unfolding pending_wf_def by blast
  moreover have "ds_fits t m = ds_fits s m" by (simp add: ds_fits_def assms)
  ultimately show "i < length (ds_peelers t) \<and> pm_PlayerID m = ds_peelers t ! i \<and> pm_PlayerID m \<noteq> kr_localID (ds_kr t)
      \<and> ds_fits t m \<and> ok m"
    unfolding assms(3,4) by blast
qed

lemma apply_job:
  assumes j: "job_inv ok s" and kr: "keyring_ok (ds_kr s)" and n: "ds_nextPeel s < length (ds_peelers s)"
    and m: "pm_PlayerID m = ds_peelers s ! ds_nextPeel s" "ds_fits s m" "ok m"
    and a: "applyIncomingLocked m s = (r, s')"
  shows "peel_ext s s' \<and> job_inv ok s' \<and> (if r = None then ds_nextPeel s' = ds_nextPeel s + 1 else s' = s)"
proof -
  obtain c ms where c: "ds_current s = Some c" "ds_applied s = (\<lambda>i. if i < ds_nextPeel s then Some (ms ! i) else None)"
    "map pm_PlayerID ms = take (ds_nextPeel s) (ds_peelers s)" "\<forall>m\<in>set ms. ds_fits s m"
    "peel_run ok (ds_p s) (ds_sessionID s) ms (the (ds_cards s ! nat (ds_cardIndex s))) c"
    and po: "PeelOrder (kr_order (ds_kr s)) (ds_recipient s) = Inr (ds_peelers s)"
    using j unfolding job_inv_def by blast
  have d: "distinct (ds_peelers s)" using PeelOrder_distinct [OF po] kr by (simp add: keyring_ok_def)
  from applyIncoming_cases [OF a d n m(1) c(1)] show ?thesis
  proof (elim disjE exE conjE)
    assume "r \<noteq> None" "s' = s"
    then show ?thesis using j by simp
  next
    fix v assume v: "r = None" "pm_Ciphertext m = Some c" "pm_Result m = Some v"
      "pd_Verify (Some (peelMessageToPD m)) (ds_p s) (ds_sessionID s) = None"
      and s': "s' = s\<lparr>ds_applied := (ds_applied s)(ds_nextPeel s \<mapsto> m), ds_current := Some v, ds_nextPeel := ds_nextPeel s + 1\<rparr>"
    have len: "length ms = ds_nextPeel s" using arg_cong [OF c(3), of length] n by simp
    have "ds_applied s' = (\<lambda>i. if i < ds_nextPeel s' then Some ((ms @ [m]) ! i) else None)"
      by (rule ext) (simp add: s' c(2) nth_append len)
    moreover have "map pm_PlayerID (ms @ [m]) = take (ds_nextPeel s') (ds_peelers s')"
      using n by (simp add: s' c(3) m(1) take_Suc_conv_app_nth)
    moreover have "peel_run ok (ds_p s') (ds_sessionID s') (ms @ [m]) (the (ds_cards s' ! nat (ds_cardIndex s'))) v"
      using c(5) v m(3) by (auto simp: s' peel_run_append)
    moreover have "\<forall>x\<in>set (ms @ [m]). ds_fits s' x" using c(4) m(2) by (auto simp: s' ds_fits_def)
    ultimately have ex: "\<exists>c ms. ds_current s' = Some c \<and> ds_applied s' = (\<lambda>i. if i < ds_nextPeel s' then Some (ms ! i) else None)
          \<and> map pm_PlayerID ms = take (ds_nextPeel s') (ds_peelers s') \<and> (\<forall>m\<in>set ms. ds_fits s' m)
          \<and> peel_run ok (ds_p s') (ds_sessionID s') ms (the (ds_cards s' ! nat (ds_cardIndex s'))) c"
      by (intro exI [of _ v] exI [of _ "ms @ [m]"]) (simp add: s')
    have rest: "pj_kind (ds_currentJob s') = ds_jobKind s' \<and> pj_cardIndex (ds_currentJob s') = ds_cardIndex s'
     \<and> pj_recipient (ds_currentJob s') = ds_recipient s' \<and> 0 \<le> ds_cardIndex s' \<and> nat (ds_cardIndex s') < length (ds_cards s')
     \<and> PeelOrder (kr_order (ds_kr s')) (ds_recipient s') = Inr (ds_peelers s') \<and> ds_nextPeel s' \<le> length (ds_peelers s')"
      using j n by (simp add: s' job_inv_def)
    have pend: "pending_wf ok s'"
      using j pending_wf_mono [of ok s s'] by (simp add: s' job_inv_def map_le_def)
    have "job_inv ok s'" unfolding job_inv_def using ex rest pend by blast
    moreover have "peel_ext s s'" by (simp add: s' peel_ext_apply)
    ultimately show ?thesis using v(1) by (simp add: s')
  qed
qed

lemma job_inv_pending: "job_inv ok s \<Longrightarrow> pending_wf ok (s\<lparr>ds_pending := pe\<rparr>) \<Longrightarrow> job_inv ok (s\<lparr>ds_pending := pe\<rparr>)"
  by (simp add: job_inv_def ds_fits_def)

lemma job_inv_drop: "job_inv ok s \<Longrightarrow> job_inv ok (s\<lparr>ds_pending := (ds_pending s)(i := None)\<rparr>)"
  using pending_wf_mono [of ok s "s\<lparr>ds_pending := (ds_pending s)(i := None)\<rparr>"]
  by (simp add: job_inv_def map_le_def ds_fits_def)

lemma drain_job:
  "job_inv ok s \<Longrightarrow> keyring_ok (ds_kr s) \<Longrightarrow> ds_drainPendingLocked s = (r, s') \<Longrightarrow> peel_ext s s' \<and> job_inv ok s'"
proof (induction s arbitrary: r s' rule: ds_drainPendingLocked.induct)
  case (1 s)
  let ?t = "s\<lparr>ds_pending := (ds_pending s)(ds_nextPeel s := None)\<rparr>"
  show ?case
  proof (cases "jobCompleteLocked s \<or> ds_peelers s ! ds_nextPeel s = kr_localID (ds_kr s) \<or> ds_pending s (ds_nextPeel s) = None")
    case True
    then have "s' = s" using "1.prems"(3) ds_drainPendingLocked.simps [of s] by (auto split: if_splits)
    then show ?thesis using "1.prems"(1) by simp
  next
    case False
    then obtain m where m: "ds_pending s (ds_nextPeel s) = Some m" by auto
    obtain r1 s1 where a: "applyIncomingLocked m ?t = (r1, s1)" by (cases "applyIncomingLocked m ?t") auto
    have d: "ds_drainPendingLocked s = (case (r1, s1) of (Some e, s') \<Rightarrow> (Some e, s') | (None, s') \<Rightarrow> ds_drainPendingLocked s')"
      using False m a by (simp add: ds_drainPendingLocked.simps [of s])
    have "ds_nextPeel s < length (ds_peelers s) \<and> pm_PlayerID m = ds_peelers s ! ds_nextPeel s \<and> ds_fits s m \<and> ok m"
      using "1.prems"(1) m unfolding job_inv_def pending_wf_def by blast
    then have ap: "peel_ext ?t s1 \<and> job_inv ok s1"
      using apply_job [OF job_inv_drop [OF "1.prems"(1)], of "ds_nextPeel s" m r1 s1] "1.prems"(2) a
      by (auto simp: ds_fits_def)
    then have e: "peel_ext s s1" using peel_ext_trans [OF peel_ext_pending] by blast
    show ?thesis
    proof (cases r1)
      case None
      have "keyring_ok (ds_kr s1)" using peel_ext_frame(10) [OF e] "1.prems"(2) by simp
      then have "peel_ext s1 s' \<and> job_inv ok s'"
        using False "1.prems"(3) d ap None by (intro "1.IH" [OF _ _ m a [symmetric] None]) auto
      then show ?thesis using peel_ext_trans [OF e] by blast
    next
      case (Some x)
      then show ?thesis using d "1.prems"(3) e ap by simp
    qed
  qed
qed

text \<open>What a completed job stores.\<close>

lemma store_decoded:
  "store_inv D e s \<Longrightarrow> D k v \<Longrightarrow> store_inv D e (s\<lparr>ds_decoded := (ds_decoded s)(k \<mapsto> v)\<rparr>)"
  unfolding store_inv_def hole_slot_def by simp

lemma store_local:
  "store_inv D e s \<Longrightarrow> r = 0 \<or> r = 1 \<Longrightarrow> D k v
     \<Longrightarrow> HoleCardIndex (int (length (kr_order (ds_kr s)))) (ds_dealerIdx s) (int (local_seat (ds_kr s))) r = Inr k
     \<Longrightarrow> store_inv D e (s\<lparr>ds_localHoles := set_round r (Some v) (ds_localHoles s)\<rparr>)"
  unfolding store_inv_def hole_slot_def set_round_def by auto

lemma store_reveal:
  assumes "store_inv D e s" "r = 0 \<or> r = 1" "D k v" "kr_SeatIndex (Some (ds_kr s)) pid = Some seat"
    and "HoleCardIndex (int (length (kr_order (ds_kr s)))) (ds_dealerIdx s) (int seat) r = Inr k"
  shows "store_inv D e (s\<lparr>ds_revealed := (ds_revealed s)(pid \<mapsto> set_round r (Some v)
    (case ds_revealed s pid of None \<Rightarrow> (None, None) | Some h \<Rightarrow> h))\<rparr>)"
proof -
  let ?h = "case ds_revealed s pid of None \<Rightarrow> (None, None) | Some h \<Rightarrow> h"
  have "hole_slot D s seat 0 (fst ?h) \<and> hole_slot D s seat 1 (snd ?h)"
  proof (cases "ds_revealed s pid")
    case None
    then show ?thesis by (simp add: hole_slot_def)
  next
    case (Some h)
    then obtain seat' where "kr_SeatIndex (Some (ds_kr s)) pid = Some seat'"
      "hole_slot D s seat' 0 (fst h)" "hole_slot D s seat' 1 (snd h)"
      using assms(1) unfolding store_inv_def by blast
    then show ?thesis using assms(4) Some by simp
  qed
  then have "hole_slot D s seat 0 (fst (set_round r (Some v) ?h)) \<and> hole_slot D s seat 1 (snd (set_round r (Some v) ?h))"
    using assms(2,3,5) unfolding hole_slot_def set_round_def by auto
  then show ?thesis using assms(1,4) unfolding store_inv_def hole_slot_def by simp
qed

lemma store_community:
  "store_inv D 0 s \<Longrightarrow> ds_seq s = seqStreet
     \<Longrightarrow> D (board_at (int (length (kr_order (ds_kr s)))) ! length (ds_community s)) v
     \<Longrightarrow> store_inv D 1 (s\<lparr>ds_community := ds_community s @ [Some v]\<rparr>)"
  unfolding store_inv_def hole_slot_def by (simp add: nth_append less_Suc_eq)

lemma store_other: "ds_seq s \<noteq> seqStreet \<Longrightarrow> store_inv D e s \<Longrightarrow> store_inv D e' s"
  unfolding store_inv_def by simp

lemma street_job:
  assumes "street_wf s" "i < length (ds_seqJobs s)"
  shows "ds_seqJobs s ! i = public_job (board_at (int (length (kr_order (ds_kr s)))) ! (street_count (ds_lastStreet s) + i)) 0"
    and "street_count (ds_lastStreet s) + i < 5"
    and "length (ds_seqJobs s) = street_count (ds_street s) - street_count (ds_lastStreet s)"
    and "street_count (ds_lastStreet s) \<le> street_count (ds_street s)"
proof -
  let ?b = "board_at (int (length (kr_order (ds_kr s))))" and ?a = "street_count (ds_lastStreet s)"
  have b: "length ?b = 5" by (simp add: board_at_def)
  have le: "?a \<le> street_count (ds_street s)" "street_count (ds_street s) \<le> 5"
    using assms(1) by (auto simp: street_wf_def street_count_def)
  have js: "ds_seqJobs s = map (\<lambda>i. public_job i 0) (take (street_count (ds_street s) - ?a) (drop ?a ?b))"
    using assms(1) by (simp add: street_wf_def)
  then have l: "length (ds_seqJobs s) = street_count (ds_street s) - ?a" using le b by simp
  show "ds_seqJobs s ! i = public_job (?b ! (?a + i)) 0" using assms(2) l le b by (simp add: js)
  show "?a + i < 5" using assms(2) l le by simp
  show "length (ds_seqJobs s) = street_count (ds_street s) - ?a" by (rule l)
  show "?a \<le> street_count (ds_street s)" by (rule le)
qed

lemma board_at_range: "i < 5 \<Longrightarrow> 0 \<le> n \<Longrightarrow> 0 \<le> board_at n ! i \<and> board_at n ! i < 2 * n + 8"
  unfolding board_at_def by (auto simp: less_Suc_eq numeral_eq_Suc)

text \<open>The positions of the jobs.\<close>

lemma job_complete_value:
  assumes "job_inv ok s" "jobCompleteLocked s"
  obtains c ms where "ds_current s = Some c" "map pm_PlayerID ms = ds_peelers s"
    "peel_run ok (ds_p s) (ds_sessionID s) ms (the (ds_cards s ! nat (ds_cardIndex s))) c"
proof -
  obtain c ms where "ds_current s = Some c" "map pm_PlayerID ms = take (ds_nextPeel s) (ds_peelers s)"
    "peel_run ok (ds_p s) (ds_sessionID s) ms (the (ds_cards s ! nat (ds_cardIndex s))) c"
    using assms(1) unfolding job_inv_def by blast
  moreover have "take (ds_nextPeel s) (ds_peelers s) = ds_peelers s" using assms(2) by (simp add: jobCompleteLocked_def)
  ultimately show thesis by (intro that) simp_all
qed

definition store_ext :: "DealSession \<Rightarrow> DealSession \<Rightarrow> bool" where
  "store_ext s s' \<longleftrightarrow> (\<exists>h d c r. s' = s\<lparr>ds_localHoles := h, ds_decoded := d, ds_community := c, ds_revealed := r\<rparr>)"

lemma store_extI:
  "store_ext s s" "store_ext s (s\<lparr>ds_localHoles := h, ds_decoded := d\<rparr>)" "store_ext s (s\<lparr>ds_decoded := d\<rparr>)"
  "store_ext s (s\<lparr>ds_decoded := d, ds_community := c\<rparr>)" "store_ext s (s\<lparr>ds_decoded := d, ds_revealed := r\<rparr>)"
proof -
  have *: "s' = s\<lparr>ds_localHoles := ds_localHoles s', ds_decoded := ds_decoded s', ds_community := ds_community s', ds_revealed := ds_revealed s'\<rparr>
      \<Longrightarrow> store_ext s s'" for s' unfolding store_ext_def by blast
  show "store_ext s s" "store_ext s (s\<lparr>ds_localHoles := h, ds_decoded := d\<rparr>)" "store_ext s (s\<lparr>ds_decoded := d\<rparr>)"
    "store_ext s (s\<lparr>ds_decoded := d, ds_community := c\<rparr>)" "store_ext s (s\<lparr>ds_decoded := d, ds_revealed := r\<rparr>)"
    by (rule *, simp)+
qed

lemma store_ext_frame:
  assumes "store_ext s s'"
  shows "seq_wf s' = seq_wf s" and "ds_table kr hand sid p dealer cards s' = ds_table kr hand sid p dealer cards s"
    and "ds_seq s' = ds_seq s" and "ds_jobKind s' = ds_jobKind s" and "ds_seqJobs s' = ds_seqJobs s"
    and "ds_seqJobIdx s' = ds_seqJobIdx s" and "ds_lastStreet s' = ds_lastStreet s" and "ds_street s' = ds_street s"
  using assms
  by (auto simp: store_ext_def seq_wf_def ds_table_def holes_wf_def reveal_wf_def street_wf_def split: seqKind.splits)

text \<open>The job of each kind of sequence.\<close>

lemma active_job:
  assumes "active_inv ok s"
  shows "ds_seq s = seqHoles \<Longrightarrow> holes_wf s (ds_currentJob s)"
    and "ds_seq s = seqReveal \<Longrightarrow> reveal_wf s (ds_currentJob s)"
    and "ds_seq s = seqStreet \<Longrightarrow> ds_currentJob s
       = public_job (board_at (int (length (kr_order (ds_kr s)))) ! (street_count (ds_lastStreet s) + ds_seqJobIdx s)) 0"
proof -
  have j: "ds_seqJobIdx s < length (ds_seqJobs s)" "ds_currentJob s = ds_seqJobs s ! ds_seqJobIdx s" and w: "seq_wf s"
    using assms unfolding active_inv_def by blast+
  then have m: "ds_currentJob s \<in> set (ds_seqJobs s)" by simp
  show "ds_seq s = seqHoles \<Longrightarrow> holes_wf s (ds_currentJob s)" "ds_seq s = seqReveal \<Longrightarrow> reveal_wf s (ds_currentJob s)"
    using w m unfolding seq_wf_def by auto
  show "ds_seq s = seqStreet \<Longrightarrow> ds_currentJob s
       = public_job (board_at (int (length (kr_order (ds_kr s)))) ! (street_count (ds_lastStreet s) + ds_seqJobIdx s)) 0"
    using w street_job(1) [OF _ j(1)] j(2) unfolding seq_wf_def by simp
qed

locale peel_table =
  fixes wf :: "'g \<Rightarrow> bool" and kr :: "'g \<Rightarrow> Keyring" and hand :: "'g \<Rightarrow> int" and sid :: "'g \<Rightarrow> byte list"
    and p :: "'g \<Rightarrow> int" and dealer :: "'g \<Rightarrow> int" and cards :: "'g \<Rightarrow> int option list"
    and ok :: "'g \<Rightarrow> PeelMessage \<Rightarrow> bool" and D :: "'g \<Rightarrow> int \<Rightarrow> int \<Rightarrow> bool"
  assumes keyring_wf: "wf g \<Longrightarrow> keyring_ok (kr g)"
    and dealer_wf: "wf g \<Longrightarrow> 0 \<le> dealer g \<and> dealer g < int (length (kr_order (kr g)))"
    and deck_wf: "wf g \<Longrightarrow> 2 * length (kr_order (kr g)) + 8 \<le> length (cards g) \<and> None \<notin> set (cards g)"
    and own_wf: "wf g \<Longrightarrow> Peel (LocalKey (Some (kr g))) (Some c) k (kr_localID (kr g)) (sid g) draws = Inr pd
      \<Longrightarrow> PeelMessageFromPD (hand g) (Some pd) = Inr m \<Longrightarrow> ok g m"
    and public_wf: "wf g \<Longrightarrow> 0 \<le> k \<Longrightarrow> nat k < length (cards g) \<Longrightarrow> peel_run (ok g) (p g) (sid g) ms (the (cards g ! nat k)) c
      \<Longrightarrow> map pm_PlayerID ms = kr_order (kr g) \<Longrightarrow> D g k c"
    and hole_wf: "wf g \<Longrightarrow> 0 \<le> k \<Longrightarrow> nat k < length (cards g) \<Longrightarrow> peel_run (ok g) (p g) (sid g) ms (the (cards g ! nat k)) c
      \<Longrightarrow> map pm_PlayerID ms = filter (\<lambda>i. i \<noteq> kr_localID (kr g)) (kr_order (kr g))
      \<Longrightarrow> Decrypt (LocalKey (Some (kr g))) (Some c) = Inr v \<Longrightarrow> D g k v"
begin

text \<open>A session at table \<open>g\<close>.\<close>

definition tab :: "'g \<Rightarrow> DealSession \<Rightarrow> bool" where
  "tab g s \<longleftrightarrow> wf g \<and> ds_table (kr g) (hand g) (sid g) (p g) (dealer g) (cards g) s"

lemma keyring: "tab g s \<Longrightarrow> keyring_ok (kr g)"
  by (simp add: tab_def keyring_wf)

lemma dealer: "tab g s \<Longrightarrow> 0 \<le> dealer g \<and> dealer g < int (length (kr_order (kr g)))"
  by (simp add: tab_def dealer_wf)

lemma deck: "tab g s \<Longrightarrow> 2 * length (kr_order (kr g)) + 8 \<le> length (cards g)" "tab g s \<Longrightarrow> None \<notin> set (cards g)"
  using deck_wf by (auto simp: tab_def)

lemma tab_wf: "tab g s \<Longrightarrow> wf g"
  by (simp add: tab_def)

lemma table_kr: "tab g s \<Longrightarrow> ds_kr s = kr g \<and> ds_handNum s = hand g
    \<and> ds_sessionID s = sid g \<and> ds_p s = p g \<and> ds_dealerIdx s = dealer g \<and> ds_cards s = cards g"
  by (simp add: tab_def ds_table_def)

text \<open>The value of a completed job is right for its position.\<close>

lemma public_value:
  assumes t: "tab g s" and j: "job_inv (ok g) s" and c: "jobCompleteLocked s"
    and "ds_recipient s = []"
  shows "\<exists>v. ds_current s = Some v \<and> (D g) (ds_cardIndex s) v"
proof -
  have i: "0 \<le> ds_cardIndex s" "nat (ds_cardIndex s) < length (ds_cards s)"
    and o: "PeelOrder (kr_order (ds_kr s)) (ds_recipient s) = Inr (ds_peelers s)" using j unfolding job_inv_def by blast+
  have "ds_peelers s = kr_order (kr g)" using PeelOrder_Inr [OF o] assms(4) table_kr [OF t] by simp
  with job_complete_value [OF j c] show ?thesis
    using public_wf [OF tab_wf [OF t], of "ds_cardIndex s"] i table_kr [OF t] by metis
qed

lemma hole_value:
  assumes t: "tab g s" and j: "job_inv (ok g) s" and c: "jobCompleteLocked s"
    and l: "ds_recipient s = kr_localID (kr g)" and d: "Decrypt (LocalKey (Some (kr g))) (ds_current s) = Inr v"
  shows "(D g) (ds_cardIndex s) v"
proof -
  have i: "0 \<le> ds_cardIndex s" "nat (ds_cardIndex s) < length (ds_cards s)"
    and o: "PeelOrder (kr_order (ds_kr s)) (ds_recipient s) = Inr (ds_peelers s)" using j unfolding job_inv_def by blast+
  have "kr_localID (kr g) \<noteq> []" using keyring [OF t] by (auto simp: keyring_ok_def)
  then have "ds_peelers s = filter (\<lambda>i. i \<noteq> kr_localID (kr g)) (kr_order (kr g))" using PeelOrder_Inr [OF o] l table_kr [OF t] by simp
  with job_complete_value [OF j c] show ?thesis
    using hole_wf [OF tab_wf [OF t], of "ds_cardIndex s"] i d table_kr [OF t] by metis
qed

lemma finish_store:
  assumes t: "tab g s" and st: "store_inv (D g) 0 s" and a: "active_inv (ok g) s"
    and c: "jobCompleteLocked s" and f: "finishJobLocked s = (r, s')"
  shows "r \<noteq> None \<and> s' = s \<or> r = None \<and> store_inv (D g) 1 s' \<and> store_ext s s'"
proof -
  have j: "job_inv (ok g) s" and seq: "ds_seq s \<noteq> seqIdle" using a unfolding active_inv_def by blast+
  have jf: "pj_kind (ds_currentJob s) = ds_jobKind s" "pj_cardIndex (ds_currentJob s) = ds_cardIndex s"
    "pj_recipient (ds_currentJob s) = ds_recipient s" using j unfolding job_inv_def by blast+
  note fr = table_kr [OF t]
  consider "ds_seq s = seqHoles" | "ds_seq s = seqStreet" | "ds_seq s = seqReveal" using seq by (cases "ds_seq s") auto
  then show ?thesis
  proof cases
    case 1
    obtain seat where w: "pj_kind (ds_currentJob s) = jobHole" "pj_round (ds_currentJob s) = 0 \<or> pj_round (ds_currentJob s) = 1"
      "seat < length (kr_order (kr g))" "pj_recipient (ds_currentJob s) = kr_order (kr g) ! seat"
      "HoleCardIndex (int (length (kr_order (kr g)))) (dealer g) (int seat) (pj_round (ds_currentJob s)) = Inr (pj_cardIndex (ds_currentJob s))"
      using active_job(1) [OF a 1] fr unfolding holes_wf_def by auto
    show ?thesis
    proof (cases "ds_recipient s = kr_localID (kr g)")
      case False
      then show ?thesis using f w(1) fr store_other [of s "D g" 0 1] st 1 by (simp add: finishJobLocked_def store_extI)
    next
      case True
      have seat: "local_seat (kr g) = seat"
        using SeatIndex_order [OF keyring [OF t] w(3)] w(4) jf(3) True by (simp add: local_seat_def)
      show ?thesis
      proof (cases "Decrypt (LocalKey (Some (kr g))) (ds_current s)")
        case (Inl e)
        then show ?thesis using f w(1) fr True by (auto simp: finishJobLocked_def)
      next
        case (Inr v)
        have v: "(D g) (ds_cardIndex s) v" by (rule hole_value [OF t j c True Inr])
        have s': "r = None" "s' = (s\<lparr>ds_localHoles := set_round (pj_round (ds_currentJob s)) (Some v) (ds_localHoles s)\<rparr>)
            \<lparr>ds_decoded := (ds_decoded s)(ds_cardIndex s \<mapsto> v)\<rparr>"
          using f w(1) fr True Inr jf by (simp_all add: finishJobLocked_def)
        have "store_inv (D g) 0 (s\<lparr>ds_localHoles := set_round (pj_round (ds_currentJob s)) (Some v) (ds_localHoles s)\<rparr>)"
          using store_local [OF st w(2) v] w(5) seat fr jf(2) by simp
        from store_decoded [OF this v] have "store_inv (D g) 0 s'" by (simp add: s'(2))
        then have "store_inv (D g) 1 s'" using store_other [of s' "D g" 0 1] 1 by (simp add: s'(2))
        then show ?thesis using store_extI(2) by (simp add: s')
      qed
    qed
  next
    case 2
    note w = active_job(3) [OF a 2]
    have rec: "ds_recipient s = []" and idx: "ds_cardIndex s = board_at (int (length (kr_order (kr g)))) ! (street_count (ds_lastStreet s) + ds_seqJobIdx s)"
      and k: "ds_jobKind s = jobPublic" using jf fr by (simp_all add: w public_job_def)
    obtain v where v: "ds_current s = Some v" "(D g) (ds_cardIndex s) v" using public_value [OF t j c rec] by blast
    have len: "length (ds_community s) = street_count (ds_lastStreet s) + ds_seqJobIdx s" using st 2 unfolding store_inv_def by simp
    let ?s1 = "s\<lparr>ds_decoded := (ds_decoded s)(ds_cardIndex s \<mapsto> v)\<rparr>"
    have s': "r = None" "s' = ?s1\<lparr>ds_community := ds_community s @ [Some v]\<rparr>"
      using f k 2 jf v by (simp_all add: finishJobLocked_def Let_def)
    have "store_inv (D g) 1 (?s1\<lparr>ds_community := ds_community ?s1 @ [Some v]\<rparr>)"
      by (rule store_community [OF store_decoded [OF st v(2)]]) (use 2 len idx fr v in simp_all)
    then show ?thesis using store_extI(4) by (simp add: s')
  next
    case 3
    obtain seat where w: "pj_kind (ds_currentJob s) = jobPublic" "pj_recipient (ds_currentJob s) = []"
      "pj_round (ds_currentJob s) = 0 \<or> pj_round (ds_currentJob s) = 1" "kr_SeatIndex (Some (kr g)) (ds_revealID s) = Some seat"
      "HoleCardIndex (int (length (kr_order (kr g)))) (dealer g) (int seat) (pj_round (ds_currentJob s)) = Inr (pj_cardIndex (ds_currentJob s))"
      using active_job(2) [OF a 3] fr unfolding reveal_wf_def by auto
    obtain v where v: "ds_current s = Some v" "(D g) (ds_cardIndex s) v" using public_value [OF t j c] jf(3) w(2) by auto
    let ?s1 = "s\<lparr>ds_decoded := (ds_decoded s)(ds_cardIndex s \<mapsto> v)\<rparr>"
    have s': "r = None" "s' = ?s1\<lparr>ds_revealed := (ds_revealed ?s1)(ds_revealID s \<mapsto> set_round (pj_round (ds_currentJob s)) (Some v)
        (case ds_revealed ?s1 (ds_revealID s) of None \<Rightarrow> (None, None) | Some h \<Rightarrow> h))\<rparr>"
      using f w(1) 3 jf v by (simp_all add: finishJobLocked_def Let_def)
    have "store_inv (D g) 0 s'" unfolding s'
      by (rule store_reveal [OF store_decoded [OF st v(2)] w(3) v(2)]) (use w fr jf in simp_all)
    then have "store_inv (D g) 1 s'" using store_other [of s' "D g" 0 1] 3 by (simp add: s'(2))
    then show ?thesis using store_extI(5) by (simp add: s')
  qed
qed

text \<open>A new job can always be installed.\<close>

lemma seq_job:
  assumes t: "tab g s" and w: "seq_wf s" and i: "i < length (ds_seqJobs s)" and q: "ds_seq s \<noteq> seqIdle"
  shows "pj_kind (ds_seqJobs s ! i) \<noteq> jobIdle \<and> 0 \<le> pj_cardIndex (ds_seqJobs s ! i)
    \<and> nat (pj_cardIndex (ds_seqJobs s ! i)) < length (cards g)
    \<and> (pj_recipient (ds_seqJobs s ! i) = [] \<or> pj_recipient (ds_seqJobs s ! i) \<in> set (kr_order (kr g)))"
proof -
  let ?j = "ds_seqJobs s ! i" and ?n = "int (length (kr_order (kr g)))"
  note fr = table_kr [OF t]
  have m: "?j \<in> set (ds_seqJobs s)" using i by simp
  have hole: "0 \<le> k \<and> nat k < length (cards g)" if "HoleCardIndex ?n (dealer g) x r = Inr k" for x r k
    using HoleCardIndex_range [OF that] deck(1) [OF t] by linarith
  consider "ds_seq s = seqHoles" | "ds_seq s = seqStreet" | "ds_seq s = seqReveal" using q by (cases "ds_seq s") auto
  then show ?thesis
  proof cases
    case 1
    then have "holes_wf s ?j" using w m unfolding seq_wf_def by simp
    then show ?thesis using hole fr unfolding holes_wf_def by auto
  next
    case 2
    then have st: "street_wf s" using w unfolding seq_wf_def by simp
    have "0 \<le> pj_cardIndex ?j \<and> pj_cardIndex ?j < 2 * ?n + 8"
      using street_job(1,2) [OF st i] board_at_range fr by (simp add: public_job_def)
    moreover from this have "nat (pj_cardIndex ?j) < length (cards g)" using deck(1) [OF t] by linarith
    ultimately show ?thesis using street_job(1) [OF st i] by (simp add: public_job_def)
  next
    case 3
    then have "reveal_wf s ?j" using w m unfolding seq_wf_def by simp
    then show ?thesis using hole fr unfolding reveal_wf_def by auto
  qed
qed

lemma install_job:
  assumes t: "tab g s" and st: "store_inv (D g) 0 s" and w: "seq_wf s"
    and i: "ds_seqJobIdx s < length (ds_seqJobs s)" and q: "ds_seq s \<noteq> seqIdle"
  shows "\<exists>s'. installJobLocked (ds_seqJobs s ! ds_seqJobIdx s) s = (None, s') \<and> tab g s'
    \<and> store_inv (D g) 0 s' \<and> active_inv (ok g) s'"
proof -
  let ?j = "ds_seqJobs s ! ds_seqJobIdx s"
  note fr = table_kr [OF t] and j = seq_job [OF t w i q]
  have k: "keyring_ok (kr g)" by (rule keyring [OF t])
  then have o: "kr_order (kr g) \<noteq> []" "distinct (kr_order (kr g))" "2 \<le> length (kr_order (kr g))" by (auto simp: keyring_ok_def)
  obtain ps where ps: "PeelOrder (kr_order (kr g)) (pj_recipient ?j) = Inr ps" "ps \<noteq> []"
  proof (cases "pj_recipient ?j = []")
    case True
    then show thesis using that [of "kr_order (kr g)"] o(1) by (simp add: PeelOrder_def)
  next
    case False
    then have "filter (\<lambda>i. i \<noteq> pj_recipient ?j) (kr_order (kr g)) \<noteq> []"
      using o by (cases "kr_order (kr g)"; cases "tl (kr_order (kr g))") (auto split: if_splits)
    then show thesis using that [of "filter (\<lambda>i. i \<noteq> pj_recipient ?j) (kr_order (kr g))"] False j by (auto simp: PeelOrder_def)
  qed
  let ?s' = "s\<lparr>ds_jobKind := pj_kind ?j, ds_cardIndex := pj_cardIndex ?j, ds_recipient := pj_recipient ?j,
     ds_peelers := ps, ds_nextPeel := 0, ds_current := ds_cards s ! nat (pj_cardIndex ?j),
     ds_pending := Map.empty, ds_applied := Map.empty, ds_currentJob := ?j\<rparr>"
  have inst: "installJobLocked ?j s = (None, ?s')"
    using ps j fr by (auto simp: installJobLocked_def SeatOrder_def)
  obtain c where c: "(cards g) ! nat (pj_cardIndex ?j) = Some c" using deck(2) [OF t] j nth_mem by (metis not_Some_eq)
  have "\<exists>c ms. ds_current ?s' = Some c \<and> ds_applied ?s' = (\<lambda>i. if i < ds_nextPeel ?s' then Some (ms ! i) else None)
          \<and> map pm_PlayerID ms = take (ds_nextPeel ?s') (ds_peelers ?s') \<and> (\<forall>m\<in>set ms. ds_fits ?s' m)
          \<and> peel_run (ok g) (ds_p ?s') (ds_sessionID ?s') ms (the (ds_cards ?s' ! nat (ds_cardIndex ?s'))) c"
    by (intro exI [of _ c] exI [of _ "[]"]) (simp add: fr c)
  then have "job_inv (ok g) ?s'" unfolding job_inv_def using ps(1) j fr by (simp add: pending_wf_def)
  moreover have "seq_wf ?s' = seq_wf s"
    by (auto simp: seq_wf_def holes_wf_def reveal_wf_def street_wf_def split: seqKind.splits)
  ultimately have "active_inv (ok g) ?s'" unfolding active_inv_def using w i q j by simp
  moreover have "store_inv (D g) 0 ?s'" using st unfolding store_inv_def hole_slot_def by simp
  moreover have "tab g ?s'" using t by (simp add: tab_def ds_table_def)
  ultimately show ?thesis using inst by blast
qed

text \<open>A peel of this node fits the job.\<close>

lemma own_fits:
  assumes t: "tab g s" and c: "ds_current s = Some c"
    and pd: "Peel key (Some c) (ds_cardIndex s) pid (sid g) draws = Inr pd"
    and m: "PeelMessageFromPD (ds_handNum s) (Some pd) = Inr m"
  shows "pm_PlayerID m = pid \<and> ds_fits s m \<and> pm_Ciphertext m = Some c"
  using pd m by (auto simp: Peel_def PeelMessageFromPD_def ds_fits_def rbind_Inr split: option.splits if_splits)

lemma apply_step:
  assumes t: "tab g s" and st: "store_inv (D g) 0 s" and a: "active_inv (ok g) s"
    and n: "ds_nextPeel s < length (ds_peelers s)" and m: "pm_PlayerID m = ds_peelers s ! ds_nextPeel s" "ds_fits s m" "(ok g) m"
    and ap: "applyIncomingLocked m s = (r, s')"
  shows "tab g s' \<and> store_inv (D g) 0 s' \<and> active_inv (ok g) s'"
proof -
  have j: "job_inv (ok g) s" using a unfolding active_inv_def by blast
  have e: "peel_ext s s' \<and> job_inv (ok g) s'" using apply_job [OF j _ n m ap] table_kr [OF t] keyring [OF t] by simp
  note f = peel_ext_frame [OF conjunct1 [OF e]]
  show ?thesis using t st a e unfolding active_inv_def tab_def by (simp add: f)
qed

lemma advance_end:
  assumes t: "tab g s" and st: "store_inv (D g) 1 s" and w: "seq_wf s"
    and i: "ds_seqJobIdx s + 1 = length (ds_seqJobs s)" and adv: "advanceSequenceLocked rnd s = (r, s')"
  shows "tab g s' \<and> ds_inv (ok g) (D g) s'"
proof (cases "ds_seq s = seqStreet")
  case False
  have f: "ds_kr s' = ds_kr s" "ds_handNum s' = ds_handNum s" "ds_sessionID s' = ds_sessionID s" "ds_p s' = ds_p s"
    "ds_dealerIdx s' = ds_dealerIdx s" "ds_cards s' = ds_cards s" "ds_decoded s' = ds_decoded s" "ds_localHoles s' = ds_localHoles s"
    "ds_revealed s' = ds_revealed s" "ds_lastStreet s' = ds_lastStreet s" "ds_community s' = ds_community s"
    "ds_seq s' = seqIdle" "ds_jobKind s' = jobIdle"
    using adv i False by (cases "ds_seq s"; auto simp: advanceSequenceLocked.simps Let_def)+
  have "store_inv (D g) 0 s'" using st False unfolding store_inv_def hole_slot_def by (simp add: f)
  then show ?thesis using t unfolding ds_inv_def tab_def ds_table_def by (simp add: f)
next
  case True
  then have sw: "street_wf s" using w unfolding seq_wf_def by simp
  have s': "s' = s\<lparr>ds_seqJobIdx := ds_seqJobIdx s + 1, ds_streetDone := True, ds_lastStreet := ds_street s,
      ds_seq := seqIdle, ds_jobKind := jobIdle\<rparr>"
    using adv i True by (simp add: advanceSequenceLocked.simps Let_def)
  have "length (ds_community s) = street_count (ds_street s)" "ds_street s = ds_lastStreet s + 1" "ds_lastStreet s < 3"
  proof -
    have l: "ds_seqJobIdx s < length (ds_seqJobs s)" using i by simp
    show "length (ds_community s) = street_count (ds_street s)"
      using st True i street_job(3,4) [OF sw l] unfolding store_inv_def by simp
    show e: "ds_street s = ds_lastStreet s + 1" using sw unfolding street_wf_def by simp
    show "ds_lastStreet s < 3" using street_job(2) [OF sw l] by (auto simp: street_count_def split: if_splits)
  qed
  then have "store_inv (D g) 0 s'" using st unfolding store_inv_def hole_slot_def by (simp add: s')
  moreover have "tab g s'" using t by (simp add: tab_def ds_table_def s')
  ultimately show ?thesis unfolding ds_inv_def by (simp add: s')
qed

lemma ds_inv_outbound [simp]: "ds_inv (ok g) (D g) (s\<lparr>ds_outbound := x\<rparr>) = ds_inv (ok g) (D g) s"
  unfolding ds_inv_def active_inv_def store_inv_def hole_slot_def seq_wf_def holes_wf_def reveal_wf_def street_wf_def
    job_inv_def pending_wf_def ds_fits_def by (simp cong: seqKind.case_cong)

lemma table_outbound [simp]:
  "tab g (s\<lparr>ds_outbound := x\<rparr>) = tab g s"
  by (simp add: tab_def ds_table_def)

definition busy :: "'g \<Rightarrow> DealSession \<Rightarrow> bool" where
  "busy g s \<longleftrightarrow> tab g s \<and> store_inv (D g) 0 s \<and> active_inv (ok g) s"

definition good :: "'g \<Rightarrow> DealSession \<Rightarrow> bool" where
  "good g s \<longleftrightarrow> tab g s \<and> ds_inv (ok g) (D g) s"

lemma busy_good: "busy g s \<Longrightarrow> good g s"
  unfolding busy_def good_def ds_inv_def by blast

lemma good_outbound [simp]: "good g (s\<lparr>ds_outbound := x\<rparr>) = good g s"
  by (simp add: good_def)

lemma loop_good:
  "busy g s \<Longrightarrow> ds_afterApplyLocked rnd s = (r, s') \<Longrightarrow> good g s'"
  "busy g s \<Longrightarrow> ds_executeLocalLocked rnd s = (r, s') \<Longrightarrow> good g s'"
  "tab g s \<Longrightarrow> store_inv (D g) 1 s \<Longrightarrow> seq_wf s \<Longrightarrow> ds_seq s \<noteq> seqIdle
     \<Longrightarrow> ds_seqJobIdx s < length (ds_seqJobs s) \<Longrightarrow> advanceSequenceLocked rnd s = (r, s') \<Longrightarrow> good g s'"
proof (induction rnd s and rnd s and rnd s arbitrary: r s' and r s' and r s'
    rule: ds_afterApplyLocked_ds_executeLocalLocked_advanceSequenceLocked.induct)
  case (1 rnd s)
  obtain r1 s1 where d: "ds_drainPendingLocked s = (r1, s1)" by (cases "ds_drainPendingLocked s") auto
  have b: "busy g s1"
  proof -
    have a: "tab g s" "store_inv (D g) 0 s" "active_inv (ok g) s" using "1.prems"(1) unfolding busy_def by blast+
    have e: "peel_ext s s1 \<and> job_inv (ok g) s1"
      using drain_job [OF _ _ d, of "ok g"] a(3) table_kr [OF a(1)] keyring [OF a(1)] unfolding active_inv_def by simp
    note f = peel_ext_frame [OF conjunct1 [OF e]]
    show ?thesis using a e unfolding busy_def active_inv_def tab_def by (simp add: f)
  qed
  show ?case
  proof (cases "r1 = None")
    case False
    then show ?thesis using busy_good [OF b] "1.prems"(2) d by (auto simp: ds_afterApplyLocked.simps [of rnd s])
  next
    case r1: True
    show ?thesis
    proof (cases "jobCompleteLocked s1")
      case True
      obtain r2 s2 where f: "finishJobLocked s1 = (r2, s2)" by (cases "finishJobLocked s1") auto
      have b1: "tab g s1" "store_inv (D g) 0 s1" "active_inv (ok g) s1" using b unfolding busy_def by blast+
      from finish_store [OF b1 True f] show ?thesis
      proof (elim disjE conjE)
        assume "r2 \<noteq> None" "s2 = s1"
        then show ?thesis using busy_good [OF b] "1.prems"(2) d r1 True f by (auto simp: ds_afterApplyLocked.simps [of rnd s])
      next
        assume r2: "r2 = None" and st: "store_inv (D g) 1 s2" and e: "store_ext s1 s2"
        have adv: "advanceSequenceLocked rnd s2 = (r, s')"
          using "1.prems"(2) d r1 True f r2 by (simp add: ds_afterApplyLocked.simps [of rnd s])
        show ?thesis
          by (rule "1.IH"(1) [OF d [symmetric] r1 True f [symmetric] r2 _ st _ _ _ adv])
            (use b1 in \<open>auto simp: store_ext_frame [OF e] active_inv_def tab_def\<close>)
      qed
    next
      case False
      show ?thesis
      proof (cases "ds_peelers s1 ! ds_nextPeel s1 = kr_localID (ds_kr s1)")
        case True
        have "ds_executeLocalLocked rnd s1 = (r, s')"
          using "1.prems"(2) d r1 False True by (simp add: ds_afterApplyLocked.simps [of rnd s])
        then show ?thesis by (rule "1.IH"(2) [OF d [symmetric] r1 False True b])
      next
        case nl: False
        then show ?thesis using busy_good [OF b] "1.prems"(2) d r1 False by (simp add: ds_afterApplyLocked.simps [of rnd s])
      qed
    qed
  qed
next
  case (2 rnd s)
  show ?case
  proof (cases "jobCompleteLocked s \<or> ds_peelers s ! ds_nextPeel s \<noteq> kr_localID (ds_kr s)")
    case True
    then show ?thesis using busy_good [OF "2.prems"(1)] "2.prems"(2) by (auto simp: ds_executeLocalLocked.simps [of rnd s] split: if_splits)
  next
    case turn: False
    have a: "tab g s" "store_inv (D g) 0 s" "active_inv (ok g) s" using "2.prems"(1) unfolding busy_def by blast+
    note fr = table_kr [OF a(1)]
    obtain c where c: "ds_current s = Some c" using a(3) unfolding active_inv_def job_inv_def by blast
    show ?thesis
    proof (cases "Peel (LocalKey (Some (ds_kr s))) (ds_current s) (ds_cardIndex s) (kr_localID (ds_kr s)) (ds_sessionID s) (rnd (ds_cardIndex s))")
      case (Inl e)
      then show ?thesis using busy_good [OF "2.prems"(1)] "2.prems"(2) turn by (simp add: ds_executeLocalLocked.simps [of rnd s])
    next
      case pd: (Inr pd)
      show ?thesis
      proof (cases "PeelMessageFromPD (ds_handNum s) (Some pd)")
        case (Inl e)
        then show ?thesis using busy_good [OF "2.prems"(1)] "2.prems"(2) turn pd by (simp add: ds_executeLocalLocked.simps [of rnd s])
      next
        case m: (Inr m)
        have okm: "(ok g) m" using own_wf [OF tab_wf [OF a(1)], of c "ds_cardIndex s" "rnd (ds_cardIndex s)" pd m] pd m fr c by simp
        have fits: "pm_PlayerID m = kr_localID (kr g) \<and> ds_fits s m \<and> pm_Ciphertext m = Some c"
          by (rule own_fits [OF a(1) c _ m]) (use pd fr c in simp)
        obtain r1 s1 where ap: "applyIncomingLocked m s = (r1, s1)" by (cases "applyIncomingLocked m s") auto
        have b1: "busy g s1" unfolding busy_def
          by (rule apply_step [OF a _ _ _ okm ap]) (use turn fits fr in \<open>auto simp: jobCompleteLocked_def\<close>)
        show ?thesis
        proof (cases r1)
          case (Some e)
          then show ?thesis using busy_good [OF b1] "2.prems"(2) turn pd m ap by (simp add: ds_executeLocalLocked.simps [of rnd s])
        next
          case r1: None
          obtain r2 s2 where af: "ds_afterApplyLocked rnd s1 = (r2, s2)" by (cases "ds_afterApplyLocked rnd s1") auto
          have g: "good g s2" by (rule "2.IH" [OF _ _ pd m ap [symmetric] r1 b1 af]) (use turn in auto)
          show ?thesis using "2.prems"(2) turn pd m ap r1 af g
            by (cases r2) (auto simp: ds_executeLocalLocked.simps [of rnd s])
        qed
      qed
    qed
  qed
next
  case (3 rnd s)
  show ?case
  proof (cases "ds_seqJobIdx s + 1 \<ge> length (ds_seqJobs s)")
    case True
    then show ?thesis using advance_end [OF "3.prems"(1,2,3) _ "3.prems"(6)] "3.prems"(5) unfolding good_def by simp
  next
    case False
    let ?t = "s\<lparr>ds_seqJobIdx := ds_seqJobIdx s + 1\<rparr>"
    have st: "store_inv (D g) 0 ?t" using "3.prems"(2) unfolding store_inv_def hole_slot_def by (simp cong: if_cong)
    have w: "seq_wf ?t" using "3.prems"(3)
      by (auto simp: seq_wf_def holes_wf_def reveal_wf_def street_wf_def split: seqKind.splits)
    obtain s1 where i: "installJobLocked (ds_seqJobs s ! (ds_seqJobIdx s + 1)) ?t = (None, s1)" and b: "busy g s1"
      using install_job [OF _ st w] "3.prems"(1,4) False unfolding busy_def by (auto simp: tab_def ds_table_def)
    show ?thesis
    proof (cases "ds_peelers s1 ! 0 = kr_localID (ds_kr s1)")
      case True
      have "ds_executeLocalLocked rnd s1 = (r, s')" using "3.prems"(6) False i True by (simp add: advanceSequenceLocked.simps [of rnd s])
      then show ?thesis by (rule "3.IH" [OF False i [symmetric] refl True b])
    next
      case nl: False
      then show ?thesis using busy_good [OF b] "3.prems"(6) False i by (simp add: advanceSequenceLocked.simps [of rnd s])
    qed
  qed
qed

lemma start_good:
  assumes t: "tab g s" and st: "store_inv (D g) 0 s" and q: "ds_seq s = seqIdle" "ds_jobKind s = jobIdle"
    and k: "kind \<noteq> seqIdle" and w: "jobs \<noteq> [] \<Longrightarrow> seq_wf (s\<lparr>ds_seq := kind, ds_seqJobs := jobs, ds_seqJobIdx := 0, ds_street := street, ds_revealID := rid\<rparr>)"
    and op: "startSequenceLocked rnd kind jobs street rid s = (r, s')"
  shows "good g s'"
proof (cases "jobs = []")
  case True
  then show ?thesis using op t st q by (auto simp: startSequenceLocked_def good_def ds_inv_def)
next
  case False
  let ?t = "s\<lparr>ds_seq := kind, ds_seqJobs := jobs, ds_seqJobIdx := 0, ds_street := street, ds_revealID := rid\<rparr>"
  have "tab g ?t" using t by (simp add: tab_def ds_table_def)
  moreover have "store_inv (D g) 0 ?t" using st q unfolding store_inv_def hole_slot_def by (simp cong: if_cong)
  ultimately obtain s1 where i: "installJobLocked (hd jobs) ?t = (None, s1)" and b: "busy g s1"
    using install_job [where s = ?t] w [OF False] False k unfolding busy_def by (auto simp: hd_conv_nth)
  have "startCurrentJobLocked rnd s1 = (r, s')" using op False i by (simp add: startSequenceLocked_def Let_def)
  then show ?thesis using loop_good(2) [OF b] busy_good [OF b] by (auto simp: startCurrentJobLocked_def split: if_splits)
qed

lemma good_idle:
  "good g s \<Longrightarrow> ds_seq s = seqIdle \<Longrightarrow> tab g s \<and> store_inv (D g) 0 s \<and> ds_jobKind s = jobIdle"
  unfolding good_def ds_inv_def active_inv_def by blast

lemma good_busy: "good g s \<Longrightarrow> ds_seq s \<noteq> seqIdle \<Longrightarrow> busy g s"
  unfolding good_def ds_inv_def busy_def by blast

lemma hole_jobs_wf:
  assumes "hole_jobs (kr_order (kr g)) (dealer g) = Inr jobs" and wf: "wf g" and "ds_kr s = kr g" "ds_dealerIdx s = dealer g" and "j \<in> set jobs"
  shows "holes_wf s j"
proof -
  let ?n = "int (length (kr_order (kr g)))"
  have n: "2 \<le> ?n" using keyring_wf [OF wf] by (simp add: keyring_ok_def)
  obtain x where x: "x \<in> set (deal_walk ?n (dealer g))"
    "(\<lambda>(playerIdx, round). rbind (HoleCardIndex ?n (dealer g) playerIdx (int round)) (\<lambda>idx.
       Inr (hole_job idx (kr_order (kr g) ! nat playerIdx) (int round)))) x = Inr j"
    using rmap_mem [OF _ assms(5)] assms(1) unfolding hole_jobs_def Let_def by blast
  obtain pi rd where xp: "x = (pi, rd)" by (cases x)
  have range: "0 \<le> pi" "pi < ?n" "rd = 0 \<or> rd = 1" using deal_walk_range [OF _ _ x(1)] n dealer_wf [OF wf] by (auto simp: xp)
  then show ?thesis using x(2) assms(3,4) unfolding holes_wf_def
    by (auto simp: xp rbind_Inr hole_job_def nat_less_iff intro!: exI [of _ "nat pi"])
qed

lemma BeginHoles_good:
  assumes g: "good g s" and op: "BeginHoles rnd s = (r, s')"
  shows "good g s'"
proof (cases "ds_seq s \<noteq> seqIdle \<or> ds_holesStarted s \<or> ds_holesDone s")
  case True
  then show ?thesis using g op by (auto simp: BeginHoles_def split: if_splits)
next
  case False
  note i = good_idle [OF g]
  have t: "tab g s" using i False by blast
  let ?s = "s\<lparr>ds_holesStarted := True\<rparr>"
  show ?thesis
  proof (cases "hole_jobs (kr_order (kr g)) (dealer g)")
    case (Inl e)
    then show ?thesis using g op False table_kr [OF t] by (simp add: BeginHoles_def SeatOrder_def)
  next
    case (Inr jobs)
    have op': "startSequenceLocked rnd seqHoles jobs StreetNone [] ?s = (r, s')"
      using Inr op False table_kr [OF t] by (simp add: BeginHoles_def SeatOrder_def)
    show ?thesis
      by (rule start_good [OF _ _ _ _ _ _ op'])
        (use i False hole_jobs_wf [OF Inr tab_wf [OF t]] table_kr [OF t] in
          \<open>auto simp: tab_def ds_table_def store_inv_def hole_slot_def seq_wf_def holes_wf_def cong: if_cong\<close>)
  qed
qed

lemma street_jobs_wf:
  assumes j: "street_jobs (int (length (kr_order (kr g)))) (ds_lastStreet s + 1) = Inr jobs" and "ds_kr s = kr g" and "0 \<le> ds_lastStreet s"
  shows "street_wf (s\<lparr>ds_street := ds_lastStreet s + 1, ds_seqJobs := jobs\<rparr>)"
proof -
  have "ds_lastStreet s = 0 \<or> ds_lastStreet s = 1 \<or> ds_lastStreet s = 2"
    using j assms(3) by (auto simp: street_jobs_def split: if_splits)
  then show ?thesis using j assms(2)
    by (elim disjE) (auto simp: street_jobs_def street_wf_def street_count_def board_at_def rbind_Inr
        FlopIndexes_def TurnIndex_def RiverIndex_def CommunityStartPos_def Let_def split: if_splits)
qed

lemma BeginStreet_good:
  assumes g: "good g s" and op: "BeginStreet rnd street s = (r, s')"
  shows "good g s'"
proof (cases "ds_seq s \<noteq> seqIdle \<or> \<not> ds_holesDone s \<or> street \<noteq> ds_lastStreet s + 1")
  case True
  then show ?thesis using g op by (auto simp: BeginStreet_def split: if_splits)
next
  case False
  have i: "tab g s" "store_inv (D g) 0 s" "ds_jobKind s = jobIdle" using good_idle [OF g] False by blast+
  note fr = table_kr [OF i(1)]
  have ls: "0 \<le> ds_lastStreet s" using i(2) unfolding store_inv_def by blast
  let ?s = "s\<lparr>ds_streetDone := False\<rparr>"
  show ?thesis
  proof (cases "street_jobs (int (length (kr_order (kr g)))) street")
    case (Inl e)
    then show ?thesis using g op False fr by (simp add: BeginStreet_def Len_def)
  next
    case (Inr jobs)
    have op': "startSequenceLocked rnd seqStreet jobs street [] ?s = (r, s')"
      using Inr op False fr by (simp add: BeginStreet_def Len_def)
    have "street_wf (?s\<lparr>ds_street := ds_lastStreet s + 1, ds_seqJobs := jobs\<rparr>)"
      using street_jobs_wf [where s = ?s and jobs = jobs] Inr False fr ls by simp
    then show ?thesis
      by (intro start_good [OF _ _ _ _ _ _ op'])
        (use i False in \<open>auto simp: tab_def ds_table_def store_inv_def hole_slot_def seq_wf_def street_wf_def cong: if_cong\<close>)
  qed
qed

lemma BeginReveal_good:
  assumes g: "good g s" and op: "BeginReveal rnd pid s = (r, s')"
  shows "good g s'"
proof (cases "ds_seq s = seqIdle")
  case False
  then show ?thesis using g op by (auto simp: BeginReveal_def)
next
  case True
  have i: "tab g s" "store_inv (D g) 0 s" "ds_jobKind s = jobIdle" using good_idle [OF g] True by blast+
  note fr = table_kr [OF i(1)]
  let ?s = "s\<lparr>ds_revealDone := False\<rparr>" and ?n = "int (length (kr_order (kr g)))"
  have "s' = s \<or> (\<exists>seat jobs. kr_SeatIndex (Some (kr g)) pid = Some seat \<and> reveal_jobs ?n (dealer g) (int seat) = Inr jobs
      \<and> startSequenceLocked rnd seqReveal jobs StreetNone pid ?s = (r, s'))"
    using op fr by (auto simp: BeginReveal_def Len_def split: if_splits option.splits sum.splits)
  then show ?thesis
  proof (elim disjE exE conjE)
    assume "s' = s"
    then show ?thesis using g by simp
  next
    fix seat jobs assume seat: "kr_SeatIndex (Some (kr g)) pid = Some seat" and jobs: "reveal_jobs ?n (dealer g) (int seat) = Inr jobs"
      and op': "startSequenceLocked rnd seqReveal jobs StreetNone pid ?s = (r, s')"
    have "pj_kind j = jobPublic \<and> pj_recipient j = [] \<and> (pj_round j = 0 \<or> pj_round j = 1)
        \<and> HoleCardIndex ?n (dealer g) (int seat) (pj_round j) = Inr (pj_cardIndex j)" if "j \<in> set jobs" for j
      using rmap_mem [OF jobs [unfolded reveal_jobs_def] that] by (auto simp: rbind_Inr public_job_def)
    then show ?thesis
      by (intro start_good [OF _ _ _ _ _ _ op'])
        (use i seat fr True in \<open>auto simp: tab_def ds_table_def store_inv_def hole_slot_def seq_wf_def reveal_wf_def cong: if_cong\<close>)
  qed
qed

lemma HandlePeel_good:
  assumes g: "good g s" and okm: "\<forall>m. mo = Some m \<longrightarrow> (ok g) m" and op: "HandlePeel rnd mo s = (r, s')"
  shows "good g s'"
proof (cases "ds_seq s = seqIdle \<or> ds_jobKind s = jobIdle \<or> ds_validateIncomingLocked s mo \<noteq> None")
  case True
  then show ?thesis using g op by (auto simp: HandlePeel_def split: if_splits option.splits)
next
  case False
  then have b: "busy g s" using good_busy [OF g] by blast
  have a: "tab g s" "store_inv (D g) 0 s" "active_inv (ok g) s" using b unfolding busy_def by blast+
  obtain m where mo: "mo = Some m" using False by (cases mo) (auto simp: ds_validateIncomingLocked_def)
  have m: "(ok g) m" "ds_fits s m" using okm False by (auto simp: mo ds_validateIncomingLocked_def ds_fits_def split: if_splits)
  show ?thesis
  proof (cases "peelerIndex (ds_peelers s) (pm_PlayerID m)")
    case None
    then show ?thesis using g op False by (simp add: HandlePeel_def mo Let_def)
  next
    case (Some seat)
    then have seat: "seat < length (ds_peelers s)" "pm_PlayerID m = ds_peelers s ! seat"
      using seat_find_Some [of "pm_PlayerID m" "ds_peelers s" 0 seat] by (simp_all add: peelerIndex_def)
    consider "s' = s"
      | r1 s1 where "seat = ds_nextPeel s" "applyIncomingLocked m s = (Some r1, s1)" "s' = s1"
      | s1 where "seat = ds_nextPeel s" "applyIncomingLocked m s = (None, s1)" "ds_afterApplyLocked rnd s1 = (r, s')"
      | "pm_PlayerID m \<noteq> kr_localID (ds_kr s)" "s' = s\<lparr>ds_pending := (ds_pending s)(seat \<mapsto> m)\<rparr>"
    proof (cases "seat = ds_nextPeel s")
      case True
      obtain r1 s1 where ap: "applyIncomingLocked m s = (r1, s1)" by (cases "applyIncomingLocked m s") auto
      have h: "HandlePeel rnd mo s = (if pm_PlayerID m = kr_localID (ds_kr s) then (Inl ErrLocalStep, s)
          else case (r1, s1) of (Some e, s1) \<Rightarrow> (Inl e, s1) | (None, s1) \<Rightarrow> ds_afterApplyLocked rnd s1)"
        using False Some True seat ap by (simp add: HandlePeel_def mo Let_def)
      show thesis
      proof (cases "pm_PlayerID m = kr_localID (ds_kr s)")
        case True
        then show thesis using h op that(1) by simp
      next
        case nl: False
        show thesis
        proof (cases r1)
          case None
          then show thesis using that(3) [OF True ap [unfolded None]] h op nl by simp
        next
          case (Some e)
          then show thesis using that(2) [OF True ap [unfolded Some]] h op nl by simp
        qed
      qed
    next
      case ne: False
      have h: "HandlePeel rnd mo s = (if seat < ds_nextPeel s then
             (case ds_applied s seat of
                Some prev \<Rightarrow> if peelMessagesEqual prev m then (Inr None, s) else (Inl ErrDuplicateStep, s)
              | None \<Rightarrow> (Inl ErrDuplicateStep, s))
           else if pm_PlayerID m = kr_localID (ds_kr s) then (Inl ErrWrongSeat, s)
           else (case ds_pending s seat of
                Some prev \<Rightarrow> if peelMessagesEqual prev m then (Inr None, s) else (Inl ErrBuffered, s)
              | None \<Rightarrow> (Inr None, s\<lparr>ds_pending := (ds_pending s)(seat \<mapsto> m)\<rparr>)))"
        using False Some ne by (simp add: HandlePeel_def mo Let_def)
      have "s' = s \<or> pm_PlayerID m \<noteq> kr_localID (ds_kr s) \<and> s' = s\<lparr>ds_pending := (ds_pending s)(seat \<mapsto> m)\<rparr>"
        using op unfolding h by (simp split: if_splits option.splits)
      then show thesis using that(1,4) by blast
    qed
    then show ?thesis
    proof cases
      case 1
      then show ?thesis using g by simp
    next
      case 2
      then show ?thesis using apply_step [OF a _ _ m(2,1) 2(2)] seat busy_good unfolding busy_def by simp
    next
      case 3
      then have "busy g s1" using apply_step [OF a _ _ m(2,1) 3(2)] seat unfolding busy_def by simp
      then show ?thesis by (rule loop_good(1) [OF _ 3(3)])
    next
      case 4
      have pw: "pending_wf (ok g) s'"
        unfolding pending_wf_def
      proof (intro allI impI)
        fix i x assume x: "ds_pending s' i = Some x"
        have f: "ds_peelers s' = ds_peelers s" "ds_kr s' = ds_kr s" "ds_fits s' x = ds_fits s x" by (simp_all add: 4(2) ds_fits_def)
        show "i < length (ds_peelers s') \<and> pm_PlayerID x = ds_peelers s' ! i \<and> pm_PlayerID x \<noteq> kr_localID (ds_kr s')
            \<and> ds_fits s' x \<and> (ok g) x"
        proof (cases "i = seat")
          case True
          then have "x = m" using x by (simp add: 4(2))
          then show ?thesis using True seat 4(1) m f by simp
        next
          case False
          then have "ds_pending s i = Some x" using x by (simp add: 4(2))
          then show ?thesis using a(3) unfolding f active_inv_def job_inv_def pending_wf_def by blast
        qed
      qed
      have "peel_ext s s'" unfolding 4(2) by (rule peel_ext_pending)
      note f = peel_ext_frame [OF this]
      have "job_inv (ok g) s'" using a(3) pw job_inv_pending [of "ok g" s] unfolding active_inv_def 4(2) by blast
      then have "busy g s'" using a unfolding busy_def active_inv_def tab_def by (simp add: f)
      then show ?thesis by (rule busy_good)
    qed
  qed
qed

lemma PeelOnBehalf_good:
  assumes g: "good g s" and op: "PeelOnBehalf rnd draws pid key s = (r, s')"
    and okm: "\<forall>pd m. Peel key (ds_current s) (ds_cardIndex s) pid (ds_sessionID s) draws = Inr pd
      \<and> PeelMessageFromPD (ds_handNum s) (Some pd) = Inr m \<longrightarrow> (ok g) m"
  shows "good g s'"
proof -
  consider "s' = s"
    | pd m r1 s1 where "ds_seq s \<noteq> seqIdle" "expectedPeelerLocked s = pid" "pid \<noteq> []"
      "Peel key (ds_current s) (ds_cardIndex s) pid (ds_sessionID s) draws = Inr pd"
      "PeelMessageFromPD (ds_handNum s) (Some pd) = Inr m" "applyIncomingLocked m s = (r1, s1)"
      "r1 \<noteq> None \<and> s' = s1 \<or> (\<exists>r2 s2 x. r1 = None \<and> ds_afterApplyLocked rnd s1 = (r2, s2) \<and> (s' = s2 \<or> s' = s2\<lparr>ds_outbound := x\<rparr>))"
  proof (cases "pid = [] \<or> pid = kr_localID (ds_kr s) \<or> (ds_seq s = seqIdle \<or> ds_jobKind s = jobIdle)
      \<or> expectedPeelerLocked s \<noteq> pid \<or> (key = None \<or> \<not> IsPrivate key)")
    case True
    have "snd (PeelOnBehalf rnd draws pid key s) = s" using True by (elim disjE; simp add: PeelOnBehalf_def)
    then show thesis using that(1) op by simp
  next
    case False
    then obtain kk where k: "key = Some kk" by auto
    show thesis
    proof (cases "Peel key (ds_current s) (ds_cardIndex s) pid (ds_sessionID s) draws")
      case (Inl e)
      then show thesis using that(1) op False k by (simp add: PeelOnBehalf_def)
    next
      case pd: (Inr pd)
      show thesis
      proof (cases "PeelMessageFromPD (ds_handNum s) (Some pd)")
        case (Inl e)
        then show thesis using that(1) op False pd k by (simp add: PeelOnBehalf_def)
      next
        case m: (Inr m)
        obtain r1 s1 where ap: "applyIncomingLocked m s = (r1, s1)" by (cases "applyIncomingLocked m s") auto
        obtain r2 s2 where af: "ds_afterApplyLocked rnd s1 = (r2, s2)" by (cases "ds_afterApplyLocked rnd s1") auto
        have e: "PeelOnBehalf rnd draws pid key s = (case r1 of Some e \<Rightarrow> (Inl e, s1)
            | None \<Rightarrow> (case r2 of Inl e \<Rightarrow> (Inl e, s2)
                | Inr extra \<Rightarrow> (Inr (Some m), s2\<lparr>ds_outbound := ds_outbound s2 @ (case extra of None \<Rightarrow> [] | Some m \<Rightarrow> [m])\<rparr>)))"
          using False pd m ap af k by (simp add: PeelOnBehalf_def split: option.split sum.split)
        have "r1 \<noteq> None \<and> s' = s1 \<or> (\<exists>x. r1 = None \<and> (s' = s2 \<or> s' = s2\<lparr>ds_outbound := x\<rparr>))"
          using op unfolding e by (cases r1; cases r2) auto
        then show thesis using that(2) [OF _ _ _ pd m ap] False af by blast
      qed
    qed
  qed
  then show ?thesis
  proof cases
    case 1
    then show ?thesis using g by simp
  next
    case 2
    have b: "busy g s" using good_busy [OF g 2(1)] .
    have a: "tab g s" "store_inv (D g) 0 s" "active_inv (ok g) s" using b unfolding busy_def by blast+
    obtain c where c: "ds_current s = Some c" using a(3) unfolding active_inv_def job_inv_def by blast
    have m: "pm_PlayerID m = pid \<and> ds_fits s m \<and> pm_Ciphertext m = Some c"
      by (rule own_fits [OF a(1) c _ 2(5)]) (use 2(4) c table_kr [OF a(1)] in simp)
    have okm': "(ok g) m" using okm 2(4,5) by blast
    have n: "ds_nextPeel s < length (ds_peelers s)" "pid = ds_peelers s ! ds_nextPeel s"
      using 2(2,3) by (auto simp: expectedPeelerLocked_def split: if_splits)
    have b1: "busy g s1" using apply_step [OF a n(1) _ _ okm' 2(6)] m n(2) unfolding busy_def by simp
    from 2(7) show ?thesis
      using busy_good [OF b1] loop_good(1) [OF b1] by (elim disjE exE conjE) auto
  qed
qed

lemma reach_good: "ds_reach (ok g) s0 s \<Longrightarrow> good g s0 \<Longrightarrow> good g s"
proof (induction rule: ds_reach.induct)
  case (step s s')
  from step.hyps(2) step.IH [OF step.prems] show ?case
    by (cases rule: ds_step.cases)
      (auto intro: BeginHoles_good BeginStreet_good BeginReveal_good HandlePeel_good PeelOnBehalf_good simp: Outbound_def)
qed

lemma new_good:
  assumes wf: "wf g" and "newDealSession (Some (kr g)) (cards g) (sid g) (Some (p g)) (hand g) (dealer g) = Inr s"
  shows "good g s"
proof -
  have "s = \<lparr>ds_kr = kr g, ds_handNum = hand g, ds_sessionID = sid g, ds_p = p g,
                  ds_dealerIdx = dealer g, ds_cards = cards g,
                  ds_seq = seqIdle, ds_seqJobs = [], ds_seqJobIdx = 0, ds_street = StreetNone, ds_revealID = [],
                  ds_jobKind = jobIdle, ds_cardIndex = 0, ds_recipient = [], ds_peelers = [], ds_nextPeel = 0,
                  ds_current = None, ds_pending = Map.empty, ds_applied = Map.empty, ds_currentJob = no_job,
                  ds_localHoles = (None, None), ds_revealed = Map.empty, ds_community = [], ds_decoded = Map.empty,
                  ds_holesDone = False, ds_streetDone = False, ds_revealDone = False, ds_lastStreet = StreetNone,
                  ds_holesStarted = False, ds_outbound = []\<rparr>"
    using assms(2) by (auto simp: newDealSession_def split: if_splits)
  then show ?thesis using wf by (simp add: good_def tab_def ds_table_def ds_inv_def store_inv_def hole_slot_def street_count_def)
qed

end

end
