(* ===== verification/DealCards.thy ===== *)
theory DealCards
  imports DealInv
begin

text \<open>
  What the deal session guarantees. \<open>any_peel\<close> is the contract with nothing known about the
  messages: the applied peels of a job still form a verified run. \<open>honest\<close> is the contract with peels
  made with the key of their seat on a deck that carries one layer per seat: everything the session
  decodes is the card of its position.
\<close>

section \<open>Tables\<close>

record deal_table =
  dt_kr :: Keyring
  dt_hand :: int
  dt_sid :: "byte list"
  dt_p :: int
  dt_dealer :: int
  dt_cards :: "int option list"

definition table_wf :: "'a deal_table_scheme \<Rightarrow> bool" where
  "table_wf t \<longleftrightarrow> keyring_ok (dt_kr t) \<and> 0 \<le> dt_dealer t \<and> dt_dealer t < int (length (kr_order (dt_kr t)))
     \<and> 2 * length (kr_order (dt_kr t)) + 8 \<le> length (dt_cards t) \<and> None \<notin> set (dt_cards t)"

interpretation any_peel: peel_table table_wf dt_kr dt_hand dt_sid dt_p dt_dealer dt_cards "\<lambda>_ _. True" "\<lambda>_ _ _. True"
  by unfold_locales (auto simp: table_wf_def)

text \<open>The table of a session.\<close>

definition new_table :: "Keyring \<Rightarrow> EncryptedDeck \<Rightarrow> int \<Rightarrow> int \<Rightarrow> deal_table" where
  "new_table kr deck hand dealer = \<lparr>dt_kr = kr, dt_hand = hand, dt_sid = ed_SessionID deck, dt_p = ed_P deck,
     dt_dealer = dealer, dt_cards = map Some (ed_Cards deck)\<rparr>"

lemma NewDealSession_new:
  assumes "NewDealSession (Some kr) (Some deck) hand dealer = Inr s"
  shows "newDealSession (Some kr) (map Some (ed_Cards deck)) (ed_SessionID deck) (Some (ed_P deck)) hand dealer = Inr s"
    and "length (ed_Cards deck) = 52" and "0 \<le> dealer" and "dealer < int (length (kr_order kr))"
  using assms by (auto simp: NewDealSession_def newDealSession_def Len_def split: if_splits)

lemma new_table_wf:
  assumes "NewDealSession (Some kr) (Some deck) hand dealer = Inr s" and "keyring_ok kr" and "length (kr_order kr) \<le> 22"
  shows "table_wf (new_table kr deck hand dealer)"
  using NewDealSession_new [OF assms(1)] assms(2,3) by (auto simp: table_wf_def new_table_def)

text \<open>The hand of the demonstration: three seats and the modulus 107.\<close>

definition demo_ring :: Keyring where
  "demo_ring = \<lparr>kr_localID = ''b'', kr_local = mk_key (Some 5) (Some 85) (Some 107),
     kr_pubs = [''a'' \<mapsto> mk_key (Some 3) None (Some 107), ''b'' \<mapsto> mk_key (Some 5) None (Some 107),
       ''c'' \<mapsto> mk_key (Some 7) None (Some 107)],
     kr_order = [''a'', ''b'', ''c'']\<rparr>"

lemma demo_ring_ok: "keyring_ok demo_ring"
  by (auto simp: keyring_ok_def demo_ring_def IsPrivate_def ran_def)

definition demo_key_of :: "playerID \<Rightarrow> SRAKey" where
  "demo_key_of i = (if i = ''a'' then mk_key (Some 3) (Some 71) (Some 107)
     else if i = ''b'' then mk_key (Some 5) (Some 85) (Some 107) else mk_key (Some 7) (Some 91) (Some 107))"

definition demo_deck :: EncryptedDeck where
  "demo_deck = \<lparr>ed_Cards = map (fold sra_enc (map demo_key_of [''a'', ''b'', ''c''])) (BuildPlaintextDeck 107),
     ed_P = 107, ed_SessionID = [1]\<rparr>"

lemma demo_deck_length: "length (ed_Cards demo_deck) = 52"
  by (simp add: demo_deck_def)

lemma demo_session: "\<exists>s. NewDealSession (Some demo_ring) (Some demo_deck) 1 0 = Inr s"
proof -
  have "ed_Cards demo_deck \<noteq> []" using demo_deck_length by auto
  then show ?thesis using demo_deck_length
    by (simp add: NewDealSession_def newDealSession_def demo_ring_def Len_def Modulus_def) (simp add: demo_deck_def)
qed

text \<open>Its first job is the card of seat \<open>b\<close>, which seats \<open>a\<close> and \<open>c\<close> peel.\<close>

lemma demo_holes:
  assumes "NewDealSession (Some demo_ring) (Some demo_deck) 1 0 = Inr s"
  shows "ds_seq (snd (BeginHoles rnd s)) = seqHoles" and "ds_peelers (snd (BeginHoles rnd s)) = [''a'', ''c'']"
    and "ds_kr (snd (BeginHoles rnd s)) = demo_ring" and "ds_jobKind (snd (BeginHoles rnd s)) = jobHole"
    and "ds_nextPeel (snd (BeginHoles rnd s)) = 0" and "ds_pending (snd (BeginHoles rnd s)) = Map.empty"
    and "ds_handNum (snd (BeginHoles rnd s)) = 1" and "ds_cardIndex (snd (BeginHoles rnd s)) = 0"
proof -
  have s: "ds_kr s = demo_ring" "ds_seq s = seqIdle" "ds_dealerIdx s = 0" "ds_cards s = map Some (ed_Cards demo_deck)"
    "\<not> ds_holesStarted s" "\<not> ds_holesDone s" "ds_handNum s = 1"
    using assms by (auto simp: NewDealSession_def newDealSession_def split: if_splits)
  have "hole_jobs [''a'', ''b'', ''c''] 0 = Inr [hole_job 0 ''b'' 0, hole_job 1 ''c'' 0, hole_job 2 ''a'' 0,
      hole_job 3 ''b'' 1, hole_job 4 ''c'' 1, hole_job 5 ''a'' 1]"
    by code_simp
  then show "ds_seq (snd (BeginHoles rnd s)) = seqHoles" "ds_peelers (snd (BeginHoles rnd s)) = [''a'', ''c'']"
    "ds_kr (snd (BeginHoles rnd s)) = demo_ring" "ds_jobKind (snd (BeginHoles rnd s)) = jobHole"
    "ds_nextPeel (snd (BeginHoles rnd s)) = 0" "ds_pending (snd (BeginHoles rnd s)) = Map.empty"
    "ds_handNum (snd (BeginHoles rnd s)) = 1" "ds_cardIndex (snd (BeginHoles rnd s)) = 0"
    using demo_deck_length length_greater_0_conv [of "ed_Cards demo_deck"]
    by (simp_all del: length_greater_0_conv add: BeginHoles_def s SeatOrder_def demo_ring_def startSequenceLocked_def Let_def installJobLocked_def
        hole_job_def PeelOrder_def startCurrentJobLocked_def)
qed

section \<open>Whatever arrives\<close>

text \<open>
  C16: Whatever messages arrive in whatever order, in a session over at most 22 seats the peels applied
  to the card in progress are of exactly the seats before the next one, in their order; each takes
  the value the one before it left, starting at the card of the deck, and carries a proof that
  verifies. The board never holds more or fewer cards than the streets dealt so far.
\<close>

theorem deal_session_chain:
  assumes "NewDealSession (Some kr) (Some deck) hand dealer = Inr s0" and "keyring_ok kr" and "length (kr_order kr) \<le> 22"
    and "ds_reach (\<lambda>_. True) s0 s"
  shows "ds_seq s = seqIdle \<and> length (ds_community s) = street_count (ds_lastStreet s)
     \<or> (\<exists>c ms. ds_current s = Some c \<and> ds_applied s = (\<lambda>i. if i < ds_nextPeel s then Some (ms ! i) else None)
          \<and> map pm_PlayerID ms = take (ds_nextPeel s) (ds_peelers s)
          \<and> PeelOrder (kr_order kr) (ds_recipient s) = Inr (ds_peelers s)
          \<and> peel_run (\<lambda>m. pm_HandNum m = hand \<and> pm_CardIndex m = ds_cardIndex s) (ed_P deck) (ed_SessionID deck) ms
              (ed_Cards deck ! nat (ds_cardIndex s)) c)"
proof -
  let ?t = "new_table kr deck hand dealer"
  have g: "any_peel.good ?t s"
    using any_peel.reach_good [OF assms(4)] any_peel.new_good [OF new_table_wf [OF assms(1-3)]] NewDealSession_new(1) [OF assms(1)]
    by (simp add: new_table_def)
  show ?thesis
  proof (cases "ds_seq s = seqIdle")
    case True
    then show ?thesis using any_peel.good_idle [OF g] unfolding store_inv_def by simp
  next
    case False
    then have b: "any_peel.tab ?t s" "active_inv (\<lambda>_. True) s" using any_peel.good_busy [OF g] unfolding any_peel.busy_def by blast+
    note fr = any_peel.table_kr [OF b(1)]
    obtain c ms where c: "ds_current s = Some c" "ds_applied s = (\<lambda>i. if i < ds_nextPeel s then Some (ms ! i) else None)"
      "map pm_PlayerID ms = take (ds_nextPeel s) (ds_peelers s)" "\<forall>m\<in>set ms. ds_fits s m"
      "peel_run (\<lambda>_. True) (ds_p s) (ds_sessionID s) ms (the (ds_cards s ! nat (ds_cardIndex s))) c"
      and po: "PeelOrder (kr_order (ds_kr s)) (ds_recipient s) = Inr (ds_peelers s)" "nat (ds_cardIndex s) < length (ds_cards s)"
      using b(2) unfolding active_inv_def job_inv_def by blast
    have "peel_run (\<lambda>m. pm_HandNum m = hand \<and> pm_CardIndex m = ds_cardIndex s) (ds_p s) (ds_sessionID s) ms
        (the (ds_cards s ! nat (ds_cardIndex s))) c"
      by (rule peel_run_mono [OF c(5)]) (use c(4) fr in \<open>auto simp: ds_fits_def new_table_def\<close>)
    moreover have "the (ds_cards s ! nat (ds_cardIndex s)) = ed_Cards deck ! nat (ds_cardIndex s)"
      using fr po(2) by (simp add: new_table_def)
    ultimately show ?thesis using c(1-3) po(1) fr by (auto simp: new_table_def)
  qed
qed

lemma deal_session_chain_witness:
  "\<exists>s0 s. NewDealSession (Some demo_ring) (Some demo_deck) 1 0 = Inr s0 \<and> ds_reach (\<lambda>_. True) s0 s \<and> ds_seq s = seqHoles
     \<and> (\<exists>c (ms :: PeelMessage list). ds_current s = Some c \<and> map pm_PlayerID ms = take (ds_nextPeel s) (ds_peelers s))"
proof -
  obtain s0 where s0: "NewDealSession (Some demo_ring) (Some demo_deck) 1 0 = Inr s0" using demo_session by blast
  obtain s where s: "s = snd (BeginHoles (\<lambda>_. []) s0)" by simp
  have r: "ds_reach (\<lambda>_. True) s0 s"
    unfolding s by (rule ds_reach.step [OF ds_reach.start ds_step.holes]) (rule surjective_pairing)
  have q: "ds_seq s = seqHoles" unfolding s by (rule demo_holes [OF s0])
  have "length (kr_order demo_ring) \<le> 22" by (simp add: demo_ring_def)
  from deal_session_chain [OF s0 demo_ring_ok this r]
  have "\<exists>c (ms :: PeelMessage list). ds_current s = Some c \<and> map pm_PlayerID ms = take (ds_nextPeel s) (ds_peelers s)"
    by (elim disjE exE conjE) (simp add: q, blast)
  then show ?thesis using s0 r q by blast
qed

section \<open>With the right keys\<close>

text \<open>A peel made with the key of its seat.\<close>

definition key_peel :: "(playerID \<Rightarrow> SRAKey) \<Rightarrow> PeelMessage \<Rightarrow> bool" where
  "key_peel K m \<longleftrightarrow> (case pm_Ciphertext m of None \<Rightarrow> True | Some ct \<Rightarrow> pm_Result m = Some (sra_dec (K (pm_PlayerID m)) ct))"

record honest_table = deal_table +
  ht_key :: "playerID \<Rightarrow> SRAKey"
  ht_plain :: "int list"

text \<open>The deck carries the layers of all seats.\<close>

definition honest_wf :: "honest_table \<Rightarrow> bool" where
  "honest_wf h \<longleftrightarrow> table_wf h \<and> (\<forall>i\<in>set (kr_order (dt_kr h)). sra_key (dt_p h) (ht_key h i))
     \<and> ht_key h (kr_localID (dt_kr h)) = kr_local (dt_kr h) \<and> (\<forall>m\<in>set (ht_plain h). m \<in> sra_space (dt_p h))
     \<and> dt_cards h = map (\<lambda>m. Some (fold sra_enc (map (ht_key h) (kr_order (dt_kr h))) m)) (ht_plain h)"

definition plain_at :: "honest_table \<Rightarrow> int \<Rightarrow> int \<Rightarrow> bool" where
  "plain_at h k v \<longleftrightarrow> 0 \<le> k \<and> nat k < length (ht_plain h) \<and> v = ht_plain h ! nat k"

lemma key_peel_run:
  "peel_run (key_peel K) p sid ms c d \<Longrightarrow> d = fold sra_dec (map K (map pm_PlayerID ms)) c"
  by (induction ms arbitrary: c) (auto simp: key_peel_def)

lemma key_peel_own:
  "Peel (Some key) (Some c) k pid sid draws = Inr pd \<Longrightarrow> PeelMessageFromPD hand (Some pd) = Inr m \<Longrightarrow> K pid = key \<Longrightarrow> key_peel K m"
  by (auto simp: Peel_def PeelMessageFromPD_def key_peel_def rbind_Inr Decrypt_def sra_dec_def
      split: option.splits if_splits)

lemma LocalKey_Some: "LocalKey (Some kr) = Some (kr_local kr)"
  by (simp add: LocalKey_def cloneSRAKey_def mk_key_def)

lemma Decrypt_result: "Decrypt (Some k) (Some c) = Inr v \<Longrightarrow> v = sra_dec k c"
  by (auto simp: Decrypt_def sra_dec_def split: option.splits if_splits)

lemma mset_remove_filter: "distinct xs \<Longrightarrow> x \<in> set xs \<Longrightarrow> mset (x # filter (\<lambda>i. i \<noteq> x) xs) = mset xs"
proof (induction xs)
  case (Cons y ys)
  have "x = y \<Longrightarrow> filter (\<lambda>i. i \<noteq> x) ys = ys" using Cons.prems by (auto simp: filter_id_conv)
  then show ?case using Cons by (cases "x = y") auto
qed simp

interpretation honest: peel_table honest_wf dt_kr dt_hand dt_sid dt_p dt_dealer dt_cards "\<lambda>h. key_peel (ht_key h)" plain_at
proof unfold_locales
  fix h assume h: "honest_wf h"
  let ?K = "ht_key h" and ?o = "kr_order (dt_kr h)" and ?l = "kr_localID (dt_kr h)"
  have t: "table_wf h" and keys: "\<forall>k\<in>set (map ?K ?o). sra_key (dt_p h) k" and loc: "?K ?l = kr_local (dt_kr h)"
    and sp: "\<forall>m\<in>set (ht_plain h). m \<in> sra_space (dt_p h)"
    and cards: "dt_cards h = map (\<lambda>m. Some (fold sra_enc (map ?K ?o) m)) (ht_plain h)"
    using h by (auto simp: honest_wf_def)
  show "keyring_ok (dt_kr h)" "0 \<le> dt_dealer h \<and> dt_dealer h < int (length ?o)"
    "2 * length ?o + 8 \<le> length (dt_cards h) \<and> None \<notin> set (dt_cards h)"
    using t by (auto simp: table_wf_def)
  show "key_peel ?K m" if "Peel (LocalKey (Some (dt_kr h))) (Some c) k ?l (dt_sid h) draws = Inr pd"
    "PeelMessageFromPD (dt_hand h) (Some pd) = Inr m" for c k draws pd m
    using key_peel_own [OF _ that(2), of _ _ _ _ _ _ ?K] that(1) loc by (auto simp: LocalKey_Some)
  show "plain_at h k c" if k: "0 \<le> k" "nat k < length (dt_cards h)"
    and run: "peel_run (key_peel ?K) (dt_p h) (dt_sid h) ms (the (dt_cards h ! nat k)) c" "map pm_PlayerID ms = ?o" for k ms c
    using key_peel_run [OF run(1)] run(2) k sra.peel_all [OF refl keys] sp by (simp add: plain_at_def cards)
  show "plain_at h k v" if k: "0 \<le> k" "nat k < length (dt_cards h)"
    and run: "peel_run (key_peel ?K) (dt_p h) (dt_sid h) ms (the (dt_cards h ! nat k)) c"
      "map pm_PlayerID ms = filter (\<lambda>i. i \<noteq> ?l) ?o"
    and d: "Decrypt (LocalKey (Some (dt_kr h))) (Some c) = Inr v" for k ms c v
  proof -
    have "mset (?l # filter (\<lambda>i. i \<noteq> ?l) ?o) = mset ?o"
      using t by (intro mset_remove_filter) (auto simp: table_wf_def keyring_ok_def)
    then have "mset (map ?K ?o) = mset (map ?K (filter (\<lambda>i. i \<noteq> ?l) ?o) @ [?K ?l])"
      by (metis add_mset_add_single list.simps(9) mset.simps(2) mset_append mset_map mset_single_iff_right union_mset_add_mset_right)
    from sra.peel_all [OF this keys] have "\<forall>m\<in>set (ht_plain h). sra_dec (?K ?l)
        (fold sra_dec (map ?K (filter (\<lambda>i. i \<noteq> ?l) ?o)) (fold sra_enc (map ?K ?o) m)) = m"
      using sp by simp
    then show ?thesis
      using key_peel_run [OF run(1)] run(2) k Decrypt_result [of "kr_local (dt_kr h)" c v] d loc
      by (simp add: plain_at_def cards LocalKey_Some)
  qed
qed

lemma ds_inv_board:
  assumes "ds_inv ok D s"
  shows "\<exists>e. store_inv D e s" and "length (ds_community s) \<le> 5"
proof -
  have st: "store_inv D 0 s" using assms unfolding ds_inv_def by blast
  then show "\<exists>e. store_inv D e s" by blast
  show "length (ds_community s) \<le> 5"
  proof (cases "ds_seq s = seqStreet")
    case False
    then show ?thesis using st unfolding store_inv_def by (simp add: street_count_def)
  next
    case True
    then have "street_wf s" "ds_seqJobIdx s < length (ds_seqJobs s)"
      using assms unfolding ds_inv_def active_inv_def seq_wf_def by auto
    then show ?thesis using street_job(2) [of s "ds_seqJobIdx s"] st True unfolding store_inv_def by simp
  qed
qed

lemma board_at_length: "length (board_at n) = 5"
  by (simp add: board_at_def)

lemma plaintext_space:
  assumes "card_prime p" and "m \<in> set (BuildPlaintextDeck p)"
  shows "m \<in> sra_space p"
  using assms by (simp add: card_prime_def sra_space_def)

lemma FinishPublic_plain_card: "FinishPublic (Some v) (Some p) = Inr c \<Longrightarrow> c = plain_card p v"
  by (auto simp: FinishPublic_def plain_card_def Let_def split: if_splits)

lemma finish_pair_Inr:
  "finish_pair p h e = Inr (c0, c1) \<Longrightarrow> \<exists>a b. h = (Some a, Some b) \<and> c0 = plain_card p a \<and> c1 = plain_card p b"
  by (cases h) (auto simp: finish_pair_def rbind_Inr dest: FinishPublic_plain_card split: option.splits)

lemma session_cards:
  assumes new: "NewDealSession (Some kr) (Some deck) hand dealer = Inr s0" and kr: "keyring_ok kr" "length (kr_order kr) \<le> 22"
    and keys: "\<forall>i\<in>set (kr_order kr). sra_key (ed_P deck) (K i)" "K (kr_localID kr) = kr_local kr" and p: "card_prime (ed_P deck)"
    and deck: "layered_deck (ed_P deck) (map K (kr_order kr)) ms (ed_Cards deck)"
    and reach: "ds_reach (key_peel K) s0 s"
  shows "(LocalHoles s = Inr (c0, c1) \<longrightarrow>
      (\<exists>k0 k1. HoleCardIndex (int (length (kr_order kr))) dealer (int (local_seat kr)) 0 = Inr k0
        \<and> HoleCardIndex (int (length (kr_order kr))) dealer (int (local_seat kr)) 1 = Inr k1
        \<and> c0 = plain_card (ed_P deck) (ms ! nat k0) \<and> c1 = plain_card (ed_P deck) (ms ! nat k1)))
    \<and> (RevealedHoles s pid = Inr (c0, c1) \<longrightarrow>
      (\<exists>seat k0 k1. kr_SeatIndex (Some kr) pid = Some seat
        \<and> HoleCardIndex (int (length (kr_order kr))) dealer (int seat) 0 = Inr k0
        \<and> HoleCardIndex (int (length (kr_order kr))) dealer (int seat) 1 = Inr k1
        \<and> c0 = plain_card (ed_P deck) (ms ! nat k0) \<and> c1 = plain_card (ed_P deck) (ms ! nat k1)))
    \<and> (CommunityCards s = Inr cs \<longrightarrow> length cs \<le> 5
        \<and> cs = map (\<lambda>k. plain_card (ed_P deck) (ms ! nat k)) (take (length cs) (board_at (int (length (kr_order kr))))))"
proof -
  let ?h = "\<lparr>dt_kr = kr, dt_hand = hand, dt_sid = ed_SessionID deck, dt_p = ed_P deck, dt_dealer = dealer,
     dt_cards = map Some (ed_Cards deck), ht_key = K, ht_plain = ms\<rparr> :: honest_table"
  have "\<forall>m\<in>set ms. m \<in> sra_space (ed_P deck)"
    using deck plaintext_space [OF p] unfolding layered_deck_def by (metis mset_eq_setD)
  then have wf: "honest_wf ?h"
    using new_table_wf [OF new kr] keys deck by (auto simp: honest_wf_def table_wf_def new_table_def layered_deck_def)
  have g: "honest.good ?h s"
    using honest.reach_good [of ?h s0 s] honest.new_good [OF wf, of s0] NewDealSession_new(1) [OF new] reach by simp
  have t: "honest.tab ?h s" and st: "\<exists>e. store_inv (plain_at ?h) e s" and len: "length (ds_community s) \<le> 5"
    using g ds_inv_board unfolding honest.good_def by blast+
  have fr: "ds_kr s = kr" "ds_p s = ed_P deck" "ds_dealerIdx s = dealer" using honest.table_kr [OF t] by simp_all
  have h: "hole_slot (plain_at ?h) s (local_seat kr) 0 (fst (ds_localHoles s))"
    "hole_slot (plain_at ?h) s (local_seat kr) 1 (snd (ds_localHoles s))"
    and rv: "\<forall>pid h. ds_revealed s pid = Some h \<longrightarrow> (\<exists>seat. kr_SeatIndex (Some kr) pid = Some seat
           \<and> hole_slot (plain_at ?h) s seat 0 (fst h) \<and> hole_slot (plain_at ?h) s seat 1 (snd h))"
    and cm: "\<forall>i<length (ds_community s). \<exists>v. ds_community s ! i = Some v \<and> plain_at ?h (board_at (int (length (kr_order kr))) ! i) v"
    using st unfolding store_inv_def fr by blast+
  have slot: "\<exists>k. HoleCardIndex (int (length (kr_order kr))) dealer (int seat) r = Inr k \<and> v = ms ! nat k"
    if "hole_slot (plain_at ?h) s seat r (Some v)" for seat r v
    using that unfolding hole_slot_def by (auto simp: fr plain_at_def)
  have pair: "(\<exists>k0 k1. HoleCardIndex (int (length (kr_order kr))) dealer (int seat) 0 = Inr k0
        \<and> HoleCardIndex (int (length (kr_order kr))) dealer (int seat) 1 = Inr k1
        \<and> c0 = plain_card (ed_P deck) (ms ! nat k0) \<and> c1 = plain_card (ed_P deck) (ms ! nat k1))"
    if pr: "finish_pair (ed_P deck) x e = Inr (c0, c1)" "hole_slot (plain_at ?h) s seat 0 (fst x)" "hole_slot (plain_at ?h) s seat 1 (snd x)"
    for x e seat
  proof -
    obtain a b where "x = (Some a, Some b)" "c0 = plain_card (ed_P deck) a" "c1 = plain_card (ed_P deck) b"
      using finish_pair_Inr [OF pr(1)] by blast
    then show ?thesis using slot [of seat 0 a] slot [of seat 1 b] pr(2,3) by auto
  qed
  have L: "LocalHoles s = Inr (c0, c1) \<longrightarrow>
      (\<exists>k0 k1. HoleCardIndex (int (length (kr_order kr))) dealer (int (local_seat kr)) 0 = Inr k0
        \<and> HoleCardIndex (int (length (kr_order kr))) dealer (int (local_seat kr)) 1 = Inr k1
        \<and> c0 = plain_card (ed_P deck) (ms ! nat k0) \<and> c1 = plain_card (ed_P deck) (ms ! nat k1))"
    using pair [OF _ h] unfolding LocalHoles_def fr by blast
  have R: "RevealedHoles s pid = Inr (c0, c1) \<longrightarrow>
      (\<exists>seat k0 k1. kr_SeatIndex (Some kr) pid = Some seat
        \<and> HoleCardIndex (int (length (kr_order kr))) dealer (int seat) 0 = Inr k0
        \<and> HoleCardIndex (int (length (kr_order kr))) dealer (int seat) 1 = Inr k1
        \<and> c0 = plain_card (ed_P deck) (ms ! nat k0) \<and> c1 = plain_card (ed_P deck) (ms ! nat k1))"
  proof
    assume r: "RevealedHoles s pid = Inr (c0, c1)"
    obtain x where x: "ds_revealed s pid = Some x"
      using r by (cases "ds_revealed s pid") (auto simp: RevealedHoles_def finish_pair_def)
    then obtain seat where seat: "kr_SeatIndex (Some kr) pid = Some seat"
      "hole_slot (plain_at ?h) s seat 0 (fst x)" "hole_slot (plain_at ?h) s seat 1 (snd x)" using rv by blast
    have "finish_pair (ed_P deck) x ErrNotDone = Inr (c0, c1)" using r x by (simp add: RevealedHoles_def fr)
    from pair [OF this seat(2,3)] show "\<exists>seat k0 k1. kr_SeatIndex (Some kr) pid = Some seat
        \<and> HoleCardIndex (int (length (kr_order kr))) dealer (int seat) 0 = Inr k0
        \<and> HoleCardIndex (int (length (kr_order kr))) dealer (int seat) 1 = Inr k1
        \<and> c0 = plain_card (ed_P deck) (ms ! nat k0) \<and> c1 = plain_card (ed_P deck) (ms ! nat k1)"
      using seat(1) by blast
  qed
  have C: "CommunityCards s = Inr cs \<longrightarrow> length cs \<le> 5
        \<and> cs = map (\<lambda>k. plain_card (ed_P deck) (ms ! nat k)) (take (length cs) (board_at (int (length (kr_order kr)))))"
  proof
    assume "CommunityCards s = Inr cs"
    then have all: "list_all2 (\<lambda>v c. FinishPublic v (Some (ed_P deck)) = Inr c) (ds_community s) cs"
      by (simp add: CommunityCards_def rmap_Inr fr)
    then have l: "length cs = length (ds_community s)" by (simp add: list_all2_lengthD)
    have "cs ! i = plain_card (ed_P deck) (ms ! nat (board_at (int (length (kr_order kr))) ! i))" if "i < length cs" for i
    proof -
      have v: "ds_community s ! i = Some (ms ! nat (board_at (int (length (kr_order kr))) ! i))"
        using cm l \<open>i < length cs\<close> by (auto simp: plain_at_def)
      have "FinishPublic (ds_community s ! i) (Some (ed_P deck)) = Inr (cs ! i)"
        using all l \<open>i < length cs\<close> by (simp add: list_all2_conv_all_nth)
      then show ?thesis using FinishPublic_plain_card v by simp
    qed
    then show "length cs \<le> 5
        \<and> cs = map (\<lambda>k. plain_card (ed_P deck) (ms ! nat k)) (take (length cs) (board_at (int (length (kr_order kr)))))"
      using len l by (auto simp: board_at_length intro!: nth_equalityI)
  qed
  show ?thesis using L R C by blast
qed

lemma demo_keys:
  "\<forall>i\<in>set (kr_order demo_ring). sra_key (ed_P demo_deck) (demo_key_of i)"
  "demo_key_of (kr_localID demo_ring) = kr_local demo_ring"
proof -
  have "prime_int 107" using card_prime_107 by (simp add: card_prime_def)
  then show "\<forall>i\<in>set (kr_order demo_ring). sra_key (ed_P demo_deck) (demo_key_of i)"
    by (simp add: demo_ring_def demo_deck_def demo_key_of_def sra_key_def)
  show "demo_key_of (kr_localID demo_ring) = kr_local demo_ring" by (simp add: demo_ring_def demo_key_of_def)
qed

text \<open>
  C15: With the deck of a finished shuffle and peels made with the keys of their seats, in whatever order
  and however often the operations happen, what a session shows is right: the own hole cards, the
  hole cards of a revealed seat and the board are the cards that the plaintext deck \<open>ms\<close> has at the
  positions of that seat and of the board. Two nodes that show a card show the same card.
\<close>

theorem deal_session_cards:
  assumes new: "NewDealSession (Some kr) (Some deck) hand dealer = Inr s0" and kr: "keyring_ok kr" "length (kr_order kr) \<le> 22"
    and keys: "\<forall>i\<in>set (kr_order kr). sra_key (ed_P deck) (K i)" "K (kr_localID kr) = kr_local kr" and p: "card_prime (ed_P deck)"
    and deck: "layered_deck (ed_P deck) (map K (kr_order kr)) ms (ed_Cards deck)"
    and reach: "ds_reach (key_peel K) s0 s"
  shows "(LocalHoles s = Inr (c0, c1) \<longrightarrow>
      (\<exists>k0 k1. HoleCardIndex (int (length (kr_order kr))) dealer (int (local_seat kr)) 0 = Inr k0
        \<and> HoleCardIndex (int (length (kr_order kr))) dealer (int (local_seat kr)) 1 = Inr k1
        \<and> c0 = plain_card (ed_P deck) (ms ! nat k0) \<and> c1 = plain_card (ed_P deck) (ms ! nat k1)))
    \<and> (RevealedHoles s pid = Inr (c0, c1) \<longrightarrow>
      (\<exists>seat k0 k1. kr_SeatIndex (Some kr) pid = Some seat
        \<and> HoleCardIndex (int (length (kr_order kr))) dealer (int seat) 0 = Inr k0
        \<and> HoleCardIndex (int (length (kr_order kr))) dealer (int seat) 1 = Inr k1
        \<and> c0 = plain_card (ed_P deck) (ms ! nat k0) \<and> c1 = plain_card (ed_P deck) (ms ! nat k1)))
    \<and> (CommunityCards s = Inr cs \<longrightarrow> length cs \<le> 5
        \<and> cs = map (\<lambda>k. plain_card (ed_P deck) (ms ! nat k)) (take (length cs) (board_at (int (length (kr_order kr))))))"
  using session_cards [OF assms] .

lemma deal_session_cards_witness:
  "\<exists>s0 s. NewDealSession (Some demo_ring) (Some demo_deck) 1 0 = Inr s0 \<and> ds_reach (key_peel demo_key_of) s0 s
     \<and> ds_seq s = seqHoles \<and> (\<forall>cs. CommunityCards s = Inr cs \<longrightarrow> length cs \<le> 5)"
proof -
  obtain s0 where s0: "NewDealSession (Some demo_ring) (Some demo_deck) 1 0 = Inr s0" using demo_session by blast
  obtain s where s: "s = snd (BeginHoles (\<lambda>_. []) s0)" by simp
  have r: "ds_reach (key_peel demo_key_of) s0 s"
    unfolding s by (rule ds_reach.step [OF ds_reach.start ds_step.holes]) (rule surjective_pairing)
  have n: "length (kr_order demo_ring) \<le> 22" by (simp add: demo_ring_def)
  have p: "card_prime (ed_P demo_deck)" using card_prime_107 by (simp add: demo_deck_def)
  have "layered_deck (ed_P demo_deck) (map demo_key_of (kr_order demo_ring)) (BuildPlaintextDeck 107) (ed_Cards demo_deck)"
    by (simp add: layered_deck_def demo_deck_def demo_ring_def)
  note card = deal_session_cards [OF s0 demo_ring_ok n demo_keys p this r]
  have "ds_seq s = seqHoles" unfolding s by (rule demo_holes [OF s0])
  then show ?thesis using s0 r card by blast
qed

section \<open>A forged peel ahead of its turn\<close>

text \<open>
  A peel for a later seat is buffered unread: whoever sends a peel in the name of that seat
  first, with any numbers, occupies its place, and the peel of the seat itself is then refused.
\<close>

theorem forged_peel_blocks:
  assumes "ds_seq s \<noteq> seqIdle" "ds_jobKind s \<noteq> jobIdle" and "distinct (ds_peelers s)" "[] \<notin> set (ds_peelers s)"
    and "ds_nextPeel s < seat" "seat < length (ds_peelers s)" "ds_peelers s ! seat \<noteq> kr_localID (ds_kr s)"
    and "ds_pending s seat = None"
    and "ds_validateIncomingLocked s (Some forged) = None" "pm_PlayerID forged = ds_peelers s ! seat"
    and "ds_validateIncomingLocked s (Some m) = None" "pm_PlayerID m = ds_peelers s ! seat"
    and "\<not> peelMessagesEqual forged m"
  shows "\<exists>s'. HandlePeel rnd (Some forged) s = (Inr None, s') \<and> HandlePeel rnd (Some m) s' = (Inl ErrBuffered, s')"
proof -
  have seat: "peelerIndex (ds_peelers s) (ds_peelers s ! seat) = Some seat"
    using seat_find_nth [OF assms(3,6), of 0] by (simp add: peelerIndex_def)
  let ?s' = "s\<lparr>ds_pending := (ds_pending s)(seat \<mapsto> forged)\<rparr>"
  have v: "ds_validateIncomingLocked ?s' (Some m) = None" using assms(11) by (simp add: ds_validateIncomingLocked_def split: if_splits)
  have "HandlePeel rnd (Some forged) s = (Inr None, ?s')"
    using assms seat by (simp add: HandlePeel_def Let_def)
  moreover have "HandlePeel rnd (Some m) ?s' = (Inl ErrBuffered, ?s')"
    using assms seat v by (simp add: HandlePeel_def Let_def)
  ultimately show ?thesis by blast
qed

definition demo_peel :: "int \<Rightarrow> PeelMessage" where
  "demo_peel v = \<lparr>pm_HandNum = 1, pm_PlayerID = ''c'', pm_CardIndex = 0, pm_Ciphertext = Some 2, pm_Result = Some v,
     pm_Proof = Some (mk_proof 0 0 0 0)\<rparr>"

lemma forged_peel_blocks_witness:
  "\<exists>s s'. ds_reach (\<lambda>_. True) s s' \<and> HandlePeel (\<lambda>_. []) (Some (demo_peel 3)) s = (Inr None, s')
     \<and> HandlePeel (\<lambda>_. []) (Some (demo_peel 4)) s' = (Inl ErrBuffered, s')"
proof -
  obtain s0 where s0: "NewDealSession (Some demo_ring) (Some demo_deck) 1 0 = Inr s0" using demo_session by blast
  obtain s where s: "s = snd (BeginHoles (\<lambda>_. []) s0)" by simp
  note h = demo_holes [OF s0, of "\<lambda>_. []", folded s]
  have v: "ds_validateIncomingLocked s (Some (demo_peel x)) = None" for x
    by (simp add: ds_validateIncomingLocked_def demo_peel_def h)
  have d: "pm_PlayerID (demo_peel x) = ''c''" "\<not> peelMessagesEqual (demo_peel 3) (demo_peel 4)" for x
    by (simp_all add: demo_peel_def peelMessagesEqual_def)
  have "\<exists>s'. HandlePeel (\<lambda>_. []) (Some (demo_peel 3)) s = (Inr None, s')
      \<and> HandlePeel (\<lambda>_. []) (Some (demo_peel 4)) s' = (Inl ErrBuffered, s')"
    by (rule forged_peel_blocks [where seat = 1]) (simp_all add: h v d, simp add: demo_ring_def)
  then obtain s' where s': "HandlePeel (\<lambda>_. []) (Some (demo_peel 3)) s = (Inr None, s')"
    "HandlePeel (\<lambda>_. []) (Some (demo_peel 4)) s' = (Inl ErrBuffered, s')" by blast
  moreover have "ds_reach (\<lambda>_. True) s s'" by (rule ds_reach.step [OF ds_reach.start ds_step.peel [OF _ s'(1)]]) simp
  ultimately show ?thesis by blast
qed

end
