(* ===== verification/CryptoHand.thy ===== *)
theory CryptoHand
  imports Machine ShuffleSession DealInv "HOL-Library.Sublist"
begin

text \<open>
  internal/network/crypto\_hand.go and the choice of the designated survivor (liveness.go): one
  replica's shuffle and peels for a hand. A \<open>CryptoHand\<close> owns a shuffle session and, once that is
  done, a deal session on its deck; it keeps messages that come before their session can take them,
  and peels for seats that are gone. Each operation is a function on the state; the mutex is its
  atomicity. The error results of the two sessions are wrapped in \<open>HE\<close>. A nil receiver is not
  modelled. The channel of a wait gate is its \<open>done\<close> flag: \<open>None\<close> from \<open>gate_wait\<close> is a waiter that blocks.
\<close>

section \<open>State\<close>

datatype hand_error = HE crypto_error | ErrEmptyNonce | ErrNoShuffle | ErrDealNotStarted | ErrAlready
  | ErrAborted | ErrReason string | ErrEmptyPlayer | ErrNoStreet | ErrGame machine_error

record wait_gate =
  wg_done :: bool
  wg_err :: "hand_error option"

record CryptoHand =
  ch_kr :: Keyring
  ch_handNum :: int
  ch_dealerIdx :: int
  ch_sessionID :: "byte list"
  ch_shuffle :: ShuffleSession
  ch_deal :: "DealSession option"
  ch_shuffleGate :: wait_gate
  ch_holesGate :: wait_gate
  ch_streetGate :: wait_gate
  ch_revealGate :: wait_gate
  ch_earlyShuffle :: "ShuffleMessage list"
  ch_earlyPeels :: "PeelMessage list"
  ch_gone :: "playerID \<rightharpoonup> SRAKey"

type_synonym 'a ch_result = "(hand_error + 'a) \<times> CryptoHand"

definition earlyBufCap :: nat where
  "earlyBufCap = 64"

section \<open>Wait gates\<close>

definition newWaitGate :: wait_gate where
  "newWaitGate = \<lparr>wg_done = False, wg_err = None\<rparr>"

definition gate_reset :: "wait_gate \<Rightarrow> wait_gate" where
  "gate_reset g = g\<lparr>wg_done := False, wg_err := None\<rparr>"

definition gate_fail :: "hand_error option \<Rightarrow> wait_gate \<Rightarrow> wait_gate" where
  "gate_fail err g = (if wg_done g then g else g\<lparr>wg_done := True, wg_err := err\<rparr>)"

definition gate_signal :: "wait_gate \<Rightarrow> wait_gate" where
  "gate_signal g = gate_fail None g"

definition gate_wait :: "wait_gate \<Rightarrow> hand_error option option" where
  "gate_wait g = (if wg_done g then Some (wg_err g) else None)"

section \<open>The designated survivor\<close>

definition DesignatedSurvivor :: "playerID list \<Rightarrow> (playerID \<rightharpoonup> 'k) \<Rightarrow> playerID" where
  "DesignatedSurvivor seatOrder gone = (case find (\<lambda>i. gone i = None) seatOrder of None \<Rightarrow> [] | Some i \<Rightarrow> i)"

definition DesignatedSurvivorIDs :: "playerID list \<Rightarrow> playerID set \<Rightarrow> playerID" where
  "DesignatedSurvivorIDs seatOrder gone = (case find (\<lambda>i. i \<notin> gone) seatOrder of None \<Rightarrow> [] | Some i \<Rightarrow> i)"

section \<open>Buffers\<close>

text \<open>
  The driver recognises a premature message by a phrase in the text of the error. The only error text
  that quotes something of the message is the one for an unknown player; a line break in the quoted
  id is written as a backslash and an \<open>n\<close>.
\<close>

definition quoted_has :: "string \<Rightarrow> playerID \<Rightarrow> bool" where
  "quoted_has phrase pid \<longleftrightarrow> sublist phrase pid
     \<or> (phrase \<noteq> [] \<and> hd phrase = CHR ''n'' \<and> sublist (CHR 0x0A # tl phrase) pid)"

definition isPrematureShuffle :: "crypto_error \<Rightarrow> playerID \<Rightarrow> bool" where
  "isPrematureShuffle err pid \<longleftrightarrow> err = ErrNotStarted \<or> (err = ErrUnknownPlayer \<and> quoted_has ''not started'' pid)"

definition isPrematurePeel :: "crypto_error \<Rightarrow> playerID \<Rightarrow> bool" where
  "isPrematurePeel err pid \<longleftrightarrow> err = ErrNoJob \<or> err = ErrWrongCard
     \<or> (err = ErrUnknownPlayer \<and> (quoted_has ''no job in progress'' pid \<or> quoted_has ''wrong card index'' pid))"

definition msg_player :: "('m \<Rightarrow> playerID) \<Rightarrow> 'm option \<Rightarrow> playerID" where
  "msg_player f mo = (case mo of None \<Rightarrow> [] | Some m \<Rightarrow> f m)"

definition bufferShuffleLocked :: "ShuffleMessage option \<Rightarrow> CryptoHand \<Rightarrow> CryptoHand" where
  "bufferShuffleLocked mo h = (case mo of None \<Rightarrow> h
     | Some m \<Rightarrow> if length (ch_earlyShuffle h) \<ge> earlyBufCap then h
         else h\<lparr>ch_earlyShuffle := ch_earlyShuffle h @ [m]\<rparr>)"

definition bufferPeelLocked :: "PeelMessage option \<Rightarrow> CryptoHand \<Rightarrow> CryptoHand" where
  "bufferPeelLocked mo h = (case mo of None \<Rightarrow> h
     | Some m \<Rightarrow> if length (ch_earlyPeels h) \<ge> earlyBufCap then h
         else h\<lparr>ch_earlyPeels := ch_earlyPeels h @ [m]\<rparr>)"

text \<open>The loops over a buffer that was taken out; \<open>rnd\<close> is numbered by the messages that are left.\<close>

fun drain_shuffle :: "(nat \<Rightarrow> step_rand) \<Rightarrow> ShuffleMessage list \<Rightarrow> CryptoHand \<Rightarrow> ShuffleMessage list ch_result" where
  "drain_shuffle rnd [] h = (Inr [], h)"
| "drain_shuffle rnd (msg # pending) h =
     (case HandleMessage (rnd (length pending)) (Some msg) (ch_shuffle h) of
        (Inl e, s) \<Rightarrow>
          let h1 = h\<lparr>ch_shuffle := s\<rparr>
          in if isPrematureShuffle e (sm_PlayerID msg) then drain_shuffle rnd pending (bufferShuffleLocked (Some msg) h1)
             else (Inl (HE e), h1)
      | (Inr out, s) \<Rightarrow> (case drain_shuffle rnd pending (h\<lparr>ch_shuffle := s\<rparr>) of
          (Inl e, h2) \<Rightarrow> (Inl e, h2)
        | (Inr produced, h2) \<Rightarrow> (Inr ((case out of None \<Rightarrow> [] | Some m \<Rightarrow> [m]) @ produced), h2)))"

definition drainShuffleLocked :: "(nat \<Rightarrow> step_rand) \<Rightarrow> CryptoHand \<Rightarrow> ShuffleMessage list ch_result" where
  "drainShuffleLocked rnd h = drain_shuffle rnd (ch_earlyShuffle h) (h\<lparr>ch_earlyShuffle := []\<rparr>)"

definition appendShuffle :: "ShuffleMessage option \<Rightarrow> ShuffleMessage list \<Rightarrow> ShuffleMessage list" where
  "appendShuffle first extra = (case first of None \<Rightarrow> [] | Some m \<Rightarrow> [m]) @ extra"

definition collectPeels :: "DealSession \<Rightarrow> PeelMessage option \<Rightarrow> PeelMessage list \<times> DealSession" where
  "collectPeels deal first = (case Outbound deal of (out, deal') \<Rightarrow> ((case first of None \<Rightarrow> [] | Some m \<Rightarrow> [m]) @ out, deal'))"

fun drain_peels :: "(nat \<Rightarrow> int \<Rightarrow> int list) \<Rightarrow> PeelMessage list \<Rightarrow> DealSession \<Rightarrow> CryptoHand \<Rightarrow> PeelMessage list ch_result" where
  "drain_peels rnd [] deal h = (Inr [], h\<lparr>ch_deal := Some deal\<rparr>)"
| "drain_peels rnd (msg # pending) deal h =
     (case HandlePeel (rnd (length pending)) (Some msg) deal of
        (Inl e, deal1) \<Rightarrow>
          if isPrematurePeel e (pm_PlayerID msg) then drain_peels rnd pending deal1 (bufferPeelLocked (Some msg) h)
          else (Inl (HE e), h\<lparr>ch_deal := Some deal1\<rparr>)
      | (Inr first, deal1) \<Rightarrow> (case collectPeels deal1 first of (out, deal2) \<Rightarrow>
          (case drain_peels rnd pending deal2 h of
             (Inl e, h2) \<Rightarrow> (Inl e, h2)
           | (Inr produced, h2) \<Rightarrow> (Inr (out @ produced), h2))))"

definition drainPeelsLocked :: "(nat \<Rightarrow> int \<Rightarrow> int list) \<Rightarrow> CryptoHand \<Rightarrow> PeelMessage list ch_result" where
  "drainPeelsLocked rnd h = (case ch_deal h of None \<Rightarrow> (Inr [], h)
     | Some deal \<Rightarrow> drain_peels rnd (ch_earlyPeels h) deal (h\<lparr>ch_earlyPeels := []\<rparr>))"

definition signalPeelProgressLocked :: "CryptoHand \<Rightarrow> CryptoHand" where
  "signalPeelProgressLocked h = (case ch_deal h of None \<Rightarrow> h
     | Some d \<Rightarrow> h\<lparr>ch_holesGate := (if ds_holesDone d then gate_signal (ch_holesGate h) else ch_holesGate h),
                   ch_streetGate := (if ds_streetDone d then gate_signal (ch_streetGate h) else ch_streetGate h),
                   ch_revealGate := (if ds_revealDone d then gate_signal (ch_revealGate h) else ch_revealGate h)\<rparr>)"

section \<open>Peels for seats that are gone\<close>

text \<open>Every operation of a job leaves less to do: fewer jobs, or fewer peels of the same job.\<close>

definition less_left :: "(DealSession \<times> DealSession) set" where
  "less_left = inv_image (less_than <*lex*> less_than) (\<lambda>s. (jobs_left s, peels_left s))"

lemma less_left_iff:
  "(s', s) \<in> less_left \<longleftrightarrow> jobs_left s' < jobs_left s \<or> jobs_left s' = jobs_left s \<and> peels_left s' < peels_left s"
  by (auto simp: less_left_def)

lemma wf_less_left: "wf less_left"
  unfolding less_left_def by (intro wf_inv_image wf_lex_prod wf_less_than)

definition not_more :: "DealSession \<Rightarrow> DealSession \<Rightarrow> bool" where
  "not_more s' s \<longleftrightarrow> jobs_left s' < jobs_left s \<or> jobs_left s' = jobs_left s \<and> peels_left s' \<le> peels_left s"

lemma not_more_refl [simp]: "not_more s s"
  by (simp add: not_more_def)

lemma not_more_trans: "not_more t s \<Longrightarrow> not_more s r \<Longrightarrow> not_more t r"
  by (auto simp: not_more_def)

lemma not_more_less: "not_more t s \<Longrightarrow> (s, r) \<in> less_left \<Longrightarrow> (t, r) \<in> less_left"
  by (auto simp: not_more_def less_left_iff)

lemma not_more_fields:
  "ds_peelers s' = ds_peelers s \<Longrightarrow> ds_nextPeel s \<le> ds_nextPeel s' \<Longrightarrow> ds_seqJobs s' = ds_seqJobs s
    \<Longrightarrow> ds_seqJobIdx s \<le> ds_seqJobIdx s' \<Longrightarrow> not_more s' s"
  by (auto simp: not_more_def jobs_left_def peels_left_def)

lemma not_more_outbound [simp]: "not_more (s\<lparr>ds_outbound := x\<rparr>) t = not_more s t"
  by (simp add: not_more_def jobs_left_def peels_left_def)

lemma loop_not_more:
  "ds_afterApplyLocked rnd s = (r, s') \<Longrightarrow> not_more s' s"
  "ds_executeLocalLocked rnd s = (r, s') \<Longrightarrow> not_more s' s"
  "advanceSequenceLocked rnd s = (r, s') \<Longrightarrow> not_more s' s"
proof (induction rnd s and rnd s and rnd s arbitrary: r s' and r s' and r s'
    rule: ds_afterApplyLocked_ds_executeLocalLocked_advanceSequenceLocked.induct)
  case (1 rnd s)
  obtain r1 s1 where d: "ds_drainPendingLocked s = (r1, s1)" by (cases "ds_drainPendingLocked s") auto
  have n1: "not_more s1 s" using drain_left [OF d] by (intro not_more_fields) auto
  obtain r2 s2 where f: "finishJobLocked s1 = (r2, s2)" by (cases "finishJobLocked s1") auto
  have n2: "not_more s2 s1" using finishJob_left [OF f] by (intro not_more_fields) auto
  show ?case
    using "1.prems" "1.IH"(1) [OF d [symmetric] _ _ f [symmetric]] "1.IH"(2) [OF d [symmetric]] d f n1 not_more_trans [OF _ n1] not_more_trans [OF n2 n1]
      not_more_trans [OF _ n2]
    by (auto simp: ds_afterApplyLocked.simps [of rnd s] split: option.splits if_splits)
next
  case (2 rnd s)
  show ?case
  proof (cases "ds_executeLocalLocked rnd s")
    case (Pair q t)
    then have eq: "t = s'" "q = r" using "2.prems" by simp_all
    show ?thesis
    proof (rule ccontr)
      assume no: "\<not> not_more s' s"
      then have c: "\<not> jobCompleteLocked s" "ds_peelers s ! ds_nextPeel s = kr_localID (ds_kr s)"
        using "2.prems" by (auto simp: ds_executeLocalLocked.simps [of rnd s] split: if_splits)
      obtain pd msg r1 s1 where pd: "Peel (LocalKey (Some (ds_kr s))) (ds_current s) (ds_cardIndex s) (kr_localID (ds_kr s))
            (ds_sessionID s) (rnd (ds_cardIndex s)) = Inr pd" "PeelMessageFromPD (ds_handNum s) (Some pd) = Inr msg"
        and a: "applyIncomingLocked msg s = (r1, s1)"
        using "2.prems" c no by (auto simp: ds_executeLocalLocked.simps [of rnd s] split: sum.splits prod.splits)
      have n1: "not_more s1 s" using applyIncoming_next [of msg s s1] a
        by (cases r1) (auto intro: not_more_fields simp: applyIncomingLocked_def split: sum.splits option.splits)
      obtain r2 s2 where l: "ds_afterApplyLocked rnd s1 = (r2, s2)" by (cases "ds_afterApplyLocked rnd s1") auto
      have "r1 = None \<Longrightarrow> not_more s2 s" using "2.IH" [OF _ _ pd a [symmetric]] c l not_more_trans [OF _ n1] by auto
      then show False using "2.prems" c pd a n1 l no
        by (cases r1) (auto simp: ds_executeLocalLocked.simps [of rnd s] split: sum.splits)
    qed
  qed
next
  case (3 rnd s)
  show ?case
  proof (cases "length (ds_seqJobs s) \<le> ds_seqJobIdx s + 1")
    case True
    then show ?thesis using "3.prems"
      by (cases "ds_seq s") (auto simp: advanceSequenceLocked.simps [of rnd s] Let_def intro!: not_more_fields)
  next
    case False
    let ?s = "s\<lparr>ds_seqJobIdx := ds_seqJobIdx s + 1\<rparr>"
    obtain r1 s1 where i: "installJobLocked (ds_seqJobs s ! (ds_seqJobIdx s + 1)) ?s = (r1, s1)"
      by (cases "installJobLocked (ds_seqJobs s ! (ds_seqJobIdx s + 1)) ?s") auto
    have n1: "not_more s1 s" using installJob_left [OF i] False by (auto simp: not_more_def jobs_left_def)
    show ?thesis using "3.prems" "3.IH" [OF _ i [symmetric]] False i n1 not_more_trans [OF _ n1]
      by (auto simp: advanceSequenceLocked.simps [of rnd s] split: option.splits if_splits)
  qed
qed

lemma applyIncoming_less:
  "applyIncomingLocked msg s = (None, s') \<Longrightarrow> ds_nextPeel s < length (ds_peelers s) \<Longrightarrow> (s', s) \<in> less_left"
  using applyIncoming_next [of msg s s'] by (auto simp: less_left_iff jobs_left_def peels_left_def)

lemma PeelOnBehalf_less:
  assumes "PeelOnBehalf rnd draws pid key s = (Inr m, s')"
  shows "(s', s) \<in> less_left"
proof -
  obtain msg s1 x s2 where a: "applyIncomingLocked msg s = (None, s1)" and l: "ds_afterApplyLocked rnd s1 = (Inr x, s2)"
    and s': "jobs_left s' = jobs_left s2" "peels_left s' = peels_left s2" and e: "expectedPeelerLocked s = pid" "pid \<noteq> []"
    using assms that by (auto simp: PeelOnBehalf_def jobs_left_def peels_left_def split: if_splits sum.splits prod.splits option.splits)
  have "ds_nextPeel s < length (ds_peelers s)" using e by (auto simp: expectedPeelerLocked_def split: if_splits)
  then have "(s1, s) \<in> less_left" by (rule applyIncoming_less [OF a])
  then have "(s2, s) \<in> less_left" by (rule not_more_less [OF loop_not_more(1) [OF l]])
  then show ?thesis using s' by (simp add: less_left_iff)
qed

text \<open>The randomness of an operation on peels: of its first call, of the drain, and of peels for others.\<close>

record peel_rand =
  pr_first :: "int \<Rightarrow> int list"
  pr_drain :: "nat \<Rightarrow> int \<Rightarrow> int list"
  pr_loop :: "int \<Rightarrow> int list"
  pr_behalf :: "int \<Rightarrow> playerID \<Rightarrow> int list"

function delegated_loop ::
  "peel_rand \<Rightarrow> DealSession \<Rightarrow> CryptoHand \<Rightarrow> (PeelMessage list \<times> hand_error option) \<times> CryptoHand" where
  "delegated_loop rnd deal h =
     (let peeler = expectedPeelerLocked deal
      in if peeler = [] then (([], None), h\<lparr>ch_deal := Some deal\<rparr>)
         else case ch_gone h peeler of None \<Rightarrow> (([], None), h\<lparr>ch_deal := Some deal\<rparr>)
         | Some key \<Rightarrow>
             (case PeelOnBehalf (pr_loop rnd) (pr_behalf rnd (ds_cardIndex deal) peeler) peeler (Some key) deal of
                (Inl e, deal1) \<Rightarrow> (([], Some (HE e)), h\<lparr>ch_deal := Some deal1\<rparr>)
              | (Inr msg, deal1) \<Rightarrow> (case collectPeels deal1 msg of (out, deal2) \<Rightarrow>
                  (case delegated_loop rnd deal2 (signalPeelProgressLocked (h\<lparr>ch_deal := Some deal2\<rparr>)) of
                     ((produced, err), h2) \<Rightarrow> ((out @ produced, err), h2)))))"
  by pat_completeness auto
termination
proof (relation "inv_image less_left (\<lambda>(rnd, deal, h). deal)", goal_cases)
  case 1
  show ?case by (intro wf_inv_image wf_less_left)
next
  case 2
  then show ?case by (auto dest!: PeelOnBehalf_less [OF sym] simp: collectPeels_def Outbound_def less_left_iff jobs_left_def peels_left_def)
qed

declare delegated_loop.simps [simp del]

definition tryDelegatedPeelsLocked :: "peel_rand \<Rightarrow> CryptoHand \<Rightarrow> (PeelMessage list \<times> hand_error option) \<times> CryptoHand" where
  "tryDelegatedPeelsLocked rnd h = (case ch_deal h of None \<Rightarrow> (([], None), h)
     | Some deal \<Rightarrow> if ch_gone h = Map.empty then (([], None), h)
         else if DesignatedSurvivor (SeatOrder (Some (ch_kr h))) (ch_gone h) \<noteq> LocalID (Some (ch_kr h)) then (([], None), h)
         else delegated_loop rnd deal h)"

definition TryDelegatedPeels :: "peel_rand \<Rightarrow> CryptoHand \<Rightarrow> (PeelMessage list \<times> hand_error option) \<times> CryptoHand" where
  "TryDelegatedPeels rnd h = tryDelegatedPeelsLocked rnd h"

definition MarkGone :: "playerID \<Rightarrow> SRAKey option \<Rightarrow> CryptoHand \<Rightarrow> (hand_error, CryptoHand) outcome" where
  "MarkGone pid key h = (if pid = [] then (Some ErrEmptyPlayer, h)
     else case key of None \<Rightarrow> (Some (HE ErrNoPrivate), h)
       | Some k \<Rightarrow> if \<not> IsPrivate key then (Some (HE ErrNoPrivate), h)
           else (None, h\<lparr>ch_gone := (ch_gone h)(pid \<mapsto> k)\<rparr>))"

section \<open>The shuffle\<close>

definition NewCryptoHand :: "Keyring option \<Rightarrow> byte list \<Rightarrow> int \<Rightarrow> int \<Rightarrow> hand_error + CryptoHand" where
  "NewCryptoHand kr lobbyNonce handNum dealerIdx = (case kr of None \<Rightarrow> Inl (HE ErrNil)
     | Some r \<Rightarrow> if handNum < 1 then Inl (HE ErrHandNum)
         else if dealerIdx < 0 \<or> dealerIdx \<ge> int (Len kr) then Inl (HE ErrDealer)
         else if lobbyNonce = [] then Inl ErrEmptyNonce
         else let sid = SessionID (SeatOrder kr) (lobbyNonce @ [of_int (handNum div 256), of_int handNum])
           in case NewShuffleSession kr sid handNum of Inl e \<Rightarrow> Inl (HE e)
              | Inr sess \<Rightarrow> Inr \<lparr>ch_kr = r, ch_handNum = handNum, ch_dealerIdx = dealerIdx, ch_sessionID = sid,
                  ch_shuffle = sess, ch_deal = None, ch_shuffleGate = newWaitGate, ch_holesGate = newWaitGate,
                  ch_streetGate = newWaitGate, ch_revealGate = newWaitGate, ch_earlyShuffle = [], ch_earlyPeels = [],
                  ch_gone = Map.empty\<rparr>)"

definition ShuffleDone :: "CryptoHand \<Rightarrow> bool" where
  "ShuffleDone h \<longleftrightarrow> doneLocked (ch_shuffle h)"

definition ensureDealLocked :: "CryptoHand \<Rightarrow> (hand_error, CryptoHand) outcome" where
  "ensureDealLocked h =
     (if ch_deal h \<noteq> None then (None, h)
      else if \<not> doneLocked (ch_shuffle h) then (Some ErrNoShuffle, h)
      else case ss_EncryptedDeck (ch_shuffle h) of Inl e \<Rightarrow> (Some (HE e), h)
      | Inr ed \<Rightarrow> (case NewDealSession (Some (ch_kr h)) (Some ed) (ch_handNum h) (ch_dealerIdx h) of Inl e \<Rightarrow> (Some (HE e), h)
          | Inr deal \<Rightarrow> (None, h\<lparr>ch_deal := Some deal\<rparr>)))"

definition afterShuffleLocked :: "CryptoHand \<Rightarrow> (hand_error, CryptoHand) outcome" where
  "afterShuffleLocked h =
     (if \<not> doneLocked (ch_shuffle h) then (None, h)
      else andthen (ensureDealLocked h) (\<lambda>h1. (None, h1\<lparr>ch_shuffleGate := gate_signal (ch_shuffleGate h1)\<rparr>)))"

text \<open>What follows a step of the shuffle session: drain the buffer, then open the deal if it is complete.\<close>

definition after_step :: "(nat \<Rightarrow> step_rand) \<Rightarrow> ShuffleMessage option \<Rightarrow> CryptoHand \<Rightarrow> ShuffleMessage list ch_result" where
  "after_step drnd out h = (case drainShuffleLocked drnd h of (Inl e, h1) \<Rightarrow> (Inl e, h1)
     | (Inr extra, h1) \<Rightarrow> (case afterShuffleLocked h1 of (Some e, h2) \<Rightarrow> (Inl e, h2)
         | (None, h2) \<Rightarrow> (Inr (appendShuffle out extra), h2)))"

definition StartShuffle :: "step_rand \<Rightarrow> (nat \<Rightarrow> step_rand) \<Rightarrow> CryptoHand \<Rightarrow> ShuffleMessage list ch_result" where
  "StartShuffle rnd drnd h = (case Start rnd (ch_shuffle h) of
       (Inl e, s) \<Rightarrow> (Inl (HE e), h\<lparr>ch_shuffle := s\<rparr>)
     | (Inr out, s) \<Rightarrow> after_step drnd out (h\<lparr>ch_shuffle := s\<rparr>))"

definition HandleShuffle ::
  "step_rand \<Rightarrow> (nat \<Rightarrow> step_rand) \<Rightarrow> ShuffleMessage option \<Rightarrow> CryptoHand \<Rightarrow> ShuffleMessage list ch_result" where
  "HandleShuffle rnd drnd mo h = (case HandleMessage rnd mo (ch_shuffle h) of
       (Inl e, s) \<Rightarrow>
         let h1 = h\<lparr>ch_shuffle := s\<rparr>
         in if isPrematureShuffle e (msg_player sm_PlayerID mo) then (Inr [], bufferShuffleLocked mo h1) else (Inl (HE e), h1)
     | (Inr out, s) \<Rightarrow> after_step drnd out (h\<lparr>ch_shuffle := s\<rparr>))"

text \<open>The result \<open>None\<close> is a caller that blocks.\<close>

definition WaitShuffle :: "CryptoHand \<Rightarrow> hand_error option option \<times> CryptoHand" where
  "WaitShuffle h =
     (if ShuffleDone h then
        (case ensureDealLocked h of (Some e, h1) \<Rightarrow> (Some (Some e), h1)
         | (None, h1) \<Rightarrow> (Some None, h1\<lparr>ch_shuffleGate := gate_signal (ch_shuffleGate h1)\<rparr>))
      else (gate_wait (ch_shuffleGate h), h))"

definition AbortShuffle :: "string option \<Rightarrow> CryptoHand \<Rightarrow> CryptoHand" where
  "AbortShuffle reason h = h\<lparr>ch_shuffleGate :=
     gate_fail (Some (case reason of None \<Rightarrow> ErrAborted | Some r \<Rightarrow> ErrReason r)) (ch_shuffleGate h)\<rparr>"

section \<open>The deal\<close>

text \<open>What follows an operation of the deal session that may have produced \<open>first\<close>.\<close>

definition after_peel :: "peel_rand \<Rightarrow> PeelMessage option \<Rightarrow> DealSession \<Rightarrow> CryptoHand \<Rightarrow> PeelMessage list ch_result" where
  "after_peel rnd first deal h = (case collectPeels deal first of (out, deal1) \<Rightarrow>
     (case drainPeelsLocked (pr_drain rnd) (h\<lparr>ch_deal := Some deal1\<rparr>) of (Inl e, h1) \<Rightarrow> (Inl e, h1)
      | (Inr extra, h1) \<Rightarrow> (case tryDelegatedPeelsLocked rnd h1 of
            ((_, Some e), h2) \<Rightarrow> (Inl e, h2)
          | ((delegated, None), h2) \<Rightarrow> (Inr (out @ extra @ delegated), signalPeelProgressLocked h2))))"

definition begin_peels ::
  "peel_rand \<Rightarrow> (CryptoHand \<Rightarrow> CryptoHand) \<Rightarrow> (DealSession \<Rightarrow> ds_result) \<Rightarrow> CryptoHand \<Rightarrow> PeelMessage list ch_result" where
  "begin_peels rnd reset op h = (case ensureDealLocked h of (Some e, h1) \<Rightarrow> (Inl e, h1)
     | (None, h1) \<Rightarrow>
         let h2 = reset h1
         in case op (the (ch_deal h2)) of
              (Inl e, deal) \<Rightarrow> (Inl (HE e), h2\<lparr>ch_deal := Some deal\<rparr>)
            | (Inr first, deal) \<Rightarrow> after_peel rnd first deal h2)"

definition StartHoles :: "peel_rand \<Rightarrow> CryptoHand \<Rightarrow> PeelMessage list ch_result" where
  "StartHoles rnd = begin_peels rnd (\<lambda>h. h\<lparr>ch_holesGate := gate_reset (ch_holesGate h)\<rparr>) (BeginHoles (pr_first rnd))"

definition StartStreet :: "peel_rand \<Rightarrow> Street \<Rightarrow> CryptoHand \<Rightarrow> PeelMessage list ch_result" where
  "StartStreet rnd street =
     begin_peels rnd (\<lambda>h. h\<lparr>ch_streetGate := gate_reset (ch_streetGate h)\<rparr>) (BeginStreet (pr_first rnd) street)"

definition StartReveal :: "peel_rand \<Rightarrow> playerID \<Rightarrow> CryptoHand \<Rightarrow> PeelMessage list ch_result" where
  "StartReveal rnd pid =
     begin_peels rnd (\<lambda>h. h\<lparr>ch_revealGate := gate_reset (ch_revealGate h)\<rparr>) (BeginReveal (pr_first rnd) pid)"

definition ch_HandlePeel :: "peel_rand \<Rightarrow> PeelMessage option \<Rightarrow> CryptoHand \<Rightarrow> PeelMessage list ch_result" where
  "ch_HandlePeel rnd mo h = (case ch_deal h of None \<Rightarrow> (Inr [], bufferPeelLocked mo h)
     | Some deal \<Rightarrow> (case HandlePeel (pr_first rnd) mo deal of
         (Inl e, deal1) \<Rightarrow>
           let h1 = h\<lparr>ch_deal := Some deal1\<rparr>
           in if isPrematurePeel e (msg_player pm_PlayerID mo) then (Inr [], bufferPeelLocked mo h1) else (Inl (HE e), h1)
       | (Inr first, deal1) \<Rightarrow> after_peel rnd first deal1 h))"

definition HolesDone :: "CryptoHand \<Rightarrow> bool" where
  "HolesDone h \<longleftrightarrow> (case ch_deal h of None \<Rightarrow> False | Some d \<Rightarrow> ds_holesDone d)"

definition WaitHoles :: "CryptoHand \<Rightarrow> hand_error option option \<times> CryptoHand" where
  "WaitHoles h = (if HolesDone h then (Some None, h\<lparr>ch_holesGate := gate_signal (ch_holesGate h)\<rparr>)
     else (gate_wait (ch_holesGate h), h))"

definition WaitStreet :: "CryptoHand \<Rightarrow> hand_error option option \<times> CryptoHand" where
  "WaitStreet h = (if (case ch_deal h of None \<Rightarrow> False | Some d \<Rightarrow> ds_streetDone d)
     then (Some None, h\<lparr>ch_streetGate := gate_signal (ch_streetGate h)\<rparr>) else (gate_wait (ch_streetGate h), h))"

definition WaitReveal :: "CryptoHand \<Rightarrow> hand_error option option \<times> CryptoHand" where
  "WaitReveal h = (if (case ch_deal h of None \<Rightarrow> False | Some d \<Rightarrow> ds_revealDone d)
     then (Some None, h\<lparr>ch_revealGate := gate_signal (ch_revealGate h)\<rparr>) else (gate_wait (ch_revealGate h), h))"

definition wrap :: "crypto_error + 'a \<Rightarrow> hand_error + 'a" where
  "wrap r = (case r of Inl e \<Rightarrow> Inl (HE e) | Inr x \<Rightarrow> Inr x)"

definition ch_LocalHoles :: "CryptoHand \<Rightarrow> hand_error + card \<times> card" where
  "ch_LocalHoles h = (case ch_deal h of None \<Rightarrow> Inl ErrDealNotStarted | Some d \<Rightarrow> wrap (LocalHoles d))"

definition NewCommunityCards :: "int \<Rightarrow> CryptoHand \<Rightarrow> hand_error + card list" where
  "NewCommunityCards already h = (case ch_deal h of None \<Rightarrow> Inl ErrDealNotStarted
     | Some d \<Rightarrow> (case CommunityCards d of Inl e \<Rightarrow> Inl (HE e)
         | Inr cs \<Rightarrow> if already < 0 \<or> already > int (length cs) then Inl ErrAlready else Inr (drop (nat already) cs)))"

definition ch_RevealedHoles :: "playerID \<Rightarrow> CryptoHand \<Rightarrow> hand_error + card \<times> card" where
  "ch_RevealedHoles pid h = (case ch_deal h of None \<Rightarrow> Inl ErrDealNotStarted | Some d \<Rightarrow> wrap (RevealedHoles d pid))"

section \<open>Playing the cards into the engine\<close>

definition RemainingShowdownIDs :: "game_state option \<Rightarrow> playerID list" where
  "RemainingShowdownIDs gs = (case gs of None \<Rightarrow> [] | Some g \<Rightarrow> map p_id (filter in_hand (gs_players g)))"

definition StreetFromPending :: "game_state \<Rightarrow> hand_error + Street" where
  "StreetFromPending gs =
     (if \<not> NeedsStreet gs then Inl ErrNoStreet
      else let n = PendingStreetCount gs; already = length (gs_community gs)
        in if n = 3 \<and> already = 0 then Inr StreetFlop
           else if n = 1 \<and> already = 3 then Inr StreetTurn
           else if n = 1 \<and> already = 4 then Inr StreetRiver
           else Inl ErrNoStreet)"

text \<open>
  \<open>AdvanceCryptoLocked\<close> releases the mutex while it waits; what happens to the hand and to the machine
  meanwhile, and the result of the wait, is one entry of a list. With the list used up it is still
  waiting. \<open>send\<close> is the caller's send function, by the error it gives.
\<close>

record wait_env =
  we_err :: "hand_error option"
  we_hand :: "CryptoHand \<Rightarrow> CryptoHand"
  we_game :: "game_state \<Rightarrow> game_state"

datatype progress = Waiting | Returned "hand_error option"

type_synonym advance = "progress \<times> CryptoHand \<times> game_state"

text \<open>Start a sequence, send its messages and wait: then go on with the state after the wait.\<close>

definition run_sequence ::
  "(PeelMessage list \<Rightarrow> hand_error option) \<Rightarrow> PeelMessage list ch_result \<Rightarrow> wait_env list \<Rightarrow> game_state
    \<Rightarrow> (wait_env list \<Rightarrow> CryptoHand \<Rightarrow> game_state \<Rightarrow> advance) \<Rightarrow> advance" where
  "run_sequence send started ws gs go_on = (case started of (Inl e, h1) \<Rightarrow> (Returned (Some e), h1, gs)
     | (Inr msgs, h1) \<Rightarrow> (case send msgs of Some e \<Rightarrow> (Returned (Some e), h1, gs)
         | None \<Rightarrow> (case ws of [] \<Rightarrow> (Waiting, h1, gs)
             | w # ws' \<Rightarrow>
                 let h2 = we_hand w h1; gs2 = we_game w gs
                 in case we_err w of Some e \<Rightarrow> (Returned (Some e), h2, gs2) | None \<Rightarrow> go_on ws' h2 gs2)))"

lemma run_sequence_cong [fundef_cong]:
  "send = send' \<Longrightarrow> started = started' \<Longrightarrow> ws = ws' \<Longrightarrow> gs = gs'
    \<Longrightarrow> (\<And>w vs h g. ws' = w # vs \<Longrightarrow> go_on vs h g = go_on' vs h g)
    \<Longrightarrow> run_sequence send started ws gs go_on = run_sequence send' started' ws' gs' go_on'"
  by (simp add: run_sequence_def Let_def split: list.splits sum.splits option.splits prod.splits)

fun advance_reveals ::
  "peel_rand \<Rightarrow> (PeelMessage list \<Rightarrow> hand_error option) \<Rightarrow> playerID list \<Rightarrow> wait_env list \<Rightarrow> CryptoHand \<Rightarrow> game_state \<Rightarrow> advance" where
  "advance_reveals rnd send [] ws h gs = (Returned None, h, gs)"
| "advance_reveals rnd send (pid # ids) ws h gs =
     run_sequence send (StartReveal rnd pid h) ws gs (\<lambda>ws' h2 gs2.
       case ch_RevealedHoles pid h2 of Inl e \<Rightarrow> (Returned (Some e), h2, gs2)
       | Inr pair \<Rightarrow> if gs_phase gs2 \<noteq> PhaseShowdown then advance_reveals rnd send ids ws' h2 gs2
           else (case ApplyHoleReveal pid pair gs2 of (Some e, gs3) \<Rightarrow> (Returned (Some (ErrGame e)), h2, gs3)
             | (None, gs3) \<Rightarrow> advance_reveals rnd send ids ws' h2 gs3))"

function AdvanceCrypto ::
  "peel_rand \<Rightarrow> (PeelMessage list \<Rightarrow> hand_error option) \<Rightarrow> wait_env list \<Rightarrow> CryptoHand \<Rightarrow> game_state \<Rightarrow> advance" where
  "AdvanceCrypto rnd send ws h gs =
     (if NeedsStreet gs then
        (case StreetFromPending gs of Inl e \<Rightarrow> (Returned (Some e), h, gs)
         | Inr street \<Rightarrow> run_sequence send (StartStreet rnd street h) ws gs (\<lambda>ws' h2 gs2.
             case NewCommunityCards (int (length (gs_community gs))) h2 of Inl e \<Rightarrow> (Returned (Some e), h2, gs2)
             | Inr cards \<Rightarrow> (case ApplyStreet cards gs2 of (Some e, gs3) \<Rightarrow> (Returned (Some (ErrGame e)), h2, gs3)
                 | (None, gs3) \<Rightarrow> AdvanceCrypto rnd send ws' h2 gs3)))
      else if NeedsReveal gs then advance_reveals rnd send (RemainingShowdownIDs (Some gs)) ws h gs
      else (Returned None, h, gs))"
  by pat_completeness auto
termination
  by (relation "measure (\<lambda>(rnd, send, ws, h, gs). length ws)") auto

declare AdvanceCrypto.simps [simp del]

end
