(* ===== verification/HandRefine.thy ===== *)
theory HandRefine
  imports CryptoHand DealCards
begin

text \<open>
  The crypto hand refines its two sessions: whatever happens to a hand, its shuffle session has only
  been started and handed messages, and its deal session is one that was opened on the deck of the
  finished shuffle and then taken through steps of the deal session. So what is proved of reachable
  sessions holds of the sessions of a hand.
\<close>

section \<open>Steps of a hand\<close>

text \<open>\<open>ok\<close> is what is known of the peels that arrive; a reconstructed key makes such peels.\<close>

definition gone_ok :: "(PeelMessage \<Rightarrow> bool) \<Rightarrow> playerID \<Rightarrow> SRAKey \<Rightarrow> bool" where
  "gone_ok ok pid k \<longleftrightarrow> (\<forall>c i sid draws pd hand m. Peel (Some k) c i pid sid draws = Inr pd
     \<longrightarrow> PeelMessageFromPD hand (Some pd) = Inr m \<longrightarrow> ok m)"

inductive ch_step :: "(PeelMessage \<Rightarrow> bool) \<Rightarrow> CryptoHand \<Rightarrow> CryptoHand \<Rightarrow> bool" for ok where
  start_shuffle: "ch_step ok h (snd (StartShuffle rnd drnd h))"
| shuffle_message: "ch_step ok h (snd (HandleShuffle rnd drnd mo h))"
| wait_shuffle: "ch_step ok h (snd (WaitShuffle h))"
| abort: "ch_step ok h (AbortShuffle reason h)"
| start_holes: "ch_step ok h (snd (StartHoles prnd h))"
| start_street: "ch_step ok h (snd (StartStreet prnd street h))"
| start_reveal: "ch_step ok h (snd (StartReveal prnd pid h))"
| peel_message: "\<forall>m. po = Some m \<longrightarrow> ok m \<Longrightarrow> ch_step ok h (snd (ch_HandlePeel prnd po h))"
| wait_holes: "ch_step ok h (snd (WaitHoles h))"
| wait_street: "ch_step ok h (snd (WaitStreet h))"
| wait_reveal: "ch_step ok h (snd (WaitReveal h))"
| mark_gone: "\<forall>k. key = Some k \<longrightarrow> gone_ok ok pid k \<Longrightarrow> ch_step ok h (snd (MarkGone pid key h))"
| delegated: "ch_step ok h (snd (TryDelegatedPeels prnd h))"

inductive ch_reach :: "(PeelMessage \<Rightarrow> bool) \<Rightarrow> CryptoHand \<Rightarrow> CryptoHand \<Rightarrow> bool" for ok h0 where
  here: "ch_reach ok h0 h0"
| further: "ch_reach ok h0 h \<Longrightarrow> ch_step ok h h' \<Longrightarrow> ch_reach ok h0 h'"

section \<open>The relation\<close>

definition deal_rel :: "(PeelMessage \<Rightarrow> bool) \<Rightarrow> CryptoHand \<Rightarrow> DealSession \<Rightarrow> bool" where
  "deal_rel ok h d \<longleftrightarrow> doneLocked (ch_shuffle h) \<and> (\<exists>ed d0. ss_EncryptedDeck (ch_shuffle h) = Inr ed
     \<and> NewDealSession (Some (ch_kr h)) (Some ed) (ch_handNum h) (ch_dealerIdx h) = Inr d0 \<and> ds_reach ok d0 d)"

definition hand_rel :: "(PeelMessage \<Rightarrow> bool) \<Rightarrow> CryptoHand \<Rightarrow> CryptoHand \<Rightarrow> bool" where
  "hand_rel ok h0 h \<longleftrightarrow> ch_kr h = ch_kr h0 \<and> ch_handNum h = ch_handNum h0 \<and> ch_dealerIdx h = ch_dealerIdx h0
     \<and> ch_sessionID h = ch_sessionID h0
     \<and> ss_reach (ch_shuffle h0) (ch_shuffle h) \<and> (\<forall>d. ch_deal h = Some d \<longrightarrow> deal_rel ok h d)
     \<and> (\<forall>m\<in>set (ch_earlyPeels h). ok m) \<and> (\<forall>pid k. ch_gone h pid = Some k \<longrightarrow> gone_ok ok pid k)
     \<and> length (ch_earlyPeels h) \<le> earlyBufCap \<and> length (ch_earlyShuffle h) \<le> earlyBufCap"

text \<open>What an operation on the deal does not touch.\<close>

lemma rel_gates [simp]:
  "hand_rel ok h0 (h\<lparr>ch_shuffleGate := g\<rparr>) = hand_rel ok h0 h" "hand_rel ok h0 (h\<lparr>ch_holesGate := g\<rparr>) = hand_rel ok h0 h"
  "hand_rel ok h0 (h\<lparr>ch_streetGate := g\<rparr>) = hand_rel ok h0 h" "hand_rel ok h0 (h\<lparr>ch_revealGate := g\<rparr>) = hand_rel ok h0 h"
  by (simp_all add: hand_rel_def deal_rel_def)

lemma rel_signal [simp]: "hand_rel ok h0 (signalPeelProgressLocked h) = hand_rel ok h0 h"
  by (simp add: signalPeelProgressLocked_def hand_rel_def deal_rel_def split: option.splits)

lemma signal_fields [simp]:
  "ch_deal (signalPeelProgressLocked h) = ch_deal h" "ch_gone (signalPeelProgressLocked h) = ch_gone h"
  "ch_earlyPeels (signalPeelProgressLocked h) = ch_earlyPeels h"
  by (simp_all add: signalPeelProgressLocked_def split: option.splits)

lemma rel_deal:
  "hand_rel ok h0 h \<Longrightarrow> deal_rel ok h d \<Longrightarrow> hand_rel ok h0 (h\<lparr>ch_deal := Some d\<rparr>)"
  by (simp add: hand_rel_def deal_rel_def)

lemma deal_rel_upd [simp]:
  "deal_rel ok (h\<lparr>ch_earlyShuffle := z\<rparr>) d = deal_rel ok h d" "deal_rel ok (h\<lparr>ch_gone := g\<rparr>) d = deal_rel ok h d"
  "deal_rel ok (h\<lparr>ch_deal := x\<rparr>) d = deal_rel ok h d" "deal_rel ok (h\<lparr>ch_earlyPeels := y\<rparr>) d = deal_rel ok h d"
  "deal_rel ok (signalPeelProgressLocked h) d = deal_rel ok h d"
  by (simp_all add: deal_rel_def signalPeelProgressLocked_def split: option.splits)

lemma rel_the_deal: "hand_rel ok h0 h \<Longrightarrow> ch_deal h = Some d \<Longrightarrow> deal_rel ok h d"
  by (simp add: hand_rel_def)

lemma deal_rel_step: "deal_rel ok h d \<Longrightarrow> ds_step ok d d' \<Longrightarrow> deal_rel ok h d'"
  unfolding deal_rel_def by (blast intro: ds_reach.step)

lemma collect_step:
  "collectPeels d first = (out, d') \<Longrightarrow> ds_step ok d d'"
  by (auto simp: collectPeels_def split: prod.splits intro: ds_step.outbound)

lemma rel_buffer_peel:
  "hand_rel ok h0 h \<Longrightarrow> \<forall>m. po = Some m \<longrightarrow> ok m \<Longrightarrow> hand_rel ok h0 (bufferPeelLocked po h)"
  by (auto simp: bufferPeelLocked_def hand_rel_def deal_rel_def split: option.splits)

lemma buffer_peel_fields [simp]:
  "ch_deal (bufferPeelLocked po h) = ch_deal h" "deal_rel ok (bufferPeelLocked po h) d = deal_rel ok h d"
  by (auto simp: bufferPeelLocked_def deal_rel_def split: option.splits)

section \<open>Operations on the deal\<close>

text \<open>During a drain the deal is held apart from the hand.\<close>

lemma drain_peels_rel:
  "hand_rel ok h0 h \<Longrightarrow> deal_rel ok h d \<Longrightarrow> \<forall>m\<in>set ms. ok m \<Longrightarrow> hand_rel ok h0 (snd (drain_peels rnd ms d h))"
proof (induction rnd ms d h rule: drain_peels.induct)
  case (1 rnd d h)
  then show ?case by (simp add: rel_deal)
next
  case (2 rnd m ms d h)
  obtain r d1 where p: "HandlePeel (rnd (length ms)) (Some m) d = (r, d1)" by (cases "HandlePeel (rnd (length ms)) (Some m) d")
  have d1: "deal_rel ok h d1" using deal_rel_step [OF "2.prems"(2) ds_step.peel [OF _ p]] "2.prems"(3) by simp
  show ?case
  proof (cases r)
    case (Inl e)
    then show ?thesis using "2.IH"(1) [OF p [symmetric] Inl] p d1 "2.prems" rel_buffer_peel [of ok h0 h "Some m"] rel_deal
      by simp
  next
    case (Inr f)
    obtain out d2 where c: "collectPeels d1 f = (out, d2)" by (cases "collectPeels d1 f")
    have "deal_rel ok h d2" by (rule deal_rel_step [OF d1 collect_step [OF c]])
    then show ?thesis using "2.IH"(2) [OF p [symmetric] Inr c [symmetric]] "2.prems" p c Inr
      by (auto split: sum.splits prod.splits)
  qed
qed

lemma drainPeels_rel: "hand_rel ok h0 h \<Longrightarrow> hand_rel ok h0 (snd (drainPeelsLocked rnd h))"
  unfolding drainPeelsLocked_def
  by (auto split: option.splits intro!: drain_peels_rel) (auto simp: hand_rel_def deal_rel_def)

lemma delegated_loop_rel:
  "hand_rel ok h0 h \<Longrightarrow> deal_rel ok h d \<Longrightarrow> hand_rel ok h0 (snd (delegated_loop rnd d h))"
proof (induction rnd d h rule: delegated_loop.induct)
  case (1 rnd d h)
  let ?p = "expectedPeelerLocked d"
  show ?case
  proof (cases "?p = [] \<or> ch_gone h ?p = None")
    case True
    then show ?thesis using "1.prems" rel_deal by (auto simp: delegated_loop.simps [of rnd d h] Let_def)
  next
    case False
    then obtain k where k: "ch_gone h ?p = Some k" and ne: "?p \<noteq> []" by auto
    obtain r d1 where b: "PeelOnBehalf (pr_loop rnd) (pr_behalf rnd (ds_cardIndex d) ?p) ?p (Some k) d = (r, d1)"
      by (cases "PeelOnBehalf (pr_loop rnd) (pr_behalf rnd (ds_cardIndex d) ?p) ?p (Some k) d")
    have "gone_ok ok ?p k" using "1.prems"(1) k by (simp add: hand_rel_def)
    then have "ds_step ok d d1" by (intro ds_step.behalf [OF _ b]) (auto simp: gone_ok_def)
    then have d1: "deal_rel ok h d1" by (rule deal_rel_step [OF "1.prems"(2)])
    show ?thesis
    proof (cases r)
      case (Inl e)
      then show ?thesis using b k ne "1.prems"(1) d1 rel_deal by (simp add: delegated_loop.simps [of rnd d h] Let_def)
    next
      case (Inr msg)
      obtain out d2 where c: "collectPeels d1 msg = (out, d2)" by (cases "collectPeels d1 msg")
      have d2: "deal_rel ok h d2" by (rule deal_rel_step [OF d1 collect_step [OF c]])
      have "hand_rel ok h0 (snd (delegated_loop rnd d2 (signalPeelProgressLocked (h\<lparr>ch_deal := Some d2\<rparr>))))"
        by (rule "1.IH" [OF refl ne k b [symmetric] Inr c [symmetric]]) (use "1.prems"(1) d2 rel_deal in simp_all)
      then show ?thesis using b c k ne Inr by (auto simp: delegated_loop.simps [of rnd d h] Let_def split: prod.splits)
    qed
  qed
qed

lemma tryDelegated_rel: "hand_rel ok h0 h \<Longrightarrow> hand_rel ok h0 (snd (tryDelegatedPeelsLocked rnd h))"
  by (auto simp: tryDelegatedPeelsLocked_def split: option.splits intro!: delegated_loop_rel rel_the_deal)

lemma after_peel_rel:
  assumes "hand_rel ok h0 h" and "deal_rel ok h d"
  shows "hand_rel ok h0 (snd (after_peel rnd first d h))"
proof -
  obtain out d1 where c: "collectPeels d first = (out, d1)" by (cases "collectPeels d first")
  have "hand_rel ok h0 (h\<lparr>ch_deal := Some d1\<rparr>)" by (rule rel_deal [OF assms(1) deal_rel_step [OF assms(2) collect_step [OF c]]])
  from drainPeels_rel [OF this, of "pr_drain rnd"] show ?thesis using tryDelegated_rel [of ok h0 _ rnd]
    by (fastforce simp: after_peel_def c split: prod.splits sum.splits option.splits)
qed

lemma ensureDeal_rel:
  assumes "hand_rel ok h0 h" and "ensureDealLocked h = (r, h')"
  shows "hand_rel ok h0 h'" and "r = None \<Longrightarrow> ch_deal h' \<noteq> None"
proof -
  show "hand_rel ok h0 h'" using assms
    by (auto simp: ensureDealLocked_def deal_rel_def intro!: rel_deal ds_reach.start split: if_splits sum.splits)
  show "r = None \<Longrightarrow> ch_deal h' \<noteq> None" using assms by (auto simp: ensureDealLocked_def split: if_splits sum.splits)
qed

lemma begin_peels_rel:
  assumes "hand_rel ok h0 h" and "\<And>h. hand_rel ok h0 (rs h) = hand_rel ok h0 h" and "\<And>h. ch_deal (rs h) = ch_deal h"
    and "\<And>d r d'. op d = (r, d') \<Longrightarrow> ds_step ok d d'"
  shows "hand_rel ok h0 (snd (begin_peels rnd rs op h))"
proof -
  obtain r h1 where e: "ensureDealLocked h = (r, h1)" by (cases "ensureDealLocked h")
  note h1 = ensureDeal_rel [OF assms(1) e]
  show ?thesis
  proof (cases r)
    case (Some x)
    then show ?thesis using e h1(1) by (simp add: begin_peels_def)
  next
    case None
    then obtain d where d: "ch_deal (rs h1) = Some d" using h1(2) assms(3) by auto
    have rs: "hand_rel ok h0 (rs h1)" using h1(1) assms(2) by simp
    obtain q d1 where o: "op d = (q, d1)" by (cases "op d")
    have d1: "deal_rel ok (rs h1) d1" by (rule deal_rel_step [OF rel_the_deal [OF rs d] assms(4) [OF o]])
    show ?thesis using e None d o rel_deal [OF rs d1] after_peel_rel [OF rs d1]
      by (cases q) (simp_all add: begin_peels_def)
  qed
qed

section \<open>Operations on the shuffle\<close>

text \<open>A finished shuffle session is not changed any more.\<close>

lemma shuffle_done_frozen:
  assumes "ss_inv s" and "doneLocked s"
  shows "snd (HandleMessage rnd mo s) = s" and "snd (Start rnd s) = s"
proof -
  have c: "keyring_ok (ss_kr s)" "ss_nextIndex s \<ge> length (kr_order (ss_kr s))" using assms by (auto simp: ss_inv_def ss_core_def doneLocked_def)
  then have "ss_nextIndex s \<noteq> 0" by (auto simp: keyring_ok_def)
  then show "snd (Start rnd s) = s" by (simp add: Start_def)
  have "seat < ss_nextIndex s" if "kr_SeatIndex (Some (ss_kr s)) pid = Some seat" for pid seat
    using SeatIndex_Some [OF that] c(2) by simp
  then show "snd (HandleMessage rnd mo s) = s"
    by (auto simp: HandleMessage_def Let_def split: option.splits)
qed

lemma rel_shuffle:
  assumes "hand_rel ok h0 h" and "ss_inv (ch_shuffle h0)"
  shows "hand_rel ok h0 (h\<lparr>ch_shuffle := snd (HandleMessage rnd mo (ch_shuffle h))\<rparr>)"
    and "hand_rel ok h0 (h\<lparr>ch_shuffle := snd (Start srnd (ch_shuffle h))\<rparr>)"
proof -
  have r: "ss_reach (ch_shuffle h0) (ch_shuffle h)" using assms(1) by (simp add: hand_rel_def)
  then have inv: "ss_inv (ch_shuffle h)" using ss_reach_inv assms(2) by blast
  have "hand_rel ok h0 (h\<lparr>ch_shuffle := s\<rparr>)"
    if "ss_reach (ch_shuffle h0) s" "doneLocked (ch_shuffle h) \<Longrightarrow> s = ch_shuffle h" for s
    using assms(1) that by (auto simp: hand_rel_def deal_rel_def)
  then show "hand_rel ok h0 (h\<lparr>ch_shuffle := snd (HandleMessage rnd mo (ch_shuffle h))\<rparr>)"
    "hand_rel ok h0 (h\<lparr>ch_shuffle := snd (Start srnd (ch_shuffle h))\<rparr>)"
    using shuffle_done_frozen [OF inv] ss_reach.handles [OF r] ss_reach.starts [OF r] by blast+
qed

lemma rel_buffer_shuffle: "hand_rel ok h0 h \<Longrightarrow> hand_rel ok h0 (bufferShuffleLocked mo h)"
  by (auto simp: bufferShuffleLocked_def hand_rel_def split: option.splits)

lemma drain_shuffle_rel:
  "hand_rel ok h0 h \<Longrightarrow> ss_inv (ch_shuffle h0) \<Longrightarrow> hand_rel ok h0 (snd (drain_shuffle rnd ms h))"
proof (induction rnd ms h rule: drain_shuffle.induct)
  case (2 rnd m ms h)
  obtain r s where p: "HandleMessage (rnd (length ms)) (Some m) (ch_shuffle h) = (r, s)"
    by (cases "HandleMessage (rnd (length ms)) (Some m) (ch_shuffle h)")
  have h1: "hand_rel ok h0 (h\<lparr>ch_shuffle := s\<rparr>)" using rel_shuffle(1) [OF "2.prems"] p by (metis snd_conv)
  show ?case
  proof (cases r)
    case (Inl e)
    then show ?thesis using "2.IH"(1) [OF p [symmetric] Inl refl] h1 rel_buffer_shuffle "2.prems" p by (simp add: Let_def)
  next
    case (Inr f)
    then show ?thesis using "2.IH"(2) [OF p [symmetric] Inr] h1 "2.prems" p by (auto split: sum.splits prod.splits)
  qed
qed simp

lemma after_step_rel:
  assumes "hand_rel ok h0 h" and "ss_inv (ch_shuffle h0)"
  shows "hand_rel ok h0 (snd (after_step rnd out h))"
proof -
  have "hand_rel ok h0 (h\<lparr>ch_earlyShuffle := []\<rparr>)" using assms(1) by (simp add: hand_rel_def)
  from drain_shuffle_rel [OF this assms(2), of rnd "ch_earlyShuffle h"] obtain r h1 where
    d: "drainShuffleLocked rnd h = (r, h1)" "hand_rel ok h0 h1"
    unfolding drainShuffleLocked_def by (metis prod.collapse)
  then show ?thesis using ensureDeal_rel(1) [OF d(2)]
    by (auto simp: after_step_def afterShuffleLocked_def andthen_def split: sum.splits prod.splits option.splits)
qed

section \<open>Every step\<close>

lemma ch_step_rel:
  assumes "ch_step ok h h'" and "hand_rel ok h0 h" and "ss_inv (ch_shuffle h0)"
  shows "hand_rel ok h0 h'"
  using assms(1)
proof cases
  case (start_shuffle rnd drnd)
  obtain r s where s: "Start rnd (ch_shuffle h) = (r, s)" by (cases "Start rnd (ch_shuffle h)")
  have "hand_rel ok h0 (h\<lparr>ch_shuffle := s\<rparr>)" using rel_shuffle(2) [OF assms(2,3), of rnd] s by simp
  then show ?thesis using start_shuffle s after_step_rel [OF _ assms(3)] by (cases r) (simp_all add: StartShuffle_def)
next
  case (shuffle_message rnd drnd mo)
  obtain r s where s: "HandleMessage rnd mo (ch_shuffle h) = (r, s)" by (cases "HandleMessage rnd mo (ch_shuffle h)")
  have "hand_rel ok h0 (h\<lparr>ch_shuffle := s\<rparr>)" using rel_shuffle(1) [OF assms(2,3), of rnd mo] s by simp
  then show ?thesis using shuffle_message s after_step_rel [OF _ assms(3)] rel_buffer_shuffle
    by (cases r) (simp_all add: HandleShuffle_def Let_def)
next
  case wait_shuffle
  then show ?thesis using assms(2) ensureDeal_rel(1) [OF assms(2)] by (auto simp: WaitShuffle_def split: option.splits prod.splits)
next
  case (abort reason)
  then show ?thesis using assms(2) by (simp add: AbortShuffle_def)
next
  case (start_holes rnd)
  show ?thesis unfolding start_holes StartHoles_def
    by (rule begin_peels_rel [OF assms(2)]) (auto intro: ds_step.holes)
next
  case (start_street rnd street)
  show ?thesis unfolding start_street StartStreet_def
    by (rule begin_peels_rel [OF assms(2)]) (auto intro: ds_step.street)
next
  case (start_reveal rnd pid)
  show ?thesis unfolding start_reveal StartReveal_def
    by (rule begin_peels_rel [OF assms(2)]) (auto intro: ds_step.reveal)
next
  case (peel_message po rnd)
  show ?thesis
  proof (cases "ch_deal h")
    case None
    then show ?thesis using peel_message assms(2) rel_buffer_peel by (simp add: ch_HandlePeel_def)
  next
    case (Some d)
    obtain r d1 where p: "HandlePeel (pr_first rnd) po d = (r, d1)" by (cases "HandlePeel (pr_first rnd) po d")
    have d1: "deal_rel ok h d1" by (rule deal_rel_step [OF rel_the_deal [OF assms(2) Some] ds_step.peel [OF peel_message(2) p]])
    then show ?thesis
      using peel_message Some p rel_deal [OF assms(2) d1] after_peel_rel [OF assms(2) d1] rel_buffer_peel
      by (cases r) (simp_all add: ch_HandlePeel_def Let_def)
  qed
next
  case wait_holes
  then show ?thesis using assms(2) by (simp add: WaitHoles_def)
next
  case wait_street
  then show ?thesis using assms(2) by (auto simp: WaitStreet_def split: option.splits)
next
  case wait_reveal
  then show ?thesis using assms(2) by (auto simp: WaitReveal_def split: option.splits)
next
  case (mark_gone key pid)
  then show ?thesis using assms(2) by (auto simp: MarkGone_def hand_rel_def split: option.splits)
next
  case (delegated rnd)
  then show ?thesis using tryDelegated_rel [OF assms(2)] by (simp add: TryDelegatedPeels_def)
qed

lemma NewCryptoHand_new:
  assumes "NewCryptoHand (Some kr) nonce hand dealer = Inr h0" and "keyring_ok kr"
  shows "hand_rel ok h0 h0" and "ss_inv (ch_shuffle h0)" and "ch_kr h0 = kr" and "ch_handNum h0 = hand" and "ch_dealerIdx h0 = dealer"
    and "NewShuffleSession (Some kr) (SessionID (kr_order kr) (nonce @ [of_int (hand div 256), of_int hand])) hand = Inr (ch_shuffle h0)"
    and "ch_deal h0 = None"
proof -
  show h: "ch_kr h0 = kr" "ch_handNum h0 = hand" "ch_dealerIdx h0 = dealer" "ch_deal h0 = None"
    "NewShuffleSession (Some kr) (SessionID (kr_order kr) (nonce @ [of_int (hand div 256), of_int hand])) hand = Inr (ch_shuffle h0)"
    using assms(1) by (auto simp: NewCryptoHand_def Let_def SeatOrder_def split: if_splits sum.splits)
  show "hand_rel ok h0 h0" using assms(1)
    by (auto simp: NewCryptoHand_def Let_def hand_rel_def intro: ss_reach.initially split: if_splits sum.splits)
  have "\<exists>sid init. newShuffleSession (Some kr) sid hand init = Inr (ch_shuffle h0)"
    using h(5) by (auto simp: NewShuffleSession_def split: option.splits)
  then show "ss_inv (ch_shuffle h0)" using newShuffleSession_inv(1) assms(2) by blast
qed

lemma ch_reach_rel:
  assumes "ch_reach ok h0 h" and "NewCryptoHand (Some kr) nonce hand dealer = Inr h0" and "keyring_ok kr"
  shows "hand_rel ok h0 h"
  using assms(1)
proof induction
  case here
  show ?case by (rule NewCryptoHand_new(1) [OF assms(2,3)])
next
  case (further h h')
  then show ?case using ch_step_rel NewCryptoHand_new(2) [OF assms(2,3)] by blast
qed

section \<open>The sessions of a hand\<close>

text \<open>
  C11: Whatever is done with a crypto hand and whatever messages it is given, its shuffle session is in a
  state that starting it and handing it messages leads to, and a deal session exists only once the
  shuffle is done: it was opened on the deck of that shuffle and is in a state that the steps of a
  deal session lead to. The two buffers for early messages stay within their capacity.
\<close>

theorem crypto_hand_refines:
  assumes "NewCryptoHand (Some kr) nonce hand dealer = Inr h0" and "keyring_ok kr" and "ch_reach (\<lambda>_. True) h0 h"
  shows "NewShuffleSession (Some kr) (SessionID (kr_order kr) (nonce @ [of_int (hand div 256), of_int hand])) hand = Inr (ch_shuffle h0)
    \<and> ss_reach (ch_shuffle h0) (ch_shuffle h)
    \<and> (\<forall>d. ch_deal h = Some d \<longrightarrow> doneLocked (ch_shuffle h) \<and> (\<exists>ed d0. ss_EncryptedDeck (ch_shuffle h) = Inr ed
        \<and> NewDealSession (Some kr) (Some ed) hand dealer = Inr d0 \<and> ds_reach (\<lambda>_. True) d0 d))
    \<and> length (ch_earlyPeels h) \<le> 64 \<and> length (ch_earlyShuffle h) \<le> 64"
proof -
  note n = NewCryptoHand_new [OF assms(1,2)]
  have r: "hand_rel (\<lambda>_. True) h0 h" by (rule ch_reach_rel [OF assms(3,1,2)])
  then have f: "ch_kr h = kr" "ch_handNum h = hand" "ch_dealerIdx h = dealer" using n(3-5) by (simp_all add: hand_rel_def)
  have d: "deal_rel (\<lambda>_. True) h d" if "ch_deal h = Some d" for d by (rule rel_the_deal [OF r that])
  have "ss_reach (ch_shuffle h0) (ch_shuffle h)" "length (ch_earlyPeels h) \<le> 64" "length (ch_earlyShuffle h) \<le> 64"
    using r by (simp_all add: hand_rel_def earlyBufCap_def)
  then show ?thesis using n(6) d unfolding deal_rel_def f by blast
qed

section \<open>The deck that honest players leave\<close>

text \<open>Every applied step encrypts the deck before it with the key of its seat and reorders it.\<close>

definition honest_shuffle :: "(playerID \<Rightarrow> SRAKey) \<Rightarrow> ShuffleSession \<Rightarrow> bool" where
  "honest_shuffle K s \<longleftrightarrow> (\<forall>i m. ss_applied s i = Some m \<longrightarrow>
     (\<exists>xs ys. (if i = 0 then ss_initial s else sm_OutputDeck (the (ss_applied s (i - 1)))) = map Some xs
        \<and> sm_OutputDeck m = map Some ys \<and> mset ys = mset (map (sra_enc (K (kr_order (ss_kr s) ! i))) xs)))"

text \<open>The deck with all layers taken off.\<close>

definition plain_deck :: "(playerID \<Rightarrow> SRAKey) \<Rightarrow> ShuffleSession \<Rightarrow> int list" where
  "plain_deck K s = map (\<lambda>c. fold sra_dec (map K (kr_order (ss_kr s))) (the c)) (ss_current s)"

lemma map_Some_inj: "map Some xs = map Some ys \<Longrightarrow> xs = ys"
  using inj_map_eq_map [of Some xs ys] by simp

lemma honest_layers:
  assumes core: "ss_core k s" and h: "honest_shuffle K s" and init: "ss_initial s = map Some init" and "i < ss_nextIndex s"
  shows "\<exists>m ms. ss_applied s i = Some m \<and> mset ms = mset init
     \<and> sm_OutputDeck m = map (\<lambda>x. Some (fold sra_enc (map K (take (Suc i) (kr_order (ss_kr s)))) x)) ms"
  using assms(4)
proof (induction i)
  case 0
  then obtain m where m: "ss_applied s 0 = Some m" using core_applied [OF core, of 0] by blast
  then obtain ys where y: "sm_OutputDeck m = map Some ys" "mset ys = mset (map (sra_enc (K (kr_order (ss_kr s) ! 0))) init)"
    using h init map_Some_inj unfolding honest_shuffle_def by (metis (full_types))
  from mset_map_split [OF y(2)] obtain ms where "mset ms = mset init" "ys = map (sra_enc (K (kr_order (ss_kr s) ! 0))) ms" by blast
  moreover have "kr_order (ss_kr s) \<noteq> []" using core by (auto simp: ss_core_def keyring_ok_def)
  then have "take 1 (kr_order (ss_kr s)) = [kr_order (ss_kr s) ! 0]" by (cases "kr_order (ss_kr s)") auto
  ultimately show ?case using m y(1) by (auto simp: comp_def)
next
  case (Suc i)
  then obtain m0 ms0 where m0: "ss_applied s i = Some m0" "mset ms0 = mset init"
    "sm_OutputDeck m0 = map (\<lambda>x. Some (fold sra_enc (map K (take (Suc i) (kr_order (ss_kr s)))) x)) ms0" by auto
  obtain m where m: "ss_applied s (Suc i) = Some m" using core_applied [OF core, of "Suc i"] Suc.prems by blast
  then obtain xs ys where y: "sm_OutputDeck m0 = map Some xs" "sm_OutputDeck m = map Some ys"
    "mset ys = mset (map (sra_enc (K (kr_order (ss_kr s) ! Suc i))) xs)"
    using h m0(1) unfolding honest_shuffle_def by fastforce
  have xs: "xs = map (\<lambda>x. fold sra_enc (map K (take (Suc i) (kr_order (ss_kr s)))) x) ms0"
  proof -
    have "map Some xs = map Some (map (\<lambda>x. fold sra_enc (map K (take (Suc i) (kr_order (ss_kr s)))) x) ms0)"
      using m0(3) y(1) by (simp add: comp_def)
    then show ?thesis by (rule map_Some_inj)
  qed
  have len: "Suc i < length (kr_order (ss_kr s))" using core Suc.prems by (simp add: ss_core_def)
  have "mset ys = mset (map (\<lambda>x. fold sra_enc (map K (take (Suc (Suc i)) (kr_order (ss_kr s)))) x) ms0)"
    using y(3) len by (simp add: xs comp_def take_Suc_conv_app_nth [of "Suc i"])
  from mset_map_split [OF this] show ?case using m m0(2) y(2) by (auto simp: comp_def)
qed


lemma final_deck:
  assumes core: "ss_core k s" and d: "doneLocked s" and h: "honest_shuffle K s"
    and init: "ss_initial s = map Some (BuildPlaintextDeck p)" and p: "card_prime p"
    and keys: "\<forall>i\<in>set (kr_order (ss_kr s)). sra_key p (K i)"
  shows "layered_deck p (map K (kr_order (ss_kr s))) (plain_deck K s) (map the (ss_current s))"
proof -
  let ?o = "kr_order (ss_kr s)" and ?n = "ss_nextIndex s"
  have n: "?n = length ?o" "?n \<noteq> 0" using core d by (auto simp: ss_core_def doneLocked_def keyring_ok_def)
  then obtain m ms where m: "ss_applied s (?n - 1) = Some m" "mset ms = mset (BuildPlaintextDeck p)"
    "sm_OutputDeck m = map (\<lambda>x. Some (fold sra_enc (map K (take (Suc (?n - 1)) ?o)) x)) ms"
    using honest_layers [OF core h init, of "?n - 1"] by auto
  have "ss_current s = sm_OutputDeck m" using core m(1) n(2) by (simp add: ss_core_def)
  then have cur: "ss_current s = map (\<lambda>x. Some (fold sra_enc (map K ?o) x)) ms" using m(3) n by simp
  have "x \<in> sra_space p" if "x \<in> set ms" for x using plaintext_space [OF p] that m(2) by (metis mset_eq_setD)
  then have "fold sra_dec (map K ?o) (fold sra_enc (map K ?o) x) = x" if "x \<in> set ms" for x
    using sra.peel_all [of "map K ?o" "map K ?o" p x] keys that by simp
  then have "plain_deck K s = ms" by (simp add: plain_deck_def cur map_idI)
  then show ?thesis using m(2) cur by (simp add: layered_deck_def comp_def)
qed

text \<open>The hole cards of a seat, and the board, that a plaintext deck means.\<close>

definition seat_has :: "int \<Rightarrow> int \<Rightarrow> int \<Rightarrow> int list \<Rightarrow> nat \<Rightarrow> card \<times> card \<Rightarrow> bool" where
  "seat_has p n dealer ms seat h \<longleftrightarrow> (\<exists>k0 k1. HoleCardIndex n dealer (int seat) 0 = Inr k0 \<and> HoleCardIndex n dealer (int seat) 1 = Inr k1
     \<and> fst h = plain_card p (ms ! nat k0) \<and> snd h = plain_card p (ms ! nat k1))"

definition board_cards :: "int \<Rightarrow> int \<Rightarrow> int list \<Rightarrow> card list" where
  "board_cards p n ms = map (\<lambda>k. plain_card p (ms ! nat k)) (board_at n)"

lemma crypto_hand_shows:
  assumes new: "NewCryptoHand (Some kr) nonce hand dealer = Inr h0" and kr: "keyring_ok kr" "length (kr_order kr) \<le> 22"
    and keys: "\<forall>i\<in>set (kr_order kr). sra_key p (K i)" "K (kr_localID kr) = kr_local kr" and p: "card_prime p"
    and reach: "ch_reach (key_peel K) h0 h" and honest: "honest_shuffle K (ch_shuffle h)" and d: "ch_deal h = Some d"
  defines "ms \<equiv> plain_deck K (ch_shuffle h)" and "n \<equiv> int (length (kr_order kr))"
  shows "mset ms = mset (BuildPlaintextDeck p)"
    and "ch_LocalHoles h = Inr hc \<Longrightarrow> seat_has p n dealer ms (local_seat kr) hc"
    and "ch_RevealedHoles pid h = Inr hc \<Longrightarrow> \<exists>seat. kr_SeatIndex (Some kr) pid = Some seat \<and> seat_has p n dealer ms seat hc"
    and "NewCommunityCards already h = Inr cs \<Longrightarrow> \<exists>j\<le>5. already \<le> int j \<and> 0 \<le> already \<and> cs = drop (nat already) (take j (board_cards p n ms))"
proof -
  note nw = NewCryptoHand_new [OF new kr(1)]
  have r: "hand_rel (key_peel K) h0 h" by (rule ch_reach_rel [OF reach new kr(1)])
  then have f: "ch_kr h = kr" "ch_handNum h = hand" "ch_dealerIdx h = dealer" "ss_reach (ch_shuffle h0) (ch_shuffle h)"
    using nw(3-5) by (simp_all add: hand_rel_def)
  obtain ed d0 where done': "doneLocked (ch_shuffle h)" and ed: "ss_EncryptedDeck (ch_shuffle h) = Inr ed"
    and d0: "NewDealSession (Some kr) (Some ed) hand dealer = Inr d0" "ds_reach (key_peel K) d0 d"
    using rel_the_deal [OF r d] unfolding deal_rel_def f by blast
  have loc: "kr_localID kr \<in> set (kr_order kr)" using kr(1) by (simp add: keyring_ok_def)
  then have mod: "Modulus (Some kr) = Some p" using keys by (auto simp: Modulus_def sra_key_def)
  have "newShuffleSession (Some kr) (SessionID (kr_order kr) (nonce @ [of_int (hand div 256), of_int hand])) hand
      (map Some (BuildPlaintextDeck p)) = Inr (ch_shuffle h0)"
    using nw(6) mod by (simp add: NewShuffleSession_def)
  note s0 = newShuffleSession_inv [OF this kr(1)]
  have s: "ss_inv (ch_shuffle h)" "ss_ext (ch_shuffle h0) (ch_shuffle h)" using ss_reach_inv [OF f(4) nw(2)] by auto
  then have sk: "ss_kr (ch_shuffle h) = kr" "ss_initial (ch_shuffle h) = map Some (BuildPlaintextDeck p)"
    using s0 by (simp_all add: ss_ext_def)
  have lay: "layered_deck p (map K (kr_order kr)) ms (map the (ss_current (ch_shuffle h)))"
    using final_deck [OF s(1) [unfolded ss_inv_def] done' honest sk(2) p] keys(1) by (simp add: sk ms_def)
  have e: "ed_P ed = p" "ed_Cards ed = map the (ss_current (ch_shuffle h))"
    using ed mod done' by (auto simp: ss_EncryptedDeck_def NewEncryptedDeck_def sk split: if_splits)
  note sc = session_cards [OF d0(1) kr _ keys(2) _ _ d0(2), of ms, unfolded e, OF keys(1) p lay]
  show "mset ms = mset (BuildPlaintextDeck p)" using lay by (simp add: layered_deck_def)
  show "ch_LocalHoles h = Inr hc \<Longrightarrow> seat_has p n dealer ms (local_seat kr) hc"
    using sc [of "fst hc" "snd hc"] by (auto simp: ch_LocalHoles_def d wrap_def seat_has_def n_def split: sum.splits)
  show "ch_RevealedHoles pid h = Inr hc \<Longrightarrow> \<exists>seat. kr_SeatIndex (Some kr) pid = Some seat \<and> seat_has p n dealer ms seat hc"
    using sc [of "fst hc" "snd hc" pid] by (auto simp: ch_RevealedHoles_def d wrap_def seat_has_def n_def split: sum.splits)
  show "\<exists>j\<le>5. already \<le> int j \<and> 0 \<le> already \<and> cs = drop (nat already) (take j (board_cards p n ms))"
    if c: "NewCommunityCards already h = Inr cs"
  proof -
    obtain all where all: "CommunityCards d = Inr all" "0 \<le> already" "already \<le> int (length all)" "cs = drop (nat already) all"
      using c by (auto simp: NewCommunityCards_def d split: sum.splits if_splits)
    then have "length all \<le> 5 \<and> all = take (length all) (board_cards p n ms)"
      using sc [of undefined undefined undefined all] by (simp add: board_cards_def n_def take_map)
    then show ?thesis using all by metis
  qed
qed

text \<open>
  In a hand whose players shuffle honestly and peel with the keys of their seats, in whatever order
  the messages come, every card the driver hands to the game is right: the deck without its layers is
  a reordering of the 52 cards, the own and the revealed hole cards are its cards at the positions of
  their seat, and the new community cards are its next cards for the board.
\<close>

theorem crypto_hand_cards:
  assumes "NewCryptoHand (Some kr) nonce hand dealer = Inr h0" and "keyring_ok kr" "length (kr_order kr) \<le> 22"
    and "\<forall>i\<in>set (kr_order kr). sra_key p (K i)" "K (kr_localID kr) = kr_local kr" and "card_prime p"
    and "ch_reach (key_peel K) h0 h" and "honest_shuffle K (ch_shuffle h)" and "ch_deal h \<noteq> None"
  shows "mset (plain_deck K (ch_shuffle h)) = mset (BuildPlaintextDeck p)
    \<and> (ch_LocalHoles h = Inr own \<longrightarrow>
        seat_has p (int (length (kr_order kr))) dealer (plain_deck K (ch_shuffle h)) (local_seat kr) own)
    \<and> (ch_RevealedHoles pid h = Inr pair \<longrightarrow> (\<exists>seat. kr_SeatIndex (Some kr) pid = Some seat
        \<and> seat_has p (int (length (kr_order kr))) dealer (plain_deck K (ch_shuffle h)) seat pair))
    \<and> (NewCommunityCards already h = Inr cs \<longrightarrow> (\<exists>j\<le>5. already \<le> int j \<and> 0 \<le> already
        \<and> cs = drop (nat already) (take j (board_cards p (int (length (kr_order kr))) (plain_deck K (ch_shuffle h))))))"
proof -
  obtain d where d: "ch_deal h = Some d" using assms(9) by blast
  show ?thesis using crypto_hand_shows [OF assms(1-8) d] by blast
qed

end
