(* ===== verification/HandDemo.thy ===== *)
theory HandDemo
  imports HandRefine ShuffleCases
begin

text \<open>
  A hand of two seats over the modulus 107, as an instance of the theorems on the crypto hand: seat
  \<open>a\<close> shuffles first, the local seat \<open>b\<close> second.
\<close>

definition duo_ring :: Keyring where
  "duo_ring = \<lparr>kr_localID = ''b'', kr_local = mk_key (Some 5) (Some 85) (Some 107),
     kr_pubs = [''a'' \<mapsto> mk_key (Some 3) None (Some 107), ''b'' \<mapsto> mk_key (Some 5) None (Some 107)],
     kr_order = [''a'', ''b'']\<rparr>"

lemma duo_ring_ok: "keyring_ok duo_ring"
  by (auto simp: keyring_ok_def duo_ring_def IsPrivate_def ran_def)

lemma duo_sel [simp]:
  "kr_order duo_ring = [''a'', ''b'']" "kr_localID duo_ring = ''b''" "kr_local duo_ring = demo_key_of ''b''"
  by (simp_all add: duo_ring_def demo_key_of_def)

lemma duo_keys: "sra_key 107 (demo_key_of i)"
proof -
  have "prime_int 107" by code_simp
  then show ?thesis by (simp add: sra_key_def demo_key_of_def)
qed

lemma duo_modulus: "Modulus (Some duo_ring) = Some 107"
  by (simp add: Modulus_def demo_key_of_def)

lemma duo_hand:
  "\<exists>h0. NewCryptoHand (Some duo_ring) [9] 1 0 = Inr h0 \<and> ch_deal h0 = None \<and> ch_earlyShuffle h0 = [] \<and> ch_kr h0 = duo_ring
     \<and> ch_handNum h0 = 1 \<and> ch_dealerIdx h0 = 0
     \<and> ch_shuffle h0 = \<lparr>ss_kr = duo_ring, ss_proto = \<lparr>sp_P = 107, sp_SessionID = ch_sessionID h0, sp_NumCards = 52\<rparr>,
         ss_handNum = 1, ss_sessionID = ch_sessionID h0, ss_initial = map Some (BuildPlaintextDeck 107), ss_started = False, ss_nextIndex = 0,
         ss_current = [], ss_pending = Map.empty, ss_applied = Map.empty, ss_localPerm = []\<rparr> \<and> ch_sessionID h0 \<noteq> []"
proof -
  have "BuildPlaintextDeck 107 \<noteq> []" by (metis length_BuildPlaintextDeck list.size(3) zero_neq_numeral)
  then show ?thesis
    by (simp add: NewCryptoHand_def Let_def NewShuffleSession_def newShuffleSession_def duo_modulus Len_def
        SessionID_def sha256_nonempty)
qed

text \<open>An honest step exists for any deck of the message space.\<close>

lemma honest_step:
  assumes "set xs \<subseteq> sra_space 107" and "length xs = 52"
  shows "\<exists>step ys. ExecuteStep \<lparr>sp_P = 107, sp_SessionID = sid, sp_NumCards = 52\<rparr> pid (map Some xs) (Some (demo_key_of i)) demo_rand = Inr step
     \<and> st_PlayerID step = pid \<and> st_OutputDeck step = map Some ys \<and> mset ys = mset (map (sra_enc (demo_key_of i)) xs)
     \<and> set ys \<subseteq> sra_space 107 \<and> length ys = 52 \<and> st_Commitment step \<noteq> None
     \<and> VerifyDeck (the (st_Commitment step)) (map Some ys) = None"
proof -
  let ?sp = "\<lparr>sp_P = 107, sp_SessionID = sid, sp_NumCards = 52\<rparr>"
  have "rand_ready demo_rand" by (simp add: rand_ready_def demo_rand_def)
  from ExecuteStep_total [OF card_prime_107 duo_keys assms(1) _ this, of ?sp pid] obtain step where
    e: "ExecuteStep ?sp pid (map Some xs) (Some (demo_key_of i)) demo_rand = Inr step" using assms(2) by auto
  obtain ys where ys: "st_OutputDeck step = map Some ys" "mset ys = mset (map (sra_enc (demo_key_of i)) xs)" "set ys \<subseteq> sra_space 107"
    using ExecuteStep_result [OF e duo_keys assms(1)] by blast
  moreover have "length ys = 52" using ys(2) assms(2) by (metis length_map size_mset)
  ultimately show ?thesis using e ExecuteStep_shape [OF e] by auto
qed

lemma BuildPlaintextDeck_107: "set (BuildPlaintextDeck 107) \<subseteq> sra_space 107" "length (BuildPlaintextDeck 107) = 52"
  using plaintext_space [OF card_prime_107] by auto

lemma duo_run:
  "\<exists>h0 h. NewCryptoHand (Some duo_ring) [9] 1 0 = Inr h0 \<and> ch_reach ok h0 h \<and> ch_deal h \<noteq> None
     \<and> honest_shuffle demo_key_of (ch_shuffle h)"
proof -
  obtain h0 where h0: "NewCryptoHand (Some duo_ring) [9] 1 0 = Inr h0" "ch_deal h0 = None" "ch_earlyShuffle h0 = []"
    "ch_kr h0 = duo_ring" "ch_handNum h0 = 1" "ch_dealerIdx h0 = 0" "ch_sessionID h0 \<noteq> []"
    and s0: "ch_shuffle h0 = \<lparr>ss_kr = duo_ring, ss_proto = \<lparr>sp_P = 107, sp_SessionID = ch_sessionID h0, sp_NumCards = 52\<rparr>,
         ss_handNum = 1, ss_sessionID = ch_sessionID h0, ss_initial = map Some (BuildPlaintextDeck 107), ss_started = False, ss_nextIndex = 0,
         ss_current = [], ss_pending = Map.empty, ss_applied = Map.empty, ss_localPerm = []\<rparr>"
    using duo_hand by blast
  obtain sa :: ShuffleStep and ya where a: "st_PlayerID sa = ''a''" "st_OutputDeck sa = map Some ya"
    "mset ya = mset (map (sra_enc (demo_key_of ''a'')) (BuildPlaintextDeck 107))" "set ya \<subseteq> sra_space 107" "length ya = 52"
    "st_Commitment sa \<noteq> None" "VerifyDeck (the (st_Commitment sa)) (map Some ya) = None"
    using honest_step [OF BuildPlaintextDeck_107, of "ch_sessionID h0" "''a''" "''a''"] by blast
  obtain sb yb where b: "ExecuteStep \<lparr>sp_P = 107, sp_SessionID = ch_sessionID h0, sp_NumCards = 52\<rparr> ''b'' (map Some ya) (Some (demo_key_of ''b'')) demo_rand = Inr sb"
    "st_PlayerID sb = ''b''" "st_OutputDeck sb = map Some yb"
    "mset yb = mset (map (sra_enc (demo_key_of ''b'')) ya)" "set yb \<subseteq> sra_space 107" "length yb = 52"
    "st_Commitment sb \<noteq> None" "VerifyDeck (the (st_Commitment sb)) (map Some yb) = None"
    using honest_step [OF a(4,5), of "ch_sessionID h0" "''b''" "''b''"] by blast
  have ne: "ya \<noteq> []" "yb \<noteq> []" using a(5) b(6) by auto
  let ?ma = "\<lparr>sm_HandNum = 1, sm_PlayerID = ''a'', sm_OutputDeck = map Some ya, sm_Commitment = st_Commitment sa\<rparr>"
  let ?mb = "\<lparr>sm_HandNum = 1, sm_PlayerID = ''b'', sm_OutputDeck = map Some yb, sm_Commitment = st_Commitment sb\<rparr>"
  let ?s1 = "(ch_shuffle h0)\<lparr>ss_started := True, ss_current := map Some (BuildPlaintextDeck 107)\<rparr>"
  let ?h1 = "h0\<lparr>ch_shuffle := ?s1\<rparr>"
  have st: "Start demo_rand (ch_shuffle h0) = (Inr None, ?s1)"
    by (simp add: s0 Start_def Let_def expectedPlayerLocked_def)
  have h1: "StartShuffle demo_rand (\<lambda>_. demo_rand) h0 = (Inr [], ?h1)"
    using st by (simp add: StartShuffle_def after_step_def drainShuffleLocked_def h0(3) afterShuffleLocked_def doneLocked_def s0 appendShuffle_def)
  let ?s2 = "?s1\<lparr>ss_applied := [0 \<mapsto> ?ma], ss_current := map Some ya, ss_nextIndex := 1\<rparr>"
  let ?s3 = "?s2\<lparr>ss_localPerm := st_Permutation sb, ss_applied := [0 \<mapsto> ?ma, 1 \<mapsto> ?mb], ss_current := map Some yb, ss_nextIndex := 2\<rparr>"
  have v: "verifyAndAdoptLocked ?ma ?s1 = (None, ?s2)" using a(6,7)
    by (auto simp: verifyAndAdoptLocked_def Let_def VerifyStep_def s0)
  have w: "verifyAndAdoptLocked ?mb (?s2\<lparr>ss_localPerm := st_Permutation sb\<rparr>) = (None, ?s3)" using b(7,8)
    by (auto simp: verifyAndAdoptLocked_def Let_def VerifyStep_def s0)
  have x: "executeLocalLocked demo_rand ?s2 = (Inr (Some ?mb), ?s3)"
  proof -
    have "ShuffleMessageFromStep 1 (Some sb) = Inr ?mb" using b(2,3,7) ne by (simp add: ShuffleMessageFromStep_def)
    moreover have "drainPendingLocked ?s3 = (None, ?s3)" by (simp add: drainPendingLocked.simps doneLocked_def s0)
    ultimately show ?thesis using w b(1)
      by (simp add: executeLocalLocked_def expectedPlayerLocked_def s0 Let_def LocalKey_Some)
  qed
  have "drainPendingLocked ?s2 = (None, ?s2)" by (simp add: drainPendingLocked.simps doneLocked_def expectedPlayerLocked_def s0)
  then have "afterApplyLocked demo_rand ?s2 = (Inr (Some ?mb), ?s3)"
    using x by (simp add: afterApplyLocked_def doneLocked_def expectedPlayerLocked_def s0)
  then have hm: "HandleMessage demo_rand (Some ?ma) ?s1 = (Inr (Some ?mb), ?s3)" using v a(5,6)
    by (auto simp: HandleMessage_def validateIncomingLocked_def Let_def kr_SeatIndex_def expectedPlayerLocked_def s0)
  let ?h3 = "?h1\<lparr>ch_shuffle := ?s3\<rparr>"
  have ed: "ss_EncryptedDeck ?s3 = Inr \<lparr>ed_Cards = yb, ed_P = 107, ed_SessionID = ch_sessionID h0\<rparr>"
    using b(6) duo_modulus by (auto simp: ss_EncryptedDeck_def doneLocked_def s0 NewEncryptedDeck_def comp_def)
  have "\<exists>d. NewDealSession (Some duo_ring) (Some \<lparr>ed_Cards = yb, ed_P = 107, ed_SessionID = ch_sessionID h0\<rparr>) 1 0 = Inr d"
    using b(6) ne h0(7) by (simp add: NewDealSession_def newDealSession_def Len_def duo_modulus)
  then obtain h where h: "HandleShuffle demo_rand (\<lambda>_. demo_rand) (Some ?ma) ?h1 = (Inr [?mb], h)" "ch_deal h \<noteq> None" "ch_shuffle h = ?s3"
    using hm ed by (auto simp: HandleShuffle_def after_step_def drainShuffleLocked_def h0(2-6) afterShuffleLocked_def
        doneLocked_def ensureDealLocked_def appendShuffle_def s0)
  have "ch_reach ok h0 ?h1" using ch_reach.further [OF ch_reach.here ch_step.start_shuffle, of ok h0 demo_rand "\<lambda>_. demo_rand"] h1 by simp
  then have "ch_reach ok h0 h"
    using ch_reach.further [OF _ ch_step.shuffle_message, of ok h0 ?h1 demo_rand "\<lambda>_. demo_rand" "Some ?ma"] h(1) by simp
  moreover have "honest_shuffle demo_key_of (ch_shuffle h)"
    using a(3) b(4) by (auto simp: honest_shuffle_def h(3) s0)
  ultimately show ?thesis using h0(1) h(2) by blast
qed

lemma crypto_hand_refines_witness:
  "\<exists>h0 h d. NewCryptoHand (Some duo_ring) [9] 1 0 = Inr h0 \<and> ch_reach (\<lambda>_. True) h0 h \<and> ch_deal h = Some d \<and> doneLocked (ch_shuffle h)"
  using duo_run [of "\<lambda>_. True"] crypto_hand_refines [OF _ duo_ring_ok, of "[9]" 1 0] by blast

lemma crypto_hand_cards_witness:
  "\<exists>h0 h. NewCryptoHand (Some duo_ring) [9] 1 0 = Inr h0 \<and> ch_reach (key_peel demo_key_of) h0 h \<and> ch_deal h \<noteq> None
     \<and> mset (plain_deck demo_key_of (ch_shuffle h)) = mset (BuildPlaintextDeck 107)"
proof -
  obtain h0 h where h: "NewCryptoHand (Some duo_ring) [9] 1 0 = Inr h0" "ch_reach (key_peel demo_key_of) h0 h"
    "ch_deal h \<noteq> None" "honest_shuffle demo_key_of (ch_shuffle h)" using duo_run by blast
  have k: "\<forall>i\<in>set (kr_order duo_ring). sra_key 107 (demo_key_of i)" "demo_key_of (kr_localID duo_ring) = kr_local duo_ring"
    "length (kr_order duo_ring) \<le> 22" by (simp_all add: duo_keys)
  show ?thesis using crypto_hand_cards [OF h(1) duo_ring_ok k(3,1,2) card_prime_107 h(2,4,3)] h by blast
qed

end
