(* ===== verification/EngineCards.thy ===== *)
theory EngineCards
  imports HandDemo HandExamples
begin

text \<open>
  The crypto hand and the engine together: \<open>AdvanceCrypto\<close> deals the streets and the showdown into the
  game. Every card it puts on the table is the card of the shuffled deck for that place, whatever
  other operations run while it waits.
\<close>

section \<open>True cards\<close>

definition cards_true :: "int \<Rightarrow> Keyring \<Rightarrow> int \<Rightarrow> int list \<Rightarrow> game_state \<Rightarrow> bool" where
  "cards_true p kr dealer ms gs \<longleftrightarrow>
     (\<exists>j. gs_community gs = take j (board_cards p (int (length (kr_order kr))) ms))
     \<and> (\<forall>q\<in>set (gs_players gs). holeCardsDealt q \<longrightarrow> (\<exists>seat. kr_SeatIndex (Some kr) (p_id q) = Some seat
          \<and> seat_has p (int (length (kr_order kr))) dealer ms seat (p_holes q)))"

lemma map_pair_zip: "map (\<lambda>q. (f q, g q)) xs = zip (map f xs) (map g xs)"
  by (induction xs) auto

lemma take_drop_more: "take i b @ drop (length (take i b)) (take j b) = take (max i j) b"
proof (cases "i \<le> j")
  case True
  then have "take i b = take i (take j b)" by (simp add: min_absorb1)
  moreover have "take (length (take i b)) (take j b) = take i (take j b)" using True by (simp add: min_def)
  ultimately show ?thesis using True append_take_drop_id [of "length (take i b)" "take j b"] by (metis max_absorb2)
qed (simp add: max_def)

lemma cards_true_same:
  assumes "same_cards g h" and "cards_true p kr dealer ms g"
  shows "cards_true p kr dealer ms h"
proof -
  have m: "map (\<lambda>q. (p_holes q, p_id q)) (gs_players h) = map (\<lambda>q. (p_holes q, p_id q)) (gs_players g)"
    using assms(1) by (simp add: same_cards_def map_pair_zip)
  have "\<exists>q'\<in>set (gs_players g). p_holes q' = p_holes q \<and> p_id q' = p_id q" if "q \<in> set (gs_players h)" for q
  proof -
    have "(p_holes q, p_id q) \<in> set (map (\<lambda>q. (p_holes q, p_id q)) (gs_players h))" using that by auto
    then show ?thesis unfolding m by auto
  qed
  then show ?thesis using assms unfolding cards_true_def same_cards_def holeCardsDealt_def by metis
qed

text \<open>The game in crypto mode, with a board that fits its phase.\<close>

definition game_ok :: "game_state \<Rightarrow> bool" where
  "game_ok gs \<longleftrightarrow> cryptoMode gs \<and> board_ok gs \<and> cards_ok gs"

lemma ApplyStreet_true:
  assumes g: "game_ok gs" and t: "cards_true p kr dealer ms gs"
    and c: "cards = drop (length (gs_community gs)) (take j (board_cards p (int (length (kr_order kr))) ms))"
  shows "game_ok (snd (ApplyStreet cards gs)) \<and> cards_true p kr dealer ms (snd (ApplyStreet cards gs))"
proof -
  have ok: "game_ok (snd (ApplyStreet cards gs))" using apply_op_crypto [of gs "OpStreet cards"] g by (simp add: game_ok_def)
  show ?thesis
  proof (cases "gs_phase gs = PhaseAwaitingStreet \<and> pendingStreetCount (length (gs_community gs)) = length cards
      \<and> pendingStreetCount (length (gs_community gs)) \<noteq> 0 \<and> check_street (knownDealtCards gs) cards = None")
    case False
    then have "snd (ApplyStreet cards gs) = gs"
      using g by (auto simp: game_ok_def ApplyStreet_def Let_def split: option.split)
    then show ?thesis using ok t by simp
  next
    case True
    define ph where "ph = (if length (gs_community gs) = 0 then PhaseFlop
      else if length (gs_community gs) = 3 then PhaseTurn else PhaseRiver)"
    let ?g = "gs\<lparr>gs_community := gs_community gs @ cards, gs_phase := ph\<rparr>"
    have k: "length (gs_community gs) \<in> {0, 3, 4}" using True g by (auto simp: game_ok_def board_ok_def)
    have "ApplyStreet cards gs = startNewBettingRound ?g"
      using g True k by (auto simp: game_ok_def ApplyStreet_def Let_def ph_def pendingStreetCount_def)
    moreover have "cryptoMode ?g" "betting_phase (gs_phase ?g)" "board_ok ?g"
      using g True k by (auto simp: game_ok_def cryptoMode_def ph_def board_ok_def pendingStreetCount_def)
    ultimately have s: "same_cards ?g (snd (ApplyStreet cards gs))" using startNewBettingRound_board(2) by simp
    let ?b = "board_cards p (int (length (kr_order kr))) ms"
    obtain i where "gs_community gs = take i ?b" using t by (auto simp: cards_true_def)
    then have "gs_community gs @ cards = take (max i j) ?b" by (simp only: c take_drop_more)
    then have "cards_true p kr dealer ms ?g" using t by (auto simp: cards_true_def)
    then show ?thesis using cards_true_same [OF s] ok by blast
  qed
qed

lemma ApplyHoleReveal_true:
  assumes g: "game_ok gs" and t: "cards_true p kr dealer ms gs"
    and seat: "kr_SeatIndex (Some kr) pid = Some seat" "seat_has p (int (length (kr_order kr))) dealer ms seat cards"
  shows "game_ok (snd (ApplyHoleReveal pid cards gs)) \<and> cards_true p kr dealer ms (snd (ApplyHoleReveal pid cards gs))"
proof -
  obtain e h where r: "ApplyHoleReveal pid cards gs = (e, h)" by fastforce
  have a: "game_ok h \<and> (e \<noteq> None \<longrightarrow> h = gs)" using apply_op_crypto [of gs "OpReveal pid cards"] g r by (simp add: game_ok_def)
  show ?thesis
  proof (cases e)
    case (Some x)
    then show ?thesis using a r g t by simp
  next
    case None
    obtain i g where i: "i < length (gs_players gs)" "p_id (gs_players gs ! i) = pid"
      and g': "g = gs \<or> g = upd_seat i (\<lambda>p. p\<lparr>p_holes := cards\<rparr>) gs"
      and h: "if remainingHolesIncomplete g then h = g else distributePots g = (None, h)"
      using ApplyHoleReveal_ok(3) [OF r [unfolded None]] by blast
    have "\<exists>s. kr_SeatIndex (Some kr) (p_id q) = Some s \<and> seat_has p (int (length (kr_order kr))) dealer ms s (p_holes q)"
      if "q \<in> set ((gs_players gs)[i := (gs_players gs ! i)\<lparr>p_holes := cards\<rparr>])" "holeCardsDealt q" for q
      using set_update_subset_insert [of "gs_players gs" i] that t seat i by (fastforce simp: cards_true_def)
    then have "cards_true p kr dealer ms g" using t g' by (auto simp: cards_true_def upd_seat_def)
    moreover have "same_cards g h" using h distributePots_cards [of g] by (auto split: if_splits)
    ultimately show ?thesis using a r cards_true_same by auto
  qed
qed

section \<open>The loop\<close>

lemma run_sequence_cases:
  assumes "run_sequence send started ws gs go_on = (pr, h', gs')"
  obtains (stop) "h' = snd started" and "gs' = gs"
  | (waited) w vs where "ws = w # vs" and "h' = we_hand w (snd started)" and "gs' = we_game w gs"
  | (on) w vs where "ws = w # vs" and "go_on vs (we_hand w (snd started)) (we_game w gs) = (pr, h', gs')"
proof -
  obtain r h1 where s: "started = (r, h1)" by (cases started)
  show thesis
  proof (cases r)
    case (Inl e)
    then show ?thesis using assms s stop by (simp add: run_sequence_def)
  next
    case (Inr msgs)
    then show ?thesis using assms s stop waited on
      by (cases ws) (auto simp: run_sequence_def Let_def split: option.splits)
  qed
qed

lemma ch_reach_trans: "ch_reach ok b c \<Longrightarrow> ch_reach ok a b \<Longrightarrow> ch_reach ok a c"
  by (induction rule: ch_reach.induct) (auto intro: ch_reach.further)

text \<open>Once there is a deal the shuffle does not change any more.\<close>

lemma done_reach_frozen:
  assumes "ss_reach s0 s" and "ss_inv s0" and "doneLocked s0"
  shows "s = s0"
  using assms(1) by induction (use shuffle_done_frozen [OF assms(2,3)] in auto)

lemma deal_fixes_shuffle:
  assumes "hand_rel ok h0 h" and "ss_inv (ch_shuffle h0)" and "ch_deal h \<noteq> None" and "ch_reach ok h x"
  shows "ch_shuffle x = ch_shuffle h"
proof -
  have inv: "ss_inv (ch_shuffle h)" using ss_reach_inv assms(1,2) unfolding hand_rel_def by blast
  have self: "hand_rel ok h h" using assms(1) by (auto simp: hand_rel_def intro: ss_reach.initially)
  have "hand_rel ok h x"
    using assms(4) by induction (use self ch_step_rel [OF _ _ inv] in auto)
  moreover have "doneLocked (ch_shuffle h)" using assms(1,3) rel_the_deal by (auto simp: deal_rel_def)
  ultimately show ?thesis using done_reach_frozen inv by (auto simp: hand_rel_def)
qed

text \<open>
  While it waits, other operations happen to the hand; the game may go on as long as it leaves the
  cards alone, which betting does.
\<close>

definition env_ok :: "(PeelMessage \<Rightarrow> bool) \<Rightarrow> CryptoHand \<Rightarrow> wait_env \<Rightarrow> bool" where
  "env_ok ok h w \<longleftrightarrow> (\<forall>x. ch_reach ok h x \<longrightarrow> ch_reach ok h (we_hand w x))
     \<and> (\<forall>g. game_ok g \<longrightarrow> same_cards g (we_game w g) \<and> game_ok (we_game w g))"

lemma betting_env: "game_ok g \<Longrightarrow> same_cards g (snd (ApplyAction a g)) \<and> game_ok (snd (ApplyAction a g))"
  using ApplyAction_board [of g a] same_cards_table [of g "snd (ApplyAction a g)"] apply_op_crypto [of g "OpAction a"]
  by (simp add: game_ok_def)

definition advance_inv :: "(PeelMessage \<Rightarrow> bool) \<Rightarrow> CryptoHand \<Rightarrow> (game_state \<Rightarrow> bool) \<Rightarrow> CryptoHand \<Rightarrow> game_state \<Rightarrow> bool" where
  "advance_inv ok h T x gs \<longleftrightarrow> ch_reach ok h x \<and> game_ok gs \<and> T gs"

lemma env_inv:
  assumes "env_ok ok h w" and "\<And>g g'. same_cards g g' \<Longrightarrow> T g \<Longrightarrow> T g'" and "advance_inv ok h T x gs"
  shows "advance_inv ok h T (we_hand w x) (we_game w gs)"
  using assms unfolding env_ok_def advance_inv_def by blast

lemma reveals_true:
  assumes T: "\<And>g g'. same_cards g g' \<Longrightarrow> T g \<Longrightarrow> T g'"
    and rev: "\<And>x pid cs g. ch_reach ok h x \<Longrightarrow> ch_RevealedHoles pid x = Inr cs \<Longrightarrow> game_ok g \<Longrightarrow> T g
      \<Longrightarrow> game_ok (snd (ApplyHoleReveal pid cs g)) \<and> T (snd (ApplyHoleReveal pid cs g))"
  shows "advance_inv ok h T x gs \<Longrightarrow> \<forall>w\<in>set ws. env_ok ok h w
    \<Longrightarrow> advance_reveals rnd send ids ws x gs = (pr, h', gs') \<Longrightarrow> advance_inv ok h T h' gs'"
proof (induction ids arbitrary: ws x gs)
  case Nil
  then show ?case by simp
next
  case (Cons pid ids)
  have s: "advance_inv ok h T (snd (StartReveal rnd pid x)) gs"
    using Cons.prems(1) ch_reach.further [OF _ ch_step.start_reveal] by (auto simp: advance_inv_def)
  from Cons.prems(3) [unfolded advance_reveals.simps] show ?case
  proof (cases rule: run_sequence_cases)
    case stop
    then show ?thesis using s by simp
  next
    case (waited w vs)
    then show ?thesis using env_inv [OF _ T s] Cons.prems(2) by simp
  next
    case (on w vs)
    let ?x = "we_hand w (snd (StartReveal rnd pid x))" and ?g = "we_game w gs"
    have i: "advance_inv ok h T ?x ?g" using env_inv [OF _ T s] Cons.prems(2) on(1) by simp
    have e: "\<forall>w\<in>set vs. env_ok ok h w" using Cons.prems(2) on(1) by simp
    show ?thesis
    proof (cases "ch_RevealedHoles pid ?x")
      case (Inl er)
      then show ?thesis using on(2) i by simp
    next
      case (Inr cs)
      obtain r g3 where a: "ApplyHoleReveal pid cs ?g = (r, g3)" by fastforce
      have "advance_inv ok h T ?x g3" using rev [OF _ Inr, of ?g] i a by (simp add: advance_inv_def)
      then show ?thesis using on(2) Inr a i Cons.IH [OF _ e]
        by (cases r) (auto split: if_splits)
    qed
  qed
qed

lemma advance_true:
  assumes T: "\<And>g g'. same_cards g g' \<Longrightarrow> T g \<Longrightarrow> T g'"
    and rev: "\<And>x pid cs g. ch_reach ok h x \<Longrightarrow> ch_RevealedHoles pid x = Inr cs \<Longrightarrow> game_ok g \<Longrightarrow> T g
      \<Longrightarrow> game_ok (snd (ApplyHoleReveal pid cs g)) \<and> T (snd (ApplyHoleReveal pid cs g))"
    and str: "\<And>x cs g. ch_reach ok h x \<Longrightarrow> NewCommunityCards (int (length (gs_community g))) x = Inr cs \<Longrightarrow> game_ok g \<Longrightarrow> T g
      \<Longrightarrow> game_ok (snd (ApplyStreet cs g)) \<and> T (snd (ApplyStreet cs g))"
  shows "advance_inv ok h T x gs \<Longrightarrow> \<forall>w\<in>set ws. env_ok ok h w
    \<Longrightarrow> AdvanceCrypto rnd send ws x gs = (pr, h', gs') \<Longrightarrow> advance_inv ok h T h' gs'"
proof (induction "length ws" arbitrary: ws x gs rule: less_induct)
  case less
  show ?case
  proof (cases "NeedsStreet gs")
    case False
    then show ?thesis using less.prems reveals_true [OF T rev less.prems(1,2)]
      by (auto simp: AdvanceCrypto.simps [of rnd send ws] split: if_splits)
  next
    case True
    show ?thesis
    proof (cases "StreetFromPending gs")
      case (Inl e)
      then show ?thesis using less.prems True by (simp add: AdvanceCrypto.simps [of rnd send ws])
    next
      case (Inr street)
      have s: "advance_inv ok h T (snd (StartStreet rnd street x)) gs"
        using less.prems(1) ch_reach.further [OF _ ch_step.start_street] by (auto simp: advance_inv_def)
      have run: "run_sequence send (StartStreet rnd street x) ws gs (\<lambda>ws' h2 gs2.
             case NewCommunityCards (int (length (gs_community gs))) h2 of Inl e \<Rightarrow> (Returned (Some e), h2, gs2)
             | Inr cards \<Rightarrow> (case ApplyStreet cards gs2 of (Some e, gs3) \<Rightarrow> (Returned (Some (ErrGame e)), h2, gs3)
                 | (None, gs3) \<Rightarrow> AdvanceCrypto rnd send ws' h2 gs3)) = (pr, h', gs')"
        using less.prems(3) True Inr by (simp add: AdvanceCrypto.simps [of rnd send ws])
      from run show ?thesis
      proof (cases rule: run_sequence_cases)
        case stop
        then show ?thesis using s by simp
      next
        case (waited w vs)
        then show ?thesis using env_inv [OF _ T s] less.prems(2) by simp
      next
        case (on w vs)
        let ?x = "we_hand w (snd (StartStreet rnd street x))" and ?g = "we_game w gs"
        have i: "advance_inv ok h T ?x ?g" using env_inv [OF _ T s] less.prems(2) on(1) by simp
        have "same_cards gs ?g" using less.prems(1,2) on(1) by (simp add: env_ok_def advance_inv_def)
        then have l: "length (gs_community ?g) = length (gs_community gs)" by (simp add: same_cards_def)
        show ?thesis
        proof (cases "NewCommunityCards (int (length (gs_community gs))) ?x")
          case (Inl er)
          then show ?thesis using on(2) i by simp
        next
          case (Inr cs)
          obtain r g3 where a: "ApplyStreet cs ?g = (r, g3)" by fastforce
          have "advance_inv ok h T ?x g3" using str [of ?x ?g cs] Inr l i a by (simp add: advance_inv_def)
          then show ?thesis using on Inr a less.hyps [of vs ?x g3] less.prems(2) by (cases r) auto
        qed
      qed
    qed
  qed
qed

text \<open>
  C9: The engine only ever gets true cards. A hand whose players shuffle honestly and peel with their
  keys is advanced by \<open>AdvanceCrypto\<close> while other operations run during its waits: starting from a game
  whose cards are those of the shuffled deck, the board afterwards is the beginning of the deck's
  board, and every player who shows two cards shows the two cards of his seat. This holds whether the
  call is still waiting, has failed or has finished.
\<close>

theorem engine_gets_true_cards:
  assumes "NewCryptoHand (Some kr) nonce hand dealer = Inr h0" and "keyring_ok kr" "length (kr_order kr) \<le> 22"
    and "\<forall>i\<in>set (kr_order kr). sra_key p (K i)" "K (kr_localID kr) = kr_local kr" and "card_prime p"
    and "ch_reach (key_peel K) h0 h" and "honest_shuffle K (ch_shuffle h)" and "ch_deal h \<noteq> None"
    and "game_ok gs" and "cards_true p kr dealer (plain_deck K (ch_shuffle h)) gs" and "\<forall>w\<in>set ws. env_ok (key_peel K) h w"
    and "AdvanceCrypto rnd send ws h gs = (pr, h', gs')"
  shows "game_ok gs' \<and> cards_true p kr dealer (plain_deck K (ch_shuffle h)) gs'"
proof -
  let ?T = "cards_true p kr dealer (plain_deck K (ch_shuffle h))"
  note nw = NewCryptoHand_new [OF assms(1,2)]
  have r: "hand_rel (key_peel K) h0 h" by (rule ch_reach_rel [OF assms(7,1,2)])
  have sh: "ch_shuffle x = ch_shuffle h" if "ch_reach (key_peel K) h x" for x
    by (rule deal_fixes_shuffle [OF r nw(2) assms(9) that])
  have hon: "honest_shuffle K (ch_shuffle x)" if "ch_reach (key_peel K) h x" for x using sh [OF that] assms(8) by simp
  have to: "ch_reach (key_peel K) h0 x" if "ch_reach (key_peel K) h x" for x by (rule ch_reach_trans [OF that assms(7)])
  note shows' = crypto_hand_shows [OF assms(1-6) to hon]
  have "advance_inv (key_peel K) h ?T h' gs'"
  proof (rule advance_true [OF cards_true_same _ _ _ assms(12,13)])
    show "advance_inv (key_peel K) h ?T h gs" using assms(10,11) ch_reach.here by (simp add: advance_inv_def)
  next
    fix x pid cs g
    assume x: "ch_reach (key_peel K) h x" and c: "ch_RevealedHoles pid x = Inr cs" and g: "game_ok g" "?T g"
    obtain d where "ch_deal x = Some d" using c by (auto simp: ch_RevealedHoles_def split: option.splits)
    from shows'(3) [OF x x this c] obtain seat where "kr_SeatIndex (Some kr) pid = Some seat"
      "seat_has p (int (length (kr_order kr))) dealer (plain_deck K (ch_shuffle h)) seat cs" unfolding sh [OF x] by blast
    then show "game_ok (snd (ApplyHoleReveal pid cs g)) \<and> ?T (snd (ApplyHoleReveal pid cs g))"
      by (rule ApplyHoleReveal_true [OF g])
  next
    fix x cs g
    assume x: "ch_reach (key_peel K) h x" and c: "NewCommunityCards (int (length (gs_community g))) x = Inr cs" and g: "game_ok g" "?T g"
    obtain d where "ch_deal x = Some d" using c by (auto simp: NewCommunityCards_def split: option.splits)
    from shows'(4) [OF x x this c] obtain j where "cs = drop (length (gs_community g))
        (take j (board_cards p (int (length (kr_order kr))) (plain_deck K (ch_shuffle h))))" unfolding sh [OF x] nat_int by blast
    then show "game_ok (snd (ApplyStreet cs g)) \<and> ?T (snd (ApplyStreet cs g))"
      by (rule ApplyStreet_true [OF g])
  qed
  then show ?thesis by (simp add: advance_inv_def)
qed

text \<open>A game of two that waits for the flop.\<close>

definition flop_game :: game_state where
  "flop_game = crypto_demo [100, 200] [op_act ''a'' ActionCall 0, op_act ''b'' ActionCheck 0]"

lemma flop_game_ok: "NeedsStreet flop_game" "game_ok flop_game" "cards_true p kr dealer ms flop_game"
proof -
  have "NeedsStreet flop_game \<and> cryptoMode flop_game \<and> board_ok flop_game \<and> distinct (table_cards flop_game)
      \<and> gs_community flop_game = [] \<and> list_all (\<lambda>q. \<not> holeCardsDealt q) (gs_players flop_game)" by code_simp
  then show "NeedsStreet flop_game" "game_ok flop_game" "cards_true p kr dealer ms flop_game"
    by (auto simp: game_ok_def cards_ok_def cards_true_def list_all_iff intro: exI [of _ 0])
qed

lemma engine_gets_true_cards_witness:
  "\<forall>rnd. \<exists>h0 h pr h' gs'. NewCryptoHand (Some duo_ring) [9] 1 0 = Inr h0 \<and> ch_reach (key_peel demo_key_of) h0 h \<and> NeedsStreet flop_game
     \<and> AdvanceCrypto rnd (\<lambda>_. None) [\<lparr>we_err = None, we_hand = \<lambda>x. x, we_game = \<lambda>g. g\<rparr>] h flop_game = (pr, h', gs')
     \<and> game_ok gs' \<and> cards_true 107 duo_ring 0 (plain_deck demo_key_of (ch_shuffle h)) gs'" (is "\<forall>rnd. ?P rnd")
proof
  fix rnd
  obtain h0 h where h: "NewCryptoHand (Some duo_ring) [9] 1 0 = Inr h0" "ch_reach (key_peel demo_key_of) h0 h"
    "ch_deal h \<noteq> None" "honest_shuffle demo_key_of (ch_shuffle h)" using duo_run by blast
  have k: "\<forall>i\<in>set (kr_order duo_ring). sra_key 107 (demo_key_of i)" "demo_key_of (kr_localID duo_ring) = kr_local duo_ring"
    "length (kr_order duo_ring) \<le> 22" by (simp_all add: duo_keys)
  let ?w = "\<lparr>we_err = None, we_hand = \<lambda>x. x, we_game = \<lambda>g. g\<rparr> :: wait_env"
  have e: "\<forall>w\<in>set [?w]. env_ok (key_peel demo_key_of) h w" by (simp add: env_ok_def)
  obtain pr h' gs' where a: "AdvanceCrypto rnd (\<lambda>_. None) [?w] h flop_game = (pr, h', gs')" by (metis prod_cases3)
  show "?P rnd"
    using engine_gets_true_cards [OF h(1) duo_ring_ok k(3,1,2) card_prime_107 h(2,4,3) flop_game_ok(2,3) e a] h(1,2) a flop_game_ok(1) by blast
qed

end
