(* ===== verification/HandPeels.thy ===== *)
theory HandPeels
  imports HandDemo
begin

text \<open>
  The peels of a crypto hand that do not come in the normal order: peels made for seats that are gone,
  and peels that arrive before their card.
\<close>

section \<open>The designated survivor\<close>

lemma DesignatedSurvivor_find:
  "DesignatedSurvivor order gone = i \<Longrightarrow> i \<noteq> [] \<Longrightarrow> i \<in> set order \<and> gone i = None"
  by (auto simp: DesignatedSurvivor_def find_Some_iff split: option.splits)

lemma DesignatedSurvivor_exists:
  "[] \<notin> set order \<Longrightarrow> j \<in> set order \<Longrightarrow> gone j = None \<Longrightarrow> DesignatedSurvivor order gone \<noteq> []"
  by (auto simp: DesignatedSurvivor_def find_None_iff find_Some_iff split: option.splits) (metis nth_mem)

lemma DesignatedSurvivor_ids: "DesignatedSurvivor order gone = DesignatedSurvivorIDs order (dom gone)"
  by (simp add: DesignatedSurvivor_def DesignatedSurvivorIDs_def domIff)

lemma collect_fields:
  "collectPeels d first = (out, d') \<Longrightarrow> expectedPeelerLocked d' = expectedPeelerLocked d \<and> not_more d' d \<and> not_more d d'"
  by (auto simp: collectPeels_def Outbound_def expectedPeelerLocked_def not_more_def jobs_left_def peels_left_def)

lemma delegated_loop_end:
  "delegated_loop rnd d h = ((out, None), h') \<Longrightarrow> \<exists>d'. ch_deal h' = Some d' \<and> ch_gone h' = ch_gone h
     \<and> (expectedPeelerLocked d' = [] \<or> ch_gone h (expectedPeelerLocked d') = None)
     \<and> (d' = d \<and> out = [] \<or> (d', d) \<in> less_left \<and> out \<noteq> [])"
proof (induction rnd d h arbitrary: out h' rule: delegated_loop.induct)
  case (1 rnd d h)
  let ?p = "expectedPeelerLocked d"
  show ?case
  proof (cases "?p = [] \<or> ch_gone h ?p = None")
    case True
    then show ?thesis using "1.prems" by (auto simp: delegated_loop.simps [of rnd d h] Let_def split: if_splits)
  next
    case False
    then obtain k where k: "ch_gone h ?p = Some k" and ne: "?p \<noteq> []" by auto
    obtain r d1 where b: "PeelOnBehalf (pr_loop rnd) (pr_behalf rnd (ds_cardIndex d) ?p) ?p (Some k) d = (r, d1)"
      by (cases "PeelOnBehalf (pr_loop rnd) (pr_behalf rnd (ds_cardIndex d) ?p) ?p (Some k) d")
    then obtain msg where msg: "r = Inr msg"
      using "1.prems" k ne by (cases r) (auto simp: delegated_loop.simps [of rnd d h] Let_def)
    have some: "msg \<noteq> None" using b msg by (auto simp: PeelOnBehalf_def split: if_splits sum.splits option.splits prod.splits)
    obtain o1 d2 where c: "collectPeels d1 msg = (o1, d2)" by (cases "collectPeels d1 msg")
    have o1: "o1 \<noteq> []" using c some by (auto simp: collectPeels_def Outbound_def)
    let ?h = "signalPeelProgressLocked (h\<lparr>ch_deal := Some d2\<rparr>)"
    obtain o2 where l: "delegated_loop rnd d2 ?h = ((o2, None), h')" and out: "out = o1 @ o2"
      using "1.prems" b c k ne msg by (auto simp: delegated_loop.simps [of rnd d h] Let_def split: prod.splits)
    have "(d1, d) \<in> less_left" by (rule PeelOnBehalf_less [OF b [unfolded msg]])
    then have less: "(d2, d) \<in> less_left" using collect_fields [OF c] not_more_less by blast
    have more: "(d', d) \<in> less_left" if "(d', d2) \<in> less_left" for d' using that less by (auto simp: less_left_iff)
    from "1.IH" [OF refl ne k b [symmetric] msg c [symmetric] l] obtain d' where
      d': "ch_deal h' = Some d'" "ch_gone h' = ch_gone h"
      "expectedPeelerLocked d' = [] \<or> ch_gone h (expectedPeelerLocked d') = None"
      "d' = d2 \<and> o2 = [] \<or> (d', d2) \<in> less_left \<and> o2 \<noteq> []" by auto
    have "(d', d) \<in> less_left" using d'(4) less more by blast
    then show ?thesis using d' out o1 by blast
  qed
qed

text \<open>
  C23: Peeling for seats that are gone ends. The designated survivor goes on until the next peel is due
  from a seat that is still there, or nothing is being dealt; every peel made on behalf of a gone seat
  leaves strictly less to do, fewer cards or fewer peels of the same card. Every other replica makes no
  such peel, and replicas that agree on who is gone agree on the survivor, who is not gone himself.
\<close>

theorem delegated_peels_finish:
  assumes "TryDelegatedPeels rnd h = ((out, None), h')" and "ch_deal h = Some d"
  shows "(DesignatedSurvivor (kr_order (ch_kr h)) (ch_gone h) = kr_localID (ch_kr h) \<and> ch_gone h \<noteq> Map.empty \<longrightarrow>
      (\<exists>d'. ch_deal h' = Some d' \<and> (expectedPeelerLocked d' = [] \<or> ch_gone h (expectedPeelerLocked d') = None)
        \<and> (d' = d \<and> out = [] \<or> (d', d) \<in> less_left \<and> out \<noteq> [])))
    \<and> (DesignatedSurvivor (kr_order (ch_kr h)) (ch_gone h) \<noteq> kr_localID (ch_kr h) \<longrightarrow> out = [] \<and> h' = h)
    \<and> (j \<in> set (kr_order (ch_kr h)) \<longrightarrow> ch_gone h j = None \<longrightarrow> [] \<notin> set (kr_order (ch_kr h)) \<longrightarrow>
        ch_gone h (DesignatedSurvivor (kr_order (ch_kr h)) (ch_gone h)) = None)"
proof -
  have sel: "SeatOrder (Some (ch_kr h)) = kr_order (ch_kr h)" "LocalID (Some (ch_kr h)) = kr_localID (ch_kr h)"
    by (simp_all add: SeatOrder_def LocalID_def)
  have "\<exists>d'. ch_deal h' = Some d' \<and> (expectedPeelerLocked d' = [] \<or> ch_gone h (expectedPeelerLocked d') = None)
        \<and> (d' = d \<and> out = [] \<or> (d', d) \<in> less_left \<and> out \<noteq> [])"
    if "DesignatedSurvivor (kr_order (ch_kr h)) (ch_gone h) = kr_localID (ch_kr h)" "ch_gone h \<noteq> Map.empty"
  proof -
    have "delegated_loop rnd d h = ((out, None), h')"
      using assms that by (simp add: TryDelegatedPeels_def tryDelegatedPeelsLocked_def sel)
    from delegated_loop_end [OF this] show ?thesis by blast
  qed
  moreover have "out = [] \<and> h' = h" if "DesignatedSurvivor (kr_order (ch_kr h)) (ch_gone h) \<noteq> kr_localID (ch_kr h)"
    using assms that by (simp add: TryDelegatedPeels_def tryDelegatedPeelsLocked_def sel split: if_splits)
  moreover have "ch_gone h (DesignatedSurvivor (kr_order (ch_kr h)) (ch_gone h)) = None"
    if "j \<in> set (kr_order (ch_kr h))" "ch_gone h j = None" "[] \<notin> set (kr_order (ch_kr h))"
    using DesignatedSurvivor_find [OF refl DesignatedSurvivor_exists [of "kr_order (ch_kr h)" j "ch_gone h"]] that by blast
  ultimately show ?thesis by blast
qed

section \<open>Peels that come early\<close>

text \<open>A peel for another card than the one in progress, whether that card is still to come or long dealt.\<close>

definition other_card :: "DealSession \<Rightarrow> PeelMessage \<Rightarrow> bool" where
  "other_card d m \<longleftrightarrow> ds_seq d \<noteq> seqIdle \<and> ds_jobKind d \<noteq> jobIdle \<and> ds_validateIncomingLocked d (Some m) = Some ErrWrongCard"

lemma other_card_buffered:
  "ch_deal h = Some d \<Longrightarrow> other_card d m \<Longrightarrow> ch_HandlePeel rnd (Some m) h = (Inr [],
     if length (ch_earlyPeels h) \<ge> 64 then h else h\<lparr>ch_earlyPeels := ch_earlyPeels h @ [m]\<rparr>)"
  by (cases h) (simp add: other_card_def ch_HandlePeel_def HandlePeel_def isPrematurePeel_def Let_def bufferPeelLocked_def earlyBufCap_def)

definition receive_peels :: "peel_rand \<Rightarrow> PeelMessage list \<Rightarrow> CryptoHand \<Rightarrow> CryptoHand" where
  "receive_peels rnd ms h = fold (\<lambda>m h. snd (ch_HandlePeel rnd (Some m) h)) ms h"

lemma receive_other:
  "ch_deal h = Some d \<Longrightarrow> \<forall>m\<in>set ms. other_card d m \<Longrightarrow> length (ch_earlyPeels h) \<le> 64
    \<Longrightarrow> receive_peels rnd ms h = h\<lparr>ch_earlyPeels := take 64 (ch_earlyPeels h @ ms)\<rparr>"
proof (induction ms arbitrary: h)
  case Nil
  then show ?case by (simp add: receive_peels_def)
next
  case (Cons m ms)
  let ?h = "snd (ch_HandlePeel rnd (Some m) h)"
  have e: "?h = (if length (ch_earlyPeels h) \<ge> 64 then h else h\<lparr>ch_earlyPeels := ch_earlyPeels h @ [m]\<rparr>)"
    using other_card_buffered [OF Cons.prems(1), of m rnd] Cons.prems(2) by simp
  have "receive_peels rnd (m # ms) h = receive_peels rnd ms ?h" by (simp add: receive_peels_def)
  also have "\<dots> = ?h\<lparr>ch_earlyPeels := take 64 (ch_earlyPeels ?h @ ms)\<rparr>"
    by (rule Cons.IH) (use Cons.prems in \<open>simp_all add: e\<close>)
  also have "\<dots> = h\<lparr>ch_earlyPeels := take 64 (ch_earlyPeels h @ m # ms)\<rparr>" using Cons.prems(3)
    by (auto simp: e take_Cons' intro!: arg_cong [where f = "\<lambda>x. h\<lparr>ch_earlyPeels := ch_earlyPeels h @ x\<rparr>"])
  finally show ?case .
qed

text \<open>
  The buffer for early peels can be filled by anybody. Peels that name any card but the one in
  progress, past ones included, are kept, whatever else they contain; after 64 of them a peel that an
  honest player sends ahead of its card is dropped, and the call still reports success.
\<close>

theorem early_buffer_starves:
  assumes "ch_deal h = Some d" and "length (ch_earlyPeels h) \<le> 64" and "\<forall>m\<in>set junk. other_card d m" and "64 \<le> length junk"
    and "other_card d m"
  shows "length (ch_earlyPeels (receive_peels rnd junk h)) = 64
    \<and> ch_HandlePeel rnd' (Some m) (receive_peels rnd junk h) = (Inr [], receive_peels rnd junk h)"
proof -
  have r: "receive_peels rnd junk h = h\<lparr>ch_earlyPeels := take 64 (ch_earlyPeels h @ junk)\<rparr>"
    by (rule receive_other [OF assms(1,3,2)])
  have "ch_deal (receive_peels rnd junk h) = Some d" "length (ch_earlyPeels (receive_peels rnd junk h)) = 64"
    using assms(1,4) by (simp_all add: r)
  then show ?thesis using other_card_buffered [OF _ assms(5), of "receive_peels rnd junk h" rnd'] by simp
qed

text \<open>
  The drain goes through the buffer once. A peel for the next card that stands before the one that
  completes the present card goes back into the buffer, and stays there although its card has come.
\<close>

lemma drain_is_single_pass:
  assumes "other_card d m2" and "HandlePeel (rnd 0) (Some m1) d = (Inr None, d1)" and "ds_outbound d1 = []" and "ch_earlyPeels h = []"
  shows "\<exists>h'. drain_peels rnd [m2, m1] d h = (Inr [], h') \<and> ch_earlyPeels h' = [m2] \<and> ch_deal h' = Some d1"
  using assms by (simp add: other_card_def HandlePeel_def [of "rnd (Suc 0)"] isPrematurePeel_def bufferPeelLocked_def earlyBufCap_def
      collectPeels_def Outbound_def)

section \<open>Instances\<close>

lemma delegated_peels_finish_witness:
  "\<forall>rnd. \<exists>h h'. ch_gone h ''a'' \<noteq> None \<and> DesignatedSurvivor (kr_order (ch_kr h)) (ch_gone h) = ''b''
     \<and> TryDelegatedPeels rnd h = (([], None), h') \<and> (\<exists>d'. ch_deal h' = Some d' \<and> expectedPeelerLocked d' = [])" (is "\<forall>rnd. ?P rnd")
proof
  fix rnd
  obtain h0 where h0: "NewCryptoHand (Some duo_ring) [9] 1 0 = Inr h0" "ch_kr h0 = duo_ring" using duo_hand by blast
  obtain d where d: "NewDealSession (Some demo_ring) (Some demo_deck) 1 0 = Inr d" using demo_session by blast
  then have i: "expectedPeelerLocked d = []" by (auto simp: NewDealSession_def newDealSession_def expectedPeelerLocked_def split: if_splits)
  let ?h = "h0\<lparr>ch_deal := Some d, ch_gone := [''a'' \<mapsto> demo_key_of ''a'']\<rparr>"
  have s: "DesignatedSurvivor (kr_order (ch_kr ?h)) (ch_gone ?h) = ''b''" by (simp add: h0 DesignatedSurvivor_def)
  have t: "TryDelegatedPeels rnd ?h = (([], None), ?h)"
    using s i by (simp add: TryDelegatedPeels_def tryDelegatedPeelsLocked_def SeatOrder_def LocalID_def h0 delegated_loop.simps)
  have "\<exists>d'. ch_deal ?h = Some d' \<and> (expectedPeelerLocked d' = [] \<or> ch_gone ?h (expectedPeelerLocked d') = None)"
    using delegated_peels_finish [OF t, of d] s by (auto simp: h0)
  then show "?P rnd" using s t i by (intro exI [of _ ?h]) auto
qed

lemma early_buffer_starves_witness:
  "\<forall>rnd. \<exists>h d. ch_deal h = Some d \<and> ds_cardIndex d = 0 \<and> ch_HandlePeel rnd (Some ((demo_peel 3)\<lparr>pm_CardIndex := 2\<rparr>))
     (receive_peels rnd (replicate 64 ((demo_peel 4)\<lparr>pm_CardIndex := 51\<rparr>)) h)
     = (Inr [], receive_peels rnd (replicate 64 ((demo_peel 4)\<lparr>pm_CardIndex := 51\<rparr>)) h)" (is "\<forall>rnd. ?P rnd")
proof
  fix rnd
  obtain h0 where h0: "NewCryptoHand (Some duo_ring) [9] 1 0 = Inr h0" using duo_hand by blast
  obtain s where s: "NewDealSession (Some demo_ring) (Some demo_deck) 1 0 = Inr s" using demo_session by blast
  obtain d where d: "d = snd (BeginHoles (\<lambda>_. []) s)" by simp
  note f = demo_holes [OF s, of "\<lambda>_. []", folded d]
  have o: "other_card d ((demo_peel v)\<lparr>pm_CardIndex := k\<rparr>)" if "k \<noteq> 0" for v k
    using that by (simp add: other_card_def ds_validateIncomingLocked_def demo_peel_def f)
  let ?h = "h0\<lparr>ch_deal := Some d, ch_earlyPeels := []\<rparr>"
  have "\<forall>m\<in>set (replicate 64 ((demo_peel 4)\<lparr>pm_CardIndex := 51\<rparr>)). other_card d m" using o [of 51 4] by simp
  from early_buffer_starves [OF _ _ this _ o, of ?h 2 rnd rnd] show "?P rnd" by (intro exI [of _ ?h] exI [of _ d]) (simp add: f)
qed

end
