(* ===== verification/Faults.thy ===== *)
theory Faults
  imports ZKP
begin

text \<open>
  internal/fault: slash.go, timeout.go and heartbeat.go. Time is an \<open>int\<close> (nanoseconds), read by the
  caller and passed in. A callback that a method starts as a goroutine is a value of the list of
  calls that the operation returns; a Go map that a method ranges over is visited in the order of an
  argument. \<open>float64 (n) * (2.0 / 3.0) + 0.5\<close> truncated to an integer is \<open>(4 * n + 3) div 6\<close>: the exact
  value is never within a sixth of an integer.
\<close>

section \<open>Evidence\<close>

datatype SlashReason = SlashEquivocation | SlashBadZKProof | SlashInvalidAction | SlashKeyWithholding

fun SlashReason_String :: "SlashReason \<Rightarrow> string" where
  "SlashReason_String SlashEquivocation = ''Equivocation''"
| "SlashReason_String SlashBadZKProof = ''Bad ZK Proof''"
| "SlashReason_String SlashInvalidAction = ''Invalid Action''"
| "SlashReason_String SlashKeyWithholding = ''Key Withholding''"

record LogEntry =
  le_SenderID :: string
  le_Seq :: int
  le_Payload :: "byte list"
  le_Signature :: "byte list"

record SlashRecord =
  sr_PeerID :: string
  sr_Reason :: SlashReason
  sr_HandNum :: int
  sr_DetectedAt :: int
  sr_Evidence :: "byte list"
  sr_EnvA :: "LogEntry option"
  sr_EnvB :: "LogEntry option"
  sr_BadProofCardIdx :: int
  sr_BadProofResult :: "int option"

record SlashDetector =
  sd_handNum :: int
  sd_records :: "SlashRecord list"
  sd_slashed :: "string set"

definition NewSlashDetector :: "int \<Rightarrow> SlashDetector" where
  "NewSlashDetector handNum = \<lparr>sd_handNum = handNum, sd_records = [], sd_slashed = {}\<rparr>"

definition addRecord :: "SlashRecord \<Rightarrow> SlashDetector \<Rightarrow> SlashDetector" where
  "addRecord record' sd = sd\<lparr>sd_records := sd_records sd @ [record'], sd_slashed := insert (sr_PeerID record') (sd_slashed sd)\<rparr>"

definition slash_record :: "string \<Rightarrow> SlashReason \<Rightarrow> int \<Rightarrow> int \<Rightarrow> SlashRecord" where
  "slash_record peerID reason handNum now = \<lparr>sr_PeerID = peerID, sr_Reason = reason, sr_HandNum = handNum,
     sr_DetectedAt = now, sr_Evidence = [], sr_EnvA = None, sr_EnvB = None, sr_BadProofCardIdx = 0, sr_BadProofResult = None\<rparr>"

text \<open>What an \<open>EquivocationChecker\<close> answers: the sender (\<open>[]\<close> for none) and the two entries.\<close>

type_synonym equivocation = "string \<times> LogEntry option \<times> LogEntry option"

definition CheckEquivocation :: "int \<Rightarrow> equivocation \<Rightarrow> SlashDetector \<Rightarrow> SlashRecord list \<times> SlashDetector" where
  "CheckEquivocation now found sd = (case found of (senderID, envA, envB) \<Rightarrow>
     if senderID = [] then ([], sd)
     else let r = (slash_record senderID SlashEquivocation (sd_handNum sd) now)\<lparr>sr_EnvA := envA, sr_EnvB := envB\<rparr>
       in ([r], addRecord r sd))"

text \<open>A proof that does not verify; without a ciphertext the evidence dereferences nil and panics.\<close>

definition CheckPartialDecryption ::
  "int \<Rightarrow> PartialDecryption \<Rightarrow> int \<Rightarrow> byte list \<Rightarrow> SlashDetector \<Rightarrow> (crypto_error + SlashRecord option) \<times> SlashDetector" where
  "CheckPartialDecryption now pd prime sessionID sd =
     (if pd_Verify (Some pd) prime sessionID = None then (Inr None, sd)
      else case pd_Ciphertext pd of None \<Rightarrow> (Inl ErrPanic, sd)
      | Some ct \<Rightarrow> let r = (slash_record (pd_PlayerID pd) SlashBadZKProof (sd_handNum sd) now)
            \<lparr>sr_BadProofCardIdx := pd_CardIndex pd, sr_BadProofResult := pd_Result pd, sr_Evidence := big_Bytes ct\<rparr>
          in (Inr (Some r), addRecord r sd))"

definition CheckInvalidAction :: "int \<Rightarrow> string \<Rightarrow> string \<Rightarrow> SlashDetector \<Rightarrow> SlashRecord \<times> SlashDetector" where
  "CheckInvalidAction now peerID errText sd =
     (let r = (slash_record peerID SlashInvalidAction (sd_handNum sd) now)\<lparr>sr_Evidence := str_bytes errText\<rparr>
      in (r, addRecord r sd))"

definition CheckKeyWithholding :: "int \<Rightarrow> string \<Rightarrow> int \<Rightarrow> SlashDetector \<Rightarrow> SlashRecord \<times> SlashDetector" where
  "CheckKeyWithholding now peerID cardIdx sd =
     (let r = (slash_record peerID SlashKeyWithholding (sd_handNum sd) now)\<lparr>sr_BadProofCardIdx := cardIdx\<rparr>
      in (r, addRecord r sd))"

definition IsSlashed :: "string \<Rightarrow> SlashDetector \<Rightarrow> bool" where
  "IsSlashed peerID sd \<longleftrightarrow> peerID \<in> sd_slashed sd"

definition HasViolations :: "SlashDetector \<Rightarrow> bool" where
  "HasViolations sd \<longleftrightarrow> length (sd_records sd) > 0"

section \<open>Timeout votes\<close>

datatype VoteStatus = VotePending | VoteConfirmed | VoteRejected

record TimeoutVote =
  tv_TargetPeerID :: string
  tv_HandNum :: int
  tv_Votes :: "(string \<times> bool) list"
  tv_TotalVoters :: int
  tv_Status :: VoteStatus
  tv_CreatedAt :: int
  tv_ConfirmedAt :: "int option"

text \<open>\<open>Votes\<close> is a Go map; it is kept as the list of its entries, one per voter.\<close>

fun put_vote :: "string \<Rightarrow> bool \<Rightarrow> (string \<times> bool) list \<Rightarrow> (string \<times> bool) list" where
  "put_vote v yes [] = [(v, yes)]"
| "put_vote v yes ((w, b) # vs) = (if v = w then (w, yes) # vs else (w, b) # put_vote v yes vs)"

definition YesCount :: "TimeoutVote \<Rightarrow> nat" where
  "YesCount tv = length (filter snd (tv_Votes tv))"

definition vote_threshold :: "int \<Rightarrow> int" where
  "vote_threshold totalVoters = max 1 ((4 * totalVoters + 3) div 6)"

definition AddVote :: "int \<Rightarrow> string \<Rightarrow> bool \<Rightarrow> TimeoutVote \<Rightarrow> VoteStatus \<times> TimeoutVote" where
  "AddVote now voterID yes tv =
     (if tv_Status tv \<noteq> VotePending then (tv_Status tv, tv)
      else let tv1 = tv\<lparr>tv_Votes := put_vote voterID yes (tv_Votes tv)\<rparr>;
               tv2 = (if int (YesCount tv1) \<ge> vote_threshold (tv_TotalVoters tv)
                      then tv1\<lparr>tv_Status := VoteConfirmed, tv_ConfirmedAt := Some now\<rparr>
                      else if int (length (tv_Votes tv1)) = tv_TotalVoters tv then tv1\<lparr>tv_Status := VoteRejected\<rparr>
                      else tv1)
           in (tv_Status tv2, tv2))"

record TimeoutManager =
  tm_handNum :: int
  tm_totalPeers :: int
  tm_votes :: "string \<rightharpoonup> TimeoutVote"
  tm_voteExpiry :: int

definition NewTimeoutManager :: "int \<Rightarrow> int \<Rightarrow> int \<Rightarrow> TimeoutManager" where
  "NewTimeoutManager handNum totalPeers voteExpiry = \<lparr>tm_handNum = handNum, tm_totalPeers = totalPeers,
     tm_votes = Map.empty, tm_voteExpiry = (if voteExpiry = 0 then 30 * 10 ^ 9 else voteExpiry)\<rparr>"

definition new_vote :: "int \<Rightarrow> string \<Rightarrow> TimeoutManager \<Rightarrow> TimeoutVote" where
  "new_vote now target tm = \<lparr>tv_TargetPeerID = target, tv_HandNum = tm_handNum tm, tv_Votes = [],
     tv_TotalVoters = tm_totalPeers tm - 1, tv_Status = VotePending, tv_CreatedAt = now, tv_ConfirmedAt = None\<rparr>"

text \<open>The calls of \<open>OnConfirmed\<close> are the second component.\<close>

definition StartVote :: "int \<Rightarrow> string \<Rightarrow> string \<Rightarrow> TimeoutManager \<Rightarrow> TimeoutVote \<times> string list \<times> TimeoutManager" where
  "StartVote now target caller tm =
     (case tm_votes tm target of
        Some v \<Rightarrow> if tv_Status v = VotePending then (v, [], tm)
          else (case AddVote now caller True (new_vote now target tm) of (st, tv) \<Rightarrow>
            (tv, if st = VoteConfirmed then [target] else [], tm\<lparr>tm_votes := (tm_votes tm)(target \<mapsto> tv)\<rparr>))
      | None \<Rightarrow> (case AddVote now caller True (new_vote now target tm) of (st, tv) \<Rightarrow>
            (tv, if st = VoteConfirmed then [target] else [], tm\<lparr>tm_votes := (tm_votes tm)(target \<mapsto> tv)\<rparr>)))"

definition RecordVote ::
  "int \<Rightarrow> string \<Rightarrow> string \<Rightarrow> bool \<Rightarrow> TimeoutManager \<Rightarrow> VoteStatus \<times> string list \<times> TimeoutManager" where
  "RecordVote now target voter yes tm =
     (let tv = (case tm_votes tm target of Some v \<Rightarrow> v | None \<Rightarrow> new_vote now target tm);
          tm1 = tm\<lparr>tm_votes := (tm_votes tm)(target \<mapsto> tv)\<rparr>
      in if tv_Status tv \<noteq> VotePending then (tv_Status tv, [], tm1)
         else (case AddVote now voter yes tv of (st, tv') \<Rightarrow>
           (st, if st = VoteConfirmed then [target] else [], tm\<lparr>tm_votes := (tm_votes tm)(target \<mapsto> tv')\<rparr>)))"

definition stale :: "int \<Rightarrow> TimeoutManager \<Rightarrow> TimeoutVote \<Rightarrow> bool" where
  "stale now tm v \<longleftrightarrow> tv_Status v = VotePending \<and> tv_CreatedAt v < now - tm_voteExpiry tm"

definition ExpireStaleVotes :: "int \<Rightarrow> string list \<Rightarrow> TimeoutManager \<Rightarrow> string list \<times> TimeoutManager" where
  "ExpireStaleVotes now ids tm =
     (filter (\<lambda>i. \<exists>v. tm_votes tm i = Some v \<and> stale now tm v) ids,
      tm\<lparr>tm_votes := (\<lambda>i. case tm_votes tm i of None \<Rightarrow> None
          | Some v \<Rightarrow> Some (if i \<in> set ids \<and> stale now tm v then v\<lparr>tv_Status := VoteRejected\<rparr> else v))\<rparr>)"

definition VoteFor :: "string \<Rightarrow> TimeoutManager \<Rightarrow> TimeoutVote option" where
  "VoteFor target tm = tm_votes tm target"

section \<open>Heartbeats\<close>

datatype PeerStatus = PeerAlive | PeerSuspect | PeerTimedOut | PeerDisconnected

fun PeerStatus_String :: "PeerStatus \<Rightarrow> string" where
  "PeerStatus_String PeerAlive = ''Alive''"
| "PeerStatus_String PeerSuspect = ''Suspect''"
| "PeerStatus_String PeerTimedOut = ''Timeout''"
| "PeerStatus_String PeerDisconnected = ''Disconnected''"

definition DefaultHeartbeatInterval :: int where
  "DefaultHeartbeatInterval = 5 * 10 ^ 9"

definition DefaultHeartbeatTimeout :: int where
  "DefaultHeartbeatTimeout = 15 * 10 ^ 9"

record PeerLiveness =
  pl_PeerID :: string
  pl_Status :: PeerStatus
  pl_LastSeen :: int
  pl_MissedBeats :: int

record HeartbeatMonitor =
  hm_peers :: "string \<rightharpoonup> PeerLiveness"
  hm_timeout :: int

definition NewHeartbeatMonitor :: "int \<Rightarrow> HeartbeatMonitor" where
  "NewHeartbeatMonitor timeout = \<lparr>hm_peers = Map.empty, hm_timeout = (if timeout = 0 then DefaultHeartbeatTimeout else timeout)\<rparr>"

definition RegisterPeer :: "int \<Rightarrow> string \<Rightarrow> HeartbeatMonitor \<Rightarrow> HeartbeatMonitor" where
  "RegisterPeer now peerID hm = (if hm_peers hm peerID \<noteq> None then hm
     else hm\<lparr>hm_peers := (hm_peers hm)(peerID \<mapsto>
       \<lparr>pl_PeerID = peerID, pl_Status = PeerAlive, pl_LastSeen = now, pl_MissedBeats = 0\<rparr>)\<rparr>)"

definition RecordHeartbeat :: "int \<Rightarrow> string \<Rightarrow> HeartbeatMonitor \<Rightarrow> HeartbeatMonitor" where
  "RecordHeartbeat now peerID hm = hm\<lparr>hm_peers := (hm_peers hm)(peerID \<mapsto>
     (case hm_peers hm peerID of
        Some pl \<Rightarrow> pl\<lparr>pl_LastSeen := now, pl_Status := PeerAlive, pl_MissedBeats := 0\<rparr>
      | None \<Rightarrow> \<lparr>pl_PeerID = peerID, pl_Status = PeerAlive, pl_LastSeen = now, pl_MissedBeats = 0\<rparr>))\<rparr>"

text \<open>One peer of \<open>CheckTimeouts\<close>: its new entry, whether it is timed out, whether \<open>OnTimeout\<close> is called.\<close>

definition check_peer :: "int \<Rightarrow> int \<Rightarrow> PeerLiveness \<Rightarrow> PeerLiveness \<times> bool \<times> bool" where
  "check_peer now timeout pl =
     (if pl_Status pl = PeerDisconnected then (pl, False, False)
      else let elapsed = now - pl_LastSeen pl
        in if elapsed \<ge> timeout then
             (pl\<lparr>pl_Status := PeerTimedOut, pl_MissedBeats := go_quo elapsed DefaultHeartbeatInterval\<rparr>,
              True, pl_Status pl \<noteq> PeerTimedOut)
           else if elapsed \<ge> DefaultHeartbeatInterval then
             (pl\<lparr>pl_Status := PeerSuspect, pl_MissedBeats := pl_MissedBeats pl + 1\<rparr>, False, False)
           else (pl, False, False))"

definition CheckTimeouts :: "int \<Rightarrow> string list \<Rightarrow> HeartbeatMonitor \<Rightarrow> string list \<times> string list \<times> HeartbeatMonitor" where
  "CheckTimeouts now ids hm =
     (let chk = (\<lambda>i. map_option (check_peer now (hm_timeout hm)) (hm_peers hm i))
      in (map (\<lambda>i. pl_PeerID (the (hm_peers hm i))) (filter (\<lambda>i. \<exists>r. chk i = Some r \<and> fst (snd r)) ids),
          map (\<lambda>i. pl_PeerID (the (hm_peers hm i))) (filter (\<lambda>i. \<exists>r. chk i = Some r \<and> snd (snd r)) ids),
          hm\<lparr>hm_peers := (\<lambda>i. if i \<in> set ids then map_option fst (chk i) else hm_peers hm i)\<rparr>))"

definition MarkDisconnected :: "string \<Rightarrow> HeartbeatMonitor \<Rightarrow> HeartbeatMonitor" where
  "MarkDisconnected peerID hm = (case hm_peers hm peerID of None \<Rightarrow> hm
     | Some pl \<Rightarrow> hm\<lparr>hm_peers := (hm_peers hm)(peerID \<mapsto> pl\<lparr>pl_Status := PeerDisconnected\<rparr>)\<rparr>)"

definition hm_Status :: "string \<Rightarrow> HeartbeatMonitor \<Rightarrow> PeerStatus" where
  "hm_Status peerID hm = (case hm_peers hm peerID of None \<Rightarrow> PeerTimedOut | Some pl \<Rightarrow> pl_Status pl)"

definition AlivePeers :: "string list \<Rightarrow> HeartbeatMonitor \<Rightarrow> string list" where
  "AlivePeers ids hm = filter (\<lambda>i. \<exists>pl. hm_peers hm i = Some pl \<and> (pl_Status pl = PeerAlive \<or> pl_Status pl = PeerSuspect)) ids"

text \<open>One tick of \<open>HeartbeatSender.Run\<close>: the number sent and, if sending succeeded, the sender goes on.\<close>

definition sender_tick :: "(int \<Rightarrow> bool) \<Rightarrow> int \<Rightarrow> int \<times> bool" where
  "sender_tick send seq = (let s = w64 (seq + 1) in (s, send s))"

section \<open>What a confirmed vote means\<close>

lemma put_vote_voters: "fst ` set (put_vote v yes vs) = insert v (fst ` set vs)"
  by (induction v yes vs rule: put_vote.induct) auto

lemma put_vote_distinct: "distinct (map fst vs) \<Longrightarrow> distinct (map fst (put_vote v yes vs))"
  by (induction v yes vs rule: put_vote.induct) (auto simp: put_vote_voters)

text \<open>A vote is pending below the threshold and confirmed at or above it; voters are counted once.\<close>

definition vote_ok :: "string \<Rightarrow> int \<Rightarrow> TimeoutVote \<Rightarrow> bool" where
  "vote_ok target peers tv \<longleftrightarrow> tv_TargetPeerID tv = target \<and> tv_TotalVoters tv = peers - 1 \<and> distinct (map fst (tv_Votes tv))
     \<and> (tv_Status tv = VoteConfirmed \<longrightarrow> int (YesCount tv) \<ge> vote_threshold (peers - 1))
     \<and> (tv_Status tv \<noteq> VoteConfirmed \<longrightarrow> int (YesCount tv) < vote_threshold (peers - 1))"

definition tm_ok :: "TimeoutManager \<Rightarrow> bool" where
  "tm_ok tm \<longleftrightarrow> (\<forall>i v. tm_votes tm i = Some v \<longrightarrow> vote_ok i (tm_totalPeers tm) v)"

lemma vote_threshold_pos: "1 \<le> vote_threshold m"
  by (simp add: vote_threshold_def)

lemma new_vote_ok: "vote_ok target (tm_totalPeers tm) (new_vote now target tm)"
  using vote_threshold_pos [of "tm_totalPeers tm - 1"] by (simp add: vote_ok_def new_vote_def YesCount_def)

lemma AddVote_ok:
  assumes "vote_ok i n tv" and "AddVote now v yes tv = (st, tv')"
  shows "vote_ok i n tv'" and "st = tv_Status tv'"
  using assms put_vote_distinct [of "tv_Votes tv" v yes]
  by (auto simp: AddVote_def vote_ok_def YesCount_def Let_def split: if_splits)

inductive tm_step :: "TimeoutManager \<Rightarrow> string list \<Rightarrow> TimeoutManager \<Rightarrow> bool" where
  start: "StartVote now target caller tm = (tv, confirmed, tm') \<Longrightarrow> tm_step tm confirmed tm'"
| record': "RecordVote now target voter yes tm = (st, confirmed, tm') \<Longrightarrow> tm_step tm confirmed tm'"
| expire: "ExpireStaleVotes now ids tm = (expired, tm') \<Longrightarrow> tm_step tm [] tm'"

lemma StartVote_cases:
  assumes "StartVote now target caller tm = (tv, confirmed, tm')"
  shows "tv = the (tm_votes tm target) \<and> tm_votes tm target \<noteq> None \<and> tv_Status tv = VotePending \<and> confirmed = [] \<and> tm' = tm
    \<or> (\<exists>st. AddVote now caller True (new_vote now target tm) = (st, tv)
         \<and> confirmed = (if st = VoteConfirmed then [target] else []) \<and> tm' = tm\<lparr>tm_votes := (tm_votes tm)(target \<mapsto> tv)\<rparr>)"
  using assms by (auto simp: StartVote_def split: option.splits if_splits prod.splits)

lemma RecordVote_cases:
  assumes "RecordVote now target voter yes tm = (st, confirmed, tm')"
  obtains tv where "tv = (case tm_votes tm target of Some v \<Rightarrow> v | None \<Rightarrow> new_vote now target tm)"
    "tv_Status tv \<noteq> VotePending \<and> st = tv_Status tv \<and> confirmed = [] \<and> tm' = tm\<lparr>tm_votes := (tm_votes tm)(target \<mapsto> tv)\<rparr>
     \<or> (\<exists>tv'. tv_Status tv = VotePending \<and> AddVote now voter yes tv = (st, tv')
         \<and> confirmed = (if st = VoteConfirmed then [target] else []) \<and> tm' = tm\<lparr>tm_votes := (tm_votes tm)(target \<mapsto> tv')\<rparr>)"
  using assms by (auto simp: RecordVote_def Let_def split: if_splits prod.splits)

lemma tm_put_ok:
  "tm_ok tm \<Longrightarrow> vote_ok target (tm_totalPeers tm) tv \<Longrightarrow> tm_ok (tm\<lparr>tm_votes := (tm_votes tm)(target \<mapsto> tv)\<rparr>)"
  by (simp add: tm_ok_def)

lemma tm_step_ok:
  assumes "tm_step tm confirmed tm'" and "tm_ok tm"
  shows "tm_ok tm' \<and> tm_totalPeers tm' = tm_totalPeers tm
    \<and> (\<forall>i\<in>set confirmed. \<exists>v. tm_votes tm' i = Some v \<and> tv_Status v = VoteConfirmed)"
  using assms(1)
proof cases
  case (start now target caller tv)
  from StartVote_cases [OF start(1)] show ?thesis
    using assms(2) AddVote_ok [OF new_vote_ok] tm_put_ok by fastforce
next
  case (record' now target voter yes st)
  obtain tv where tv: "tv = (case tm_votes tm target of Some v \<Rightarrow> v | None \<Rightarrow> new_vote now target tm)"
    and c: "tv_Status tv \<noteq> VotePending \<and> st = tv_Status tv \<and> confirmed = [] \<and> tm' = tm\<lparr>tm_votes := (tm_votes tm)(target \<mapsto> tv)\<rparr>
     \<or> (\<exists>tv'. tv_Status tv = VotePending \<and> AddVote now voter yes tv = (st, tv')
         \<and> confirmed = (if st = VoteConfirmed then [target] else []) \<and> tm' = tm\<lparr>tm_votes := (tm_votes tm)(target \<mapsto> tv')\<rparr>)"
    by (rule RecordVote_cases [OF record'(1)])
  have "vote_ok target (tm_totalPeers tm) tv" using tv assms(2) new_vote_ok by (auto simp: tm_ok_def split: option.splits)
  then show ?thesis using c assms(2) AddVote_ok tm_put_ok by fastforce
next
  case (expire now ids expired)
  have "vote_ok i n v \<Longrightarrow> stale now tm v \<Longrightarrow> vote_ok i n (v\<lparr>tv_Status := VoteRejected\<rparr>)" for i n v
    by (simp add: vote_ok_def stale_def YesCount_def)
  then show ?thesis using expire assms(2) by (auto simp: ExpireStaleVotes_def tm_ok_def split: option.splits if_splits)
qed

inductive tm_reach :: "TimeoutManager \<Rightarrow> TimeoutManager \<Rightarrow> bool" for tm0 where
  here: "tm_reach tm0 tm0"
| more: "tm_reach tm0 tm \<Longrightarrow> tm_step tm confirmed tm' \<Longrightarrow> tm_reach tm0 tm'"

lemma tm_reach_ok: "tm_reach tm0 tm \<Longrightarrow> tm_ok tm0 \<Longrightarrow> tm_ok tm \<and> tm_totalPeers tm = tm_totalPeers tm0"
  by (induction rule: tm_reach.induct) (auto dest: tm_step_ok)

lemma yes_voters: "distinct (map fst vs) \<Longrightarrow> card {w. (w, True) \<in> set vs} = length (filter snd vs)"
proof -
  assume d: "distinct (map fst vs)"
  have "{w. (w, True) \<in> set vs} = set (map fst (filter snd vs))" by force
  moreover have "distinct (map fst (filter snd vs))" using d by (rule distinct_map_filter)
  ultimately show ?thesis by (metis distinct_card length_map)
qed

text \<open>
  C22: Whatever votes arrive, a player's fold is confirmed (\<open>OnConfirmed\<close> is started) only when at least
  the threshold of different names have voted yes on him.
\<close>

theorem confirmed_by_quorum:
  assumes "tm_reach (NewTimeoutManager handNum n expiry) tm" and "tm_step tm confirmed tm'" and "target \<in> set confirmed"
  shows "\<exists>v. tm_votes tm' target = Some v \<and> tv_Status v = VoteConfirmed
    \<and> vote_threshold (n - 1) \<le> int (card {voter. (voter, True) \<in> set (tv_Votes v)})"
proof -
  have "tm_ok (NewTimeoutManager handNum n expiry)" by (simp add: tm_ok_def NewTimeoutManager_def)
  then have t: "tm_ok tm" "tm_totalPeers tm = n" using tm_reach_ok [OF assms(1)] by (simp_all add: NewTimeoutManager_def)
  then have t': "tm_ok tm'" "tm_totalPeers tm' = n" "\<exists>v. tm_votes tm' target = Some v \<and> tv_Status v = VoteConfirmed"
    using tm_step_ok [OF assms(2)] assms(3) by simp_all
  then obtain v where v: "tm_votes tm' target = Some v" "tv_Status v = VoteConfirmed" by blast
  then have "vote_ok target n v" using t'(1,2) by (auto simp: tm_ok_def)
  then show ?thesis using v by (auto simp: vote_ok_def YesCount_def yes_voters)
qed

lemma confirmed_by_quorum_witness:
  "\<exists>tm tm' v. RecordVote 1 ''c'' ''b'' True tm = (VoteConfirmed, [''c''], tm') \<and> tm_votes tm' ''c'' = Some v
     \<and> 2 \<le> card {voter. (voter, True) \<in> set (tv_Votes v)}"
proof -
  let ?tm = "snd (snd (RecordVote 0 ''c'' ''a'' True (NewTimeoutManager 1 4 0)))"
  have s1: "tm_step (NewTimeoutManager 1 4 0) [] ?tm"
    by (rule tm_step.record' [of 0 "''c''" "''a''" True _ VotePending])
      (simp add: RecordVote_def NewTimeoutManager_def new_vote_def AddVote_def YesCount_def vote_threshold_def)
  obtain tm' where r: "RecordVote 1 ''c'' ''b'' True ?tm = (VoteConfirmed, [''c''], tm')"
    by (simp add: RecordVote_def NewTimeoutManager_def new_vote_def AddVote_def YesCount_def vote_threshold_def)
  have "vote_threshold (4 - 1) = 2" by (simp add: vote_threshold_def)
  with confirmed_by_quorum [OF tm_reach.more [OF tm_reach.here s1] tm_step.record' [OF r], of "''c''"]
  have "\<exists>v. tm_votes tm' ''c'' = Some v \<and> 2 \<le> card {voter. (voter, True) \<in> set (tv_Votes v)}" by auto
  then show ?thesis using r by blast
qed

text \<open>
  The threshold for \<open>m\<close> other seats is \<open>(2 m + 1) div 3\<close>: the quota rounded to the nearest integer, and
  not rounded up. It is one vote short of two thirds of the voters when \<open>m\<close> leaves 2 modulo 3; at a table
  of three seats a single vote, in any name, folds a player.
\<close>

theorem vote_threshold_short:
  "(1 \<le> m \<longrightarrow> vote_threshold m = (2 * m + 1) div 3
      \<and> vote_threshold m = (2 * m + 2) div 3 - (if m mod 3 = 2 then 1 else 0))
   \<and> fst (RecordVote now target voter True (NewTimeoutManager handNum 3 expiry)) = VoteConfirmed"
proof -
  have "vote_threshold m = (2 * m + 1) div 3" if "1 \<le> m" using that unfolding vote_threshold_def by presburger
  moreover have "(2 * m + 1) div 3 = (2 * m + 2) div 3 - (if m mod 3 = 2 then 1 else 0)"
  proof -
    define q where "q = m div 3"
    have "m mod 3 = 0 \<or> m mod 3 = 1 \<or> m mod 3 = 2" by auto
    then have "m = 3 * q \<or> m = 3 * q + 1 \<or> m = 3 * q + 2" using div_mult_mod_eq [of m 3] by (auto simp: q_def)
    then show ?thesis by (elim disjE; simp; presburger?)
  qed
  moreover have "fst (RecordVote now target voter True (NewTimeoutManager handNum 3 expiry)) = VoteConfirmed"
    by (simp add: RecordVote_def NewTimeoutManager_def new_vote_def AddVote_def YesCount_def vote_threshold_def)
  ultimately show ?thesis by simp
qed

lemma vote_threshold_short_witness: "vote_threshold 5 = 3 \<and> (2 * 5 + 2) div 3 = (4 :: int)"
  using vote_threshold_short [of 5] by simp

text \<open>A vote that a remote peer opened does not count the local vote that \<open>StartVote\<close> brings.\<close>

lemma late_caller_not_counted:
  "tm_votes tm target = Some v \<Longrightarrow> tv_Status v = VotePending \<Longrightarrow> StartVote now target caller tm = (v, [], tm)"
  by (simp add: StartVote_def)

section \<open>When a silent peer is reported\<close>

definition hm_ok :: "HeartbeatMonitor \<Rightarrow> bool" where
  "hm_ok hm \<longleftrightarrow> (\<forall>i pl. hm_peers hm i = Some pl \<longrightarrow> pl_PeerID pl = i)"

fun ticks :: "(int \<times> string list) list \<Rightarrow> HeartbeatMonitor \<Rightarrow> string list \<times> HeartbeatMonitor" where
  "ticks [] hm = ([], hm)"
| "ticks ((now, ids) # ts) hm = (case CheckTimeouts now ids hm of (_, started, hm') \<Rightarrow>
     (case ticks ts hm' of (later, hm'') \<Rightarrow> (started @ later, hm'')))"

lemma CheckTimeouts_peer:
  assumes "CheckTimeouts now ids hm = (out, started, hm')" and "hm_ok hm" and "distinct ids" and "hm_peers hm i = Some pl"
  shows "hm_ok hm' \<and> hm_timeout hm' = hm_timeout hm
    \<and> hm_peers hm' i = Some (if i \<in> set ids then fst (check_peer now (hm_timeout hm) pl) else pl)
    \<and> length (filter ((=) i) started) = (if i \<in> set ids \<and> snd (snd (check_peer now (hm_timeout hm) pl)) then 1 else 0)"
proof -
  have id: "pl_PeerID (fst (check_peer now t p)) = pl_PeerID p" for t p by (simp add: check_peer_def Let_def)
  have hm': "hm' = hm\<lparr>hm_peers := (\<lambda>i. if i \<in> set ids then map_option fst (map_option (check_peer now (hm_timeout hm)) (hm_peers hm i)) else hm_peers hm i)\<rparr>"
    and st: "started = map (\<lambda>i. pl_PeerID (the (hm_peers hm i))) (filter (\<lambda>i. \<exists>r. map_option (check_peer now (hm_timeout hm)) (hm_peers hm i) = Some r \<and> snd (snd r)) ids)"
    using assms(1) by (simp_all add: CheckTimeouts_def Let_def)
  let ?F = "filter (\<lambda>i. \<exists>r. map_option (check_peer now (hm_timeout hm)) (hm_peers hm i) = Some r \<and> snd (snd r)) ids"
  have "started = map (\<lambda>i. i) ?F"
    unfolding st using assms(2) by (intro map_cong refl) (auto simp: hm_ok_def)
  then have "length (filter ((=) i) started) = length (filter ((=) i) ?F)" by simp
  also have "\<dots> = (if i \<in> set ?F then 1 else 0)"
    using assms(3) distinct_length_filter [of ?F "(=) i"] by (auto simp: Collect_conv_if)
  also have "\<dots> = (if i \<in> set ids \<and> snd (snd (check_peer now (hm_timeout hm) pl)) then 1 else 0)" using assms(4) by (cases "check_peer now (hm_timeout hm) pl") simp
  finally have "length (filter ((=) i) started) = (if i \<in> set ids \<and> snd (snd (check_peer now (hm_timeout hm) pl)) then 1 else 0)" .
  moreover have "hm_ok hm'"
    unfolding hm_ok_def
  proof (intro allI impI)
    fix j q assume j: "hm_peers hm' j = Some q"
    show "pl_PeerID q = j"
    proof (cases "j \<in> set ids")
      case True
      then obtain z where "hm_peers hm j = Some z" "q = fst (check_peer now (hm_timeout hm) z)"
        using j by (auto simp: hm' map_option.compositionality comp_def)
      then show ?thesis using assms(2) id by (auto simp: hm_ok_def)
    next
      case False
      then show ?thesis using assms(2) j by (auto simp: hm' hm_ok_def)
    qed
  qed
  ultimately show ?thesis using assms(4) by (simp add: hm')
qed

lemma silent_run:
  assumes "hm_ok hm" and "hm_peers hm i = Some pl" and "\<forall>(now, ids)\<in>set ts. distinct ids" and "sorted (map fst ts)"
    and "pl_Status pl = PeerTimedOut \<longrightarrow> (\<forall>(now, ids)\<in>set ts. now - pl_LastSeen pl \<ge> hm_timeout hm)"
  shows "length (filter ((=) i) (fst (ticks ts hm))) =
    (if pl_Status pl \<noteq> PeerTimedOut \<and> pl_Status pl \<noteq> PeerDisconnected
        \<and> (\<exists>(now, ids)\<in>set ts. i \<in> set ids \<and> now - pl_LastSeen pl \<ge> hm_timeout hm) then 1 else 0)"
  using assms
proof (induction ts arbitrary: hm pl)
  case (Cons t ts)
  obtain now ids where t: "t = (now, ids)" by (cases t)
  obtain out started hm' where c: "CheckTimeouts now ids hm = (out, started, hm')" by (cases "CheckTimeouts now ids hm") auto
  have d: "distinct ids" "\<forall>(now, ids)\<in>set ts. distinct ids" using Cons.prems(3) by (auto simp: t)
  let ?pl = "if i \<in> set ids then fst (check_peer now (hm_timeout hm) pl) else pl"
  from CheckTimeouts_peer [OF c Cons.prems(1) d(1) Cons.prems(2)]
  have p: "hm_ok hm'" "hm_timeout hm' = hm_timeout hm" "hm_peers hm' i = Some ?pl"
    "length (filter ((=) i) started) = (if i \<in> set ids \<and> snd (snd (check_peer now (hm_timeout hm) pl)) then 1 else 0)"
    by simp_all
  have so: "sorted (map fst ts)" "\<forall>(now', ids)\<in>set ts. now \<le> now'" using Cons.prems(4) by (auto simp: t)
  have to: "pl_Status ?pl = PeerTimedOut \<longrightarrow> (\<forall>(now, ids)\<in>set ts. now - pl_LastSeen ?pl \<ge> hm_timeout hm')"
  proof (intro impI, clarify)
    fix now' ids' assume st: "pl_Status ?pl = PeerTimedOut" and m: "(now', ids') \<in> set ts"
    have "pl_LastSeen ?pl = pl_LastSeen pl" by (simp add: check_peer_def Let_def)
    moreover have "hm_timeout hm \<le> now - pl_LastSeen pl \<or> hm_timeout hm \<le> now' - pl_LastSeen pl"
      using st Cons.prems(5) m by (auto simp: t check_peer_def Let_def split: if_splits)
    moreover have "now \<le> now'" using so(2) m by auto
    ultimately show "hm_timeout hm' \<le> now' - pl_LastSeen ?pl" by (simp only: p(2)) linarith
  qed
  note IH = Cons.IH [OF p(1,3) d(2) so(1) to]
  have "length (filter ((=) i) (fst (ticks (t # ts) hm))) = length (filter ((=) i) started) + length (filter ((=) i) (fst (ticks ts hm')))"
    by (simp add: t c split: prod.split)
  then show ?case unfolding p(4) IH p(2) using Cons.prems(5) by (auto simp: t check_peer_def Let_def)
qed simp

text \<open>
  While a peer stays silent, however many ticks of the monitor pass, \<open>OnTimeout\<close> is started exactly
  once for it if some tick finds it silent for the timeout, and never otherwise; a peer already
  timed out or marked as disconnected is not reported again. (The clock does not run backwards.)
\<close>

theorem silent_peer_reported_once:
  assumes "hm_ok hm" and "hm_peers hm i = Some pl" and "\<forall>(now, ids)\<in>set ts. distinct ids" and "sorted (map fst ts)"
    and "pl_Status pl = PeerTimedOut \<longrightarrow> (\<forall>(now, ids)\<in>set ts. now - pl_LastSeen pl \<ge> hm_timeout hm)"
  shows "length (filter ((=) i) (fst (ticks ts hm))) =
    (if pl_Status pl \<noteq> PeerTimedOut \<and> pl_Status pl \<noteq> PeerDisconnected
        \<and> (\<exists>(now, ids)\<in>set ts. i \<in> set ids \<and> now - pl_LastSeen pl \<ge> hm_timeout hm) then 1 else 0)"
  by (rule silent_run [OF assms])

lemma silent_peer_reported_once_witness:
  "length (filter ((=) ''b'') (fst (ticks [(10, [''b'']), (20, [''b'']), (30, [''b''])]
     (RegisterPeer 0 ''b'' (NewHeartbeatMonitor 15))))) = 1"
  using silent_peer_reported_once [of "RegisterPeer 0 ''b'' (NewHeartbeatMonitor 15)" "''b''"
      "\<lparr>pl_PeerID = ''b'', pl_Status = PeerAlive, pl_LastSeen = 0, pl_MissedBeats = 0\<rparr>" "[(10, [''b'']), (20, [''b'']), (30, [''b''])]"]
  by (simp add: RegisterPeer_def NewHeartbeatMonitor_def hm_ok_def)

end
