(* ===== verification/GameLog.thy ===== *)
theory GameLog
  imports Faults
begin

text \<open>
  internal/network/gamelog.go, fault\_adaptor.go and the sequence watermarks of gossip.go: the log of
  the envelopes a node accepted, the search for equivocation in it, its adaptor for the slash
  detector, and the replay check. Locks are the atomicity of the operations. An \<open>Envelope\<close> is the
  message of messages.proto. Every error of these functions has an empty text.
\<close>

section \<open>Envelopes\<close>

type_synonym MsgType = int

record Envelope =
  env_Type :: MsgType
  env_SenderId :: string
  env_Seq :: i64
  env_Timestamp :: i64
  env_Payload :: "byte list"
  env_Signature :: "byte list"

definition NewEnvelope :: "i64 \<Rightarrow> MsgType \<Rightarrow> string \<Rightarrow> i64 \<Rightarrow> byte list \<Rightarrow> Envelope" where
  "NewEnvelope now msgType senderID seq payload = \<lparr>env_Type = msgType, env_SenderId = senderID,
     env_Seq = seq, env_Timestamp = now, env_Payload = payload, env_Signature = []\<rparr>"

text \<open>\<open>binary.BigEndian.PutUint64\<close> of a converted \<open>int64\<close>, and \<open>byte\<close> of an integer.\<close>

definition be64 :: "int \<Rightarrow> byte list" where
  "be64 x = map (\<lambda>k. word_of_int (x div 256 ^ k)) [7, 6, 5, 4, 3, 2, 1, 0]"

definition go_byte :: "int \<Rightarrow> byte" where
  "go_byte x = word_of_int x"

section \<open>The log\<close>

record Gamelog =
  gl_tableID :: string
  gl_handNum :: i64
  gl_entries :: "Envelope list"
  gl_byKey :: "string set"

definition NewGameLog :: "string \<Rightarrow> i64 \<Rightarrow> Gamelog" where
  "NewGameLog tableID handNum = \<lparr>gl_tableID = tableID, gl_handNum = handNum, gl_entries = [], gl_byKey = {}\<rparr>"

text \<open>The format \<open>%d\<close>.\<close>

definition digit :: "nat \<Rightarrow> char" where
  "digit k = char_of (48 + k)"

fun dec_nat :: "nat \<Rightarrow> string" where
  "dec_nat n = (if n < 10 then [digit n] else dec_nat (n div 10) @ [digit (n mod 10)])"

declare dec_nat.simps [simp del]

definition dec_int :: "int \<Rightarrow> string" where
  "dec_int x = (if x < 0 then CHR ''-'' # dec_nat (nat (- x)) else dec_nat (nat x))"

definition entry_key :: "Envelope \<Rightarrow> string" where
  "entry_key env = env_SenderId env @ '':'' @ dec_int (env_Seq env)"

definition Append :: "Envelope \<Rightarrow> Gamelog \<Rightarrow> bool \<times> Gamelog" where
  "Append env gl =
     (let key = entry_key env
      in if key \<in> gl_byKey gl then (False, gl)
         else (True, gl\<lparr>gl_entries := gl_entries gl @ [env], gl_byKey := insert key (gl_byKey gl)\<rparr>))"

definition Entries :: "Gamelog \<Rightarrow> Envelope list" where
  "Entries gl = gl_entries gl"

definition Gamelog_Len :: "Gamelog \<Rightarrow> nat" where
  "Gamelog_Len gl = length (gl_entries gl)"

definition entry_bytes :: "Envelope \<Rightarrow> byte list" where
  "entry_bytes env = [go_byte (env_Type env)] @ str_bytes (env_SenderId env) @ [0] @ be64 (env_Seq env)
     @ env_Payload env @ env_Signature env"

definition StateRoot :: "Gamelog \<Rightarrow> byte list" where
  "StateRoot gl = sha256 (concat (map entry_bytes (gl_entries gl)))"

definition hex_digit :: "nat \<Rightarrow> char" where
  "hex_digit k = ''0123456789abcdef'' ! k"

definition hex_EncodeToString :: "byte list \<Rightarrow> string" where
  "hex_EncodeToString bs = concat (map (\<lambda>b. [hex_digit (unat b div 16), hex_digit (unat b mod 16)]) bs)"

definition StateRootHex :: "Gamelog \<Rightarrow> string" where
  "StateRootHex gl = hex_EncodeToString (StateRoot gl)"

text \<open>The scan keeps the first envelope of each sender and number.\<close>

fun scan_entries ::
  "(string \<times> i64 \<rightharpoonup> Envelope) \<Rightarrow> Envelope list \<Rightarrow> string \<times> Envelope option \<times> Envelope option" where
  "scan_entries seen [] = ([], None, None)"
| "scan_entries seen (env # es) =
     (case seen (env_SenderId env, env_Seq env) of
        Some prev \<Rightarrow> if env_Payload prev \<noteq> env_Payload env then (env_SenderId env, Some prev, Some env)
          else scan_entries seen es
      | None \<Rightarrow> scan_entries (seen((env_SenderId env, env_Seq env) \<mapsto> env)) es)"

definition DetectEquivocation :: "Gamelog \<Rightarrow> string \<times> Envelope option \<times> Envelope option" where
  "DetectEquivocation gl = scan_entries Map.empty (gl_entries gl)"

definition EntriesBySender :: "string \<Rightarrow> Gamelog \<Rightarrow> Envelope list" where
  "EntriesBySender senderID gl = [env \<leftarrow> gl_entries gl. env_SenderId env = senderID]"

text \<open>\<open>ValidateSequences\<close> is \<open>True\<close> when it returns no error.\<close>

definition sender_seqs :: "Gamelog \<Rightarrow> string \<Rightarrow> i64 list" where
  "sender_seqs gl pid = map env_Seq (EntriesBySender pid gl)"

definition gapless :: "i64 list \<Rightarrow> bool" where
  "gapless seqs = list_all2 (\<lambda>v i. v = int i + 1) (go_sort (<) seqs) [0..<length seqs]"

definition ValidateSequences :: "string list \<Rightarrow> Gamelog \<Rightarrow> bool" where
  "ValidateSequences playerIDs gl = list_all (\<lambda>pid. sender_seqs gl pid = [] \<or> gapless (sender_seqs gl pid)) playerIDs"

section \<open>The adaptor of the slash detector\<close>

definition toEntry :: "Envelope \<Rightarrow> LogEntry" where
  "toEntry e = \<lparr>le_SenderID = env_SenderId e, le_Seq = env_Seq e, le_Payload = env_Payload e, le_Signature = env_Signature e\<rparr>"

definition adaptor_DetectEquivocation :: "Gamelog \<Rightarrow> equivocation" where
  "adaptor_DetectEquivocation gl = (case DetectEquivocation gl of (senderID, envA, envB) \<Rightarrow>
     if senderID = [] then ([], None, None) else (senderID, map_option toEntry envA, map_option toEntry envB))"

section \<open>Replay protection\<close>

type_synonym seq_map = "string \<rightharpoonup> i64"

definition updateSeqMap :: "string \<Rightarrow> i64 \<Rightarrow> seq_map \<Rightarrow> bool \<times> seq_map" where
  "updateSeqMap senderID seq m = (case m senderID of
     Some prev \<Rightarrow> if seq \<le> prev then (False, m) else (True, m(senderID \<mapsto> seq))
   | None \<Rightarrow> (True, m(senderID \<mapsto> seq)))"

record GossipManager =
  gm_tableID :: string
  gm_seqNums :: seq_map
  gm_hbSeqNums :: seq_map

definition NewGossipManager :: "string \<Rightarrow> GossipManager" where
  "NewGossipManager tableID = \<lparr>gm_tableID = tableID, gm_seqNums = Map.empty, gm_hbSeqNums = Map.empty\<rparr>"

definition topicName :: "string \<Rightarrow> string" where
  "topicName tableID = ''poker/table/'' @ tableID"

definition heartbeatTopicName :: "string \<Rightarrow> string" where
  "heartbeatTopicName tableID = ''poker/heartbeat/'' @ tableID"

definition CheckAndUpdateSeq :: "string \<Rightarrow> i64 \<Rightarrow> GossipManager \<Rightarrow> bool \<times> GossipManager" where
  "CheckAndUpdateSeq senderID seq gm = (case updateSeqMap senderID seq (gm_seqNums gm) of
     (ok, m) \<Rightarrow> (ok, gm\<lparr>gm_seqNums := m\<rparr>))"

definition CheckAndUpdateHeartbeatSeq :: "string \<Rightarrow> i64 \<Rightarrow> GossipManager \<Rightarrow> bool \<times> GossipManager" where
  "CheckAndUpdateHeartbeatSeq senderID seq gm = (case updateSeqMap senderID seq (gm_hbSeqNums gm) of
     (ok, m) \<Rightarrow> (ok, gm\<lparr>gm_hbSeqNums := m\<rparr>))"


section \<open>Keys\<close>

lemma digit_inject: "a < 10 \<Longrightarrow> b < 10 \<Longrightarrow> digit a = digit b \<longleftrightarrow> a = b"
  by (simp add: digit_def)

lemma digit_not_sign: "a < 10 \<Longrightarrow> digit a \<noteq> CHR '':''" "a < 10 \<Longrightarrow> digit a \<noteq> CHR ''-''"
proof -
  assume "a < 10"
  then have "of_char (digit a) = 48 + a" by (simp add: digit_def)
  moreover have "of_char (CHR '':'') = (58 :: nat)" "of_char (CHR ''-'') = (45 :: nat)" by simp_all
  ultimately show "digit a \<noteq> CHR '':''" "digit a \<noteq> CHR ''-''" using \<open>a < 10\<close> by auto
qed

lemma dec_nat_chars: "CHR '':'' \<notin> set (dec_nat n) \<and> CHR ''-'' \<notin> set (dec_nat n)"
proof (induction n rule: dec_nat.induct)
  case (1 n)
  then show ?case
    using digit_not_sign [of n] digit_not_sign [of "n mod 10"] by (subst (1 2) dec_nat.simps) auto
qed

lemma dec_nat_inject: "dec_nat m = dec_nat n \<Longrightarrow> m = n"
proof (induction m arbitrary: n rule: dec_nat.induct)
  case (1 m)
  have nonempty: "dec_nat k \<noteq> []" for k by (subst dec_nat.simps) simp
  show ?case
  proof (cases "m < 10 \<or> n < 10")
    case True
    then show ?thesis
      using 1(2) nonempty nonempty [symmetric] digit_inject [of m n]
      by (subst (asm) (1 2) dec_nat.simps) (auto split: if_splits simp: append_eq_Cons_conv)
  next
    case False
    then have "dec_nat (m div 10) = dec_nat (n div 10)" "digit (m mod 10) = digit (n mod 10)"
      using 1(2) by (simp_all add: dec_nat.simps [of m] dec_nat.simps [of n])
    then have "m div 10 = n div 10" "m mod 10 = n mod 10"
      using 1(1) False digit_inject by auto
    then show ?thesis by (metis div_mult_mod_eq)
  qed
qed

lemma dec_int_inject: "dec_int x = dec_int y \<Longrightarrow> x = y"
proof -
  assume eq: "dec_int x = dec_int y"
  have "x < 0 \<longleftrightarrow> y < 0"
    using eq dec_nat_chars [of "nat x"] dec_nat_chars [of "nat y"]
    by (auto simp: dec_int_def split: if_splits) (metis list.set_intros(1))+
  then show ?thesis using eq dec_nat_inject [of "nat x" "nat y"] dec_nat_inject [of "nat (- x)" "nat (- y)"]
    by (auto simp: dec_int_def split: if_splits)
qed

lemma dec_int_colon: "CHR '':'' \<notin> set (dec_int x)"
  using dec_nat_chars [of "nat x"] dec_nat_chars [of "nat (- x)"] by (simp add: dec_int_def)

lemma last_colon:
  assumes "a @ CHR '':'' # c = b @ CHR '':'' # d" and "CHR '':'' \<notin> set c" and "CHR '':'' \<notin> set d"
  shows "a = b \<and> c = d"
proof -
  have "rev c @ CHR '':'' # rev a = rev d @ CHR '':'' # rev b"
    using assms(1) by (metis append.assoc append_Cons append_Nil rev.simps(2) rev_append)
  moreover have "takeWhile (\<lambda>x. x \<noteq> CHR '':'') (rev c @ CHR '':'' # rev a) = rev c"
    and "takeWhile (\<lambda>x. x \<noteq> CHR '':'') (rev d @ CHR '':'' # rev b) = rev d"
    using assms(2, 3) by (subst takeWhile_append2; auto)+
  ultimately show ?thesis by (metis append_same_eq assms(1) list.inject rev_rev_ident same_append_eq)
qed

text \<open>The text of a key determines sender and number, whatever the sender is called.\<close>

lemma entry_key_inject:
  "entry_key a = entry_key b \<longleftrightarrow> (env_SenderId a, env_Seq a) = (env_SenderId b, env_Seq b)"
proof
  assume "entry_key a = entry_key b"
  then have "env_SenderId a @ CHR '':'' # dec_int (env_Seq a) = env_SenderId b @ CHR '':'' # dec_int (env_Seq b)"
    by (simp add: entry_key_def)
  from last_colon [OF this dec_int_colon dec_int_colon]
  show "(env_SenderId a, env_Seq a) = (env_SenderId b, env_Seq b)"
    using dec_int_inject by auto
qed (simp add: entry_key_def)


section \<open>What a log holds\<close>

text \<open>
  \<open>log_ok\<close>: the keys kept are those of the entries, and no two entries have the same one. It holds
  of a new log and \<open>Append\<close> keeps it.
\<close>

definition entry_id :: "Envelope \<Rightarrow> string \<times> i64" where
  "entry_id env = (env_SenderId env, env_Seq env)"

definition log_ok :: "Gamelog \<Rightarrow> bool" where
  "log_ok gl \<longleftrightarrow> gl_byKey gl = entry_key ` set (gl_entries gl) \<and> distinct (map entry_id (gl_entries gl))"

lemma log_ok_new [simp]: "log_ok (NewGameLog t h)"
  by (simp add: log_ok_def NewGameLog_def)

lemma log_ok_key: "log_ok gl \<Longrightarrow> entry_key env \<in> gl_byKey gl \<longleftrightarrow> entry_id env \<in> entry_id ` set (gl_entries gl)"
  by (auto simp: log_ok_def image_iff entry_key_inject entry_id_def)

lemma Append_ok: "log_ok gl \<Longrightarrow> log_ok (snd (Append env gl))"
  using log_ok_key [of gl env] by (auto simp: Append_def Let_def log_ok_def image_iff)

lemma Append_entries:
  assumes "log_ok gl"
  shows "gl_entries (snd (Append env gl)) =
    (if entry_id env \<in> entry_id ` set (gl_entries gl) then gl_entries gl else gl_entries gl @ [env])"
    and "fst (Append env gl) \<longleftrightarrow> entry_id env \<notin> entry_id ` set (gl_entries gl)"
  using log_ok_key [OF assms, of env] by (auto simp: Append_def Let_def)

lemma scan_entries_none:
  assumes "distinct (map entry_id es)" and "\<And>e. e \<in> set es \<Longrightarrow> seen (entry_id e) = None"
  shows "scan_entries seen es = ([], None, None)"
  using assms
proof (induction es arbitrary: seen)
  case (Cons e es)
  then have "scan_entries (seen(entry_id e \<mapsto> e)) es = ([], None, None)"
    by (intro Cons.IH) (auto simp: image_iff)
  then show ?case using Cons.prems(2) [of e] by (simp add: entry_id_def)
qed simp

text \<open>So the scan of a log that only \<open>Append\<close> filled finds nothing: the check for duplicates comes first.\<close>

lemma DetectEquivocation_none: "log_ok gl \<Longrightarrow> DetectEquivocation gl = ([], None, None)"
  by (simp add: DetectEquivocation_def log_ok_def scan_entries_none)

section \<open>Gapless numbers\<close>

lemma go_sort_int: "go_sort (<) xs = sort (xs :: int list)"
  using go_sort_key_sort [of "\<lambda>x. x" xs] by simp

lemma gapless_iff: "gapless seqs \<longleftrightarrow> mset seqs = mset [1..int (length seqs)]"
proof -
  have l: "list_all2 (\<lambda>v i. v = int i + 1) xs ns \<longleftrightarrow> xs = map (\<lambda>i. int i + 1) ns" for xs ns
    by (induction xs arbitrary: ns) (auto simp: list_all2_Cons1 Cons_eq_map_conv)
  have "gapless seqs \<longleftrightarrow> sort seqs = map (\<lambda>i. int i + 1) [0..<length seqs]"
    by (simp only: gapless_def go_sort_int l)
  also have "map (\<lambda>i. int i + 1) [0..<n] = [1..int n]" for n
    by (rule nth_equalityI) auto
  also have "sort seqs = [1..int (length seqs)] \<longleftrightarrow> mset seqs = mset [1..int (length seqs)]"
    by (metis mset_sort properties_for_sort sorted_upto)
  finally show ?thesis .
qed

lemma distinct_sender_seqs: "log_ok gl \<Longrightarrow> distinct (sender_seqs gl pid)"
proof -
  assume "log_ok gl"
  then have "distinct (map entry_id (EntriesBySender pid gl))"
    by (simp add: log_ok_def EntriesBySender_def distinct_map_filter)
  moreover have "map entry_id (EntriesBySender pid gl) = map (Pair pid) (sender_seqs gl pid)"
    by (auto simp: sender_seqs_def EntriesBySender_def entry_id_def)
  ultimately show ?thesis by (simp add: distinct_map)
qed

text \<open>On a log of \<open>Append\<close>, the check asks exactly that each sender's numbers are \<open>1 .. n\<close>.\<close>

lemma ValidateSequences_iff:
  assumes "log_ok gl"
  shows "ValidateSequences ids gl \<longleftrightarrow>
    (\<forall>pid \<in> set ids. set (sender_seqs gl pid) = {1..int (length (sender_seqs gl pid))})"
proof -
  have "gapless (sender_seqs gl pid) \<longleftrightarrow> set (sender_seqs gl pid) = {1..int (length (sender_seqs gl pid))}" for pid
    using distinct_sender_seqs [OF assms, of pid]
    by (metis set_upto distinct_upto gapless_iff set_eq_iff_mset_eq_distinct)
  then show ?thesis
    by (auto simp: ValidateSequences_def list_all_iff)
qed

section \<open>Watermarks\<close>

lemma updateSeqMap_cases:
  "updateSeqMap i q m = (if \<exists>p. m i = Some p \<and> q \<le> p then (False, m) else (True, m(i \<mapsto> q)))"
  by (auto simp: updateSeqMap_def split: option.splits)

lemma CheckAndUpdateSeq_cases:
  "CheckAndUpdateSeq i q gm = (if \<exists>p. gm_seqNums gm i = Some p \<and> q \<le> p then (False, gm)
     else (True, gm\<lparr>gm_seqNums := (gm_seqNums gm)(i \<mapsto> q)\<rparr>))"
  by (auto simp: CheckAndUpdateSeq_def updateSeqMap_cases)

lemma CheckAndUpdateHeartbeatSeq_frame [simp]:
  "gm_seqNums (snd (CheckAndUpdateHeartbeatSeq i q gm)) = gm_seqNums gm"
  by (simp add: CheckAndUpdateHeartbeatSeq_def split: prod.splits)

end
