(* ===== verification/Wire.thy ===== *)
theory Wire
  imports GameLog ShuffleSession DealSession
begin

text \<open>
  internal/network/codec.go: envelopes as signed, length-prefixed frames, the messages of the
  crypto layer as protobuf messages, and the hand-written wire format of key shares. The generated
  code of messages.proto, \<open>crypto/ed25519\<close> and \<open>protowire\<close> are parameters. A \<open>[]byte\<close> is
  \<open>None\<close> when nil where the code asks for nil; the errors have no content.
\<close>

section \<open>Frames\<close>

definition MaxMessageSize :: int where
  "MaxMessageSize = 4 * 1024 * 1024"

text \<open>\<open>proto.Marshal\<close> and \<open>Unmarshal\<close> of an envelope, and the signature scheme.\<close>

record envelope_lib =
  el_Marshal :: "Envelope \<Rightarrow> byte list option"
  el_Unmarshal :: "byte list \<Rightarrow> Envelope option"
  el_Sign :: "byte list \<Rightarrow> byte list \<Rightarrow> byte list"
  el_Verify :: "byte list \<Rightarrow> byte list \<Rightarrow> byte list \<Rightarrow> bool"

definition envelopeSignBytes :: "Envelope \<Rightarrow> byte list" where
  "envelopeSignBytes env = [go_byte (env_Type env)] @ str_bytes (env_SenderId env) @ [0] @ be64 (env_Seq env)
     @ be64 (env_Timestamp env) @ env_Payload env"

text \<open>The envelope is signed in place, also when the frame is refused.\<close>

definition EncodeEnvelope :: "envelope_lib \<Rightarrow> Envelope \<Rightarrow> byte list \<Rightarrow> byte list option \<times> Envelope" where
  "EncodeEnvelope lib env privKey =
     (let env' = env\<lparr>env_Signature := el_Sign lib privKey (envelopeSignBytes env)\<rparr>
      in (case el_Marshal lib env' of None \<Rightarrow> None
          | Some b \<Rightarrow> if int (length b) > MaxMessageSize then None else Some (be32 (length b) @ b), env'))"

text \<open>
  The key function works on a state \<open>'s\<close>, as a method of the node does; its answers are an error
  (\<open>None\<close>), no key (\<open>Some None\<close>) and a key.
\<close>

type_synonym 's key_fn = "string \<Rightarrow> 's \<Rightarrow> byte list option option \<times> 's"

definition check_signature :: "envelope_lib \<Rightarrow> Envelope \<Rightarrow> byte list option option \<Rightarrow> Envelope option" where
  "check_signature lib env r = (case r of None \<Rightarrow> None
     | Some None \<Rightarrow> Some env
     | Some (Some pub) \<Rightarrow> if el_Verify lib pub (envelopeSignBytes env) (env_Signature env) then Some env else None)"

definition DecodeEnvelope :: "envelope_lib \<Rightarrow> byte list \<Rightarrow> 's key_fn option \<Rightarrow> 's \<Rightarrow> Envelope option \<times> 's" where
  "DecodeEnvelope lib frame pubKeyFn s =
     (if length frame < 4 then (None, s)
      else let msgLen = big_SetBytes (take 4 frame)
        in if msgLen > MaxMessageSize then (None, s)
           else if msgLen > int (length frame) - 4 then (None, s)
           else case el_Unmarshal lib (take (nat msgLen) (drop 4 frame)) of None \<Rightarrow> (None, s)
             | Some env \<Rightarrow> (case pubKeyFn of None \<Rightarrow> (Some env, s)
                 | Some f \<Rightarrow> if env_Signature env = [] then (Some env, s)
                     else (case f (env_SenderId env) s of (r, s') \<Rightarrow> (check_signature lib env r, s'))))"

section \<open>Numbers\<close>

definition BigIntToBytes :: "int option \<Rightarrow> byte list option" where
  "BigIntToBytes n = map_option big_Bytes n"

definition BytesToBigInt :: "byte list option \<Rightarrow> int option" where
  "BytesToBigInt b = map_option big_SetBytes b"

definition copyBigInt :: "int option \<Rightarrow> int option" where
  "copyBigInt n = n"

definition i32 :: "int \<Rightarrow> int" where
  "i32 x = (x + 2 ^ 31) mod 2 ^ 32 - 2 ^ 31"

definition in32 :: "int \<Rightarrow> bool" where
  "in32 x \<longleftrightarrow> - (2 ^ 31) \<le> x \<and> x < 2 ^ 31"

lemma i32_id [simp]: "in32 x \<Longrightarrow> i32 x = x"
  by (simp add: i32_def in32_def)

section \<open>Proofs, decks and peels\<close>

record ZKProofWire =
  zw_A :: "byte list option"
  zw_B :: "byte list option"
  zw_S :: "byte list option"
  zw_H :: "byte list option"

definition ZKProofToWire :: "ZKProof option \<Rightarrow> ZKProofWire option" where
  "ZKProofToWire po = (case po of None \<Rightarrow> None
     | Some p \<Rightarrow> Some \<lparr>zw_A = BigIntToBytes (zk_A p), zw_B = BigIntToBytes (zk_B p),
                       zw_S = BigIntToBytes (zk_S p), zw_H = BigIntToBytes (zk_H p)\<rparr>)"

definition ZKProofFromWire :: "ZKProofWire option \<Rightarrow> ZKProof option" where
  "ZKProofFromWire po = (case po of None \<Rightarrow> None
     | Some p \<Rightarrow> Some \<lparr>zk_A = BytesToBigInt (zw_A p), zk_B = BytesToBigInt (zw_B p),
                       zk_S = BytesToBigInt (zw_S p), zk_H = BytesToBigInt (zw_H p)\<rparr>)"

definition DeckToWire :: "int option list \<Rightarrow> byte list option list" where
  "DeckToWire deck = map BigIntToBytes deck"

definition DeckFromWire :: "byte list option list \<Rightarrow> int option list" where
  "DeckFromWire wire = map BytesToBigInt wire"

record PartialDecrypt =
  pw_TableId :: string
  pw_HandNum :: i64
  pw_PlayerId :: string
  pw_CardIndex :: int
  pw_Ciphertext :: "byte list option"
  pw_Result :: "byte list option"
  pw_Proof :: "ZKProofWire option"

definition PartialDecryptToWire :: "string \<Rightarrow> i64 \<Rightarrow> PartialDecryption \<Rightarrow> PartialDecrypt" where
  "PartialDecryptToWire tableID handNum pd = \<lparr>pw_TableId = tableID, pw_HandNum = handNum,
     pw_PlayerId = pd_PlayerID pd, pw_CardIndex = i32 (pd_CardIndex pd), pw_Ciphertext = BigIntToBytes (pd_Ciphertext pd),
     pw_Result = BigIntToBytes (pd_Result pd), pw_Proof = ZKProofToWire (pd_Proof pd)\<rparr>"

definition PartialDecryptFromWire :: "PartialDecrypt option \<Rightarrow> PartialDecryption option" where
  "PartialDecryptFromWire wo = (case wo of None \<Rightarrow> None
     | Some w \<Rightarrow> Some \<lparr>pd_PlayerID = pw_PlayerId w, pd_CardIndex = pw_CardIndex w, pd_Ciphertext = BytesToBigInt (pw_Ciphertext w),
         pd_Result = BytesToBigInt (pw_Result w), pd_Proof = ZKProofFromWire (pw_Proof w)\<rparr>)"

definition PeelMessageFromWire :: "PartialDecrypt option \<Rightarrow> PeelMessage option" where
  "PeelMessageFromWire pbo = (case pbo of None \<Rightarrow> None
     | Some pb \<Rightarrow> Some \<lparr>pm_HandNum = pw_HandNum pb, pm_PlayerID = pw_PlayerId pb, pm_CardIndex = pw_CardIndex pb,
         pm_Ciphertext = BytesToBigInt (pw_Ciphertext pb), pm_Result = BytesToBigInt (pw_Result pb),
         pm_Proof = ZKProofFromWire (pw_Proof pb)\<rparr>)"

definition PeelMessageToPD :: "PeelMessage option \<Rightarrow> PartialDecryption option" where
  "PeelMessageToPD mo = (case mo of None \<Rightarrow> None
     | Some m \<Rightarrow> Some \<lparr>pd_PlayerID = pm_PlayerID m, pd_CardIndex = pm_CardIndex m, pd_Ciphertext = copyBigInt (pm_Ciphertext m),
         pd_Result = copyBigInt (pm_Result m),
         pd_Proof = map_option (\<lambda>p. \<lparr>zk_A = copyBigInt (zk_A p), zk_B = copyBigInt (zk_B p),
                                     zk_S = copyBigInt (zk_S p), zk_H = copyBigInt (zk_H p)\<rparr>) (pm_Proof m)\<rparr>)"

section \<open>Shuffles\<close>

record ShuffleStepWire =
  sw_TableId :: string
  sw_HandNum :: i64
  sw_PlayerId :: string
  sw_Deck :: "byte list option list"
  sw_CommitmentHash :: "byte list"
  sw_CommitmentNonce :: "byte list"

definition ShuffleMessageFromWire :: "ShuffleStepWire option \<Rightarrow> ShuffleMessage option" where
  "ShuffleMessageFromWire pbo = (case pbo of None \<Rightarrow> None
     | Some pb \<Rightarrow> Some \<lparr>sm_HandNum = sw_HandNum pb, sm_PlayerID = sw_PlayerId pb, sm_OutputDeck = DeckFromWire (sw_Deck pb),
         sm_Commitment = (if length (sw_CommitmentHash pb) > 0 \<or> length (sw_CommitmentNonce pb) > 0
           then Some \<lparr>com_Hash = sw_CommitmentHash pb, com_Nonce = sw_CommitmentNonce pb\<rparr> else None)\<rparr>)"

definition ShuffleMessageToWire :: "string \<Rightarrow> ShuffleMessage option \<Rightarrow> ShuffleStepWire option" where
  "ShuffleMessageToWire tableID mo = (case mo of None \<Rightarrow> None
     | Some msg \<Rightarrow> Some \<lparr>sw_TableId = tableID, sw_HandNum = sm_HandNum msg, sw_PlayerId = sm_PlayerID msg,
         sw_Deck = DeckToWire (sm_OutputDeck msg),
         sw_CommitmentHash = (case sm_Commitment msg of None \<Rightarrow> [] | Some c \<Rightarrow> com_Hash c),
         sw_CommitmentNonce = (case sm_Commitment msg of None \<Rightarrow> [] | Some c \<Rightarrow> com_Nonce c)\<rparr>)"

section \<open>Key shares\<close>

record KeyShare =
  kw_TableId :: string
  kw_HandNum :: i64
  kw_OwnerId :: string
  kw_Index :: int
  kw_Value :: "byte list option"

definition KeyShareToWire :: "string \<Rightarrow> i64 \<Rightarrow> string \<Rightarrow> ShamirShare \<Rightarrow> KeyShare" where
  "KeyShareToWire tableID handNum ownerID share = \<lparr>kw_TableId = tableID, kw_HandNum = handNum, kw_OwnerId = ownerID,
     kw_Index = i32 (sh_Index share), kw_Value = BigIntToBytes (sh_Value share)\<rparr>"

definition KeyShareFromWire :: "KeyShare option \<Rightarrow> ShamirShare" where
  "KeyShareFromWire wo = (case wo of None \<Rightarrow> \<lparr>sh_Index = 0, sh_Value = None\<rparr>
     | Some w \<Rightarrow> \<lparr>sh_Index = kw_Index w, sh_Value = BytesToBigInt (kw_Value w)\<rparr>)"

text \<open>The functions of \<open>protowire\<close>; the last component of a \<open>Consume\<close> is the length used, negative for an error.\<close>

record protowire =
  AppendTag :: "byte list \<Rightarrow> int \<Rightarrow> int \<Rightarrow> byte list"
  AppendString :: "byte list \<Rightarrow> string \<Rightarrow> byte list"
  AppendVarint :: "byte list \<Rightarrow> 64 word \<Rightarrow> byte list"
  AppendBytes :: "byte list \<Rightarrow> byte list \<Rightarrow> byte list"
  ConsumeTag :: "byte list \<Rightarrow> int \<times> int \<times> int"
  ConsumeString :: "byte list \<Rightarrow> string \<times> int"
  ConsumeVarint :: "byte list \<Rightarrow> 64 word \<times> int"
  ConsumeBytes :: "byte list \<Rightarrow> byte list \<times> int"
  ConsumeFieldValue :: "int \<Rightarrow> int \<Rightarrow> byte list \<Rightarrow> int"

definition VarintType :: int where
  "VarintType = 0"

definition BytesType :: int where
  "BytesType = 2"

definition MarshalKeyShare :: "protowire \<Rightarrow> KeyShare option \<Rightarrow> byte list option" where
  "MarshalKeyShare pw mo = (case mo of None \<Rightarrow> None
     | Some msg \<Rightarrow>
         let b0 = [];
             b1 = (if kw_TableId msg \<noteq> [] then AppendString pw (AppendTag pw b0 1 BytesType) (kw_TableId msg) else b0);
             b2 = (if kw_HandNum msg \<noteq> 0 then AppendVarint pw (AppendTag pw b1 2 VarintType) (word_of_int (kw_HandNum msg)) else b1);
             b3 = (if kw_OwnerId msg \<noteq> [] then AppendString pw (AppendTag pw b2 3 BytesType) (kw_OwnerId msg) else b2);
             b4 = (if kw_Index msg \<noteq> 0 then AppendVarint pw (AppendTag pw b3 4 VarintType) (word_of_int (kw_Index msg)) else b3);
             v = (case kw_Value msg of None \<Rightarrow> [] | Some v \<Rightarrow> v);
             b5 = (if length v > 0 then AppendBytes pw (AppendTag pw b4 5 BytesType) v else b4)
         in Some b5)"

text \<open>
  The loop may not end for an arbitrary \<open>protowire\<close>, so its outcome is an option; inside is the
  message or an error. The library promises lengths within the buffer, so slicing is \<open>drop\<close>.
\<close>

definition empty_KeyShare :: KeyShare where
  "empty_KeyShare = \<lparr>kw_TableId = [], kw_HandNum = 0, kw_OwnerId = [], kw_Index = 0, kw_Value = None\<rparr>"

definition read_field :: "protowire \<Rightarrow> int \<Rightarrow> int \<Rightarrow> byte list \<Rightarrow> KeyShare \<Rightarrow> KeyShare \<times> int" where
  "read_field pw num typ b msg =
     (if num = 1 \<and> typ = BytesType then (case ConsumeString pw b of (s, n) \<Rightarrow> (msg\<lparr>kw_TableId := s\<rparr>, n))
      else if num = 2 \<and> typ = VarintType then (case ConsumeVarint pw b of (v, n) \<Rightarrow> (msg\<lparr>kw_HandNum := sint v\<rparr>, n))
      else if num = 3 \<and> typ = BytesType then (case ConsumeString pw b of (s, n) \<Rightarrow> (msg\<lparr>kw_OwnerId := s\<rparr>, n))
      else if num = 4 \<and> typ = VarintType then (case ConsumeVarint pw b of (v, n) \<Rightarrow> (msg\<lparr>kw_Index := i32 (uint v)\<rparr>, n))
      else if num = 5 \<and> typ = BytesType then
        (case ConsumeBytes pw b of (v, n) \<Rightarrow> (msg\<lparr>kw_Value := (if v = [] then None else Some v)\<rparr>, n))
      else (msg, ConsumeFieldValue pw num typ b))"

partial_function (option) unmarshal_loop :: "protowire \<Rightarrow> byte list \<Rightarrow> KeyShare \<Rightarrow> KeyShare option option" where
  "unmarshal_loop pw b msg =
     (if b = [] then Some (Some msg)
      else case ConsumeTag pw b of (num, typ, n) \<Rightarrow>
        if n < 0 then Some None
        else let b' = drop (nat n) b
          in case read_field pw num typ b' msg of (msg', n') \<Rightarrow>
             if n' < 0 then Some None else unmarshal_loop pw (drop (nat n') b') msg')"

definition UnmarshalKeyShare :: "protowire \<Rightarrow> byte list \<Rightarrow> KeyShare option option" where
  "UnmarshalKeyShare pw b = unmarshal_loop pw b empty_KeyShare"

section \<open>Frames: round trip and what a signature covers\<close>

fun be_bytes :: "nat \<Rightarrow> int \<Rightarrow> byte list" where
  "be_bytes 0 x = []"
| "be_bytes (Suc k) x = be_bytes k (x div 256) @ [word_of_int x]"

lemma length_be_bytes [simp]: "length (be_bytes k x) = k"
  by (induction k arbitrary: x) simp_all

lemma be_bytes_value: "big_SetBytes (be_bytes k x) = x mod 256 ^ k"
proof (induction k arbitrary: x)
  case 0
  then show ?case by (simp add: big_SetBytes_def)
next
  case (Suc k)
  have "x mod 256 ^ Suc k = 256 * (x div 256 mod 256 ^ k) + x mod 256"
    using zmod_zmult2_eq [of "256 ^ k" x 256] by simp
  then show ?case by (simp add: big_SetBytes_append Suc uint_word_of_int)
qed

lemma be_bytes_map: "be_bytes k x = map (\<lambda>j. word_of_int (x div 256 ^ j)) (rev [0..<k])"
proof (induction k arbitrary: x)
  case (Suc k)
  have "x div 256 div 256 ^ j = x div 256 ^ Suc j" for j
    using zdiv_zmult2_eq [of "256 ^ j" x 256] by simp
  moreover have "rev [0..<Suc k] = map Suc (rev [0..<k]) @ [0]"
    by (simp only: rev_map [symmetric] map_Suc_upt) (simp add: upt_conv_Cons del: upt_Suc)
  ultimately show ?case by (simp add: Suc o_def del: upt_Suc)
qed simp

lemma be32_be_bytes: "be32 n = be_bytes 4 (int n)"
proof -
  have "rev [0..<4] = [3, 2, 1, 0 :: nat]" by (simp add: upt_conv_Cons)
  then show ?thesis by (simp only: be32_def be_bytes_map)
qed

lemma be64_be_bytes: "be64 x = be_bytes 8 x"
proof -
  have "rev [0..<8] = [7, 6, 5, 4, 3, 2, 1, 0 :: nat]" by (simp add: upt_conv_Cons)
  then show ?thesis by (simp only: be64_def be_bytes_map)
qed

lemma be32_value: "n < 2 ^ 32 \<Longrightarrow> big_SetBytes (be32 n) = int n"
  by (simp add: be32_be_bytes be_bytes_value)

lemma length_be64 [simp]: "length (be64 x) = 8"
  by (simp add: be64_def)

lemma be64_inject: "in64 x \<Longrightarrow> in64 y \<Longrightarrow> be64 x = be64 y \<Longrightarrow> x = y"
proof -
  assume x: "in64 x" "in64 y" and "be64 x = be64 y"
  then have "x mod 256 ^ 8 = y mod 256 ^ 8" by (metis be64_be_bytes be_bytes_value)
  then show "x = y" using w64_cong [of x y] x by simp
qed

definition envelope_laws :: "envelope_lib \<Rightarrow> bool" where
  "envelope_laws lib \<longleftrightarrow> (\<forall>env b. el_Marshal lib env = Some b \<longrightarrow> el_Unmarshal lib b = Some env)"

text \<open>What a frame of \<open>EncodeEnvelope\<close> decodes to: the envelope, if the key function answers the pair's public key.\<close>

lemma Encode_Decode:
  assumes "envelope_laws lib" and enc: "EncodeEnvelope lib env sk = (Some frame, env')"
    and f: "f (env_SenderId env) s = (Some (Some pub), s')"
    and v: "el_Verify lib pub (envelopeSignBytes env) (el_Sign lib sk (envelopeSignBytes env))"
    and ne: "el_Sign lib sk (envelopeSignBytes env) \<noteq> []"
  shows "DecodeEnvelope lib frame (Some f) s = (Some env', s')"
    and "env' = env\<lparr>env_Signature := el_Sign lib sk (envelopeSignBytes env)\<rparr>"
proof -
  show env': "env' = env\<lparr>env_Signature := el_Sign lib sk (envelopeSignBytes env)\<rparr>"
    using enc by (simp add: EncodeEnvelope_def Let_def)
  obtain b where b: "el_Marshal lib env' = Some b" "int (length b) \<le> MaxMessageSize" "frame = be32 (length b) @ b"
    using enc by (auto simp: EncodeEnvelope_def Let_def env' split: option.splits if_splits)
  have l: "big_SetBytes (take 4 frame) = int (length b)"
    using b(2) by (simp add: b(3) be32_value MaxMessageSize_def)
  have sb: "envelopeSignBytes env' = envelopeSignBytes env" by (simp add: env' envelopeSignBytes_def)
  show "DecodeEnvelope lib frame (Some f) s = (Some env', s')"
    using b(1,2) assms(1) f v ne sb l
    by (simp add: DecodeEnvelope_def Let_def envelope_laws_def b(3) env' check_signature_def)
qed

lemma uint_of_char: "uint (of_char c :: byte) = of_char c"
proof -
  have "(of_char c :: byte) = word_of_int (of_char c)" by (simp only: of_int_of_char)
  moreover have "(of_char c :: int) < 256" "0 \<le> (of_char c :: int)"
    by (cases c; simp)+
  ultimately show ?thesis by (simp add: uint_word_of_int)
qed

lemma of_char_byte_inject: "(of_char c :: byte) = of_char d \<longleftrightarrow> c = d"
  by (metis of_char_eq_iff uint_of_char)

lemma inj_of_char: "inj (of_char :: char \<Rightarrow> byte)"
  by (rule injI) (simp only: of_char_byte_inject)

lemma str_bytes_inject: "str_bytes a = str_bytes b \<longleftrightarrow> a = b"
  unfolding str_bytes_def by (rule inj_map_eq_map [OF inj_of_char])

lemma str_bytes_zero: "(0 :: byte) \<in> set (str_bytes a) \<longleftrightarrow> CHR 0x00 \<in> set a"
proof -
  have "(0 :: byte) = of_char (CHR 0x00)" by simp
  then show ?thesis
    unfolding str_bytes_def by (metis inj_image_mem_iff inj_of_char set_map)
qed

lemma first_zero:
  assumes "a @ 0 # c = b @ 0 # d" and "(0 :: byte) \<notin> set a" and "(0 :: byte) \<notin> set b"
  shows "a = b \<and> c = d"
proof -
  have "takeWhile (\<lambda>x. x \<noteq> 0) (a @ 0 # c) = a" and "takeWhile (\<lambda>x. x \<noteq> 0) (b @ 0 # d) = b"
    using assms(2, 3) by (subst takeWhile_append2; auto)+
  then show ?thesis using assms(1) by (metis list.inject same_append_eq)
qed

lemma go_byte_mod:
  assumes "go_byte x = go_byte y" and "0 \<le> y" and "y < 256"
  shows "x mod 256 = y"
proof -
  have "uint (go_byte x) = uint (go_byte y)" using assms(1) by simp
  then show ?thesis using assms(2,3) by (simp add: go_byte_def uint_word_of_int)
qed

definition plain_envelope :: "Envelope \<Rightarrow> bool" where
  "plain_envelope e \<longleftrightarrow> 0 \<le> env_Type e \<and> env_Type e < 256 \<and> CHR 0x00 \<notin> set (env_SenderId e)
     \<and> in64 (env_Seq e) \<and> in64 (env_Timestamp e)"

text \<open>The signed bytes determine everything but the signature.\<close>

lemma envelopeSignBytes_fields:
  assumes "CHR 0x00 \<notin> set (env_SenderId a)" "CHR 0x00 \<notin> set (env_SenderId b)"
    and n: "in64 (env_Seq a)" "in64 (env_Timestamp a)" "in64 (env_Seq b)" "in64 (env_Timestamp b)"
    and eq: "envelopeSignBytes a = envelopeSignBytes b"
  shows "a = b\<lparr>env_Signature := env_Signature a, env_Type := env_Type a\<rparr>" and "go_byte (env_Type a) = go_byte (env_Type b)"
proof -
  have t: "go_byte (env_Type a) = go_byte (env_Type b)"
    and r: "str_bytes (env_SenderId a) @ 0 # be64 (env_Seq a) @ be64 (env_Timestamp a) @ env_Payload a
      = str_bytes (env_SenderId b) @ 0 # be64 (env_Seq b) @ be64 (env_Timestamp b) @ env_Payload b"
    using eq by (simp_all add: envelopeSignBytes_def)
  have s: "str_bytes (env_SenderId a) = str_bytes (env_SenderId b)
    \<and> be64 (env_Seq a) @ be64 (env_Timestamp a) @ env_Payload a = be64 (env_Seq b) @ be64 (env_Timestamp b) @ env_Payload b"
    using assms(1, 2) by (intro first_zero [OF r]) (simp_all add: str_bytes_zero)
  then have "be64 (env_Seq a) = be64 (env_Seq b) \<and> be64 (env_Timestamp a) = be64 (env_Timestamp b) \<and> env_Payload a = env_Payload b"
    by (metis append_eq_append_conv length_be64)
  then have "env_SenderId a = env_SenderId b" "env_Seq a = env_Seq b"
    "env_Timestamp a = env_Timestamp b" "env_Payload a = env_Payload b"
    using s n be64_inject by (simp_all add: str_bytes_inject)
  then show "a = b\<lparr>env_Signature := env_Signature a, env_Type := env_Type a\<rparr>" by (cases a; cases b) simp
  show "go_byte (env_Type a) = go_byte (env_Type b)" by (rule t)
qed

text \<open>Of the type only the low byte is signed.\<close>

lemma type_outside_signature: "envelopeSignBytes (e\<lparr>env_Type := env_Type e + 256\<rparr>) = envelopeSignBytes e"
  by (simp add: envelopeSignBytes_def go_byte_def)

section \<open>Numbers and messages over the wire\<close>

text \<open>
  A protobuf message leaves out a field with an empty value, so an empty \<open>bytes\<close> field arrives as
  nil; an element of a repeated field always arrives.
\<close>

definition field_norm :: "byte list option \<Rightarrow> byte list option" where
  "field_norm b = (if b = Some [] then None else b)"

definition element_norm :: "byte list option \<Rightarrow> byte list option" where
  "element_norm b = (case b of None \<Rightarrow> Some [] | Some x \<Rightarrow> Some x)"

definition proof_norm :: "ZKProofWire \<Rightarrow> ZKProofWire" where
  "proof_norm z = \<lparr>zw_A = field_norm (zw_A z), zw_B = field_norm (zw_B z), zw_S = field_norm (zw_S z), zw_H = field_norm (zw_H z)\<rparr>"

definition peel_norm :: "PartialDecrypt \<Rightarrow> PartialDecrypt" where
  "peel_norm w = w\<lparr>pw_Ciphertext := field_norm (pw_Ciphertext w), pw_Result := field_norm (pw_Result w),
     pw_Proof := map_option proof_norm (pw_Proof w)\<rparr>"

definition shuffle_norm :: "ShuffleStepWire \<Rightarrow> ShuffleStepWire" where
  "shuffle_norm w = w\<lparr>sw_Deck := map element_norm (sw_Deck w)\<rparr>"

definition positive :: "int option \<Rightarrow> bool" where
  "positive x \<longleftrightarrow> (\<exists>n. x = Some n \<and> 0 < n)"

lemma big_Bytes_empty: "big_Bytes n = [] \<longleftrightarrow> n = 0"
  by (simp add: big_Bytes_def le_bytes.simps [of "\<bar>n\<bar>"])

lemma number_over_wire: "positive x \<Longrightarrow> BytesToBigInt (field_norm (BigIntToBytes x)) = x"
  by (auto simp: positive_def BytesToBigInt_def BigIntToBytes_def field_norm_def big_Bytes_empty)

lemma zero_over_wire: "BytesToBigInt (field_norm (BigIntToBytes (Some 0))) = None"
  by (simp add: BytesToBigInt_def BigIntToBytes_def field_norm_def big_Bytes_empty)

lemma card_over_wire: "x \<noteq> None \<Longrightarrow> 0 \<le> the x \<Longrightarrow> BytesToBigInt (element_norm (BigIntToBytes x)) = x"
  by (auto simp: BytesToBigInt_def BigIntToBytes_def element_norm_def)

definition peel_sendable :: "PeelMessage \<Rightarrow> bool" where
  "peel_sendable m \<longleftrightarrow> in32 (pm_CardIndex m) \<and> positive (pm_Ciphertext m) \<and> positive (pm_Result m)
     \<and> (\<exists>p. pm_Proof m = Some p \<and> positive (zk_A p) \<and> positive (zk_B p) \<and> positive (zk_S p) \<and> positive (zk_H p))"

lemma peel_over_wire:
  assumes "peel_sendable m"
  shows "PeelMessageFromWire (Some (peel_norm (PartialDecryptToWire t (pm_HandNum m) (the (PeelMessageToPD (Some m)))))) = Some m"
  using assms
  by (cases m) (auto simp: peel_sendable_def PeelMessageFromWire_def PartialDecryptToWire_def PeelMessageToPD_def peel_norm_def
      copyBigInt_def ZKProofFromWire_def ZKProofToWire_def proof_norm_def number_over_wire)

definition shuffle_sendable :: "ShuffleMessage \<Rightarrow> bool" where
  "shuffle_sendable m \<longleftrightarrow> (\<forall>c \<in> set (sm_OutputDeck m). \<exists>n \<ge> 0. c = Some n)
     \<and> (case sm_Commitment m of None \<Rightarrow> True | Some c \<Rightarrow> com_Hash c \<noteq> [])"

lemma shuffle_over_wire:
  assumes "shuffle_sendable m"
  shows "ShuffleMessageFromWire (map_option shuffle_norm (ShuffleMessageToWire t (Some m))) = Some m"
proof -
  have "map (BytesToBigInt \<circ> (element_norm \<circ> BigIntToBytes)) (sm_OutputDeck m) = sm_OutputDeck m"
    using assms by (intro map_idI) (auto simp: shuffle_sendable_def card_over_wire)
  then show ?thesis
    using assms
    by (cases m) (auto simp: shuffle_sendable_def ShuffleMessageFromWire_def ShuffleMessageToWire_def shuffle_norm_def
      DeckFromWire_def DeckToWire_def split: option.splits)
qed

section \<open>Key shares over the wire\<close>

text \<open>
  What \<open>protowire\<close> documents: an \<open>Append\<close> extends its buffer, the matching \<open>Consume\<close> reads back
  the value and says how many bytes it took, and a tag that was read took at least one byte.
\<close>

definition reads_back :: "(byte list \<Rightarrow> 'a \<Rightarrow> byte list) \<Rightarrow> (byte list \<Rightarrow> 'a \<times> int) \<Rightarrow> bool" where
  "reads_back app con \<longleftrightarrow> (\<forall>b v. app b v = b @ app [] v) \<and> (\<forall>v rest. con (app [] v @ rest) = (v, int (length (app [] v))))"

definition protowire_laws :: "protowire \<Rightarrow> bool" where
  "protowire_laws pw \<longleftrightarrow> reads_back (AppendString pw) (ConsumeString pw) \<and> reads_back (AppendVarint pw) (ConsumeVarint pw)
     \<and> reads_back (AppendBytes pw) (ConsumeBytes pw)
     \<and> (\<forall>b num typ. AppendTag pw b num typ = b @ AppendTag pw [] num typ)
     \<and> (\<forall>num \<in> {1..5}. \<forall>typ \<in> {VarintType, BytesType}. \<forall>rest.
          ConsumeTag pw (AppendTag pw [] num typ @ rest) = (num, typ, int (length (AppendTag pw [] num typ))))
     \<and> (\<forall>b num typ n. b \<noteq> [] \<longrightarrow> ConsumeTag pw b = (num, typ, n) \<longrightarrow> n \<noteq> 0)"

lemma reads_back_append: "reads_back app con \<Longrightarrow> app b v = b @ app [] v"
  unfolding reads_back_def by (drule conjunct1, drule spec, drule spec)

lemma reads_back_consume: "reads_back app con \<Longrightarrow> con (app [] v @ rest) = (v, int (length (app [] v)))"
  unfolding reads_back_def by (drule conjunct2, drule spec, drule spec)

lemma protowire_lawsD:
  assumes "protowire_laws pw"
  shows "reads_back (AppendString pw) (ConsumeString pw)" and "reads_back (AppendVarint pw) (ConsumeVarint pw)"
    and "reads_back (AppendBytes pw) (ConsumeBytes pw)" and "AppendTag pw b num ty = b @ AppendTag pw [] num ty"
    and "num \<in> {1..5} \<Longrightarrow> ty \<in> {VarintType, BytesType} \<Longrightarrow>
      ConsumeTag pw (AppendTag pw [] num ty @ rest) = (num, ty, int (length (AppendTag pw [] num ty)))"
    and "b \<noteq> [] \<Longrightarrow> ConsumeTag pw b = (num, ty, n) \<Longrightarrow> n \<noteq> 0"
  using assms unfolding protowire_laws_def by - (elim conjE, (assumption | (drule spec)+ | blast)+)

text \<open>One field in front of the buffer is one turn of the loop.\<close>

lemma loop_field:
  assumes "protowire_laws pw" and "num \<in> {1..5}" and "typ \<in> {VarintType, BytesType}"
    and "read_field pw num typ (f @ rest) msg = (msg', int (length f))"
  shows "unmarshal_loop pw (AppendTag pw [] num typ @ f @ rest) msg = unmarshal_loop pw rest msg'"
proof -
  let ?t = "AppendTag pw [] num typ"
  have c: "ConsumeTag pw (?t @ f @ rest) = (num, typ, int (length ?t))"
    using assms(2,3) by (rule protowire_lawsD(5) [OF assms(1)])
  have ne: "?t @ f @ rest \<noteq> []"
  proof
    assume "?t @ f @ rest = []"
    then have t: "?t = []" by simp
    have "ConsumeTag pw (?t @ [0]) = (num, typ, int (length ?t))"
      using assms(2,3) by (rule protowire_lawsD(5) [OF assms(1)])
    then have "ConsumeTag pw [0] = (num, typ, 0)" using t by simp
    then show False using protowire_lawsD(6) [OF assms(1), of "[0]"] by simp
  qed
  show ?thesis
    using ne by (subst unmarshal_loop.simps) (simp add: c assms(4) del: append_is_Nil_conv)
qed

definition share_sendable :: "KeyShare \<Rightarrow> bool" where
  "share_sendable m \<longleftrightarrow> in64 (kw_HandNum m) \<and> in32 (kw_Index m)"

lemma sint_word_of_int64: "in64 x \<Longrightarrow> sint (word_of_int x :: 64 word) = x"
  by (simp only: sint_sbintrunc' in64_def) (simp add: signed_take_bit_int_eq_self)

lemma i32_mod: "x mod 2 ^ 32 = y mod 2 ^ 32 \<Longrightarrow> i32 x = i32 y"
  unfolding i32_def by (metis mod_add_left_eq)

lemma i32_word_of_int64: "in32 x \<Longrightarrow> i32 (uint (word_of_int x :: 64 word)) = x"
proof -
  assume x: "in32 x"
  have "uint (word_of_int x :: 64 word) mod 2 ^ 32 = x mod 2 ^ 32"
    by (simp add: uint_word_of_int mod_mod_cancel)
  then have "i32 (uint (word_of_int x :: 64 word)) = i32 x" by (rule i32_mod)
  then show ?thesis using x by simp
qed

text \<open>An optional field of \<open>MarshalKeyShare\<close>, and what the loop makes of it.\<close>

definition chunk :: "protowire \<Rightarrow> bool \<Rightarrow> int \<Rightarrow> int \<Rightarrow> byte list \<Rightarrow> byte list" where
  "chunk pw c num ty f = (if c then AppendTag pw [] num ty @ f else [])"

lemma append_chunk:
  assumes "protowire_laws pw" and "reads_back app con"
  shows "(if c then app (AppendTag pw b num ty) v else b) = b @ chunk pw c num ty (app [] v)"
proof -
  have a: "app (AppendTag pw b num ty) v = AppendTag pw b num ty @ app [] v"
    by (rule reads_back_append [OF assms(2)])
  have t: "AppendTag pw b num ty = b @ AppendTag pw [] num ty"
    by (rule protowire_lawsD(4) [OF assms(1)])
  show ?thesis
    by (cases c) (simp_all only: chunk_def if_True if_False a append_Nil2, simp only: t append.assoc)
qed

lemma loop_chunk:
  assumes "protowire_laws pw" and "num \<in> {1..5}" and "ty \<in> {VarintType, BytesType}"
    and "read_field pw num ty (f @ rest) msg = (msg', int (length f))" and "\<not> c \<Longrightarrow> msg' = msg"
  shows "unmarshal_loop pw (chunk pw c num ty f @ rest) msg = unmarshal_loop pw rest msg'"
  using loop_field [OF assms(1-4)] assms(5) by (cases c) (simp_all add: chunk_def)

lemma key_share_wire:
  assumes "protowire_laws pw" and "share_sendable m"
  shows "\<exists>b. MarshalKeyShare pw (Some m) = Some b
    \<and> UnmarshalKeyShare pw b = Some (Some (m\<lparr>kw_Value := field_norm (kw_Value m)\<rparr>))"
proof -
  note law = protowire_lawsD(1-3) [OF assms(1)]
  define v where "v = (case kw_Value m of None \<Rightarrow> [] | Some v \<Rightarrow> v)"
  let ?f1 = "AppendString pw [] (kw_TableId m)" and ?f2 = "AppendVarint pw [] (word_of_int (kw_HandNum m))"
  let ?f3 = "AppendString pw [] (kw_OwnerId m)" and ?f4 = "AppendVarint pw [] (word_of_int (kw_Index m))"
  let ?f5 = "AppendBytes pw [] v"
  let ?b = "chunk pw (kw_TableId m \<noteq> []) 1 BytesType ?f1 @ chunk pw (kw_HandNum m \<noteq> 0) 2 VarintType ?f2
    @ chunk pw (kw_OwnerId m \<noteq> []) 3 BytesType ?f3 @ chunk pw (kw_Index m \<noteq> 0) 4 VarintType ?f4
    @ chunk pw (0 < length v) 5 BytesType ?f5 @ []"
  have b: "MarshalKeyShare pw (Some m) = Some ?b"
    unfolding MarshalKeyShare_def Let_def option.case v_def [symmetric]
    by (simp only: append_chunk [OF assms(1) law(1)] append_chunk [OF assms(1) law(2)] append_chunk [OF assms(1) law(3)]
        append.assoc append_Nil append_Nil2)
  have tys: "BytesType \<in> {VarintType, BytesType}" "VarintType \<in> {VarintType, BytesType}" by simp_all
  have ne: "VarintType \<noteq> BytesType" by (simp add: VarintType_def BytesType_def)
  have r: "in64 (kw_HandNum m)" "in32 (kw_Index m)" using assms(2) by (simp_all add: share_sendable_def)
  note con = reads_back_consume [OF law(1)] reads_back_consume [OF law(2)] reads_back_consume [OF law(3), of _ "[]", unfolded append_Nil2]
  let ?m1 = "empty_KeyShare\<lparr>kw_TableId := kw_TableId m\<rparr>"
  let ?m2 = "?m1\<lparr>kw_HandNum := kw_HandNum m\<rparr>"
  let ?m3 = "?m2\<lparr>kw_OwnerId := kw_OwnerId m\<rparr>"
  let ?m4 = "?m3\<lparr>kw_Index := kw_Index m\<rparr>"
  let ?m5 = "?m4\<lparr>kw_Value := (if v = [] then None else Some v)\<rparr>"
  have "UnmarshalKeyShare pw ?b = unmarshal_loop pw [] ?m5"
    unfolding UnmarshalKeyShare_def
    apply (subst loop_chunk [OF assms(1) _ tys(1), where msg' = ?m1])
       apply (simp_all add: read_field_def con empty_KeyShare_def)[3]
    apply (subst loop_chunk [OF assms(1) _ tys(2), where msg' = ?m2])
       apply (simp_all add: read_field_def con empty_KeyShare_def sint_word_of_int64 r)[3]
    apply (subst loop_chunk [OF assms(1) _ tys(1), where msg' = ?m3])
       apply (simp_all add: read_field_def con empty_KeyShare_def)[3]
    apply (subst loop_chunk [OF assms(1) _ tys(2), where msg' = ?m4])
       apply (simp_all add: read_field_def con empty_KeyShare_def i32_word_of_int64 r)[3]
    apply (subst loop_chunk [OF assms(1) _ tys(1), where msg' = ?m5])
       apply (simp_all add: read_field_def con empty_KeyShare_def)[3]
    apply (rule refl)
    done
  moreover have "?m5 = m\<lparr>kw_Value := field_norm (kw_Value m)\<rparr>"
    by (cases m) (auto simp: empty_KeyShare_def field_norm_def v_def split: option.splits)
  ultimately have "UnmarshalKeyShare pw ?b = Some (Some (m\<lparr>kw_Value := field_norm (kw_Value m)\<rparr>))"
    by (simp add: unmarshal_loop.simps [of pw "[]"])
  then show ?thesis using b by blast
qed

text \<open>On every buffer the loop ends.\<close>

lemma unmarshal_returns:
  assumes "protowire_laws pw"
  shows "\<exists>r. unmarshal_loop pw b msg = Some r"
proof (induction "length b" arbitrary: b msg rule: less_induct)
  case less
  obtain num ty n where t: "ConsumeTag pw b = (num, ty, n)" by (metis prod_cases3)
  obtain msg' n' where f: "read_field pw num ty (drop (nat n) b) msg = (msg', n')" by fastforce
  have "b \<noteq> [] \<Longrightarrow> \<not> n < 0 \<Longrightarrow> 0 < n" using protowire_lawsD(6) [OF assms _ t] by linarith
  then have "b \<noteq> [] \<Longrightarrow> \<not> n < 0 \<Longrightarrow> length (drop (nat n') (drop (nat n) b)) < length b"
    by (cases b) (auto simp: nat_less_iff)
  then show ?case
    using less by (subst unmarshal_loop.simps) (auto simp: t f Let_def)
qed

section \<open>A wire format that keeps the laws\<close>

text \<open>Numbers in base 128, strings and byte fields by their length: the encoding of \<open>protowire\<close>.\<close>

fun put_varint :: "nat \<Rightarrow> byte list" where
  "put_varint n = (if n < 128 then [of_nat n] else of_nat (n mod 128 + 128) # put_varint (n div 128))"

declare put_varint.simps [simp del]

fun get_varint :: "byte list \<Rightarrow> (nat \<times> nat) option" where
  "get_varint [] = None"
| "get_varint (b # bs) = (if unat b < 128 then Some (unat b, 1)
     else case get_varint bs of None \<Rightarrow> None | Some (v, k) \<Rightarrow> Some (unat b - 128 + 128 * v, k + 1))"

lemma get_put_varint: "get_varint (put_varint n @ rest) = Some (n, length (put_varint n))"
proof (induction n rule: put_varint.induct)
  case (1 n)
  have u: "unat (of_nat k :: byte) = k" if "k < 256" for k using that by (simp add: unat_of_nat)
  show ?case
  proof (cases "n < 128")
    case True
    then show ?thesis by (simp add: put_varint.simps [of n] u)
  next
    case False
    then show ?thesis using 1 by (simp add: put_varint.simps [of n] u [of "n mod 128 + 128", simplified])
  qed
qed

definition get_bytes :: "byte list \<Rightarrow> byte list \<times> int" where
  "get_bytes b = (case get_varint b of None \<Rightarrow> ([], -1)
     | Some (k, u) \<Rightarrow> if length b < u + k then ([], -1) else (take k (drop u b), int (u + k)))"

definition demo_wire :: protowire where
  "demo_wire = \<lparr>AppendTag = \<lambda>b num ty. b @ put_varint (nat (num * 8 + ty)),
     AppendString = \<lambda>b s. b @ put_varint (length s) @ str_bytes s,
     AppendVarint = \<lambda>b v. b @ put_varint (unat v),
     AppendBytes = \<lambda>b v. b @ put_varint (length v) @ v,
     ConsumeTag = \<lambda>b. (case get_varint b of None \<Rightarrow> (0, 0, -1) | Some (v, u) \<Rightarrow> (int (v div 8), int (v mod 8), int u)),
     ConsumeString = \<lambda>b. (case get_bytes b of (v, n) \<Rightarrow> (map (\<lambda>c. char_of (unat c)) v, n)),
     ConsumeVarint = \<lambda>b. (case get_varint b of None \<Rightarrow> (0, -1) | Some (v, u) \<Rightarrow> (of_nat v, int u)),
     ConsumeBytes = get_bytes,
     ConsumeFieldValue = \<lambda>num ty b. snd (get_bytes b)\<rparr>"

lemma get_bytes_put: "get_bytes (put_varint (length v) @ v @ rest) = (v, int (length (put_varint (length v) @ v)))"
  by (simp add: get_bytes_def get_put_varint)

lemma get_varint_used: "get_varint b = Some (v, u) \<Longrightarrow> 0 < u"
  by (cases b) (auto split: if_splits option.splits)

lemma char_of_byte: "char_of (unat (of_char c :: byte)) = c"
proof -
  have "int (unat (of_char c :: byte)) = of_char c" by (simp only: uint_of_char [symmetric] uint_nat)
  then have "unat (of_char c :: byte) = of_char c" by (metis of_nat_eq_iff of_nat_of_char)
  then show ?thesis by simp
qed

lemma demo_wire_laws: "protowire_laws demo_wire"
proof -
  have s: "map (\<lambda>c. char_of (unat c)) (str_bytes v) = v" for v :: string
    by (simp add: str_bytes_def o_def char_of_byte)
  have l: "length (str_bytes v) = length v" for v by (simp add: str_bytes_def)
  have "reads_back (AppendString demo_wire) (ConsumeString demo_wire)"
    using get_bytes_put [of "str_bytes v" for v] by (simp add: reads_back_def demo_wire_def s l)
  moreover have "reads_back (AppendVarint demo_wire) (ConsumeVarint demo_wire)"
    by (simp add: reads_back_def demo_wire_def get_put_varint)
  moreover have "reads_back (AppendBytes demo_wire) (ConsumeBytes demo_wire)"
    by (simp add: reads_back_def demo_wire_def get_bytes_put)
  moreover have "ConsumeTag demo_wire b \<noteq> (num, ty, 0)" for b num ty
    by (auto simp: demo_wire_def dest: get_varint_used split: option.splits prod.splits)
  moreover have "ConsumeTag demo_wire (AppendTag demo_wire [] num ty @ rest) = (num, ty, int (length (AppendTag demo_wire [] num ty)))"
    if "num \<in> {1..5}" "ty \<in> {VarintType, BytesType}" for num ty rest
  proof -
    have enum: "num = 1 \<or> num = 2 \<or> num = 3 \<or> num = 4 \<or> num = 5" using that(1) by auto
    have "nat (num * 8 + ty) div 8 = nat num" "nat (num * 8 + ty) mod 8 = nat ty" "0 \<le> num" "0 \<le> ty"
      using that enum by (auto simp: VarintType_def BytesType_def)
    then show ?thesis by (simp add: demo_wire_def get_put_varint)
  qed
  ultimately show ?thesis by (auto simp: protowire_laws_def) (simp_all add: demo_wire_def)
qed

section \<open>Properties\<close>

text \<open>C38: a Shamir share sent as a key share arrives as it was, owner and hand included, for every
  \<open>protowire\<close> that reads back what it wrote; the one exception is the value zero, an empty field,
  which arrives as a share without a value.\<close>

lemma key_share_roundtrip:
  assumes "protowire_laws pw" and "in64 handNum" and "in32 (sh_Index share)" and "sh_Value share = Some v" and "0 \<le> v"
  shows "\<exists>b w. MarshalKeyShare pw (Some (KeyShareToWire tableID handNum ownerID share)) = Some b
    \<and> UnmarshalKeyShare pw b = Some (Some w) \<and> kw_OwnerId w = ownerID \<and> kw_HandNum w = handNum
    \<and> KeyShareFromWire (Some w) = share\<lparr>sh_Value := (if v = 0 then None else Some v)\<rparr>"
proof -
  let ?m = "KeyShareToWire tableID handNum ownerID share"
  let ?w = "?m\<lparr>kw_Value := field_norm (kw_Value ?m)\<rparr>"
  have "share_sendable ?m" using assms by (simp add: share_sendable_def KeyShareToWire_def)
  then obtain b where b: "MarshalKeyShare pw (Some ?m) = Some b" "UnmarshalKeyShare pw b = Some (Some ?w)"
    using key_share_wire [OF assms(1)] by blast
  have "KeyShareFromWire (Some ?w) = share\<lparr>sh_Value := (if v = 0 then None else Some v)\<rparr>"
    using assms number_over_wire [of "Some v"] zero_over_wire
    by (cases share) (auto simp: KeyShareFromWire_def KeyShareToWire_def positive_def)
  then show ?thesis using b by (intro exI [of _ b] exI [of _ ?w]) (simp add: KeyShareToWire_def)
qed

lemma key_share_roundtrip_witness:
  "\<exists>b w. MarshalKeyShare demo_wire (Some (KeyShareToWire ''t'' 0 ''a'' (mk_share 2 77))) = Some b
    \<and> UnmarshalKeyShare demo_wire b = Some (Some w) \<and> KeyShareFromWire (Some w) = mk_share 2 77"
  using key_share_roundtrip [OF demo_wire_laws, of 0 "mk_share 2 77" 77 "''t''" "''a''"]
  by (auto simp: mk_share_def in64_def in32_def)

text \<open>C39: parsing a key share ends on every buffer, whatever the sender put there: each turn of the
  loop reads a tag, and a tag takes at least a byte.\<close>

lemma key_share_parse_ends:
  assumes "protowire_laws pw"
  shows "\<exists>r. UnmarshalKeyShare pw b = Some r"
  unfolding UnmarshalKeyShare_def by (rule unmarshal_returns [OF assms])

lemma key_share_parse_ends_witness: "\<exists>r. UnmarshalKeyShare demo_wire [255, 7, 200, 0] = Some r"
  by (rule key_share_parse_ends [OF demo_wire_laws])

text \<open>a peel that one replica sends reaches the deal session of another as it was: hand, player,
  card, both numbers and the proof, for every protobuf coder that does what is documented for empty
  fields.\<close>

lemma peel_wire_roundtrip:
  assumes "\<forall>w. unmarshal (marshal w) = Some (peel_norm w)" and "peel_sendable m"
  shows "PeelMessageFromWire (unmarshal (marshal (PartialDecryptToWire tableID (pm_HandNum m) (the (PeelMessageToPD (Some m)))))) = Some m"
  using peel_over_wire [OF assms(2)] by (simp add: assms(1) [rule_format])

definition wire_peel :: PeelMessage where
  "wire_peel = \<lparr>pm_HandNum = 1, pm_PlayerID = ''a'', pm_CardIndex = 3, pm_Ciphertext = Some 300, pm_Result = Some 12,
     pm_Proof = Some (mk_proof 1 2 3 4)\<rparr>"

lemma peel_wire_roundtrip_witness:
  "PeelMessageFromWire (Some (peel_norm (PartialDecryptToWire ''t'' 1 (the (PeelMessageToPD (Some wire_peel)))))) = Some wire_peel"
  using peel_wire_roundtrip [of Some peel_norm wire_peel "''t''"]
  by (simp add: wire_peel_def peel_sendable_def positive_def in32_def mk_proof_def)

text \<open>a signed envelope survives the trip: what \<open>EncodeEnvelope\<close> frames, \<open>DecodeEnvelope\<close> returns
  with its signature, when the receiver looks up the key that belongs to the signer's.\<close>

lemma envelope_roundtrip:
  assumes "envelope_laws lib" and "EncodeEnvelope lib env sk = (Some frame, env')"
    and "f (env_SenderId env) s = (Some (Some pub), s')"
    and "el_Verify lib pub (envelopeSignBytes env) (el_Sign lib sk (envelopeSignBytes env))"
    and "el_Sign lib sk (envelopeSignBytes env) \<noteq> []"
  shows "DecodeEnvelope lib frame (Some f) s = (Some env', s') \<and> env' = env\<lparr>env_Signature := el_Sign lib sk (envelopeSignBytes env)\<rparr>"
  using Encode_Decode [where f = f and s = s and pub = pub, OF assms] by blast

text \<open>A library for examples: it codes one envelope, and only that is ever signed, by its own bytes.\<close>

definition demo_lib :: "Envelope \<Rightarrow> envelope_lib" where
  "demo_lib e = \<lparr>el_Marshal = \<lambda>x. if x = e then Some [7] else None, el_Unmarshal = \<lambda>b. if b = [7] then Some e else None,
     el_Sign = \<lambda>sk d. d, el_Verify = \<lambda>pub d sig. sig = d \<and> d = envelopeSignBytes e\<rparr>"

lemma demo_lib_laws: "envelope_laws (demo_lib e)"
  by (simp add: envelope_laws_def demo_lib_def)

definition demo_envelope :: Envelope where
  "demo_envelope = NewEnvelope 1000 6 ''a'' 1 [5]"

definition demo_signed :: Envelope where
  "demo_signed = demo_envelope\<lparr>env_Signature := envelopeSignBytes demo_envelope\<rparr>"

lemma demo_frame: "EncodeEnvelope (demo_lib demo_signed) demo_envelope [] = (Some (be32 1 @ [7]), demo_signed)"
  by (simp add: EncodeEnvelope_def demo_lib_def demo_signed_def MaxMessageSize_def)

lemma demo_sign_bytes: "envelopeSignBytes demo_signed = envelopeSignBytes demo_envelope"
  by (simp add: envelopeSignBytes_def demo_signed_def)

lemma sign_bytes_nonempty: "envelopeSignBytes e \<noteq> []"
  by (simp add: envelopeSignBytes_def)

lemma envelope_roundtrip_witness:
  "DecodeEnvelope (demo_lib demo_signed) (be32 1 @ [7]) (Some (\<lambda>i s. (Some (Some []), s))) () = (Some demo_signed, ())"
  using envelope_roundtrip [OF demo_lib_laws demo_frame, of "\<lambda>i s. (Some (Some []), s)" "()" "[]" "()"]
  by (simp add: demo_lib_def sign_bytes_nonempty demo_sign_bytes)

end
