(* ===== verification/Lobby.thy ===== *)
theory Lobby
  imports Keyring Pots "HOL-Library.Char_ord" "HOL-Library.List_Lexorder" "HOL-Library.Product_Lexorder"
begin

text \<open>
  internal/network/lobby.go: who sits at the table and in which order, before a hand starts. The map
  of the seats is an association list with different keys; a loop over it takes the order of the
  iteration, which Go leaves open, as the argument \<open>ids\<close>. Every error of the lobby has an empty
  text, so a handler answers \<open>True\<close> or \<open>False\<close>. The channel \<open>readyCh\<close> is closed when \<open>readyClosed\<close>.
\<close>

section \<open>State\<close>

datatype LobbyState = LobbyWaiting | LobbyReady | LobbyPlaying

record SeatInfo =
  si_PlayerID :: playerID
  si_PlayerName :: string
  si_BuyIn :: i64
  si_SRAKeyE :: "byte list"
  si_Nonce :: "byte list"
  si_IsReady :: bool
  si_JoinedAt :: i64
  si_JoinedAtUnixMs :: i64

record Lobby =
  lb_tableID :: string
  lb_maxSeats :: int
  lb_seats :: "(playerID \<times> SeatInfo) list"
  lb_state :: LobbyState
  lb_readyClosed :: bool
  lb_onceDone :: bool

record JoinTable =
  jt_TableId :: string
  jt_PlayerName :: string
  jt_BuyIn :: i64
  jt_SraPubKeyE :: "byte list"
  jt_SessionNonce :: "byte list"

record PlayerReady =
  rd_TableId :: string
  rd_HandNum :: i64

definition NewLobby :: "string \<Rightarrow> int \<Rightarrow> Lobby" where
  "NewLobby tableID maxSeats = \<lparr>lb_tableID = tableID, lb_maxSeats = maxSeats, lb_seats = [], lb_state = LobbyWaiting,
     lb_readyClosed = False, lb_onceDone = False\<rparr>"

section \<open>Joining and getting ready\<close>

definition seat_of_join :: "JoinTable \<Rightarrow> playerID \<Rightarrow> i64 \<Rightarrow> SeatInfo" where
  "seat_of_join msg fromPeerID ts = \<lparr>si_PlayerID = fromPeerID, si_PlayerName = jt_PlayerName msg, si_BuyIn = jt_BuyIn msg,
     si_SRAKeyE = jt_SraPubKeyE msg, si_Nonce = jt_SessionNonce msg, si_IsReady = False, si_JoinedAt = ts,
     si_JoinedAtUnixMs = ts\<rparr>"

definition HandleJoin :: "i64 \<Rightarrow> JoinTable \<Rightarrow> playerID \<Rightarrow> i64 option \<Rightarrow> Lobby \<Rightarrow> bool \<times> Lobby" where
  "HandleJoin now msg fromPeerID senderTimestamp l =
     (if lb_state l \<noteq> LobbyWaiting then (False, l)
      else if int (length (lb_seats l)) \<ge> lb_maxSeats l then (False, l)
      else if map_of (lb_seats l) fromPeerID \<noteq> None then (False, l)
      else if jt_BuyIn msg \<le> 0 then (False, l)
      else let ts = (case senderTimestamp of Some t \<Rightarrow> t | None \<Rightarrow> now)
        in (True, l\<lparr>lb_seats := lb_seats l @ [(fromPeerID, seat_of_join msg fromPeerID ts)]\<rparr>))"

definition checkAllReady :: "Lobby \<Rightarrow> Lobby" where
  "checkAllReady l =
     (if int (length (lb_seats l)) < lb_maxSeats l then l
      else if \<not> list_all (\<lambda>(_, s). si_IsReady s) (lb_seats l) then l
      else if lb_state l = LobbyWaiting
        then l\<lparr>lb_state := LobbyReady, lb_readyClosed := (if lb_onceDone l then lb_readyClosed l else True), lb_onceDone := True\<rparr>
        else l)"

definition set_ready :: "playerID \<Rightarrow> Lobby \<Rightarrow> Lobby" where
  "set_ready i l = l\<lparr>lb_seats := map (\<lambda>(j, s). if j = i then (j, s\<lparr>si_IsReady := True\<rparr>) else (j, s)) (lb_seats l)\<rparr>"

definition HandleReady :: "PlayerReady \<Rightarrow> playerID \<Rightarrow> Lobby \<Rightarrow> bool \<times> Lobby" where
  "HandleReady msg fromPeerID l = (case map_of (lb_seats l) fromPeerID of None \<Rightarrow> (False, l)
     | Some _ \<Rightarrow> (True, checkAllReady (set_ready fromPeerID l)))"

text \<open>\<open>None\<close> is a waiter that goes on waiting; the context ending is its argument.\<close>

definition WaitReady :: "bool \<Rightarrow> Lobby \<Rightarrow> bool option" where
  "WaitReady ctxDone l = (if lb_readyClosed l then Some True else if ctxDone then Some False else None)"

definition SetPlaying :: "Lobby \<Rightarrow> Lobby" where
  "SetPlaying l = l\<lparr>lb_state := LobbyPlaying\<rparr>"

definition Lobby_Reset :: "Lobby \<Rightarrow> Lobby" where
  "Lobby_Reset l = l\<lparr>lb_state := LobbyWaiting, lb_readyClosed := False, lb_onceDone := False\<rparr>"

definition Lobby_State :: "Lobby \<Rightarrow> LobbyState" where
  "Lobby_State l = lb_state l"

definition Lobby_Count :: "Lobby \<Rightarrow> nat" where
  "Lobby_Count l = length (lb_seats l)"

section \<open>The seats in order\<close>

definition seat_less :: "SeatInfo \<Rightarrow> SeatInfo \<Rightarrow> bool" where
  "seat_less a b = (if si_JoinedAtUnixMs a \<noteq> si_JoinedAtUnixMs b then si_JoinedAtUnixMs a < si_JoinedAtUnixMs b
     else si_PlayerID a < si_PlayerID b)"

definition Seats :: "playerID list \<Rightarrow> Lobby \<Rightarrow> SeatInfo list" where
  "Seats ids l = go_sort seat_less (map (\<lambda>i. the (map_of (lb_seats l) i)) ids)"

definition PlayerIDs :: "playerID list \<Rightarrow> Lobby \<Rightarrow> playerID list" where
  "PlayerIDs ids l = map si_PlayerID (Seats ids l)"

definition CanonicalPlayerOrder :: "playerID list \<Rightarrow> Lobby \<Rightarrow> playerID list" where
  "CanonicalPlayerOrder ids l = PlayerIDs ids l"

definition SessionNonce :: "playerID list \<Rightarrow> Lobby \<Rightarrow> byte list" where
  "SessionNonce ids l = concat (map si_Nonce (Seats ids l))"

definition lb_PublicExponents :: "playerID list \<Rightarrow> Lobby \<Rightarrow> byte list list" where
  "lb_PublicExponents ids l = map si_SRAKeyE (Seats ids l)"

definition AllSeatsHavePublicE :: "playerID list \<Rightarrow> Lobby \<Rightarrow> bool" where
  "AllSeatsHavePublicE ids l = (Seats ids l \<noteq> [] \<and> list_all (\<lambda>s. length (si_SRAKeyE s) > 0) (Seats ids l))"

datatype lobby_error = LobbyNil | NoPublicE | KeyringError crypto_error

definition KeyringFromLobby :: "playerID \<Rightarrow> SRAKey option \<Rightarrow> playerID list \<Rightarrow> Lobby option \<Rightarrow> lobby_error + Keyring" where
  "KeyringFromLobby localID lk ids lobby = (case lobby of None \<Rightarrow> Inl LobbyNil
     | Some l \<Rightarrow> if \<not> AllSeatsHavePublicE ids l then Inl NoPublicE
         else let seats = Seats ids l;
                  order = map si_PlayerID seats;
                  pubs = map (\<lambda>s. (si_PlayerID s, si_SRAKeyE s)) seats
           in case NewKeyring localID lk pubs order of Inl e \<Rightarrow> Inl (KeyringError e) | Inr kr \<Rightarrow> Inr kr)"

section \<open>Joins in any order\<close>

text \<open>A join as a node gets it: the message, the sender, the sender's time.\<close>

type_synonym join = "JoinTable \<times> playerID \<times> i64"

definition join_id :: "join \<Rightarrow> playerID" where
  "join_id j = fst (snd j)"

definition handle_join :: "join \<Rightarrow> Lobby \<Rightarrow> Lobby" where
  "handle_join j l = (case j of (msg, i, ts) \<Rightarrow> snd (HandleJoin 0 msg i (Some ts) l))"

definition join_all :: "join list \<Rightarrow> Lobby \<Rightarrow> Lobby" where
  "join_all js l = fold handle_join js l"

definition seat_entry :: "join \<Rightarrow> playerID \<times> SeatInfo" where
  "seat_entry j = (case j of (msg, i, ts) \<Rightarrow> (i, seat_of_join msg i ts))"

lemma fst_seat_entry [simp]: "fst (seat_entry j) = join_id j"
  by (simp add: seat_entry_def join_id_def split: prod.splits)

text \<open>A join repeats itself or comes from somebody else; there is room for all.\<close>

definition joins_fit :: "int \<Rightarrow> join set \<Rightarrow> bool" where
  "joins_fit n js \<longleftrightarrow> inj_on join_id js \<and> (\<forall>(msg, _, _) \<in> js. 0 < jt_BuyIn msg) \<and> int (card js) \<le> n"

definition joined :: "join set \<Rightarrow> int \<Rightarrow> Lobby \<Rightarrow> bool" where
  "joined js n l \<longleftrightarrow> set (lb_seats l) = seat_entry ` js \<and> distinct (map fst (lb_seats l)) \<and> lb_state l = LobbyWaiting
     \<and> lb_maxSeats l = n"

lemma joins_fit_mono: "joins_fit n js \<Longrightarrow> finite js \<Longrightarrow> is \<subseteq> js \<Longrightarrow> joins_fit n is"
  using card_mono [of js "is"] by (fastforce simp: joins_fit_def intro: inj_on_subset)

lemma joined_step:
  assumes j: "joined js n l" and fit: "joins_fit n (insert e js)" and fin: "finite js"
  shows "joined (insert e js) n (handle_join e l)"
proof (cases "e \<in> js")
  case True
  obtain msg i ts where e: "e = (msg, i, ts)" by (metis prod_cases3)
  have "seat_entry e \<in> set (lb_seats l)" using j True by (simp add: joined_def)
  then have "(i, seat_of_join msg i ts) \<in> set (lb_seats l)" by (simp add: seat_entry_def e)
  then have "map_of (lb_seats l) i \<noteq> None" by (simp add: weak_map_of_SomeI)
  then have "handle_join e l = l" by (simp add: handle_join_def HandleJoin_def e)
  then show ?thesis using j True by (simp add: insert_absorb)
next
  case False
  obtain msg i ts where e: "e = (msg, i, ts)" by (metis prod_cases3)
  have keys: "fst ` set (lb_seats l) = join_id ` js" using j by (simp add: joined_def image_image)
  have "join_id e \<notin> join_id ` js" using fit False by (simp add: joins_fit_def)
  moreover have "join_id e = i" by (simp add: e join_id_def)
  ultimately have new: "map_of (lb_seats l) i = None" by (simp add: map_of_eq_None_iff keys)
  have "length (map fst (lb_seats l)) = card (set (map fst (lb_seats l)))"
    using j by (intro distinct_card [symmetric]) (simp add: joined_def)
  then have "length (lb_seats l) = card (join_id ` js)" by (simp add: keys)
  also have "\<dots> = card js" using fit by (intro card_image) (auto simp: joins_fit_def intro: inj_on_subset)
  finally have "int (length (lb_seats l)) < n" using fit False fin by (simp add: joins_fit_def)
  moreover have "lb_state l = LobbyWaiting" "lb_maxSeats l = n" using j by (simp_all add: joined_def)
  moreover have "0 < jt_BuyIn msg" using fit by (simp add: joins_fit_def e)
  ultimately have "handle_join e l = l\<lparr>lb_seats := lb_seats l @ [seat_entry e]\<rparr>"
    by (simp add: handle_join_def HandleJoin_def e seat_entry_def new)
  then show ?thesis
    using j new by (auto simp: joined_def e seat_entry_def map_of_eq_None_iff)
qed

lemma join_all_joined:
  assumes "joins_fit n (set js)"
  shows "joined (set js) n (join_all js (NewLobby t n))"
  using assms
proof (induction js rule: rev_induct)
  case Nil
  then show ?case by (simp add: joined_def join_all_def NewLobby_def)
next
  case (snoc e js)
  then have "joined (set js) n (join_all js (NewLobby t n))" by (auto intro: joins_fit_mono)
  then show ?case using snoc.prems joined_step [of "set js" n _ e] by (simp add: join_all_def)
qed

section \<open>The order does not depend on the replica\<close>

definition seat_key :: "SeatInfo \<Rightarrow> i64 \<times> string" where
  "seat_key s = (si_JoinedAtUnixMs s, si_PlayerID s)"

lemma seat_less_key: "seat_less = (\<lambda>a b. seat_key a < seat_key b)"
  by (intro ext) (auto simp: seat_less_def seat_key_def)

text \<open>An iteration over the map visits every key once.\<close>

definition ranges :: "playerID list \<Rightarrow> Lobby \<Rightarrow> bool" where
  "ranges ids l \<longleftrightarrow> distinct ids \<and> set ids = fst ` set (lb_seats l)"

definition seats_ok :: "Lobby \<Rightarrow> bool" where
  "seats_ok l \<longleftrightarrow> distinct (map fst (lb_seats l)) \<and> (\<forall>(i, s) \<in> set (lb_seats l). si_PlayerID s = i)"

lemma Seats_set:
  assumes "seats_ok l" and "ranges ids l"
  shows "set (Seats ids l) = snd ` set (lb_seats l)"
proof -
  have d: "distinct (map fst (lb_seats l))" using assms(1) by (simp add: seats_ok_def)
  have "(\<lambda>i. the (map_of (lb_seats l) i)) ` fst ` set (lb_seats l) = snd ` set (lb_seats l)"
    using d by (force simp: image_image)
  then show ?thesis using assms(2) by (simp add: Seats_def ranges_def)
qed

lemma Seats_ids:
  assumes "seats_ok l" and "ranges ids l"
  shows "mset (map si_PlayerID (Seats ids l)) = mset ids"
proof -
  have "si_PlayerID (the (map_of (lb_seats l) i)) = i" if "i \<in> set ids" for i
  proof -
    have "i \<in> fst ` set (lb_seats l)" using that assms(2) by (simp add: ranges_def)
    then obtain s where "(i, s) \<in> set (lb_seats l)" by auto
    then show ?thesis using assms(1) by (auto simp: seats_ok_def)
  qed
  then have "map (si_PlayerID \<circ> (\<lambda>i. the (map_of (lb_seats l) i))) ids = ids" by (intro map_idI) simp
  moreover have "mset (map si_PlayerID (Seats ids l)) = mset (map (si_PlayerID \<circ> (\<lambda>i. the (map_of (lb_seats l) i))) ids)"
    by (simp add: Seats_def image_mset.compositionality)
  ultimately show ?thesis by simp
qed

lemma Seats_sorted:
  assumes "seats_ok l" and "ranges ids l"
  shows "sorted_wrt (<) (map seat_key (Seats ids l))"
proof -
  have "distinct (map si_PlayerID (Seats ids l))"
    using Seats_ids [OF assms] assms(2) by (metis mset_eq_imp_distinct_iff ranges_def)
  then have "distinct (map snd (map seat_key (Seats ids l)))" by (simp add: seat_key_def o_def)
  then have "distinct (map seat_key (Seats ids l))" by (auto simp: distinct_map intro: inj_on_imageI2)
  moreover have "sorted (map seat_key (Seats ids l))"
    by (simp add: Seats_def seat_less_key go_sort_key_sorted)
  ultimately show ?thesis by (simp add: strict_sorted_iff)
qed

lemma sorted_key_unique:
  fixes f :: "'a \<Rightarrow> 'b :: linorder"
  assumes "sorted_wrt (<) (map f xs)" and "sorted_wrt (<) (map f ys)" and "set xs = set ys"
  shows "xs = ys"
proof -
  have "map f xs = map f ys" using assms by (intro strict_sorted_equal) simp_all
  moreover have "inj_on f (set xs \<union> set ys)"
    using assms by (simp add: strict_sorted_iff distinct_map)
  ultimately show ?thesis by (simp add: inj_on_map_eq_map)
qed

lemma joined_seats_ok: "joined js n l \<Longrightarrow> seats_ok l"
  by (auto simp: joined_def seats_ok_def seat_entry_def seat_of_join_def)

lemma joined_same_seats:
  assumes "joined js n l" and "joined js n' l'" and "ranges ids l" and "ranges ids' l'"
  shows "Seats ids l = Seats ids' l'"
proof (rule sorted_key_unique [of seat_key])
  have ok: "seats_ok l" "seats_ok l'" using assms(1,2) joined_seats_ok by blast+
  show "sorted_wrt (<) (map seat_key (Seats ids l))" "sorted_wrt (<) (map seat_key (Seats ids' l'))"
    using Seats_sorted ok assms(3,4) by blast+
  show "set (Seats ids l) = set (Seats ids' l')"
    using Seats_set [OF ok(1) assms(3)] Seats_set [OF ok(2) assms(4)] assms(1,2) by (simp add: joined_def)
qed

text \<open>A join without chips is refused and leaves no trace.\<close>

definition valid_join :: "join \<Rightarrow> bool" where
  "valid_join j \<longleftrightarrow> 0 < jt_BuyIn (fst j)"

lemma join_all_valid: "join_all js l = join_all (filter valid_join js) l"
proof (induction js arbitrary: l)
  case (Cons j js)
  have "\<not> valid_join j \<Longrightarrow> handle_join j l = l"
    by (cases j) (simp add: valid_join_def handle_join_def HandleJoin_def)
  then show ?case using Cons.IH by (simp add: join_all_def)
qed (simp add: join_all_def)

text \<open>C31: replicas that get the same joins, in any order and any number of times, seat the same players in
  the same order, that of the join times and among equal times that of the identities, whatever
  order Go iterates its map in; so they also agree on the canonical order, the session nonce and the
  public exponents that the shuffle is bound to. This is so when every player with chips sends one
  join (perhaps repeated) and there are seats for all of them; joins without chips may come besides.
  With more players than seats it is false, see \<open>lobby_overflow_splits\<close>.\<close>

lemma lobby_order_agrees:
  assumes "joins_fit n {j \<in> set js. valid_join j}" and "set js' = set js"
    and "ranges ids (join_all js (NewLobby t n))" and "ranges ids' (join_all js' (NewLobby t n))"
  shows "Seats ids (join_all js (NewLobby t n)) = Seats ids' (join_all js' (NewLobby t n))
    \<and> CanonicalPlayerOrder ids (join_all js (NewLobby t n)) = CanonicalPlayerOrder ids' (join_all js' (NewLobby t n))
    \<and> SessionNonce ids (join_all js (NewLobby t n)) = SessionNonce ids' (join_all js' (NewLobby t n))
    \<and> lb_PublicExponents ids (join_all js (NewLobby t n)) = lb_PublicExponents ids' (join_all js' (NewLobby t n))
    \<and> set (Seats ids (join_all js (NewLobby t n))) = (\<lambda>(msg, i, ts). seat_of_join msg i ts) ` {j \<in> set js. valid_join j}
    \<and> sorted_wrt (<) (map (\<lambda>s. (si_JoinedAtUnixMs s, si_PlayerID s)) (Seats ids (join_all js (NewLobby t n))))"
proof -
  let ?l = "join_all js (NewLobby t n)" and ?l' = "join_all js' (NewLobby t n)" and ?js = "{j \<in> set js. valid_join j}"
  have j: "joined ?js n ?l" "joined ?js n ?l'"
    using join_all_joined [of n "filter valid_join js" t] join_all_joined [of n "filter valid_join js'" t] assms(1,2)
    by (simp_all flip: join_all_valid)
  have same: "Seats ids ?l = Seats ids' ?l'" by (rule joined_same_seats [OF j assms(3,4)])
  have "set (Seats ids ?l) = snd ` seat_entry ` ?js"
    using Seats_set [OF joined_seats_ok [OF j(1)] assms(3)] j(1) by (simp add: joined_def)
  also have "\<dots> = (\<lambda>(msg, i, ts). seat_of_join msg i ts) ` ?js"
    by (force simp: image_image seat_entry_def split: prod.splits)
  finally have set: "set (Seats ids ?l) = (\<lambda>(msg, i, ts). seat_of_join msg i ts) ` ?js" .
  have "seat_key = (\<lambda>s. (si_JoinedAtUnixMs s, si_PlayerID s))" by (simp add: fun_eq_iff seat_key_def)
  then have "sorted_wrt (<) (map (\<lambda>s. (si_JoinedAtUnixMs s, si_PlayerID s)) (Seats ids ?l))"
    using Seats_sorted [OF joined_seats_ok [OF j(1)] assms(3)] by simp
  then show ?thesis
    using same set by (simp add: CanonicalPlayerOrder_def PlayerIDs_def SessionNonce_def lb_PublicExponents_def)
qed

definition demo_join :: "string \<Rightarrow> i64 \<Rightarrow> join" where
  "demo_join i ts = (\<lparr>jt_TableId = ''t'', jt_PlayerName = i, jt_BuyIn = 100, jt_SraPubKeyE = [3], jt_SessionNonce = str_bytes i\<rparr>, i, ts)"

lemma lobby_order_agrees_witness:
  "PlayerIDs [''a'', ''b'', ''c''] (join_all [demo_join ''a'' 5, demo_join ''b'' 5, demo_join ''c'' 4] (NewLobby ''t'' 3)) = [''c'', ''a'', ''b'']
   \<and> Seats [''b'', ''c'', ''a''] (join_all [demo_join ''c'' 4, demo_join ''b'' 5, demo_join ''c'' 4, demo_join ''a'' 5] (NewLobby ''t'' 3))
     = Seats [''a'', ''b'', ''c''] (join_all [demo_join ''a'' 5, demo_join ''b'' 5, demo_join ''c'' 4] (NewLobby ''t'' 3))"
proof -
  let ?js = "[demo_join ''a'' 5, demo_join ''b'' 5, demo_join ''c'' 4]"
  let ?js' = "[demo_join ''c'' 4, demo_join ''b'' 5, demo_join ''c'' 4, demo_join ''a'' 5]"
  have "{j \<in> set ?js. valid_join j} = set ?js" by (auto simp: valid_join_def demo_join_def)
  then have fit: "joins_fit 3 {j \<in> set ?js. valid_join j}" by (simp add: joins_fit_def demo_join_def join_id_def)
  have r: "ranges [''a'', ''b'', ''c''] (join_all ?js (NewLobby ''t'' 3))"
    "ranges [''b'', ''c'', ''a''] (join_all ?js' (NewLobby ''t'' 3))"
    by (auto simp: ranges_def join_all_def handle_join_def HandleJoin_def demo_join_def NewLobby_def)
  have "PlayerIDs [''a'', ''b'', ''c''] (join_all ?js (NewLobby ''t'' 3)) = [''c'', ''a'', ''b'']"
    by (simp add: PlayerIDs_def Seats_def go_sort_def seat_less_def join_all_def handle_join_def HandleJoin_def
        demo_join_def NewLobby_def seat_of_join_def less_char_def)
  moreover have "Seats [''a'', ''b'', ''c''] (join_all ?js (NewLobby ''t'' 3)) = Seats [''b'', ''c'', ''a''] (join_all ?js' (NewLobby ''t'' 3))"
    using lobby_order_agrees [OF fit _ r] by auto
  ultimately show ?thesis by simp
qed

section \<open>Two things the lobby does not do\<close>

text \<open>
  With more joins than seats, who gets in is decided by the order of arrival, so two replicas can
  seat different players and never agree on a deck.
\<close>

lemma lobby_overflow_splits:
  "PlayerIDs [''a'', ''b''] (join_all [demo_join ''a'' 5, demo_join ''b'' 5, demo_join ''c'' 4] (NewLobby ''t'' 2)) = [''a'', ''b'']
   \<and> PlayerIDs [''a'', ''c''] (join_all [demo_join ''c'' 4, demo_join ''a'' 5, demo_join ''b'' 5] (NewLobby ''t'' 2)) = [''c'', ''a'']"
  by (simp add: PlayerIDs_def Seats_def go_sort_def seat_less_def join_all_def handle_join_def HandleJoin_def
      demo_join_def NewLobby_def seat_of_join_def less_char_def)

lemma set_ready_ids [simp]: "map fst (lb_seats (set_ready i l)) = map fst (lb_seats l)"
  by (simp add: set_ready_def split_def if_distrib cong: if_cong)

text \<open>
  \<open>Reset\<close> opens the lobby again but leaves the \<open>IsReady\<close> of every seat: after a full hand the
  first \<open>PLAYER_READY\<close> alone closes the channel that is to wait for all.
\<close>

lemma reset_keeps_ready:
  assumes "lb_maxSeats l \<le> int (length (lb_seats l))" and "list_all (\<lambda>(_, s). si_IsReady s) (lb_seats l)"
    and "map_of (lb_seats l) i \<noteq> None"
  shows "lb_state (snd (HandleReady msg i (Lobby_Reset l))) = LobbyReady
    \<and> WaitReady False (snd (HandleReady msg i (Lobby_Reset l))) = Some True"
proof -
  obtain s where s: "map_of (lb_seats l) i = Some s" using assms(3) by auto
  have "list_all (\<lambda>(_, s). si_IsReady s) (lb_seats (set_ready i (Lobby_Reset l)))"
    using assms(2) by (auto simp: list_all_iff set_ready_def Lobby_Reset_def split: if_splits)
  moreover have "lb_state (set_ready i (Lobby_Reset l)) = LobbyWaiting" "\<not> lb_onceDone (set_ready i (Lobby_Reset l))"
    "lb_maxSeats (set_ready i (Lobby_Reset l)) = lb_maxSeats l" "length (lb_seats (set_ready i (Lobby_Reset l))) = length (lb_seats l)"
    "map_of (lb_seats (Lobby_Reset l)) i = Some s"
    by (simp_all add: set_ready_def Lobby_Reset_def s)
  ultimately show ?thesis
    using assms(1) by (simp add: HandleReady_def checkAllReady_def WaitReady_def)
qed

end
