(* ===== verification/KeyShares.thy ===== *)
theory KeyShares
  imports Shamir Cipher
begin

text \<open>
  internal/fault/shamir.go: the shares of the players' private exponents. A node keeps the share it was
  given (\<open>sharesReceived\<close>) and, once an owner is gone, collects the published shares (\<open>sharesHeld\<close>).
  Main results: enough honest shares, in any order and with repetitions, give back a key that
  decrypts as the lost one; fewer shares tell nothing about it; one share without a value that
  arrives first blocks the recovery.
\<close>

section \<open>The store\<close>

record KeyShareStore =
  ks_sharesReceived :: "playerID \<rightharpoonup> ShamirShare"
  ks_sharesHeld :: "playerID \<rightharpoonup> ShamirShare list"
  ks_prime :: int

definition NewKeyShareStore :: "int \<Rightarrow> KeyShareStore" where
  "NewKeyShareStore prime = \<lparr>ks_sharesReceived = Map.empty, ks_sharesHeld = Map.empty, ks_prime = prime\<rparr>"

definition StoreMyShare :: "playerID \<Rightarrow> ShamirShare \<Rightarrow> KeyShareStore \<Rightarrow> KeyShareStore" where
  "StoreMyShare ownerID share ks = ks\<lparr>ks_sharesReceived := (ks_sharesReceived ks)(ownerID \<mapsto> share)\<rparr>"

definition ContributeShare :: "playerID \<Rightarrow> KeyShareStore \<Rightarrow> ShamirShare option" where
  "ContributeShare ownerID ks = ks_sharesReceived ks ownerID"

text \<open>A missing entry of a Go map of slices reads as the nil slice.\<close>

definition held :: "KeyShareStore \<Rightarrow> playerID \<Rightarrow> ShamirShare list" where
  "held ks ownerID = (case ks_sharesHeld ks ownerID of None \<Rightarrow> [] | Some xs \<Rightarrow> xs)"

definition AddReconstructionShare :: "playerID \<Rightarrow> ShamirShare \<Rightarrow> KeyShareStore \<Rightarrow> KeyShareStore" where
  "AddReconstructionShare ownerID share ks =
     (if \<exists>existing\<in>set (held ks ownerID). sh_Index existing = sh_Index share then ks
      else ks\<lparr>ks_sharesHeld := (ks_sharesHeld ks)(ownerID \<mapsto> held ks ownerID @ [share])\<rparr>)"

definition CanReconstruct :: "playerID \<Rightarrow> int \<Rightarrow> KeyShareStore \<Rightarrow> bool" where
  "CanReconstruct ownerID threshold ks \<longleftrightarrow> int (length (held ks ownerID)) \<ge> threshold"

text \<open>A negative threshold is a slice bound out of range.\<close>

definition Reconstruct :: "playerID \<Rightarrow> int \<Rightarrow> KeyShareStore \<Rightarrow> crypto_error + int" where
  "Reconstruct ownerID threshold ks =
     (let shares = held ks ownerID
      in if int (length shares) < threshold then Inl ErrTooFewShares
         else if threshold < 0 then Inl ErrPanic
         else ReconstructSecret (take (nat threshold) shares) (ks_prime ks))"

definition ReconstructSRAKey :: "playerID \<Rightarrow> int \<Rightarrow> KeyShareStore \<Rightarrow> crypto_error + SRAKey" where
  "ReconstructSRAKey ownerID threshold ks = rbind (Reconstruct ownerID threshold ks) (\<lambda>d.
     case big_ModInverse d (ks_prime ks - 1) of None \<Rightarrow> Inl ErrNoInverse
     | Some e \<Rightarrow> Inr (mk_key (Some e) (Some d) (Some (ks_prime ks))))"

definition share_threshold :: "int \<Rightarrow> int" where
  "share_threshold numPlayers = (let t = go_quo (numPlayers + 1) 2 in if t < 2 then 2 else t)"

definition SplitAndDistribute :: "SRAKey option \<Rightarrow> int \<Rightarrow> int list \<Rightarrow> crypto_error + ShamirShare list \<times> int" where
  "SplitAndDistribute ownerKey numPlayers draws =
     (if numPlayers < 2 then Inl ErrTooFewPlayers
      else case ownerKey of None \<Rightarrow> Inl ErrPanic
      | Some k \<Rightarrow> (case (key_D k, key_P k) of
          (Some d, Some p) \<Rightarrow> (case SplitSecret d (share_threshold numPlayers) numPlayers p draws of
              Inl e \<Rightarrow> Inl e | Inr shares \<Rightarrow> Inr (shares, share_threshold numPlayers))
        | _ \<Rightarrow> Inl ErrPanic))"

section \<open>Collecting shares\<close>

definition add_shares :: "playerID \<Rightarrow> ShamirShare list \<Rightarrow> KeyShareStore \<Rightarrow> KeyShareStore" where
  "add_shares ownerID shares ks = fold (AddReconstructionShare ownerID) shares ks"

lemma AddReconstructionShare_held:
  "held (AddReconstructionShare o1 s ks) o2 = (if o1 = o2 \<and> sh_Index s \<notin> sh_Index ` set (held ks o1)
     then held ks o2 @ [s] else held ks o2)"
  by (auto simp: AddReconstructionShare_def held_def image_iff)

lemma AddReconstructionShare_prime [simp]: "ks_prime (AddReconstructionShare o1 s ks) = ks_prime ks"
  by (simp add: AddReconstructionShare_def)

lemma add_shares_prime [simp]: "ks_prime (add_shares o1 xs ks) = ks_prime ks"
  unfolding add_shares_def by (induction xs arbitrary: ks) auto

text \<open>The store keeps one share per index, the first that came, in the order of arrival.\<close>

lemma add_shares_held:
  "distinct (map sh_Index (held ks i)) \<Longrightarrow> distinct (map sh_Index (held (add_shares i xs ks) i))
    \<and> set (held (add_shares i xs ks) i) \<subseteq> set (held ks i) \<union> set xs
    \<and> sh_Index ` set (held (add_shares i xs ks) i) = sh_Index ` set (held ks i) \<union> sh_Index ` set xs
    \<and> (\<exists>zs. held (add_shares i xs ks) i = held ks i @ zs)"
proof (induction xs arbitrary: ks)
  case (Cons x xs)
  let ?k = "AddReconstructionShare i x ks"
  have e: "add_shares i (x # xs) ks = add_shares i xs ?k" by (simp add: add_shares_def)
  have h: "held ?k i = (if sh_Index x \<notin> sh_Index ` set (held ks i) then held ks i @ [x] else held ks i)"
    by (simp add: AddReconstructionShare_held)
  have "distinct (map sh_Index (held ?k i))" using Cons.prems by (auto simp: h)
  note IH = Cons.IH [OF this]
  show ?case using IH unfolding e by (cases "sh_Index x \<in> sh_Index ` set (held ks i)") (auto simp: h)
qed (simp add: add_shares_def)

text \<open>Taking the first \<open>t\<close> of them.\<close>

lemma take_shares:
  assumes "distinct (map sh_Index xs)" and "t \<le> length xs"
  shows "distinct (map sh_Index (take t xs))" and "set (take t xs) \<subseteq> set xs" and "length (take t xs) = t"
  using assms by (simp_all add: take_map [symmetric] set_take_subset)

section \<open>Recovery\<close>

lemma share_threshold_bounds:
  assumes "2 \<le> n"
  shows "2 \<le> share_threshold n" and "share_threshold n \<le> n" and "3 \<le> n \<Longrightarrow> share_threshold n \<le> n - 1" and "n \<le> 2 * share_threshold n"
  using assms by (auto simp: share_threshold_def Let_def go_quo_def)

lemma SplitAndDistribute_Inr:
  assumes "SplitAndDistribute (Some k) n draws = Inr (shares, t)"
  shows "\<exists>d p. key_D k = Some d \<and> key_P k = Some p \<and> SplitSecret d t n p draws = Inr shares \<and> t = share_threshold n \<and> 2 \<le> n"
  using assms by (auto simp: SplitAndDistribute_def split: if_splits option.splits sum.splits)

lemma add_shares_reconstruct:
  assumes split: "SplitSecret secret t n p draws = Inr shares" and p: "prime_int p" "n < p"
    and arr: "set arr \<subseteq> set shares" "t \<le> int (card (sh_Index ` set arr))"
    and ks: "ks_sharesHeld ks = Map.empty" "ks_prime ks = p"
  shows "CanReconstruct i t (add_shares i arr ks)" and "Reconstruct i t (add_shares i arr ks) = Inr (secret mod p)"
proof -
  let ?ks = "add_shares i arr ks"
  let ?xs = "held ?ks i"
  have e: "held ks i = []" by (simp add: held_def ks)
  then have h: "distinct (map sh_Index ?xs)" "set ?xs \<subseteq> set arr" "sh_Index ` set ?xs = sh_Index ` set arr"
    using add_shares_held [of ks i arr] by auto
  have t: "2 \<le> t" using SplitSecret_threshold [OF split] by simp
  have len: "int (length ?xs) = int (card (sh_Index ` set arr))"
    using distinct_card [OF h(1)] h(3) by simp
  show "CanReconstruct i t ?ks" using arr(2) len by (simp add: CanReconstruct_def)
  have tl: "nat t \<le> length ?xs" using arr(2) len t by linarith
  note s = take_shares [OF h(1) tl]
  have "ReconstructSecret (take (nat t) ?xs) p = Inr (secret mod p)"
    by (rule split_reconstruct [OF split p]) (use s h(2) arr(1) t in auto)
  then show "Reconstruct i t ?ks = Inr (secret mod p)"
    using arr(2) len t by (simp add: Reconstruct_def Let_def ks)
qed

text \<open>
  Once enough different shares of a key have arrived, in any order and however often each, the
  node reconstructs a key that decrypts everything as the lost key did. With three or more seats
  the shares of the other seats are enough.
\<close>

lemma key_recovery:
  assumes key: "sra_key p k" "key_D k = Some d" "d < p - 1" and split: "SplitAndDistribute (Some k) n draws = Inr (shares, t)"
    and n: "n < p" and arr: "set arr \<subseteq> set shares" "t \<le> int (card (sh_Index ` set arr))"
  shows "\<exists>k'. ReconstructSRAKey i t (add_shares i arr (NewKeyShareStore p)) = Inr k' \<and> sra_key p k' \<and> key_D k' = Some d
      \<and> (\<forall>c. Decrypt (Some k') c = Decrypt (Some k) c) \<and> (3 \<le> n \<longrightarrow> t \<le> n - 1)"
proof -
  have pr: "prime_int p" "key_P k = Some p" "0 \<le> d" using key by (auto simp: sra_key_def)
  then have s: "SplitSecret d t n p draws = Inr shares" "t = share_threshold n" "2 \<le> n"
    using SplitAndDistribute_Inr [OF split] key(2) by auto
  have gt: "1 < p" using pr(1) by (rule prime_int_gt)
  have "Reconstruct i t (add_shares i arr (NewKeyShareStore p)) = Inr (d mod p)"
    by (rule add_shares_reconstruct [OF s(1) pr(1) n arr]) (simp_all add: NewKeyShareStore_def)
  then have r: "Reconstruct i t (add_shares i arr (NewKeyShareStore p)) = Inr d" using pr(3) key(3) by simp
  obtain e where e: "0 \<le> e" "e * d mod (p - 1) = 1 mod (p - 1)" using key by (auto simp: sra_key_def)
  have cop: "coprime d (p - 1)"
  proof (rule coprimeI)
    fix c assume c: "c dvd d" "c dvd p - 1"
    then have "c dvd e * d - 1" using e(2) by (metis dvd_trans mod_eq_dvd_iff)
    then show "is_unit c" using c(1) by (metis dvd_diffD1 dvd_mult diff_diff_eq2 dvd_diff_right_iff dvd_minus_iff minus_diff_eq)
  qed
  have p1: "0 < p - 1" using gt by simp
  obtain e' where e': "big_ModInverse d (p - 1) = Some e'" using big_ModInverse_coprime [OF p1 cop] by blast
  have ei: "0 \<le> e'" "e' * d mod (p - 1) = 1 mod (p - 1)" using big_ModInverse_Some [OF p1 e'] by (simp_all add: mult.commute)
  let ?k' = "mk_key (Some e') (Some d) (Some p)"
  have "ReconstructSRAKey i t (add_shares i arr (NewKeyShareStore p)) = Inr ?k'"
    using r e' by (simp add: ReconstructSRAKey_def NewKeyShareStore_def)
  moreover have "sra_key p ?k'" using pr ei by (simp add: sra_key_def)
  moreover have "Decrypt (Some ?k') c = Decrypt (Some k) c" for c
    by (simp add: Decrypt_def key(2) pr(2))
  moreover have "3 \<le> n \<longrightarrow> t \<le> n - 1" using share_threshold_bounds(3) [OF s(3)] s(2) by simp
  ultimately show ?thesis by (intro exI [of _ ?k']) simp
qed

section \<open>Secrecy\<close>

text \<open>Interpolation through any points that are different modulo \<open>p\<close>.\<close>

lemma interpolate:
  assumes p: "prime_int p" and d: "\<And>i j. i < length ps \<Longrightarrow> j < length ps \<Longrightarrow> i \<noteq> j \<Longrightarrow> \<not> p dvd fst (ps ! i) - fst (ps ! j)"
  shows "\<exists>f. poly_fun (length ps) f \<and> (\<forall>(x, y)\<in>set ps. f x mod p = y mod p)"
  using d
proof (induction ps rule: rev_induct)
  case Nil
  have "horner [] = (\<lambda>x. 0)" by (rule ext) simp
  then show ?case by (auto simp: poly_fun_def intro!: exI [of _ "[]"])
next
  case (snoc q ps)
  obtain x0 y0 where q: "q = (x0, y0)" by (cases q)
  have "\<not> p dvd fst (ps ! i) - fst (ps ! j)" if "i < length ps" "j < length ps" "i \<noteq> j" for i j
    using snoc.prems [of i j] that by (simp add: nth_append)
  then obtain f where f: "poly_fun (length ps) f" "\<forall>(x, y)\<in>set ps. f x mod p = y mod p" using snoc.IH by blast
  let ?P = "\<lambda>x. \<Prod>i\<in>{..<length ps}. x - fst (ps ! i)"
  have "\<not> p dvd ?P x0"
  proof
    assume "p dvd ?P x0"
    then obtain i where i: "i < length ps" "p dvd x0 - fst (ps ! i)" using prime_dvd_prod [OF p, of "{..<length ps}"] by auto
    then show False using snoc.prems [of "length ps" i] by (simp add: nth_append q)
  qed
  then have "coprime (?P x0) p" using prime_coprime [OF p] by blast
  then obtain v where v: "big_ModInverse (?P x0) p = Some v" using big_ModInverse_coprime prime_int_gt [OF p] by fastforce
  have pv: "?P x0 * v mod p = 1 mod p" using big_ModInverse_Some [OF _ v] prime_int_gt [OF p] by simp
  let ?c = "(y0 - f x0) * v"
  let ?g = "\<lambda>x. f x + ?c * ?P x"
  have "poly_fun (length (ps @ [q])) ?g"
    using poly_fun_add [OF poly_fun_mono [OF f(1)] poly_fun_scale [OF poly_fun_prod [of "{..<length ps}"]]] by simp
  moreover have "?g x mod p = y mod p" if "(x, y) \<in> set (ps @ [q])" for x y
  proof (cases "(x, y) \<in> set ps")
    case True
    then obtain i where "i < length ps" "ps ! i = (x, y)" by (auto simp: in_set_conv_nth)
    then have z: "?P x = 0" by (intro prod_zero) (auto intro!: bexI [of _ i])
    have "f x mod p = y mod p" using f(2) True by blast
    then show ?thesis by (simp only: z mult_zero_right add_0_right)
  next
    case False
    then have xy: "x = x0" "y = y0" using that q by auto
    have "?g x0 mod p = (f x0 + (y0 - f x0) * (?P x0 * v)) mod p" by (simp add: mult_ac)
    also have "\<dots> = (f x0 + (y0 - f x0) * 1) mod p" using pv by (intro mod_add_cong mod_mult_cong) simp_all
    finally show ?thesis by (simp add: xy)
  qed
  ultimately show ?case by (intro exI [of _ ?g]) auto
qed

lemma mod_linear: "(a mod p + x * (b mod p)) mod p = (a + x * b) mod (p :: int)"
  by (intro mod_add_cong) (simp_all add: mod_mult_right_eq)

lemma horner_mod: "horner (map (\<lambda>c. c mod p) cs) x mod p = horner cs x mod p"
proof (induction cs)
  case (Cons c cs)
  then show ?case using mod_linear [of c p x "horner cs x"] mod_linear [of "c mod p" p x "horner (map (\<lambda>c. c mod p) cs) x"]
    by simp
qed simp

lemma distinct_nth_fst: "distinct (map fst ps) \<Longrightarrow> i < length ps \<Longrightarrow> j < length ps \<Longrightarrow> i \<noteq> j \<Longrightarrow> fst (ps ! i) \<noteq> fst (ps ! j)"
  by (metis distinct_conv_nth length_map nth_map)

lemma small_not_dvd: "0 \<le> a \<Longrightarrow> 0 \<le> b \<Longrightarrow> a < p \<Longrightarrow> b < p \<Longrightarrow> a \<noteq> b \<Longrightarrow> \<not> p dvd a - (b :: int)"
  by (metis mod_eq_dvd_iff mod_pos_pos_trivial)

lemma share_loop_reduced: "cs \<noteq> [] \<Longrightarrow> share_loop p x cs y xPow mod p = share_loop p x cs y xPow"
proof (induction cs arbitrary: y xPow)
  case (Cons c cs)
  then show ?case by (cases cs) (simp_all add: Let_def)
qed simp

text \<open>
  C21: Fewer than \<open>t\<close> shares say nothing about a key: for every other secret there is a choice of the
  random coefficients, in the range the code draws from, under which the split of that secret gives
  exactly the same shares at those seats.
\<close>

theorem shares_secret:
  assumes split: "SplitSecret secret t n p draws = Inr shares" and p: "prime_int p" "n < p"
    and J: "J \<subseteq> {..<nat n}" "int (card J) < t"
  shows "\<exists>draws' shares'. SplitSecret other t n p draws' = Inr shares' \<and> (\<forall>c\<in>set draws'. 0 \<le> c \<and> c < p)
     \<and> (\<forall>j\<in>J. shares' ! j = shares ! j)"
proof -
  have t: "2 \<le> t" "t \<le> n" "t - 1 \<le> int (length draws)" using SplitSecret_threshold [OF split] by simp_all
  define y where "y x = share_loop p x (take (nat t - 1) draws) secret x" for x
  have shares: "shares = map (\<lambda>x. mk_share x (y x)) [1..n]" using split t by (simp add: SplitSecret_def Let_def y_def)
  have fin: "finite J" using J(1) finite_subset by blast
  define js where "js = sorted_list_of_set J"
  have js: "set js = J" "distinct js" "length js = card J" using fin by (simp_all add: js_def)
  let ?ps = "(0, other) # map (\<lambda>j. (int j + 1, y (int j + 1))) js"
  have xs: "0 \<le> fst (?ps ! i) \<and> fst (?ps ! i) \<le> n" if "i < length ?ps" for i
    using that js(1) J(1) t nth_mem [of "i - 1" js] by (cases i) auto
  have "distinct (map fst ?ps)" using js(2) by (auto simp: comp_def distinct_map inj_on_def)
  then have inj: "fst (?ps ! i) \<noteq> fst (?ps ! j)" if "i < length ?ps" "j < length ?ps" "i \<noteq> j" for i j
    by (rule distinct_nth_fst [OF _ that])
  have "\<not> p dvd fst (?ps ! i) - fst (?ps ! j)" if ij: "i < length ?ps" "j < length ?ps" "i \<noteq> j" for i j
  proof (rule small_not_dvd [OF _ _ _ _ inj [OF ij]])
    show "0 \<le> fst (?ps ! i)" "0 \<le> fst (?ps ! j)" using xs [OF ij(1)] xs [OF ij(2)] by blast+
    show "fst (?ps ! i) < p" "fst (?ps ! j) < p"
      using xs [OF ij(1)] xs [OF ij(2)] p(2) by (blast intro: le_less_trans)+
  qed
  from interpolate [OF p(1) this] obtain f where f: "poly_fun (length ?ps) f" "\<forall>(x, z)\<in>set ?ps. f x mod p = z mod p" by blast
  have "length ?ps \<le> nat t" using J(2) js(3) by simp
  from poly_fun_mono [OF f(1) this] obtain cs where cs: "length cs = nat t" "f = horner cs" unfolding poly_fun_def by blast
  obtain c0 cs' where c: "cs = c0 # cs'" using cs(1) t by (cases cs) auto
  let ?d = "map (\<lambda>c. c mod p) cs'"
  have gt: "1 < p" using p(1) by (rule prime_int_gt)
  have c0: "c0 mod p = other mod p" using f(2) by (simp add: cs(2) c)
  have fx: "horner (other # ?d) x mod p = f x mod p" for x
  proof -
    have "horner (other # ?d) x mod p = (other mod p + x * (horner ?d x mod p)) mod p" by (simp add: mod_linear)
    also have "\<dots> = (c0 mod p + x * (horner cs' x mod p)) mod p" by (simp only: c0 horner_mod)
    finally show ?thesis by (simp add: cs(2) c mod_linear)
  qed
  have ld: "length ?d = nat t - 1" using cs(1) c by simp
  let ?s = "map (\<lambda>x. mk_share x (share_loop p x ?d other x)) [1..n]"
  have "SplitSecret other t n p ?d = Inr ?s" using t ld by (simp add: SplitSecret_def Let_def)
  moreover have "\<forall>c\<in>set ?d. 0 \<le> c \<and> c < p" using gt by simp
  moreover have "?s ! j = shares ! j" if "j \<in> J" for j
  proof -
    have j: "j < nat n" using that J(1) by auto
    let ?x = "int j + 1"
    have "(?x, y ?x) \<in> set ?ps" using that js(1) by auto
    then have fy: "f ?x mod p = y ?x mod p" using f(2) by blast
    have "share_loop p ?x ?d other ?x mod p = y ?x mod p"
      using fx [of ?x] fy by (simp add: share_loop_mod)
    moreover have "share_loop p ?x ?d other ?x mod p = share_loop p ?x ?d other ?x" "y ?x mod p = y ?x"
      using ld t unfolding y_def by (auto intro!: share_loop_reduced)
    ultimately show ?thesis using j by (simp add: shares nth_upto add.commute)
  qed
  ultimately show ?thesis by blast
qed

lemma shares_secret_witness:
  "\<exists>draws' shares'. SplitSecret 3 2 3 7 draws' = Inr shares' \<and> shares' ! 1 = mk_share 2 6"
proof -
  have s: "SplitSecret 5 2 3 7 [4] = Inr [mk_share 1 2, mk_share 2 6, mk_share 3 3]" by code_simp
  have "prime_int 7" by code_simp
  from shares_secret [OF s this, of "{1}" 3] show ?thesis by auto
qed

section \<open>A share without a value\<close>

text \<open>
  A share that comes without a value (the wire allows it) and is the first one stored for its owner
  blocks the recovery for good: whatever shares follow, the attempt never gives a key.
\<close>

theorem valueless_share_blocks:
  assumes "held ks i = []" and "sh_Value bad = None" and "1 \<le> t"
  shows "\<exists>e. ReconstructSRAKey i t (add_shares i (bad # xs) ks) = Inl e"
proof -
  let ?k = "AddReconstructionShare i bad ks"
  have h: "held ?k i = [bad]" using assms(1) by (simp add: AddReconstructionShare_held)
  have e: "add_shares i (bad # xs) ks = add_shares i xs ?k" by (simp add: add_shares_def)
  obtain zs where zs: "held (add_shares i xs ?k) i = bad # zs" using add_shares_held [of ?k i xs] h by auto
  have "\<exists>e. ReconstructSecret (bad # ys) p = Inl e" for ys p
    using assms(2) by (simp add: ReconstructSecret_def upt_conv_Cons Let_def del: upt_Suc split: option.split)
  moreover have "take (nat t) (bad # zs) = bad # take (nat t - 1) zs" using assms(3) by (cases "nat t") auto
  ultimately have "\<exists>e. Reconstruct i t (add_shares i xs ?k) = Inl e"
    by (simp add: Reconstruct_def zs Let_def)
  then show ?thesis unfolding e by (auto simp: ReconstructSRAKey_def)
qed

lemma valueless_share_blocks_witness:
  "\<exists>e. ReconstructSRAKey ''b'' 2 (add_shares ''b'' [\<lparr>sh_Index = 1, sh_Value = None\<rparr>, mk_share 1 2, mk_share 2 6, mk_share 3 3]
     (NewKeyShareStore 7)) = Inl e"
  by (rule valueless_share_blocks) (simp_all add: held_def NewKeyShareStore_def)

end
