(* ===== verification/FaultManager.thy ===== *)
theory FaultManager
  imports Faults KeyShares GameState
begin

text \<open>
  internal/fault/manager.go: the fault manager of a node, which joins the heartbeat monitor, the
  timeout votes, the key shares and the slash detector. An operation returns the calls of its
  callbacks (\<open>fault_event\<close>, dropped by the code when a callback is not set). The two closures that the
  manager hands to its parts, \<open>OnTimeout\<close> and \<open>OnConfirmed\<close>, run as goroutines: they are the
  operations \<open>on_timeout\<close> and \<open>on_confirmed\<close>.
\<close>

section \<open>State\<close>

datatype fault_event = PlayerFolded string | KeyShareNeeded string ShamirShare | Slash SlashRecord
  | TimeoutVoteNeeded string

record FaultConfig =
  fc_HeartbeatInterval :: int
  fc_HeartbeatTimeout :: int
  fc_VoteExpiry :: int
  fc_ShamirThreshold :: int
  fc_Prime :: "int option"

record FaultManager =
  fm_cfg :: FaultConfig
  fm_handNum :: int
  fm_localPeerID :: string
  fm_playerIDs :: "string list"
  fm_heartbeat :: HeartbeatMonitor
  fm_timeouts :: "TimeoutManager option"
  fm_keyShares :: KeyShareStore
  fm_slashDetector :: SlashDetector

definition default :: "int \<Rightarrow> int \<Rightarrow> int" where
  "default d x = (if x = 0 then d else x)"

definition NewFaultManager :: "string \<Rightarrow> int \<Rightarrow> FaultConfig \<Rightarrow> FaultManager" where
  "NewFaultManager localPeerID handNum cfg0 =
     (let prime = (case fc_Prime cfg0 of None \<Rightarrow> SharedPrime | Some p \<Rightarrow> p);
          cfg = cfg0\<lparr>fc_HeartbeatInterval := default DefaultHeartbeatInterval (fc_HeartbeatInterval cfg0),
            fc_HeartbeatTimeout := default DefaultHeartbeatTimeout (fc_HeartbeatTimeout cfg0),
            fc_VoteExpiry := default (30 * 10 ^ 9) (fc_VoteExpiry cfg0), fc_Prime := Some prime\<rparr>
      in \<lparr>fm_cfg = cfg, fm_handNum = handNum, fm_localPeerID = localPeerID, fm_playerIDs = [],
          fm_heartbeat = NewHeartbeatMonitor (fc_HeartbeatTimeout cfg), fm_timeouts = None,
          fm_keyShares = NewKeyShareStore prime, fm_slashDetector = NewSlashDetector handNum\<rparr>)"

definition SetHandNum :: "int \<Rightarrow> FaultManager \<Rightarrow> FaultManager" where
  "SetHandNum handNum fm = fm\<lparr>fm_handNum := handNum\<rparr>"

definition SetShamirThreshold :: "int \<Rightarrow> FaultManager \<Rightarrow> FaultManager" where
  "SetShamirThreshold t fm = (if t \<ge> 2 then fm\<lparr>fm_cfg := (fm_cfg fm)\<lparr>fc_ShamirThreshold := t\<rparr>\<rparr> else fm)"

definition RegisterPlayers :: "int \<Rightarrow> string list \<Rightarrow> FaultManager \<Rightarrow> FaultManager" where
  "RegisterPlayers now playerIDs fm =
     (let hb = fold (\<lambda>i hm. if i \<noteq> fm_localPeerID fm then RegisterPeer now i hm else hm) playerIDs (fm_heartbeat fm);
          n = int (length playerIDs);
          half = go_quo (n + 1) 2;
          t = fc_ShamirThreshold (fm_cfg fm);
          t' = (if t = 0 then (if half < 2 then 2 else half) else t)
      in fm\<lparr>fm_playerIDs := playerIDs, fm_heartbeat := hb,
            fm_timeouts := Some (NewTimeoutManager (fm_handNum fm) n (fc_VoteExpiry (fm_cfg fm))),
            fm_cfg := (fm_cfg fm)\<lparr>fc_ShamirThreshold := t'\<rparr>\<rparr>)"

section \<open>Liveness and votes\<close>

definition fm_RecordHeartbeat :: "int \<Rightarrow> string \<Rightarrow> FaultManager \<Rightarrow> FaultManager" where
  "fm_RecordHeartbeat now peerID fm = fm\<lparr>fm_heartbeat := RecordHeartbeat now peerID (fm_heartbeat fm)\<rparr>"

text \<open>One tick of \<open>Run\<close>: the peers for which \<open>OnTimeout\<close> is started.\<close>

definition fm_tick :: "int \<Rightarrow> string list \<Rightarrow> FaultManager \<Rightarrow> string list \<times> FaultManager" where
  "fm_tick now ids fm = (case CheckTimeouts now ids (fm_heartbeat fm) of
     (_, started, hm) \<Rightarrow> (started, fm\<lparr>fm_heartbeat := hm\<rparr>))"

text \<open>Voting: the second component is the targets for which \<open>OnConfirmed\<close> is started.\<close>

definition start_vote :: "int \<Rightarrow> string \<Rightarrow> FaultManager \<Rightarrow> string list \<times> FaultManager" where
  "start_vote now target fm = (case fm_timeouts fm of None \<Rightarrow> ([], fm)
     | Some tm \<Rightarrow> (case StartVote now target (fm_localPeerID fm) tm of
         (_, confirmed, tm') \<Rightarrow> (confirmed, fm\<lparr>fm_timeouts := Some tm'\<rparr>)))"

definition on_timeout :: "int \<Rightarrow> string \<Rightarrow> FaultManager \<Rightarrow> fault_event list \<times> string list \<times> FaultManager" where
  "on_timeout now peerID fm = ([TimeoutVoteNeeded peerID], start_vote now peerID fm)"

definition StartTimeoutVote :: "int \<Rightarrow> string \<Rightarrow> FaultManager \<Rightarrow> fault_event list \<times> string list \<times> FaultManager" where
  "StartTimeoutVote now target fm = ([TimeoutVoteNeeded target], start_vote now target fm)"

definition HandleTimeoutVote ::
  "int \<Rightarrow> string \<Rightarrow> string \<Rightarrow> bool \<Rightarrow> FaultManager \<Rightarrow> VoteStatus option \<times> string list \<times> FaultManager" where
  "HandleTimeoutVote now target voter yes fm = (case fm_timeouts fm of None \<Rightarrow> (None, [], fm)
     | Some tm \<Rightarrow> (case RecordVote now target voter yes tm of
         (st, confirmed, tm') \<Rightarrow> (Some st, confirmed, fm\<lparr>fm_timeouts := Some tm'\<rparr>)))"

definition on_confirmed :: "string \<Rightarrow> FaultManager \<Rightarrow> fault_event list \<times> FaultManager" where
  "on_confirmed target fm = ([PlayerFolded target], fm\<lparr>fm_heartbeat := MarkDisconnected target (fm_heartbeat fm)\<rparr>)"

section \<open>Key shares\<close>

definition StoreKeyShare :: "string \<Rightarrow> ShamirShare \<Rightarrow> FaultManager \<Rightarrow> FaultManager" where
  "StoreKeyShare ownerID share fm = fm\<lparr>fm_keyShares := StoreMyShare ownerID share (fm_keyShares fm)\<rparr>"

definition BroadcastMyShareFor :: "string \<Rightarrow> FaultManager \<Rightarrow> fault_event list" where
  "BroadcastMyShareFor ownerID fm = (case ContributeShare ownerID (fm_keyShares fm) of None \<Rightarrow> []
     | Some share \<Rightarrow> [KeyShareNeeded ownerID share])"

definition fm_AddReconstructionShare :: "string \<Rightarrow> ShamirShare \<Rightarrow> FaultManager \<Rightarrow> FaultManager" where
  "fm_AddReconstructionShare ownerID share fm = fm\<lparr>fm_keyShares := AddReconstructionShare ownerID share (fm_keyShares fm)\<rparr>"

text \<open>An error is swallowed, a panic is not.\<close>

definition TryReconstructKey :: "string \<Rightarrow> FaultManager \<Rightarrow> crypto_error + SRAKey option" where
  "TryReconstructKey ownerID fm =
     (let t = fc_ShamirThreshold (fm_cfg fm)
      in if \<not> CanReconstruct ownerID t (fm_keyShares fm) then Inr None
         else case ReconstructSRAKey ownerID t (fm_keyShares fm) of
           Inl e \<Rightarrow> if e = ErrPanic then Inl ErrPanic else Inr None
         | Inr key \<Rightarrow> Inr (Some key))"

section \<open>Evidence\<close>

definition CheckZKProof ::
  "int \<Rightarrow> PartialDecryption \<Rightarrow> int \<Rightarrow> byte list \<Rightarrow> FaultManager \<Rightarrow> (crypto_error + SlashRecord option) \<times> fault_event list \<times> FaultManager" where
  "CheckZKProof now pd prime sessionID fm = (case CheckPartialDecryption now pd prime sessionID (fm_slashDetector fm) of
     (r, sd) \<Rightarrow> (r, (case r of Inr (Some rec) \<Rightarrow> [Slash rec] | _ \<Rightarrow> []), fm\<lparr>fm_slashDetector := sd\<rparr>))"

definition fm_CheckEquivocation :: "int \<Rightarrow> equivocation \<Rightarrow> FaultManager \<Rightarrow> SlashRecord list \<times> fault_event list \<times> FaultManager" where
  "fm_CheckEquivocation now found fm = (case CheckEquivocation now found (fm_slashDetector fm) of
     (rs, sd) \<Rightarrow> (rs, map Slash rs, fm\<lparr>fm_slashDetector := sd\<rparr>))"

definition RecordInvalidAction :: "int \<Rightarrow> string \<Rightarrow> string \<Rightarrow> FaultManager \<Rightarrow> SlashRecord \<times> fault_event list \<times> FaultManager" where
  "RecordInvalidAction now peerID errText fm = (case CheckInvalidAction now peerID errText (fm_slashDetector fm) of
     (r, sd) \<Rightarrow> (r, [Slash r], fm\<lparr>fm_slashDetector := sd\<rparr>))"

definition RecordKeyWithholding :: "int \<Rightarrow> string \<Rightarrow> int \<Rightarrow> FaultManager \<Rightarrow> SlashRecord \<times> fault_event list \<times> FaultManager" where
  "RecordKeyWithholding now peerID cardIdx fm = (case CheckKeyWithholding now peerID cardIdx (fm_slashDetector fm) of
     (r, sd) \<Rightarrow> (r, [Slash r], fm\<lparr>fm_slashDetector := sd\<rparr>))"

definition fm_IsSlashed :: "string \<Rightarrow> FaultManager \<Rightarrow> bool" where
  "fm_IsSlashed peerID fm = IsSlashed peerID (fm_slashDetector fm)"

section \<open>The fold of a player who timed out\<close>

definition ApplyTimeoutFold :: "game_state \<Rightarrow> string \<Rightarrow> Action option" where
  "ApplyTimeoutFold gs peerID =
     (let idx = SeatIndex peerID gs
      in if idx = -1 then None
         else let p = gs_players gs ! nat idx
           in if p_status p = StatusFolded \<or> p_status p = StatusSittingOut then None
              else Some (mk_action peerID ActionFold 0))"

definition fm_PeerStatus :: "string \<Rightarrow> FaultManager \<Rightarrow> PeerStatus" where
  "fm_PeerStatus peerID fm = hm_Status peerID (fm_heartbeat fm)"

definition LivePeers :: "string list \<Rightarrow> FaultManager \<Rightarrow> string list" where
  "LivePeers ids fm = AlivePeers ids (fm_heartbeat fm)"

section \<open>Recovery of a key by the survivors\<close>

text \<open>Receiving the published shares of an owner.\<close>

definition receive_shares :: "string \<Rightarrow> ShamirShare list \<Rightarrow> FaultManager \<Rightarrow> FaultManager" where
  "receive_shares ownerID shares fm = fold (fm_AddReconstructionShare ownerID) shares fm"

lemma receive_shares_store:
  "receive_shares i xs fm = fm\<lparr>fm_keyShares := add_shares i xs (fm_keyShares fm)\<rparr>"
  unfolding receive_shares_def add_shares_def
  by (induction xs arbitrary: fm) (simp_all add: fm_AddReconstructionShare_def)

text \<open>The manager's threshold is that of the split.\<close>

lemma RegisterPlayers_threshold:
  "fc_ShamirThreshold (fm_cfg fm) = 0
     \<Longrightarrow> fc_ShamirThreshold (fm_cfg (RegisterPlayers now ids fm)) = share_threshold (int (length ids))"
  by (simp add: RegisterPlayers_def share_threshold_def Let_def)

lemma RegisterPlayers_store: "fm_keyShares (RegisterPlayers now ids fm) = fm_keyShares fm"
  by (simp add: RegisterPlayers_def Let_def)

text \<open>
  C20: A player's key, split over the seats of the table, is recovered by a fault manager set up for that
  table as soon as the shares of enough different seats have come in, in any order and however often:
  \<open>TryReconstructKey\<close> then gives a key that decrypts as the lost one. At three or more seats the shares of
  all seats but the owner's are enough.
\<close>

theorem survivors_recover_key:
  assumes key: "sra_key p k" "key_D k = Some d" "d < p - 1" and n: "int (length ids) < p"
    and split: "SplitAndDistribute (Some k) (int (length ids)) draws = Inr (shares, t)"
    and arr: "set arr \<subseteq> set shares" "t \<le> int (card (sh_Index ` set arr))
      \<or> 3 \<le> length ids \<and> (\<exists>j<length ids. set shares - {shares ! j} \<subseteq> set arr)"
    and cfg: "fc_Prime cfg = Some p" "fc_ShamirThreshold cfg = 0"
  shows "\<exists>k'. TryReconstructKey i (receive_shares i arr (RegisterPlayers now ids (NewFaultManager me hand cfg))) = Inr (Some k')
    \<and> key_D k' = Some d \<and> (\<forall>c. Decrypt (Some k') c = Decrypt (Some k) c)"
proof -
  let ?fm0 = "RegisterPlayers now ids (NewFaultManager me hand cfg)"
  let ?fm = "receive_shares i arr ?fm0"
  obtain p' where s: "key_P k = Some p'" "SplitSecret d t (int (length ids)) p' draws = Inr shares"
    "t = share_threshold (int (length ids))" "2 \<le> int (length ids)"
    using SplitAndDistribute_Inr [OF split] key(2) by auto
  have p': "p' = p" "prime_int p" using key(1) s(1) by (auto simp: sra_key_def)
  have enough: "t \<le> int (card (sh_Index ` set arr))"
    using arr(2)
  proof (elim disjE conjE exE)
    fix j assume n3: "3 \<le> length ids" and j: "j < length ids" and sub: "set shares - {shares ! j} \<subseteq> set arr"
    have idx: "map sh_Index shares = [1..int (length ids)]"
      using s(2) by (auto simp: SplitSecret_def Let_def mk_share_def comp_def split: if_splits)
    have len: "length shares = length ids" using arg_cong [OF idx, of length] by simp
    have d: "distinct (map sh_Index shares)" unfolding idx by simp
    have "sh_Index ` set shares - {sh_Index (shares ! j)} \<subseteq> sh_Index ` set arr" using sub by blast
    then have "card (sh_Index ` set shares - {sh_Index (shares ! j)}) \<le> card (sh_Index ` set arr)" by (intro card_mono) simp_all
    moreover have "card (sh_Index ` set shares) = length ids" using distinct_card [OF d] len by simp
    moreover have "sh_Index (shares ! j) \<in> sh_Index ` set shares" using j len by simp
    ultimately have "length ids - 1 \<le> card (sh_Index ` set arr)" by (simp add: card_Diff_singleton)
    then show ?thesis using share_threshold_bounds(3) [of "int (length ids)"] n3 s(3,4) by linarith
  qed
  obtain k' where k': "ReconstructSRAKey i t (add_shares i arr (NewKeyShareStore p)) = Inr k'" "key_D k' = Some d"
    "\<forall>c. Decrypt (Some k') c = Decrypt (Some k) c"
    using key_recovery [OF key split n arr(1) enough, of i] by blast
  have st: "fm_keyShares ?fm = add_shares i arr (NewKeyShareStore p)"
    by (simp add: receive_shares_store RegisterPlayers_store NewFaultManager_def cfg Let_def)
  have th: "fc_ShamirThreshold (fm_cfg ?fm) = t"
    using RegisterPlayers_threshold [of "NewFaultManager me hand cfg"] s(3)
    by (simp add: receive_shares_store NewFaultManager_def cfg Let_def)
  have "CanReconstruct i t (add_shares i arr (NewKeyShareStore p))"
    by (rule add_shares_reconstruct(1) [OF s(2) _ _ arr(1) enough]) (use p' n in \<open>simp_all add: NewKeyShareStore_def\<close>)
  then have "TryReconstructKey i ?fm = Inr (Some k')" using k'(1) by (simp add: TryReconstructKey_def st th)
  then show ?thesis using k'(2,3) by blast
qed

section \<open>From votes to the fold\<close>

text \<open>
  The votes fold whom they confirm: after the closure of a confirmed vote has run, the target is
  marked as disconnected and its fold is reported, and \<open>CheckTimeouts\<close> never reports it again unless a
  heartbeat of its own arrives, which makes it alive again.
\<close>

lemma confirmed_is_disconnected:
  assumes "hm_ok (fm_heartbeat fm)" and "hm_peers (fm_heartbeat fm) target \<noteq> None"
    and "\<forall>(now, ids)\<in>set ts. distinct ids" and "sorted (map fst ts)"
  shows "fst (on_confirmed target fm) = [PlayerFolded target]
    \<and> fm_PeerStatus target (snd (on_confirmed target fm)) = PeerDisconnected
    \<and> filter ((=) target) (fst (ticks ts (fm_heartbeat (snd (on_confirmed target fm))))) = []
    \<and> fm_PeerStatus target (fm_RecordHeartbeat now target (snd (on_confirmed target fm))) = PeerAlive"
proof -
  obtain pl where pl: "hm_peers (fm_heartbeat fm) target = Some pl" using assms(2) by blast
  let ?hm = "MarkDisconnected target (fm_heartbeat fm)" and ?pl = "pl\<lparr>pl_Status := PeerDisconnected\<rparr>"
  have hm: "hm_ok ?hm" "hm_peers ?hm target = Some ?pl"
    using assms(1) pl by (auto simp: MarkDisconnected_def hm_ok_def)
  have "length (filter ((=) target) (fst (ticks ts ?hm))) = 0"
    using silent_run [OF hm assms(3,4)] by simp
  then show ?thesis using hm(2) by (simp add: on_confirmed_def fm_PeerStatus_def hm_Status_def fm_RecordHeartbeat_def RecordHeartbeat_def)
qed

lemma survivors_recover_key_witness:
  "\<exists>shares k'. SplitAndDistribute (Some (mk_key (Some 5) (Some 85) (Some 107))) 3 [4] = Inr (shares, 2)
     \<and> TryReconstructKey ''b'' (receive_shares ''b'' [shares ! 2, shares ! 2, shares ! 0]
         (RegisterPlayers 0 [''a'', ''b'', ''c''] (NewFaultManager ''a'' 1
           \<lparr>fc_HeartbeatInterval = 0, fc_HeartbeatTimeout = 0, fc_VoteExpiry = 0, fc_ShamirThreshold = 0, fc_Prime = Some 107\<rparr>))) = Inr (Some k')
     \<and> key_D k' = Some 85"
proof -
  let ?k = "mk_key (Some 5) (Some 85) (Some 107)"
  obtain shares where sh: "SplitAndDistribute (Some ?k) 3 [4] = Inr (shares, 2)" "SplitSecret 85 2 3 107 [4] = Inr shares"
    by (simp add: SplitAndDistribute_def share_threshold_def go_quo_def SplitSecret_def)
  have idx: "map sh_Index shares = [1, 2, 3]"
    using sh(2) by (auto simp: SplitSecret_def mk_share_def Let_def upto_rec1)
  have l: "length shares = 3" using arg_cong [OF idx, of length] by simp
  then have i: "sh_Index (shares ! 2) = 3" "sh_Index (shares ! 0) = 1"
    using idx nth_map [of 2 shares sh_Index] nth_map [of 0 shares sh_Index] by simp_all
  have m: "set [shares ! 2, shares ! 2, shares ! 0] \<subseteq> set shares" using l by simp
  have c: "2 \<le> int (card (sh_Index ` set [shares ! 2, shares ! 2, shares ! 0]))" using i by simp
  have p: "prime_int 107" by code_simp
  then have k: "sra_key 107 ?k" by (simp add: sra_key_def)
  let ?cfg = "\<lparr>fc_HeartbeatInterval = 0, fc_HeartbeatTimeout = 0, fc_VoteExpiry = 0, fc_ShamirThreshold = 0, fc_Prime = Some 107\<rparr>"
  have n: "int (length [''a'', ''b'', ''c'']) = 3" by simp
  have "\<exists>k'. TryReconstructKey ''b'' (receive_shares ''b'' [shares ! 2, shares ! 2, shares ! 0]
         (RegisterPlayers 0 [''a'', ''b'', ''c''] (NewFaultManager ''a'' 1 ?cfg))) = Inr (Some k')
     \<and> key_D k' = Some 85 \<and> (\<forall>c. Decrypt (Some k') c = Decrypt (Some ?k) c)"
    by (rule survivors_recover_key [where draws = "[4]", OF k _ _ _ _ m disjI1 [OF c]]) (simp_all add: n sh(1))
  then show ?thesis using sh(1) by blast
qed

end
