(* ===== verification/NodeNet.thy ===== *)
theory NodeNet
  imports Wire Lobby FaultManager
begin

text \<open>
  internal/network/node.go, with the direct streams of protocol.go: a node's state, what it does
  with a frame of either gossip topic or of a stream, and what it sends. libp2p, the generated code
  of messages.proto, ed25519 and \<open>protowire\<close> are the parameter \<open>node_lib\<close>. A callback is not
  part of the node: \<open>callbacks\<close> holds the message types whose callback is set, and a handler
  returns the calls it makes as \<open>delivery\<close> values.
\<close>

section \<open>Messages\<close>

record PlayerAction =
  pa_TableId :: string
  pa_HandNum :: i64
  pa_PlayerId :: string
  pa_Action :: int
  pa_Amount :: i64
  pa_Seq :: i64

record GameStateSync =
  gy_TableId :: string
  gy_HandNum :: i64
  gy_Phase :: int
  gy_Pot :: i64
  gy_CurrentBet :: i64
  gy_ActionPlayer :: string
  gy_StateRoot :: "byte list"
  gy_ActionLog :: "byte list list"

record Heartbeat =
  hb_TableId :: string
  hb_HandNum :: i64
  hb_Seq :: i64

record TimeoutVoteWire =
  vw_TableId :: string
  vw_HandNum :: i64
  vw_VotingPlayerId :: string
  vw_TimeoutPlayerId :: string

record PotResult =
  pot_Amount :: i64
  pot_WinnerIds :: "string list"

record HandResult =
  hr_TableId :: string
  hr_HandNum :: i64
  hr_Pots :: "PotResult list"
  hr_StateRoot :: "byte list"

definition JOIN_TABLE :: MsgType where "JOIN_TABLE = 1"
definition PLAYER_READY :: MsgType where "PLAYER_READY = 2"
definition SHUFFLE_STEP :: MsgType where "SHUFFLE_STEP = 3"
definition PARTIAL_DECRYPT :: MsgType where "PARTIAL_DECRYPT = 5"
definition PLAYER_ACTION :: MsgType where "PLAYER_ACTION = 6"
definition GAME_STATE_SYNC :: MsgType where "GAME_STATE_SYNC = 7"
definition HEARTBEAT :: MsgType where "HEARTBEAT = 8"
definition TIMEOUT_VOTE :: MsgType where "TIMEOUT_VOTE = 9"
definition HAND_RESULT :: MsgType where "HAND_RESULT = 10"
definition EQUIVOCATION_EVIDENCE :: MsgType where "EQUIVOCATION_EVIDENCE = 12"
definition KEY_SHARE :: MsgType where "KEY_SHARE = 13"

lemmas msg_types = JOIN_TABLE_def PLAYER_READY_def SHUFFLE_STEP_def PARTIAL_DECRYPT_def PLAYER_ACTION_def
  GAME_STATE_SYNC_def HEARTBEAT_def TIMEOUT_VOTE_def HAND_RESULT_def EQUIVOCATION_EVIDENCE_def KEY_SHARE_def

text \<open>\<open>proto.Unmarshal\<close> and \<open>proto.Marshal\<close> by message; \<open>PeerKey\<close> is the decoding of a peer identity: an error,
  no key in it, or its key.\<close>

record node_lib =
  nl_env :: envelope_lib
  nl_wire :: protowire
  nl_PeerKey :: "string \<Rightarrow> byte list option option"
  un_JoinTable :: "byte list \<Rightarrow> JoinTable option"
  un_PlayerReady :: "byte list \<Rightarrow> PlayerReady option"
  un_ShuffleStep :: "byte list \<Rightarrow> ShuffleStepWire option"
  un_PartialDecrypt :: "byte list \<Rightarrow> PartialDecrypt option"
  un_PlayerAction :: "byte list \<Rightarrow> PlayerAction option"
  un_GameStateSync :: "byte list \<Rightarrow> GameStateSync option"
  un_Heartbeat :: "byte list \<Rightarrow> Heartbeat option"
  un_TimeoutVote :: "byte list \<Rightarrow> TimeoutVoteWire option"
  un_HandResult :: "byte list \<Rightarrow> HandResult option"
  ma_JoinTable :: "JoinTable \<Rightarrow> byte list option"
  ma_PlayerReady :: "PlayerReady \<Rightarrow> byte list option"
  ma_ShuffleStep :: "ShuffleStepWire \<Rightarrow> byte list option"
  ma_PartialDecrypt :: "PartialDecrypt \<Rightarrow> byte list option"
  ma_PlayerAction :: "PlayerAction \<Rightarrow> byte list option"
  ma_GameStateSync :: "GameStateSync \<Rightarrow> byte list option"
  ma_Heartbeat :: "Heartbeat \<Rightarrow> byte list option"
  ma_TimeoutVote :: "TimeoutVoteWire \<Rightarrow> byte list option"
  ma_HandResult :: "HandResult \<Rightarrow> byte list option"

datatype delivery = OnJoinTable JoinTable string | OnPlayerReady PlayerReady string | OnShuffleStep ShuffleStepWire
  | OnPartialDecrypt PartialDecrypt | OnPlayerAction PlayerAction | OnGameStateSync GameStateSync
  | OnHeartbeat Heartbeat string | OnTimeoutVote TimeoutVoteWire | OnHandResult HandResult | OnKeyShare KeyShare bool

section \<open>State\<close>

record Node =
  nd_PeerID :: string
  nd_PK :: "byte list"
  nd_Gossip :: GossipManager
  nd_Lobby :: Lobby
  nd_Log :: Gamelog
  nd_tableID :: string
  nd_playerName :: string
  nd_buyIn :: i64
  nd_sraKey :: "SRAKey option"
  nd_seq :: i64
  nd_joinTimestamp :: i64
  nd_peers :: "string \<rightharpoonup> byte list option"
  nd_callbacks :: "MsgType set"

text \<open>\<open>NewNode\<close>, given the identity and key of its libp2p host.\<close>

definition NewNode :: "string \<Rightarrow> byte list \<Rightarrow> string \<Rightarrow> string \<Rightarrow> i64 \<Rightarrow> int \<Rightarrow> SRAKey option \<Rightarrow> MsgType set \<Rightarrow> Node" where
  "NewNode peerID pk tableID playerName buyIn maxSeats sraKey callbacks =
     (let maxSeats = (if maxSeats < 2 \<or> maxSeats > 9 then 6 else maxSeats)
      in \<lparr>nd_PeerID = peerID, nd_PK = pk, nd_Gossip = NewGossipManager tableID, nd_Lobby = NewLobby tableID maxSeats,
          nd_Log = NewGameLog tableID 0, nd_tableID = tableID, nd_playerName = playerName, nd_buyIn = buyIn,
          nd_sraKey = sraKey, nd_seq = 0, nd_joinTimestamp = 0, nd_peers = Map.empty, nd_callbacks = callbacks\<rparr>)"

definition node_RegisterPeer :: "string \<Rightarrow> byte list option \<Rightarrow> Node \<Rightarrow> Node" where
  "node_RegisterPeer peerID pub n = n\<lparr>nd_peers := (nd_peers n)(peerID \<mapsto> pub)\<rparr>"

definition lookupPubKey :: "node_lib \<Rightarrow> Node key_fn" where
  "lookupPubKey lib peerID n = (case nd_peers n peerID of Some k \<Rightarrow> (Some k, n)
     | None \<Rightarrow> (case nl_PeerKey lib peerID of None \<Rightarrow> (None, n)
         | Some None \<Rightarrow> (Some None, n)
         | Some (Some pub) \<Rightarrow> (Some (Some pub), n\<lparr>nd_peers := (nd_peers n)(peerID \<mapsto> Some pub)\<rparr>)))"

definition node_SetHandNum :: "i64 \<Rightarrow> Node \<Rightarrow> Node" where
  "node_SetHandNum handNum n = n\<lparr>nd_Log := NewGameLog (nd_tableID n) handNum\<rparr>"

section \<open>Frames of the gossip topics\<close>

definition decodeRemoteEnvelope :: "node_lib \<Rightarrow> byte list \<Rightarrow> Node \<Rightarrow> Envelope option \<times> Node" where
  "decodeRemoteEnvelope lib data n = (case DecodeEnvelope (nl_env lib) data (Some (lookupPubKey lib)) n of
     (None, n') \<Rightarrow> (None, n')
   | (Some env, n') \<Rightarrow> if env_SenderId env = nd_PeerID n' then (None, n') else (Some env, n'))"

text \<open>The first half of \<open>dispatch\<close>: decode, refuse beats and replays, log.\<close>

definition accept_table :: "node_lib \<Rightarrow> byte list \<Rightarrow> Node \<Rightarrow> Envelope option \<times> Node" where
  "accept_table lib data n = (case decodeRemoteEnvelope lib data n of
     (None, n') \<Rightarrow> (None, n')
   | (Some env, n') \<Rightarrow> if env_Type env = HEARTBEAT then (None, n')
       else (case CheckAndUpdateSeq (env_SenderId env) (env_Seq env) (nd_Gossip n') of
           (False, gm) \<Rightarrow> (None, n'\<lparr>nd_Gossip := gm\<rparr>)
         | (True, gm) \<Rightarrow> (Some env, n'\<lparr>nd_Gossip := gm, nd_Log := snd (Append env (nd_Log n'))\<rparr>)))"

definition call_with :: "MsgType \<Rightarrow> Node \<Rightarrow> ('m \<Rightarrow> delivery) \<Rightarrow> 'm option \<Rightarrow> delivery list" where
  "call_with ty n f mo = (if ty \<notin> nd_callbacks n then [] else case mo of None \<Rightarrow> [] | Some m \<Rightarrow> [f m])"

definition read_share :: "node_lib \<Rightarrow> byte list \<Rightarrow> KeyShare option" where
  "read_share lib b = (case UnmarshalKeyShare (nl_wire lib) b of Some (Some m) \<Rightarrow> Some m | _ \<Rightarrow> None)"

text \<open>The second half: the switch on the type.\<close>

definition deliver :: "node_lib \<Rightarrow> Envelope \<Rightarrow> Node \<Rightarrow> delivery list \<times> Node" where
  "deliver lib env n =
     (let ty = env_Type env; b = env_Payload env
      in if ty = JOIN_TABLE then
           (case un_JoinTable lib b of None \<Rightarrow> ([], n)
            | Some msg \<Rightarrow> (case HandleJoin 0 msg (env_SenderId env) (Some (env_Timestamp env)) (nd_Lobby n) of
                (False, l) \<Rightarrow> ([], n\<lparr>nd_Lobby := l\<rparr>)
              | (True, l) \<Rightarrow> (call_with ty n (\<lambda>m. OnJoinTable m (env_SenderId env)) (Some msg), n\<lparr>nd_Lobby := l\<rparr>)))
         else if ty = PLAYER_READY then
           (case un_PlayerReady lib b of None \<Rightarrow> ([], n)
            | Some msg \<Rightarrow> (call_with ty n (\<lambda>m. OnPlayerReady m (env_SenderId env)) (Some msg),
                n\<lparr>nd_Lobby := snd (HandleReady msg (env_SenderId env) (nd_Lobby n))\<rparr>))
         else if ty = SHUFFLE_STEP then (call_with ty n OnShuffleStep (un_ShuffleStep lib b), n)
         else if ty = PARTIAL_DECRYPT then (call_with ty n OnPartialDecrypt (un_PartialDecrypt lib b), n)
         else if ty = PLAYER_ACTION then (call_with ty n OnPlayerAction (un_PlayerAction lib b), n)
         else if ty = GAME_STATE_SYNC then (call_with ty n OnGameStateSync (un_GameStateSync lib b), n)
         else if ty = TIMEOUT_VOTE then (call_with ty n OnTimeoutVote (un_TimeoutVote lib b), n)
         else if ty = HAND_RESULT then (call_with ty n OnHandResult (un_HandResult lib b), n)
         else if ty = KEY_SHARE then (call_with ty n (\<lambda>m. OnKeyShare m True) (read_share lib b), n)
         else ([], n))"

definition dispatch :: "node_lib \<Rightarrow> byte list \<Rightarrow> Node \<Rightarrow> delivery list \<times> Node" where
  "dispatch lib data n = (case accept_table lib data n of (None, n') \<Rightarrow> ([], n') | (Some env, n') \<Rightarrow> deliver lib env n')"

definition dispatchHeartbeat :: "node_lib \<Rightarrow> byte list \<Rightarrow> Node \<Rightarrow> delivery list \<times> Node" where
  "dispatchHeartbeat lib data n = (case decodeRemoteEnvelope lib data n of
     (None, n') \<Rightarrow> ([], n')
   | (Some env, n') \<Rightarrow> if env_Type env \<noteq> HEARTBEAT then ([], n')
       else (case CheckAndUpdateHeartbeatSeq (env_SenderId env) (env_Seq env) (nd_Gossip n') of
           (False, gm) \<Rightarrow> ([], n'\<lparr>nd_Gossip := gm\<rparr>)
         | (True, gm) \<Rightarrow> (call_with HEARTBEAT n' (\<lambda>m. OnHeartbeat m (env_SenderId env)) (un_Heartbeat lib (env_Payload env)),
                          n'\<lparr>nd_Gossip := gm\<rparr>)))"

section \<open>Direct streams\<close>

text \<open>The envelopes that the reader of a stream hands to its handler, for the bytes that arrive.\<close>

function stream_envelopes :: "envelope_lib \<Rightarrow> byte list \<Rightarrow> Envelope list" where
  "stream_envelopes lib bs =
     (if length bs < 4 then []
      else let msgLen = big_SetBytes (take 4 bs)
        in if msgLen = 0 \<or> msgLen > MaxMessageSize then []
           else if int (length bs) < 4 + msgLen then []
           else let k = 4 + nat msgLen
             in (case fst (DecodeEnvelope lib (take k bs) None ()) of None \<Rightarrow> [] | Some env \<Rightarrow> [env])
                @ stream_envelopes lib (drop k bs))"
  by pat_completeness auto
termination by (relation "measure (\<lambda>(lib, bs). length bs)") auto

text \<open>The handler that \<open>Start\<close> registers: it logs first and asks neither for a signature nor for the sender.\<close>

definition handle_stream :: "node_lib \<Rightarrow> Envelope \<Rightarrow> Node \<Rightarrow> delivery list \<times> Node" where
  "handle_stream lib env n0 =
     (let n = n0\<lparr>nd_Log := snd (Append env (nd_Log n0))\<rparr>; ty = env_Type env; b = env_Payload env
      in (if ty = PARTIAL_DECRYPT then call_with ty n OnPartialDecrypt (un_PartialDecrypt lib b)
          else if ty = KEY_SHARE then call_with ty n (\<lambda>m. OnKeyShare m False) (read_share lib b)
          else [], n))"

definition scan_tick :: "Node \<Rightarrow> string list" where
  "scan_tick n = (let senderID = fst (adaptor_DetectEquivocation (nd_Log n))
     in if senderID \<noteq> [] \<and> EQUIVOCATION_EVIDENCE \<in> nd_callbacks n then [senderID] else [])"

section \<open>Sending\<close>

text \<open>What leaves the node; \<open>None\<close> in the first component of an operation is an error.\<close>

datatype sent = OnTable "byte list" | OnBeat "byte list" | Direct string "byte list"

type_synonym send_result = "sent list option \<times> Node"

definition nextSeq :: "Node \<Rightarrow> i64 \<times> Node" where
  "nextSeq n = (w64 (nd_seq n + 1), n\<lparr>nd_seq := w64 (nd_seq n + 1)\<rparr>)"

definition send_envelope :: "node_lib \<Rightarrow> (byte list \<Rightarrow> sent) \<Rightarrow> (Envelope \<Rightarrow> Envelope) \<Rightarrow> i64 \<Rightarrow> MsgType \<Rightarrow> byte list \<Rightarrow> Node \<Rightarrow> send_result" where
  "send_envelope lib to edit now msgType payload n = (case nextSeq n of (q, n') \<Rightarrow>
     let env = edit (NewEnvelope now msgType (nd_PeerID n) q payload)
     in case EncodeEnvelope (nl_env lib) env (nd_PK n) of (None, _) \<Rightarrow> (None, n')
        | (Some frame, _) \<Rightarrow> (Some [to frame], n'))"

definition publish :: "node_lib \<Rightarrow> i64 \<Rightarrow> MsgType \<Rightarrow> byte list \<Rightarrow> Node \<Rightarrow> send_result" where
  "publish lib now msgType payload n = send_envelope lib OnTable (\<lambda>e. e) now msgType payload n"

definition publish_msg :: "node_lib \<Rightarrow> i64 \<Rightarrow> MsgType \<Rightarrow> byte list option \<Rightarrow> Node \<Rightarrow> send_result" where
  "publish_msg lib now msgType bo n = (case bo of None \<Rightarrow> (None, n) | Some b \<Rightarrow> publish lib now msgType b n)"

definition BroadcastJoin :: "node_lib \<Rightarrow> i64 \<Rightarrow> Node \<Rightarrow> send_result" where
  "BroadcastJoin lib now n =
     (let msg = \<lparr>jt_TableId = nd_tableID n, jt_PlayerName = nd_playerName n, jt_BuyIn = nd_buyIn n,
                 jt_SraPubKeyE = (case PublicKey (nd_sraKey n) of None \<Rightarrow> [] | Some e \<Rightarrow> big_Bytes e),
                 jt_SessionNonce = str_bytes (nd_PeerID n)\<rparr>
      in case ma_JoinTable lib msg of None \<Rightarrow> (None, n)
         | Some b \<Rightarrow>
             let t = (if nd_joinTimestamp n = 0 then now else nd_joinTimestamp n);
                 l = snd (HandleJoin now msg (nd_PeerID n) (Some t) (nd_Lobby n))
             in send_envelope lib OnTable (\<lambda>e. e\<lparr>env_Timestamp := t\<rparr>) now JOIN_TABLE b
                  (n\<lparr>nd_joinTimestamp := t, nd_Lobby := l\<rparr>))"

definition BroadcastReady :: "node_lib \<Rightarrow> i64 \<Rightarrow> i64 \<Rightarrow> Node \<Rightarrow> send_result" where
  "BroadcastReady lib now handNum n =
     (let msg = \<lparr>rd_TableId = nd_tableID n, rd_HandNum = handNum\<rparr>
      in case ma_PlayerReady lib msg of None \<Rightarrow> (None, n)
         | Some b \<Rightarrow> publish lib now PLAYER_READY b (n\<lparr>nd_Lobby := snd (HandleReady msg (nd_PeerID n) (nd_Lobby n))\<rparr>))"

definition BroadcastShuffleMessage :: "node_lib \<Rightarrow> i64 \<Rightarrow> ShuffleMessage option \<Rightarrow> Node \<Rightarrow> send_result" where
  "BroadcastShuffleMessage lib now mo n = (case ShuffleMessageToWire (nd_tableID n) mo of None \<Rightarrow> (Some [], n)
     | Some pb \<Rightarrow> publish_msg lib now SHUFFLE_STEP (ma_ShuffleStep lib pb) n)"

definition BroadcastPartialDecrypt :: "node_lib \<Rightarrow> i64 \<Rightarrow> i64 \<Rightarrow> PartialDecryption \<Rightarrow> Node \<Rightarrow> send_result" where
  "BroadcastPartialDecrypt lib now handNum pd n =
     publish_msg lib now PARTIAL_DECRYPT (ma_PartialDecrypt lib (PartialDecryptToWire (nd_tableID n) handNum pd)) n"

definition BroadcastAction :: "node_lib \<Rightarrow> i64 \<Rightarrow> i64 \<Rightarrow> string \<Rightarrow> int \<Rightarrow> i64 \<Rightarrow> i64 \<Rightarrow> Node \<Rightarrow> send_result" where
  "BroadcastAction lib now handNum playerID action amount actionSeq n =
     publish_msg lib now PLAYER_ACTION (ma_PlayerAction lib \<lparr>pa_TableId = nd_tableID n, pa_HandNum = handNum,
       pa_PlayerId = (if playerID = [] then nd_PeerID n else playerID), pa_Action = action, pa_Amount = amount, pa_Seq = actionSeq\<rparr>) n"

definition BroadcastHeartbeat :: "node_lib \<Rightarrow> i64 \<Rightarrow> i64 \<Rightarrow> i64 \<Rightarrow> Node \<Rightarrow> send_result" where
  "BroadcastHeartbeat lib now handNum hbSeq n =
     (case ma_Heartbeat lib \<lparr>hb_TableId = nd_tableID n, hb_HandNum = handNum, hb_Seq = hbSeq\<rparr> of None \<Rightarrow> (None, n)
      | Some b \<Rightarrow> send_envelope lib OnBeat (\<lambda>e. e) now HEARTBEAT b n)"

definition BroadcastTimeoutVote :: "node_lib \<Rightarrow> i64 \<Rightarrow> i64 \<Rightarrow> string \<Rightarrow> Node \<Rightarrow> send_result" where
  "BroadcastTimeoutVote lib now handNum timeoutPeerID n =
     publish_msg lib now TIMEOUT_VOTE (ma_TimeoutVote lib \<lparr>vw_TableId = nd_tableID n, vw_HandNum = handNum,
       vw_VotingPlayerId = nd_PeerID n, vw_TimeoutPlayerId = timeoutPeerID\<rparr>) n"

definition BroadcastHandResult :: "node_lib \<Rightarrow> i64 \<Rightarrow> i64 \<Rightarrow> PotResult list \<Rightarrow> byte list \<Rightarrow> Node \<Rightarrow> send_result" where
  "BroadcastHandResult lib now handNum pots stateRoot n =
     publish_msg lib now HAND_RESULT (ma_HandResult lib \<lparr>hr_TableId = nd_tableID n, hr_HandNum = handNum,
       hr_Pots = pots, hr_StateRoot = stateRoot\<rparr>) n"

definition BroadcastStateSync :: "node_lib \<Rightarrow> i64 \<Rightarrow> GameStateSync \<Rightarrow> Node \<Rightarrow> send_result" where
  "BroadcastStateSync lib now sync n = publish_msg lib now GAME_STATE_SYNC (ma_GameStateSync lib sync) n"

text \<open>The evidence goes out under the type of a hand result.\<close>

definition BroadcastEquivocationEvidence :: "node_lib \<Rightarrow> i64 \<Rightarrow> Envelope \<Rightarrow> Envelope \<Rightarrow> Node \<Rightarrow> send_result" where
  "BroadcastEquivocationEvidence lib now envA envB n =
     (case el_Marshal (nl_env lib) envA of None \<Rightarrow> (None, n)
      | Some a \<Rightarrow> (case el_Marshal (nl_env lib) envB of None \<Rightarrow> (None, n)
          | Some b \<Rightarrow> publish lib now HAND_RESULT (be32 (length a) @ a @ be32 (length b) @ b) n))"

definition SendDirectPartialDecrypt :: "node_lib \<Rightarrow> i64 \<Rightarrow> string \<Rightarrow> i64 \<Rightarrow> PartialDecryption \<Rightarrow> Node \<Rightarrow> send_result" where
  "SendDirectPartialDecrypt lib now to handNum pd n =
     (case ma_PartialDecrypt lib (PartialDecryptToWire (nd_tableID n) handNum pd) of None \<Rightarrow> (None, n)
      | Some b \<Rightarrow> send_envelope lib (Direct to) (\<lambda>e. e) now PARTIAL_DECRYPT b n)"

fun send_each :: "(string \<Rightarrow> Node \<Rightarrow> send_result) \<Rightarrow> string list \<Rightarrow> Node \<Rightarrow> sent list \<times> Node" where
  "send_each f [] n = ([], n)"
| "send_each f (i # is) n = (case f i n of (r, n1) \<Rightarrow>
     (case send_each f is n1 of (out, n2) \<Rightarrow> ((case r of None \<Rightarrow> [] | Some xs \<Rightarrow> xs) @ out, n2)))"

text \<open>Gossip first; then a copy to each other seat whose identity can be read, errors ignored.\<close>

definition SendPeel :: "node_lib \<Rightarrow> i64 \<Rightarrow> playerID list \<Rightarrow> PeelMessage option \<Rightarrow> Node \<Rightarrow> send_result" where
  "SendPeel lib now ids mo n = (case PeelMessageToPD mo of None \<Rightarrow> (Some [], n)
     | Some pd \<Rightarrow> let handNum = pm_HandNum (the mo)
         in case BroadcastPartialDecrypt lib now handNum pd n of (None, n1) \<Rightarrow> (None, n1)
            | (Some out, n1) \<Rightarrow>
                (case send_each (\<lambda>i. SendDirectPartialDecrypt lib now i handNum pd)
                        [i \<leftarrow> PlayerIDs ids (nd_Lobby n1). i \<noteq> nd_PeerID n1 \<and> nl_PeerKey lib i \<noteq> None] n1 of
                   (copies, n2) \<Rightarrow> (Some (out @ copies), n2)))"

definition BroadcastKeyShare :: "node_lib \<Rightarrow> i64 \<Rightarrow> i64 \<Rightarrow> string \<Rightarrow> ShamirShare \<Rightarrow> Node \<Rightarrow> send_result" where
  "BroadcastKeyShare lib now handNum ownerID share n =
     publish_msg lib now KEY_SHARE (MarshalKeyShare (nl_wire lib) (Some (KeyShareToWire (nd_tableID n) handNum ownerID share))) n"

definition SendDirectKeyShare :: "node_lib \<Rightarrow> i64 \<Rightarrow> string \<Rightarrow> i64 \<Rightarrow> string \<Rightarrow> ShamirShare \<Rightarrow> Node \<Rightarrow> send_result" where
  "SendDirectKeyShare lib now to handNum ownerID share n =
     (case MarshalKeyShare (nl_wire lib) (Some (KeyShareToWire (nd_tableID n) handNum ownerID share)) of None \<Rightarrow> (None, n)
      | Some b \<Rightarrow> send_envelope lib (Direct to) (\<lambda>e. e) now KEY_SHARE b n)"

section \<open>Runs of a node\<close>

datatype net_event = TableFrame "byte list" | BeatFrame "byte list" | StreamBytes "byte list"
  | Publish i64 MsgType "byte list"

fun handle_streams :: "node_lib \<Rightarrow> Envelope list \<Rightarrow> Node \<Rightarrow> delivery list \<times> Node" where
  "handle_streams lib [] n = ([], n)"
| "handle_streams lib (e # es) n = (case handle_stream lib e n of (d, n1) \<Rightarrow>
     (case handle_streams lib es n1 of (ds, n2) \<Rightarrow> (d @ ds, n2)))"

fun net_step :: "node_lib \<Rightarrow> net_event \<Rightarrow> Node \<Rightarrow> delivery list \<times> Node" where
  "net_step lib (TableFrame data) n = dispatch lib data n"
| "net_step lib (BeatFrame data) n = dispatchHeartbeat lib data n"
| "net_step lib (StreamBytes bs) n = handle_streams lib (stream_envelopes (nl_env lib) bs) n"
| "net_step lib (Publish now ty b) n = ([], snd (publish lib now ty b n))"

definition net_run :: "node_lib \<Rightarrow> net_event list \<Rightarrow> Node \<Rightarrow> Node" where
  "net_run lib evs n = fold (\<lambda>ev n. snd (net_step lib ev n)) evs n"

lemma net_run_simps [simp]:
  "net_run lib [] n = n"
  "net_run lib (ev # evs) n = net_run lib evs (snd (net_step lib ev n))"
  by (simp_all add: net_run_def)

text \<open>The envelopes that pass the first half of \<open>dispatch\<close>, in order.\<close>

fun accepted_of :: "node_lib \<Rightarrow> net_event list \<Rightarrow> Node \<Rightarrow> Envelope list" where
  "accepted_of lib [] n = []"
| "accepted_of lib (ev # evs) n =
     (case ev of TableFrame data \<Rightarrow> (case fst (accept_table lib data n) of None \<Rightarrow> [] | Some env \<Rightarrow> [env]) | _ \<Rightarrow> [])
     @ accepted_of lib evs (snd (net_step lib ev n))"

section \<open>What the handlers leave alone\<close>

lemma lookupPubKey_frame:
  assumes "lookupPubKey lib i n = (r, n')"
  shows "nd_Gossip n' = nd_Gossip n" and "nd_Log n' = nd_Log n" and "nd_Lobby n' = nd_Lobby n" and "nd_PeerID n' = nd_PeerID n"
    and "nd_callbacks n' = nd_callbacks n"
  using assms by (auto simp: lookupPubKey_def split: option.splits)

lemma DecodeEnvelope_state:
  "DecodeEnvelope lib frame (Some f) n = (r, n') \<Longrightarrow> n' = n \<or> (\<exists>i q. f i n = (q, n'))"
  by (auto simp: DecodeEnvelope_def Let_def split: if_splits option.splits prod.splits)

lemma decodeRemote_frame:
  assumes "decodeRemoteEnvelope lib data n = (r, n')"
  shows "nd_Gossip n' = nd_Gossip n" and "nd_Log n' = nd_Log n" and "nd_Lobby n' = nd_Lobby n" and "nd_PeerID n' = nd_PeerID n"
    and "nd_callbacks n' = nd_callbacks n" and "r = Some env \<Longrightarrow> env_SenderId env \<noteq> nd_PeerID n"
proof -
  obtain r0 n0 where d: "DecodeEnvelope (nl_env lib) data (Some (lookupPubKey lib)) n = (r0, n0)" by fastforce
  have n0: "n' = n0" "r = Some env \<Longrightarrow> env_SenderId env \<noteq> nd_PeerID n0"
    using assms d by (auto simp: decodeRemoteEnvelope_def split: option.splits if_splits)
  show "nd_Gossip n' = nd_Gossip n" "nd_Log n' = nd_Log n" "nd_Lobby n' = nd_Lobby n" "nd_PeerID n' = nd_PeerID n"
    "nd_callbacks n' = nd_callbacks n" "r = Some env \<Longrightarrow> env_SenderId env \<noteq> nd_PeerID n"
    using DecodeEnvelope_state [OF d] n0 lookupPubKey_frame by metis+
qed

lemma deliver_state: "\<exists>l. snd (deliver lib env n) = n\<lparr>nd_Lobby := l\<rparr>"
proof -
  have same: "\<exists>l. n = n\<lparr>nd_Lobby := l\<rparr>" by (rule exI [of _ "nd_Lobby n"]) simp
  consider "env_Type env = JOIN_TABLE" | "env_Type env = PLAYER_READY" | "env_Type env \<notin> {JOIN_TABLE, PLAYER_READY}" by blast
  then show ?thesis
  proof cases
    case 1
    then show ?thesis
      unfolding deliver_def Let_def
      by (cases "un_JoinTable lib (env_Payload env)") (auto simp: same split: prod.split bool.split)
  next
    case 2
    then show ?thesis
      unfolding deliver_def Let_def
      by (cases "un_PlayerReady lib (env_Payload env)") (auto simp: same msg_types)
  next
    case 3
    then have "snd (deliver lib env n) = n" by (simp add: deliver_def Let_def)
    then show ?thesis using same by simp
  qed
qed

lemma deliver_frame [simp]:
  "nd_Gossip (snd (deliver lib env n)) = nd_Gossip n" "nd_Log (snd (deliver lib env n)) = nd_Log n"
  "nd_PeerID (snd (deliver lib env n)) = nd_PeerID n"
  using deliver_state [of lib env n] by auto

lemma publish_frame [simp]:
  "nd_Gossip (snd (publish lib now ty b n)) = nd_Gossip n" "nd_Log (snd (publish lib now ty b n)) = nd_Log n"
  by (auto simp: publish_def send_envelope_def nextSeq_def Let_def split: option.splits prod.splits)

end
