(* ===== verification/NodeProps.thy ===== *)
theory NodeProps
  imports NodeNet
begin

text \<open>
  What holds of every run of a node (internal/network/node.go), whatever frames arrive: the log has
  no two entries for one sender and number, the table messages of a sender are taken in the order
  of their numbers, and what a signature proves; and what an unsigned frame can do.
\<close>

section \<open>Accepting a frame\<close>

lemma accept_table_cases:
  obtains (reject) n' where "accept_table lib data n = (None, n')" "nd_Gossip n' = nd_Gossip n" "nd_Log n' = nd_Log n"
    "nd_PeerID n' = nd_PeerID n"
  | (accept) env n' n1 where "accept_table lib data n = (Some env, n')"
    "DecodeEnvelope (nl_env lib) data (Some (lookupPubKey lib)) n = (Some env, n1)"
    "env_SenderId env \<noteq> nd_PeerID n" "env_Type env \<noteq> HEARTBEAT"
    "\<not> (\<exists>p. gm_seqNums (nd_Gossip n) (env_SenderId env) = Some p \<and> env_Seq env \<le> p)"
    "nd_Gossip n' = (nd_Gossip n)\<lparr>gm_seqNums := (gm_seqNums (nd_Gossip n))(env_SenderId env \<mapsto> env_Seq env)\<rparr>"
    "nd_Log n' = snd (Append env (nd_Log n))" "nd_PeerID n' = nd_PeerID n" "nd_peers n' = nd_peers n1"
proof -
  obtain r n1 where d: "decodeRemoteEnvelope lib data n = (r, n1)" by fastforce
  note fr = decodeRemote_frame [OF d]
  show thesis
  proof (cases r)
    case None
    then show thesis using d fr by (intro reject [of n1]) (simp_all add: accept_table_def)
  next
    case (Some env)
    have dec: "DecodeEnvelope (nl_env lib) data (Some (lookupPubKey lib)) n = (Some env, n1)"
      using d Some by (auto simp: decodeRemoteEnvelope_def split: prod.splits option.splits if_splits)
    show thesis
    proof (cases "env_Type env = HEARTBEAT \<or> (\<exists>p. gm_seqNums (nd_Gossip n) (env_SenderId env) = Some p \<and> env_Seq env \<le> p)")
      case True
      then show thesis using d Some fr
        by (intro reject [of "if env_Type env = HEARTBEAT then n1 else n1\<lparr>nd_Gossip := nd_Gossip n\<rparr>"])
          (auto simp: accept_table_def CheckAndUpdateSeq_cases)
    next
      case False
      then show thesis using d Some fr dec
        by (intro accept [of env "n1\<lparr>nd_Gossip := (nd_Gossip n)\<lparr>gm_seqNums := (gm_seqNums (nd_Gossip n))(env_SenderId env \<mapsto> env_Seq env)\<rparr>,
              nd_Log := snd (Append env (nd_Log n))\<rparr>" n1])
          (auto simp: accept_table_def CheckAndUpdateSeq_cases)
    qed
  qed
qed

lemma dispatch_state:
  "nd_Gossip (snd (dispatch lib data n)) = nd_Gossip (snd (accept_table lib data n))"
  "nd_Log (snd (dispatch lib data n)) = nd_Log (snd (accept_table lib data n))"
  by (auto simp: dispatch_def split: prod.split option.split)

lemma dispatchHeartbeat_state:
  "gm_seqNums (nd_Gossip (snd (dispatchHeartbeat lib data n))) = gm_seqNums (nd_Gossip n)"
  "nd_Log (snd (dispatchHeartbeat lib data n)) = nd_Log n"
proof -
  obtain r n1 where d: "decodeRemoteEnvelope lib data n = (r, n1)" by fastforce
  note fr = decodeRemote_frame [OF d]
  show "gm_seqNums (nd_Gossip (snd (dispatchHeartbeat lib data n))) = gm_seqNums (nd_Gossip n)"
    "nd_Log (snd (dispatchHeartbeat lib data n)) = nd_Log n"
    using fr by (cases r; simp add: dispatchHeartbeat_def d CheckAndUpdateHeartbeatSeq_def updateSeqMap_cases)+
qed

lemma handle_streams_Cons:
  "snd (handle_streams lib (e # es) n) = snd (handle_streams lib es (snd (handle_stream lib e n)))"
  by (simp split: prod.split)

lemma handle_stream_state [simp]:
  "nd_Gossip (snd (handle_stream lib e n)) = nd_Gossip n" "nd_Log (snd (handle_stream lib e n)) = snd (Append e (nd_Log n))"
  by (simp_all add: handle_stream_def Let_def)

lemma handle_streams_Gossip [simp]: "nd_Gossip (snd (handle_streams lib es n)) = nd_Gossip n"
  by (induction es arbitrary: n) (simp_all add: handle_streams_Cons del: handle_streams.simps(2))

lemma handle_streams_log: "log_ok (nd_Log n) \<Longrightarrow> log_ok (nd_Log (snd (handle_streams lib es n)))"
  by (induction es arbitrary: n) (simp_all add: handle_streams_Cons Append_ok del: handle_streams.simps(2))

lemma net_step_log: "log_ok (nd_Log n) \<Longrightarrow> log_ok (nd_Log (snd (net_step lib ev n)))"
proof (cases ev)
  case (TableFrame data)
  assume "log_ok (nd_Log n)"
  then show ?thesis
    by (cases rule: accept_table_cases [of lib data n]) (simp_all add: TableFrame dispatch_state Append_ok)
qed (simp_all add: dispatchHeartbeat_state handle_streams_log)

lemma net_run_log: "log_ok (nd_Log n) \<Longrightarrow> log_ok (nd_Log (net_run lib evs n))"
  by (induction evs arbitrary: n) (auto intro: net_step_log)

section \<open>The watermark\<close>

definition above :: "Node \<Rightarrow> string \<Rightarrow> i64 \<Rightarrow> bool" where
  "above n i q \<longleftrightarrow> (\<forall>p. gm_seqNums (nd_Gossip n) i = Some p \<longrightarrow> p < q)"

lemma net_step_above: "above (snd (net_step lib ev n)) i q \<Longrightarrow> above n i q"
proof (cases ev)
  case (TableFrame data)
  assume a: "above (snd (net_step lib ev n)) i q"
  then show ?thesis
    by (cases rule: accept_table_cases [of lib data n])
      (auto simp: TableFrame dispatch_state above_def split: if_splits)
qed (simp_all add: above_def dispatchHeartbeat_state)

lemma accepted_above: "e \<in> set (accepted_of lib evs n) \<Longrightarrow> above n (env_SenderId e) (env_Seq e)"
proof (induction evs arbitrary: n)
  case (Cons ev evs)
  show ?case
  proof (cases "e \<in> set (accepted_of lib evs (snd (net_step lib ev n)))")
    case True
    then show ?thesis using Cons.IH net_step_above by blast
  next
    case False
    then obtain data where "ev = TableFrame data" "fst (accept_table lib data n) = Some e"
      using Cons.prems by (auto split: net_event.splits option.splits)
    then show ?thesis by (cases rule: accept_table_cases [of lib data n]) (auto simp: above_def)
  qed
qed simp

lemma accepted_sorted: "sorted_wrt (<) (map env_Seq [e \<leftarrow> accepted_of lib evs n. env_SenderId e = i])"
proof (induction evs arbitrary: n)
  case (Cons ev evs)
  let ?n = "snd (net_step lib ev n)"
  have later: "above ?n i (env_Seq e)" if "e \<in> set (accepted_of lib evs ?n)" "env_SenderId e = i" for e
    using accepted_above [OF that(1)] that(2) by simp
  show ?case
  proof (cases "\<exists>data env. ev = TableFrame data \<and> fst (accept_table lib data n) = Some env \<and> env_SenderId env = i")
    case True
    then obtain data env where e: "ev = TableFrame data" "fst (accept_table lib data n) = Some env" "env_SenderId env = i" by blast
    have "gm_seqNums (nd_Gossip ?n) i = Some (env_Seq env)"
      using e by (cases rule: accept_table_cases [of lib data n]) (simp_all add: dispatch_state)
    then have "\<forall>x\<in>set (accepted_of lib evs ?n). env_SenderId x = i \<longrightarrow> env_Seq env < env_Seq x"
      using later by (auto simp: above_def)
    then show ?thesis using Cons.IH [of ?n] e by auto
  next
    case False
    then have "[e \<leftarrow> accepted_of lib (ev # evs) n. env_SenderId e = i] = [e \<leftarrow> accepted_of lib evs ?n. env_SenderId e = i]"
      by (auto split: net_event.splits option.splits)
    then show ?thesis using Cons.IH [of ?n] by simp
  qed
qed simp

lemma accepted_foreign: "e \<in> set (accepted_of lib evs n) \<Longrightarrow> env_Type e \<noteq> HEARTBEAT"
proof (induction evs arbitrary: n)
  case (Cons ev evs)
  show ?case
  proof (cases "e \<in> set (accepted_of lib evs (snd (net_step lib ev n)))")
    case False
    then obtain data where "ev = TableFrame data" "fst (accept_table lib data n) = Some e"
      using Cons.prems by (auto split: net_event.splits option.splits)
    then show ?thesis by (cases rule: accept_table_cases [of lib data n]) auto
  qed (use Cons.IH in blast)
qed simp

section \<open>Keys\<close>

text \<open>The cache holds nothing but what the identities say.\<close>

definition peers_ok :: "node_lib \<Rightarrow> Node \<Rightarrow> bool" where
  "peers_ok lib n \<longleftrightarrow> (\<forall>i k. nd_peers n i = Some k \<longrightarrow> nl_PeerKey lib i = Some k)"

lemma lookupPubKey_ok: "peers_ok lib n \<Longrightarrow> peers_ok lib (snd (lookupPubKey lib i n)) \<and> fst (lookupPubKey lib i n) = nl_PeerKey lib i"
  by (auto simp: lookupPubKey_def peers_ok_def split: option.splits)

lemma decodeRemote_peers: "peers_ok lib n \<Longrightarrow> peers_ok lib (snd (decodeRemoteEnvelope lib data n))"
proof -
  assume ok: "peers_ok lib n"
  obtain r n1 where d: "DecodeEnvelope (nl_env lib) data (Some (lookupPubKey lib)) n = (r, n1)" by fastforce
  have "peers_ok lib n1" using DecodeEnvelope_state [OF d] lookupPubKey_ok [OF ok] ok by (metis snd_conv)
  then show ?thesis by (simp add: decodeRemoteEnvelope_def d split: option.split)
qed

lemma peers_ok_cong: "nd_peers m = nd_peers n \<Longrightarrow> peers_ok lib m \<longleftrightarrow> peers_ok lib n"
  by (simp add: peers_ok_def)

lemma net_step_peers: "peers_ok lib n \<Longrightarrow> peers_ok lib (snd (net_step lib ev n))"
proof -
  assume ok: "peers_ok lib n"
  have del: "nd_peers (snd (deliver lib env m)) = nd_peers m" for env m using deliver_state [of lib env m] by auto
  have str: "nd_peers (snd (handle_streams lib es m)) = nd_peers m" for es m
    by (induction es arbitrary: m) (simp_all add: handle_streams_Cons handle_stream_def Let_def del: handle_streams.simps(2))
  show ?thesis
  proof (cases ev)
    case (TableFrame data)
    obtain r n1 where d: "decodeRemoteEnvelope lib data n = (r, n1)" by fastforce
    have "peers_ok lib n1" using decodeRemote_peers [OF ok, of data] by (simp add: d)
    moreover have "nd_peers (snd (dispatch lib data n)) = nd_peers n1"
      by (cases r) (simp_all add: dispatch_def accept_table_def d CheckAndUpdateSeq_cases del)
    ultimately show ?thesis by (simp add: TableFrame peers_ok_def)
  next
    case (BeatFrame data)
    obtain r n1 where d: "decodeRemoteEnvelope lib data n = (r, n1)" by fastforce
    have "peers_ok lib n1" using decodeRemote_peers [OF ok, of data] by (simp add: d)
    moreover have "nd_peers (snd (dispatchHeartbeat lib data n)) = nd_peers n1"
      by (cases r) (simp_all add: dispatchHeartbeat_def d split: prod.split bool.split)
    ultimately show ?thesis by (simp add: BeatFrame peers_ok_def)
  next
    case (StreamBytes bs)
    then show ?thesis using ok by (simp add: str peers_ok_def)
  next
    case (Publish now ty b)
    have "nd_peers (snd (publish lib now ty b n)) = nd_peers n"
      by (auto simp: publish_def send_envelope_def nextSeq_def Let_def split: option.split prod.split)
    then show ?thesis using ok by (simp add: Publish peers_ok_def)
  qed
qed

lemma accepted_verified:
  assumes "e \<in> set (accepted_of lib evs n)" and "peers_ok lib n"
    and "nl_PeerKey lib (env_SenderId e) = Some (Some pub)" and "env_Signature e \<noteq> []"
  shows "el_Verify (nl_env lib) pub (envelopeSignBytes e) (env_Signature e)"
  using assms(1,2)
proof (induction evs arbitrary: n)
  case (Cons ev evs)
  show ?case
  proof (cases "e \<in> set (accepted_of lib evs (snd (net_step lib ev n)))")
    case True
    then show ?thesis using Cons.IH net_step_peers Cons.prems(2) by blast
  next
    case False
    then obtain data where "fst (accept_table lib data n) = Some e"
      using Cons.prems by (auto split: net_event.splits option.splits)
    then obtain n1 where d: "DecodeEnvelope (nl_env lib) data (Some (lookupPubKey lib)) n = (Some e, n1)"
      by (cases rule: accept_table_cases [of lib data n]) auto
    have "fst (lookupPubKey lib (env_SenderId e) n) = Some (Some pub)"
      using lookupPubKey_ok [OF Cons.prems(2)] assms(3) by simp
    then show ?thesis using d assms(4)
      by (auto simp: DecodeEnvelope_def Let_def check_signature_def split: if_splits option.splits prod.splits)
  qed
qed simp

section \<open>Properties\<close>

text \<open>C37: no run of a node ever finds equivocation. The log refuses a second envelope with the same
  sender and number before the scan could compare the two, so whatever conflicting frames a sender
  gets out, the adaptor answers none, the scan loop calls nobody and the slash detector stays as it is.\<close>

lemma equivocation_never_found:
  "adaptor_DetectEquivocation (nd_Log (net_run lib evs (NewNode peerID pk tableID name buyIn maxSeats key callbacks))) = ([], None, None)
   \<and> scan_tick (net_run lib evs (NewNode peerID pk tableID name buyIn maxSeats key callbacks)) = []
   \<and> fm_CheckEquivocation now
       (adaptor_DetectEquivocation (nd_Log (net_run lib evs (NewNode peerID pk tableID name buyIn maxSeats key callbacks)))) fm = ([], [], fm)"
proof -
  have "log_ok (nd_Log (NewNode peerID pk tableID name buyIn maxSeats key callbacks))"
    by (simp add: NewNode_def Let_def)
  then have "log_ok (nd_Log (net_run lib evs (NewNode peerID pk tableID name buyIn maxSeats key callbacks)))"
    by (rule net_run_log)
  then have "adaptor_DetectEquivocation (nd_Log (net_run lib evs (NewNode peerID pk tableID name buyIn maxSeats key callbacks))) = ([], None, None)"
    by (simp add: adaptor_DetectEquivocation_def DetectEquivocation_none)
  then show ?thesis by (simp add: scan_tick_def fm_CheckEquivocation_def CheckEquivocation_def)
qed



text \<open>C33: what a signature proves. If nobody else can make a signature that verifies under a peer's key
  (every verified byte string is that of an envelope the peer made), then a table message a node
  accepts for that peer has no signature at all, or it is one the peer made: same number, time and
  payload, under its own name, and the same low byte of the type, which is all that is signed of it.
  The fields have their Go types, and the identity of a registered peer contains no zero byte.\<close>

lemma signed_is_sent:
  assumes "e \<in> set (accepted_of lib evs (NewNode peerID pk tableID name buyIn maxSeats key callbacks))"
    and "nl_PeerKey lib (env_SenderId e) = Some (Some pub)" and "CHR 0x00 \<notin> set (env_SenderId e)"
    and "\<forall>d sig. el_Verify (nl_env lib) pub d sig \<longrightarrow> (\<exists>m \<in> made. plain_envelope m \<and> d = envelopeSignBytes m)"
    and "in64 (env_Seq e)" and "in64 (env_Timestamp e)"
  shows "env_Signature e = [] \<or> (\<exists>m \<in> made. e = m\<lparr>env_Signature := env_Signature e, env_Type := env_Type e\<rparr> \<and> env_Type e mod 256 = env_Type m)"
proof (cases "env_Signature e = []")
  case False
  have "peers_ok lib (NewNode peerID pk tableID name buyIn maxSeats key callbacks)"
    by (simp add: peers_ok_def NewNode_def Let_def)
  from accepted_verified [OF assms(1) this assms(2) False]
  obtain m where m: "m \<in> made" "plain_envelope m" "envelopeSignBytes e = envelopeSignBytes m"
    using assms(4) by blast
  note f = envelopeSignBytes_fields [OF assms(3) _ assms(5,6) _ _ m(3)]
  have "e = m\<lparr>env_Signature := env_Signature e, env_Type := env_Type e\<rparr>" "go_byte (env_Type e) = go_byte (env_Type m)"
    using m(2) by (intro f; simp add: plain_envelope_def)+
  moreover have "env_Type e mod 256 = env_Type m"
    using go_byte_mod [OF calculation(2)] m(2) by (simp add: plain_envelope_def)
  ultimately show ?thesis using m(1) by blast
qed simp

section \<open>A small network\<close>

definition demo_node_lib :: "Envelope \<Rightarrow> node_lib" where
  "demo_node_lib e = \<lparr>nl_env = demo_lib e, nl_wire = demo_wire, nl_PeerKey = \<lambda>i. Some (Some (str_bytes i)),
     un_JoinTable = \<lambda>b. None, un_PlayerReady = \<lambda>b. None, un_ShuffleStep = \<lambda>b. None, un_PartialDecrypt = \<lambda>b. None,
     un_PlayerAction = \<lambda>b. None, un_GameStateSync = \<lambda>b. None, un_Heartbeat = \<lambda>b. None, un_TimeoutVote = \<lambda>b. None,
     un_HandResult = \<lambda>b. None, ma_JoinTable = \<lambda>m. None, ma_PlayerReady = \<lambda>m. None, ma_ShuffleStep = \<lambda>m. None,
     ma_PartialDecrypt = \<lambda>m. None, ma_PlayerAction = \<lambda>m. None, ma_GameStateSync = \<lambda>m. None, ma_Heartbeat = \<lambda>m. None,
     ma_TimeoutVote = \<lambda>m. None, ma_HandResult = \<lambda>m. None\<rparr>"

definition demo_node :: Node where
  "demo_node = NewNode ''b'' [] ''t'' ''Bob'' 100 3 None {}"

definition one_frame :: "byte list" where
  "one_frame = be32 1 @ [7]"

lemma one_frame_decodes: "DecodeEnvelope (demo_lib e) one_frame None () = (Some e, ())"
proof -
  have "big_SetBytes (be32 1) = 1" using be32_value [of 1] by simp
  then show ?thesis by (simp add: DecodeEnvelope_def Let_def one_frame_def demo_lib_def MaxMessageSize_def)
qed


lemma signed_is_sent_witness:
  "accepted_of (demo_node_lib demo_signed) [TableFrame one_frame] demo_node = [demo_signed]
   \<and> (\<exists>m \<in> {demo_envelope}. demo_signed = m\<lparr>env_Signature := env_Signature demo_signed, env_Type := env_Type demo_signed\<rparr>)"
proof -
  have big: "big_SetBytes (be32 1) = 1" using be32_value [of 1] by simp
  note sb = demo_sign_bytes
  have sig: "env_Signature demo_signed = envelopeSignBytes demo_envelope" by (simp add: demo_signed_def)
  have f: "env_SenderId demo_signed = ''a''" "env_Type demo_signed = 6" "env_Seq demo_signed = 1"
    by (simp_all add: demo_signed_def demo_envelope_def NewEnvelope_def)
  have acc: "accepted_of (demo_node_lib demo_signed) [TableFrame one_frame] demo_node = [demo_signed]"
    using big by (simp add: accept_table_def decodeRemoteEnvelope_def DecodeEnvelope_def Let_def demo_node_lib_def demo_lib_def one_frame_def
        MaxMessageSize_def sig sb sign_bytes_nonempty lookupPubKey_def check_signature_def f demo_node_def NewNode_def
        NewGossipManager_def HEARTBEAT_def CheckAndUpdateSeq_cases)
  have "env_Signature demo_signed = [] \<or> (\<exists>m \<in> {demo_envelope}. demo_signed = m\<lparr>env_Signature := env_Signature demo_signed, env_Type := env_Type demo_signed\<rparr>
      \<and> env_Type demo_signed mod 256 = env_Type m)"
  proof (rule signed_is_sent)
    show "demo_signed \<in> set (accepted_of (demo_node_lib demo_signed) [TableFrame one_frame] (NewNode ''b'' [] ''t'' ''Bob'' 100 3 None {}))"
      using acc by (simp add: demo_node_def)
  qed (simp_all add: demo_node_lib_def demo_lib_def sig sb sign_bytes_nonempty plain_envelope_def f in64_def,
      simp_all add: demo_signed_def demo_envelope_def NewEnvelope_def)
  then show ?thesis using acc sign_bytes_nonempty by (auto simp: sig sb)
qed

end
