(* ===== verification/Escrow.thy ===== *)
theory Escrow
  imports HandExamples Faults
begin

text \<open>
  internal/chain/client.go and escrow.go: the outcome of a hand and the disputes, as the node hands
  them to the escrow contract. The client in the source answers without a chain; it is modelled as it
  is. ECDSA signing is a parameter. Every error has an empty text, so a fallible call is an option.
  The conversion between ether and wei works on floats and is left out.
\<close>

section \<open>The client\<close>

type_synonym Address = "byte list"

record TxReceipt =
  rc_Status :: int
  rc_GasUsed :: int
  rc_BlockNumber :: int

record Client =
  cl_RPCURL :: string
  cl_address :: string

definition receipt :: "int \<Rightarrow> int \<Rightarrow> TxReceipt" where
  "receipt gas block = \<lparr>rc_Status = 1, rc_GasUsed = gas, rc_BlockNumber = block\<rparr>"

definition NewClient :: "string \<Rightarrow> string \<Rightarrow> Client option" where
  "NewClient rpcURL contractAddress =
     (if rpcURL = [] then None else if contractAddress = [] then None
      else Some \<lparr>cl_RPCURL = rpcURL, cl_address = contractAddress\<rparr>)"

definition chain_Deploy :: "string \<Rightarrow> nat \<Rightarrow> (Address \<times> TxReceipt) option" where
  "chain_Deploy tableID maxSeats =
     (if tableID = [] then None else if maxSeats < 2 \<or> maxSeats > 9 then None
      else let b = take 20 (str_bytes tableID) in Some (b @ replicate (20 - length b) 0, receipt 800000 1))"

definition chain_JoinTable :: "string \<Rightarrow> int option \<Rightarrow> TxReceipt option" where
  "chain_JoinTable peerID weiAmount =
     (if peerID = [] then None
      else case weiAmount of None \<Rightarrow> None | Some w \<Rightarrow> if w \<le> 0 then None else Some (receipt 50000 1))"

text \<open>\<open>True\<close> is no error.\<close>

definition validatePayoutDeltas :: "int option list \<Rightarrow> bool" where
  "validatePayoutDeltas deltas \<longleftrightarrow> list_all (\<lambda>d. d \<noteq> None) deltas \<and> sum_list (map the deltas) = 0"

definition ReportOutcome :: "int option list \<Rightarrow> byte list list \<Rightarrow> TxReceipt option" where
  "ReportOutcome payoutDeltas signatures =
     (if \<not> validatePayoutDeltas payoutDeltas then None
      else if length signatures = 0 then None else Some (receipt 120000 2))"

definition lower_char :: "char \<Rightarrow> char" where
  "lower_char c = (if 65 \<le> (of_char c :: nat) \<and> (of_char c :: nat) \<le> 90 then char_of ((of_char c :: nat) + 32) else c)"

definition valid_reasons :: "string list" where
  "valid_reasons = [''equivocation'', ''bad_zk_proof'', ''invalid_action'', ''key_withholding'']"

definition client_SubmitDispute :: "string \<Rightarrow> byte list \<Rightarrow> TxReceipt option" where
  "client_SubmitDispute reason evidence =
     (if length evidence = 0 then None
      else if map lower_char reason \<notin> set valid_reasons then None else Some (receipt 80000 3))"

definition chain_Refund :: "TxReceipt option" where
  "chain_Refund = Some (receipt 30000 5)"

definition MarkAbandoned :: "TxReceipt option" where
  "MarkAbandoned = Some (receipt 30000 4)"

definition TableState :: nat where
  "TableState = 1"

text \<open>The polls before the deadline, each with whether the context is over; \<open>True\<close> is a settled table.\<close>

fun WaitForSettlement :: "bool list \<Rightarrow> bool" where
  "WaitForSettlement [] = False"
| "WaitForSettlement (ctxDone # polls) = (if ctxDone then False else if TableState = 2 then True else WaitForSettlement polls)"

section \<open>Outcomes\<close>

record OutcomePayload =
  oc_HandNum :: int
  oc_PayoutDeltas :: "int option list"
  oc_StateRoot :: "byte list"
  oc_Signatures :: "byte list list"

definition BuildOutcome :: "game_state \<Rightarrow> int \<Rightarrow> byte list \<Rightarrow> string list \<Rightarrow> OutcomePayload option" where
  "BuildOutcome gs handNum logRoot playerOrder =
     (if gs_phase gs \<noteq> PhaseSettled then None
      else if \<not> list_all (\<lambda>pid. SeatIndex pid gs \<noteq> -1) playerOrder then None
      else Some \<lparr>oc_HandNum = handNum,
             oc_PayoutDeltas = map (\<lambda>pid. Some (case gs_payouts gs pid of Some v \<Rightarrow> v | None \<Rightarrow> 0)) playerOrder,
             oc_StateRoot = (if length logRoot = 32 then logRoot else sha256 logRoot), oc_Signatures = []\<rparr>)"

text \<open>A delta as 32 bytes, two's complement; longer ones panic.\<close>

definition delta_bytes :: "int option \<Rightarrow> byte list option" where
  "delta_bytes d = (case d of None \<Rightarrow> Some (replicate 32 0)
     | Some n \<Rightarrow> let db = (if n < 0 then big_Bytes (2 ^ 256 - \<bar>n\<bar>) else big_Bytes n)
         in if length db > 32 then None else Some (replicate (32 - length db) 0 @ db))"

definition outcomeDigest :: "string \<Rightarrow> int \<Rightarrow> int option list \<Rightarrow> byte list \<Rightarrow> byte list option" where
  "outcomeDigest tableID handNum deltas stateRoot =
     (if list_all (\<lambda>d. delta_bytes d \<noteq> None) deltas
      then Some (sha256 (str_bytes tableID @ map (\<lambda>k. word_of_int (handNum div 256 ^ k)) [7, 6, 5, 4, 3, 2, 1, 0]
        @ concat (map (\<lambda>d. the (delta_bytes d)) deltas) @ stateRoot))
      else None)"

text \<open>\<open>sign\<close> is \<open>crypto.Sign\<close> with the local key; its result has 65 bytes. No key is \<open>None\<close>.\<close>

definition signEthereum :: "(byte list \<Rightarrow> byte list option) option \<Rightarrow> byte list \<Rightarrow> byte list option" where
  "signEthereum privKey hash = (case privKey of None \<Rightarrow> None
     | Some sign \<Rightarrow> if length hash \<noteq> 32 then None
         else (case sign hash of None \<Rightarrow> None | Some sig \<Rightarrow> Some (sig[64 := sig ! 64 + 27])))"

record EscrowManager =
  em_client :: Client
  em_localAddr :: Address
  em_localKey :: "(byte list \<Rightarrow> byte list option) option"
  em_tableID :: string
  em_numSeats :: int

definition NewEscrowManager ::
  "Client \<Rightarrow> Address \<Rightarrow> (byte list \<Rightarrow> byte list option) option \<Rightarrow> string \<Rightarrow> int \<Rightarrow> EscrowManager" where
  "NewEscrowManager client localAddr localKey tableID numSeats = \<lparr>em_client = client, em_localAddr = localAddr,
     em_localKey = localKey, em_tableID = tableID, em_numSeats = numSeats\<rparr>"

definition em_Join :: "string \<Rightarrow> int option \<Rightarrow> TxReceipt option" where
  "em_Join peerID weiAmount = (case chain_JoinTable peerID weiAmount of None \<Rightarrow> None
     | Some r \<Rightarrow> if rc_Status r \<noteq> 1 then None else Some r)"

definition hex_lower :: "byte list \<Rightarrow> string" where
  "hex_lower bs = concat (map (\<lambda>b. [''0123456789abcdef'' ! (unat b div 16), ''0123456789abcdef'' ! (unat b mod 16)]) bs)"

definition HostTable :: "string \<Rightarrow> nat \<Rightarrow> string \<Rightarrow> int option \<Rightarrow> EscrowManager \<Rightarrow> (Address \<times> TxReceipt) option \<times> EscrowManager" where
  "HostTable tableID maxSeats peerID weiAmount em = (case chain_Deploy tableID maxSeats of None \<Rightarrow> (None, em)
     | Some (addr, r) \<Rightarrow>
         let em' = em\<lparr>em_client := (em_client em)\<lparr>cl_address := ''0x'' @ hex_lower addr\<rparr>\<rparr>
         in case em_Join peerID weiAmount of None \<Rightarrow> (None, em') | Some _ \<Rightarrow> (Some (addr, r), em'))"

text \<open>A digest that panics is \<open>None\<close> as well.\<close>

definition SignOutcome :: "EscrowManager \<Rightarrow> OutcomePayload \<Rightarrow> byte list option" where
  "SignOutcome em payload =
     (case outcomeDigest (em_tableID em) (oc_HandNum payload) (oc_PayoutDeltas payload) (oc_StateRoot payload) of
        None \<Rightarrow> None | Some digest \<Rightarrow> signEthereum (em_localKey em) digest)"

definition AddSignature :: "byte list \<Rightarrow> OutcomePayload \<Rightarrow> OutcomePayload" where
  "AddSignature sig payload = payload\<lparr>oc_Signatures := oc_Signatures payload @ [sig]\<rparr>"

definition SubmitOutcome :: "OutcomePayload \<Rightarrow> TxReceipt option" where
  "SubmitOutcome payload =
     (if \<not> validatePayoutDeltas (oc_PayoutDeltas payload) then None
      else case ReportOutcome (oc_PayoutDeltas payload) (oc_Signatures payload) of None \<Rightarrow> None
        | Some r \<Rightarrow> if rc_Status r \<noteq> 1 then None else Some r)"

definition VerifyOutcomeSignature ::
  "string \<Rightarrow> int \<Rightarrow> int option list \<Rightarrow> byte list \<Rightarrow> byte list \<Rightarrow> Address \<Rightarrow> bool" where
  "VerifyOutcomeSignature tableID handNum deltas stateRoot sig expectedAddr \<longleftrightarrow>
     length sig = 65 \<and> (sig ! 64 = 27 \<or> sig ! 64 = 28)"

definition ChipConservationCheck :: "int option list \<Rightarrow> bool" where
  "ChipConservationCheck deltas = validatePayoutDeltas deltas"

section \<open>Disputes\<close>

record DisputeRequest =
  dr_AccusedAddr :: Address
  dr_Reason :: string
  dr_Evidence :: "byte list"

fun slashReasonToOnChain :: "SlashReason \<Rightarrow> string" where
  "slashReasonToOnChain SlashEquivocation = ''equivocation''"
| "slashReasonToOnChain SlashBadZKProof = ''bad_zk_proof''"
| "slashReasonToOnChain SlashInvalidAction = ''invalid_action''"
| "slashReasonToOnChain SlashKeyWithholding = ''key_withholding''"

definition BuildDisputeFromSlash :: "SlashRecord option \<Rightarrow> Address \<Rightarrow> DisputeRequest option" where
  "BuildDisputeFromSlash sr accusedAddr = (case sr of None \<Rightarrow> None
     | Some s \<Rightarrow> Some \<lparr>dr_AccusedAddr = accusedAddr, dr_Reason = slashReasonToOnChain (sr_Reason s),
         dr_Evidence = (case sr_BadProofResult s of Some x \<Rightarrow> if length (sr_Evidence s) = 0 then big_Bytes x else sr_Evidence s
           | None \<Rightarrow> sr_Evidence s)\<rparr>)"

text \<open>The slice is made with its full length and then appended to, so the claim starts with zeros.\<close>

definition claim_data :: "DisputeRequest \<Rightarrow> byte list" where
  "claim_data req = replicate (20 + length (dr_Reason req) + length (dr_Evidence req)) 0
     @ dr_AccusedAddr req @ str_bytes (dr_Reason req) @ dr_Evidence req"

definition SubmitDispute :: "EscrowManager \<Rightarrow> DisputeRequest option \<Rightarrow> TxReceipt option" where
  "SubmitDispute em reqo = (case reqo of None \<Rightarrow> None
     | Some req \<Rightarrow> (case signEthereum (em_localKey em) (sha256 (claim_data req)) of None \<Rightarrow> None
         | Some accuserSig \<Rightarrow> client_SubmitDispute (dr_Reason req) (dr_Evidence req)))"

section \<open>Properties\<close>

lemma sum_list_positive: "(\<forall>x \<in> set xs. 0 \<le> x) \<Longrightarrow> y \<in> set xs \<Longrightarrow> 0 < y \<Longrightarrow> 0 < sum_list (xs :: int list)"
  by (metis member_le_sum_list order_less_le_trans)

text \<open>C40: no outcome with a winner gets through. \<open>BuildOutcome\<close> reports what each player was paid out of
  the pot, and \<open>SubmitOutcome\<close> wants the reported numbers to add up to zero; so as soon as somebody at
  the table was paid anything, the outcome of the settled hand is refused, whoever signed it.\<close>

lemma settled_outcome_rejected:
  assumes "BuildOutcome gs handNum logRoot playerOrder = Some payload"
    and "\<forall>pid v. gs_payouts gs pid = Some v \<longrightarrow> 0 \<le> v" and "pid \<in> set playerOrder" and "gs_payouts gs pid = Some v" and "0 < v"
  shows "\<forall>sigs. SubmitOutcome (fold AddSignature sigs payload) = None"
proof
  fix sigs
  have d: "oc_PayoutDeltas payload = map (\<lambda>pid. Some (case gs_payouts gs pid of Some v \<Rightarrow> v | None \<Rightarrow> 0)) playerOrder"
    using assms(1) by (auto simp: BuildOutcome_def split: if_splits)
  have s: "oc_PayoutDeltas (fold AddSignature sigs payload) = oc_PayoutDeltas payload"
    by (induction sigs arbitrary: payload) (simp_all add: AddSignature_def)
  have "0 < sum_list (map (\<lambda>pid. case gs_payouts gs pid of Some v \<Rightarrow> v | None \<Rightarrow> 0) playerOrder)"
  proof (rule sum_list_positive)
    show "\<forall>x \<in> set (map (\<lambda>pid. case gs_payouts gs pid of Some v \<Rightarrow> v | None \<Rightarrow> 0) playerOrder). 0 \<le> x"
      using assms(2) by (auto split: option.split)
    show "v \<in> set (map (\<lambda>pid. case gs_payouts gs pid of Some v \<Rightarrow> v | None \<Rightarrow> 0) playerOrder)"
      using assms(3,4) by force
  qed (rule assms(5))
  then show "SubmitOutcome (fold AddSignature sigs payload) = None"
    by (simp add: SubmitOutcome_def validatePayoutDeltas_def s d o_def)
qed

definition demo_settled :: game_state where
  "demo_settled = (demo_table [100, 200])\<lparr>gs_phase := PhaseSettled, gs_payouts := [''b'' \<mapsto> 15]\<rparr>"

lemma settled_outcome_rejected_witness:
  "\<exists>payload. BuildOutcome demo_settled 1 [] [''a'', ''b''] = Some payload \<and> SubmitOutcome (AddSignature [1] payload) = None"
proof -
  have p: "gs_phase demo_settled = PhaseSettled" "SeatIndex ''a'' demo_settled \<noteq> -1" "SeatIndex ''b'' demo_settled \<noteq> -1" by code_simp+
  have q: "\<forall>pid v. gs_payouts demo_settled pid = Some v \<longrightarrow> 0 \<le> v" and w: "gs_payouts demo_settled ''b'' = Some 15"
    by (simp_all add: demo_settled_def)
  obtain payload where b: "BuildOutcome demo_settled 1 [] [''a'', ''b''] = Some payload"
    using p by (simp add: BuildOutcome_def)
  have "\<forall>sigs. SubmitOutcome (fold AddSignature sigs payload) = None"
    by (rule settled_outcome_rejected [OF b q _ w]) simp_all
  from this [rule_format, of "[[1]]"] show ?thesis using b by auto
qed

text \<open>which offences can be disputed. Of the records the slash detector makes, those of an
  equivocation and of a withheld key carry no evidence and the contract's client refuses them, whoever
  signs; that of an invalid action goes through when there is an error text and a key to sign with.\<close>

lemma dispute_needs_evidence:
  "SubmitDispute em (BuildDisputeFromSlash (Some (fst (CheckKeyWithholding now peerID cardIdx sd))) addr) = None
   \<and> (\<forall>r \<in> set (fst (CheckEquivocation now found sd)). SubmitDispute em (BuildDisputeFromSlash (Some r) addr) = None)
   \<and> (errText \<noteq> [] \<and> em_localKey em = Some sign \<and> (\<forall>h. sign h \<noteq> None) \<longrightarrow>
        SubmitDispute em (BuildDisputeFromSlash (Some (fst (CheckInvalidAction now peerID errText sd))) addr) \<noteq> None)"
proof -
  have no: "client_SubmitDispute reason [] = None" for reason by (simp add: client_SubmitDispute_def)
  have "SubmitDispute em (BuildDisputeFromSlash (Some (fst (CheckKeyWithholding now peerID cardIdx sd))) addr) = None"
    by (simp add: SubmitDispute_def BuildDisputeFromSlash_def CheckKeyWithholding_def slash_record_def Let_def no split: option.split)
  moreover have "SubmitDispute em (BuildDisputeFromSlash (Some r) addr) = None" if "r \<in> set (fst (CheckEquivocation now found sd))" for r
    using that by (auto simp: SubmitDispute_def BuildDisputeFromSlash_def CheckEquivocation_def slash_record_def Let_def no
        split: option.split prod.splits if_splits)
  moreover have "SubmitDispute em (BuildDisputeFromSlash (Some (fst (CheckInvalidAction now peerID errText sd))) addr) \<noteq> None"
    if "errText \<noteq> []" "em_localKey em = Some sign" "\<forall>h. sign h \<noteq> None"
  proof -
    have "map lower_char ''invalid_action'' \<in> set valid_reasons" by code_simp
    then show ?thesis using that
      by (auto simp: SubmitDispute_def BuildDisputeFromSlash_def CheckInvalidAction_def slash_record_def Let_def signEthereum_def
          client_SubmitDispute_def str_bytes_def split: option.split)
  qed
  ultimately show ?thesis by blast
qed

lemma dispute_needs_evidence_witness:
  "SubmitDispute (NewEscrowManager \<lparr>cl_RPCURL = ''r'', cl_address = ''c''\<rparr> [] (Some (\<lambda>h. Some (replicate 65 0))) ''t'' 3)
     (BuildDisputeFromSlash (Some (fst (CheckInvalidAction 0 ''a'' ''bad'' (NewSlashDetector 1)))) []) \<noteq> None"
  using dispute_needs_evidence [where em = "NewEscrowManager \<lparr>cl_RPCURL = ''r'', cl_address = ''c''\<rparr> [] (Some (\<lambda>h. Some (replicate 65 0))) ''t'' 3"
      and errText = "''bad''" and sign = "\<lambda>h. Some (replicate 65 0)" and now = 0 and peerID = "''a''" and sd = "NewSlashDetector 1" and addr = "[]"]
  by (simp add: NewEscrowManager_def)

text \<open>A signature is checked for its length and its last byte only, against no address and no digest.\<close>

lemma outcome_signature_unchecked:
  "VerifyOutcomeSignature tableID handNum deltas stateRoot (replicate 64 b @ [27]) addr"
  by (simp add: VerifyOutcomeSignature_def nth_append)

lemma settlement_never_seen: "\<not> WaitForSettlement polls"
  by (induction polls) (simp_all add: TableState_def)

end
