(* ===== verification/BetInput.thy ===== *)
theory BetInput
  imports HandCards GameLog
begin

text \<open>
  internal/tui/bet\_input.go: what the player at the terminal can type, and the action it becomes.
  Runes are ASCII characters, the only ones the key handler passes on. The rendering is left out.
\<close>

record BetAction =
  ba_Type :: ActionType
  ba_Amount :: i64

record BetInputState =
  bi_ToCall :: i64
  bi_MinRaise :: i64
  bi_Stack :: i64
  bi_CanCheck :: bool
  bi_Selected :: int
  bi_RaiseInput :: string
  bi_InputActive :: bool
  bi_Submitted :: "BetAction option"

definition NewBetInputState :: "player \<Rightarrow> game_state \<Rightarrow> BetInputState" where
  "NewBetInputState p gs =
     (let toCall = w64 (gs_currentBet gs - p_currentBet p);
          toCall = (if toCall < 0 then 0 else toCall)
      in \<lparr>bi_ToCall = toCall, bi_MinRaise = gs_minRaise gs, bi_Stack = p_stack p, bi_CanCheck = (toCall = 0),
          bi_Selected = 1, bi_RaiseInput = [], bi_InputActive = False, bi_Submitted = None\<rparr>)"

definition SelectNext :: "BetInputState \<Rightarrow> BetInputState" where
  "SelectNext s = (let sel = go_rem (bi_Selected s + 1) 4
     in s\<lparr>bi_Selected := sel, bi_InputActive := (if sel = 2 then False else bi_InputActive s)\<rparr>)"

definition SelectPrev :: "BetInputState \<Rightarrow> BetInputState" where
  "SelectPrev s = (let sel = go_rem (bi_Selected s + 3) 4
     in s\<lparr>bi_Selected := sel, bi_InputActive := (if sel = 2 then False else bi_InputActive s)\<rparr>)"

definition ActivateInput :: "BetInputState \<Rightarrow> BetInputState" where
  "ActivateInput s = s\<lparr>bi_Selected := 2, bi_InputActive := True,
     bi_RaiseInput := (if bi_RaiseInput s = [] then dec_int (bi_MinRaise s) else bi_RaiseInput s)\<rparr>"

definition is_digit :: "char \<Rightarrow> bool" where
  "is_digit c \<longleftrightarrow> 48 \<le> (of_char c :: nat) \<and> (of_char c :: nat) \<le> 57"

definition AppendChar :: "char \<Rightarrow> BetInputState \<Rightarrow> BetInputState" where
  "AppendChar r s = (if is_digit r \<and> length (bi_RaiseInput s) < 10 then s\<lparr>bi_RaiseInput := bi_RaiseInput s @ [r]\<rparr> else s)"

definition Backspace :: "BetInputState \<Rightarrow> BetInputState" where
  "Backspace s = (if length (bi_RaiseInput s) > 0 then s\<lparr>bi_RaiseInput := butlast (bi_RaiseInput s)\<rparr> else s)"

section \<open>Reading the amount\<close>

definition is_space :: "char \<Rightarrow> bool" where
  "is_space c \<longleftrightarrow> c \<in> {CHR '' '', CHR 0x09, CHR 0x0A, CHR 0x0B, CHR 0x0C, CHR 0x0D}"

definition TrimSpace :: "string \<Rightarrow> string" where
  "TrimSpace s = rev (dropWhile is_space (rev (dropWhile is_space s)))"

definition digits_value :: "string \<Rightarrow> int" where
  "digits_value s = foldl (\<lambda>a c. a * 10 + (of_char c - 48)) 0 s"

definition parse_digits :: "string \<Rightarrow> int option" where
  "parse_digits s = (if s \<noteq> [] \<and> list_all is_digit s then Some (digits_value s) else None)"

text \<open>\<open>strconv.ParseInt(s, 10, 64)\<close>\<close>

definition ParseInt :: "string \<Rightarrow> int option" where
  "ParseInt s =
     (let v = (case s of [] \<Rightarrow> None
        | c # cs \<Rightarrow> if c = CHR ''-'' then map_option uminus (parse_digits cs)
            else if c = CHR ''+'' then parse_digits cs else parse_digits s)
      in case v of None \<Rightarrow> None | Some n \<Rightarrow> if in64 n then Some n else None)"

definition bet :: "ActionType \<Rightarrow> i64 \<Rightarrow> BetAction" where
  "bet t n = \<lparr>ba_Type = t, ba_Amount = n\<rparr>"

definition Confirm :: "BetInputState \<Rightarrow> BetAction option \<times> string" where
  "Confirm s =
     (if bi_Selected s = 0 then (Some (bet ActionFold 0), [])
      else if bi_Selected s = 1 then
        (if bi_CanCheck s then (Some (bet ActionCheck 0), []) else (Some (bet ActionCall 0), []))
      else if bi_Selected s = 2 then
        (let raw = TrimSpace (bi_RaiseInput s);
             raw = (if raw = [] then dec_int (bi_MinRaise s) else raw)
         in case ParseInt raw of None \<Rightarrow> (None, ''invalid raise amount'')
            | Some amount \<Rightarrow>
                if amount \<le> 0 then (None, ''invalid raise amount'')
                else if amount < bi_MinRaise s then (None, ''raise must be at least '' @ dec_int (bi_MinRaise s))
                else if w64 (amount + bi_ToCall s) > bi_Stack s then (None, ''insufficient funds'')
                else (Some (bet ActionRaise amount), []))
      else if bi_Selected s = 3 then (Some (bet ActionAllIn 0), [])
      else (None, ''unknown selection''))"

section \<open>What the input holds\<close>

lemma digits_value_snoc [simp]: "digits_value (s @ [c]) = digits_value s * 10 + (of_char c - 48)"
  by (simp add: digits_value_def)

lemma digits_value_nil [simp]: "digits_value [] = 0"
  by (simp add: digits_value_def)

lemma digit_range: "is_digit c \<Longrightarrow> 0 \<le> (of_char c :: int) - 48 \<and> (of_char c :: int) - 48 \<le> 9"
proof -
  assume "is_digit c"
  moreover have "int (of_char c) = of_char c" by (simp only: of_nat_of_char)
  ultimately show ?thesis unfolding is_digit_def by linarith
qed

lemma digits_value_bounds: "list_all is_digit s \<Longrightarrow> 0 \<le> digits_value s \<and> digits_value s < 10 ^ length s"
proof (induction s rule: rev_induct)
  case (snoc c s)
  then have "0 \<le> digits_value s" "digits_value s + 1 \<le> 10 ^ length s" by simp_all
  moreover have "0 \<le> (of_char c :: int) - 48 \<and> (of_char c :: int) - 48 \<le> 9" using snoc.prems digit_range by simp
  ultimately show ?case by simp
qed simp

lemma digit_code: "k < 10 \<Longrightarrow> is_digit (digit k) \<and> (of_char (digit k) :: int) - 48 = int k"
proof -
  assume k: "k < 10"
  then have "(of_char (digit k) :: nat) = 48 + k" by (simp add: digit_def)
  moreover have "(of_char (digit k) :: int) = int (of_char (digit k))" by (simp only: of_nat_of_char)
  ultimately show ?thesis using k unfolding is_digit_def by linarith
qed

lemma dec_nat_digits: "list_all is_digit (dec_nat n) \<and> digits_value (dec_nat n) = int n \<and> dec_nat n \<noteq> []"
proof (induction n rule: dec_nat.induct)
  case (1 n)
  show ?case
  proof (cases "n < 10")
    case True
    then show ?thesis using digit_code [OF True] by (simp add: dec_nat.simps [of n] digits_value_def)
  next
    case False
    have "int n = int (n div 10) * 10 + int (n mod 10)" by (metis div_mult_mod_eq of_nat_add of_nat_mult of_nat_numeral)
    then show ?thesis using 1 [OF False] False digit_code [of "n mod 10"] by (simp add: dec_nat.simps [of n])
  qed
qed

text \<open>The input is digits, and their value stays small whatever is typed.\<close>

definition input_ok :: "player \<Rightarrow> game_state \<Rightarrow> BetInputState \<Rightarrow> bool" where
  "input_ok p gs s \<longleftrightarrow> list_all is_digit (bi_RaiseInput s) \<and> digits_value (bi_RaiseInput s) \<le> 2 ^ 60
     \<and> bi_ToCall s = bi_ToCall (NewBetInputState p gs) \<and> bi_MinRaise s = gs_minRaise gs \<and> bi_Stack s = p_stack p
     \<and> bi_CanCheck s = bi_CanCheck (NewBetInputState p gs)"

lemma select_ok:
  assumes "input_ok p gs s"
  shows "input_ok p gs (SelectNext s)" and "input_ok p gs (SelectPrev s)" and "input_ok p gs (s\<lparr>bi_Selected := n\<rparr>)"
    and "input_ok p gs (s\<lparr>bi_InputActive := b\<rparr>)" and "input_ok p gs (s\<lparr>bi_InputActive := b, bi_RaiseInput := []\<rparr>)"
  using assms by (simp_all add: SelectNext_def SelectPrev_def Let_def input_ok_def)

lemma ActivateInput_ok:
  assumes "input_ok p gs s" and "0 \<le> gs_minRaise gs" and "gs_minRaise gs \<le> 2 ^ 60"
  shows "input_ok p gs (ActivateInput s)"
proof -
  have "dec_int (gs_minRaise gs) = dec_nat (nat (gs_minRaise gs))" using assms(2) by (simp add: dec_int_def)
  then show ?thesis using assms dec_nat_digits [of "nat (gs_minRaise gs)"] by (simp add: ActivateInput_def input_ok_def)
qed

lemma AppendChar_ok: "input_ok p gs s \<Longrightarrow> input_ok p gs (AppendChar c s)"
proof -
  assume ok: "input_ok p gs s"
  show ?thesis
  proof (cases "is_digit c \<and> length (bi_RaiseInput s) < 10")
    case True
    have "list_all is_digit (bi_RaiseInput s @ [c])" using ok True by (simp add: input_ok_def)
    from digits_value_bounds [OF this] have "digits_value (bi_RaiseInput s @ [c]) < 10 ^ Suc (length (bi_RaiseInput s))" by simp
    also have "\<dots> \<le> (10 :: int) ^ 10" using True by (intro power_increasing) auto
    finally show ?thesis using ok True by (simp add: AppendChar_def input_ok_def)
  qed (use ok in \<open>auto simp: AppendChar_def\<close>)
qed

lemma Backspace_ok: "input_ok p gs s \<Longrightarrow> input_ok p gs (Backspace s)"
proof -
  assume ok: "input_ok p gs s"
  show ?thesis
  proof (cases "bi_RaiseInput s" rule: rev_cases)
    case (snoc t c)
    then have "list_all is_digit t" "is_digit c" "digits_value t * 10 + (of_char c - 48) \<le> 2 ^ 60" using ok by (simp_all add: input_ok_def)
    moreover have "0 \<le> digits_value t" using digits_value_bounds calculation(1) by blast
    moreover have "0 \<le> (of_char c :: int) - 48" using digit_range calculation(2) by blast
    ultimately have "digits_value t \<le> 2 ^ 60" by linarith
    then show ?thesis using ok snoc by (simp add: Backspace_def input_ok_def)
  qed (use ok in \<open>simp add: Backspace_def\<close>)
qed

text \<open>The inputs a player can bring a fresh one to.\<close>

lemma new_ok: "input_ok p gs (NewBetInputState p gs)"
  by (simp add: input_ok_def NewBetInputState_def Let_def)

section \<open>What is confirmed\<close>

lemma toCall_exact:
  assumes "chips_inv gs" and "p \<in> set (gs_players gs)" and "CanAct p"
  shows "w64 (gs_currentBet gs - p_currentBet p) = gs_currentBet gs - p_currentBet p"
    and "0 \<le> gs_currentBet gs - p_currentBet p" and "gs_currentBet gs - p_currentBet p \<le> 2 ^ 60"
proof -
  have cb: "p_currentBet p \<le> gs_currentBet gs" "gs_currentBet gs \<le> 2 ^ 60" "0 \<le> p_currentBet p"
    using assms chips_inv_stacks(2) [OF assms(1,2)] by (auto simp: chips_inv_def)
  then show "w64 (gs_currentBet gs - p_currentBet p) = gs_currentBet gs - p_currentBet p"
    by (intro w64_id) (simp add: in64_def)
  show "0 \<le> gs_currentBet gs - p_currentBet p" "gs_currentBet gs - p_currentBet p \<le> 2 ^ 60" using cb by linarith+
qed

lemma space_not_digit: "is_space c \<Longrightarrow> \<not> is_digit c"
  by (auto simp: is_space_def is_digit_def)

lemma drop_digits: "list_all is_digit s \<Longrightarrow> dropWhile is_space s = s"
  using space_not_digit by (cases s) auto

lemma TrimSpace_digits: "list_all is_digit s \<Longrightarrow> TrimSpace s = s"
  by (simp add: TrimSpace_def drop_digits list_all_iff)

lemma ParseInt_digits:
  assumes "list_all is_digit s" and "s \<noteq> []" and "digits_value s \<le> 2 ^ 60"
  shows "ParseInt s = Some (digits_value s)"
proof -
  obtain c cs where s: "s = c # cs" using assms(2) by (cases s) auto
  have "\<not> is_digit CHR ''-''" "\<not> is_digit CHR ''+''" by (simp_all add: is_digit_def)
  then have "c \<noteq> CHR ''-''" "c \<noteq> CHR ''+''" using assms(1) s by auto
  moreover have "in64 (digits_value s)" using digits_value_bounds [OF assms(1)] assms(3) by (simp add: in64_def)
  ultimately show ?thesis using assms(1) by (simp add: ParseInt_def parse_digits_def s Let_def)
qed

text \<open>A confirmed raise is at least the minimum, and the player has the chips for it.\<close>

lemma confirmed_raise:
  assumes ok: "input_ok p gs s" and b: "Confirm s = (Some ba, [])" and r: "ba_Type ba = ActionRaise"
    and inv: "chips_inv gs" "p \<in> set (gs_players gs)" "CanAct p" and min: "gs_minRaise gs \<le> 2 ^ 60"
  shows "gs_minRaise gs \<le> ba_Amount ba" and "0 < ba_Amount ba" and "ba_Amount ba \<le> 2 ^ 60"
    and "gs_currentBet gs - p_currentBet p + ba_Amount ba \<le> p_stack p"
proof -
  note tc = toCall_exact [OF inv]
  let ?raw = "if bi_RaiseInput s = [] then dec_int (gs_minRaise gs) else bi_RaiseInput s"
  have m: "0 \<le> gs_minRaise gs" using inv(1) by (simp add: chips_inv_def)
  have raw: "list_all is_digit ?raw \<and> ?raw \<noteq> [] \<and> digits_value ?raw \<le> 2 ^ 60"
    using ok m min dec_nat_digits [of "nat (gs_minRaise gs)"] by (simp add: input_ok_def dec_int_def)
  have fields: "bi_MinRaise s = gs_minRaise gs" "bi_Stack s = p_stack p" "bi_ToCall s = gs_currentBet gs - p_currentBet p"
    "TrimSpace (bi_RaiseInput s) = bi_RaiseInput s"
    using ok tc by (simp_all add: input_ok_def NewBetInputState_def Let_def TrimSpace_digits)
  have sel: "bi_Selected s = 2" using b r by (auto simp: Confirm_def bet_def Let_def split: if_splits)
  have pr: "ParseInt ?raw = Some (digits_value ?raw)" using raw ParseInt_digits by blast
  have c: "0 < digits_value ?raw" "gs_minRaise gs \<le> digits_value ?raw" "ba_Amount ba = digits_value ?raw"
    "w64 (digits_value ?raw + (gs_currentBet gs - p_currentBet p)) \<le> p_stack p"
    using b unfolding Confirm_def Let_def sel fields pr by (auto simp: bet_def split: if_splits)
  moreover have "w64 (digits_value ?raw + (gs_currentBet gs - p_currentBet p)) = digits_value ?raw + (gs_currentBet gs - p_currentBet p)"
    using raw tc c(1) by (intro w64_id) (simp add: in64_def)
  ultimately show "gs_minRaise gs \<le> ba_Amount ba" "0 < ba_Amount ba" "ba_Amount ba \<le> 2 ^ 60"
    "gs_currentBet gs - p_currentBet p + ba_Amount ba \<le> p_stack p" using raw by simp_all
qed

lemma confirmed_act_ok:
  assumes ok: "input_ok p gs s" and b: "Confirm s = (Some ba, [])"
    and inv: "chips_inv gs" "p \<in> set (gs_players gs)" "CanAct p" and min: "gs_minRaise gs \<le> 2 ^ 60"
  shows "fst (act (mk_action (p_id p) (ba_Type ba) (ba_Amount ba)) i p gs) = None"
proof -
  note tc = toCall_exact [OF inv]
  have cc: "bi_CanCheck s \<longleftrightarrow> gs_currentBet gs - p_currentBet p = 0"
    using ok tc by (simp add: input_ok_def NewBetInputState_def Let_def)
  have "ba_Type ba \<in> {ActionFold, ActionAllIn, ActionRaise} \<or> ba_Type ba = (if bi_CanCheck s then ActionCheck else ActionCall)"
    using b by (auto simp: Confirm_def bet_def Let_def split: if_splits option.splits)
  then consider (simple) "ba_Type ba \<in> {ActionFold, ActionAllIn}" | (raise) "ba_Type ba = ActionRaise"
    | (call) "ba_Type ba = (if bi_CanCheck s then ActionCheck else ActionCall)" by blast
  then show ?thesis
  proof cases
    case raise
    note r = confirmed_raise [OF ok b raise inv min]
    have st: "0 \<le> p_stack p" "0 \<le> p_currentBet p" "p_stack p + p_currentBet p < 2 ^ 60"
      using chips_inv_stacks [OF inv(1,2)] inv(1) by (auto simp: chips_inv_def)
    have "w64 (p_stack p + p_currentBet p) = p_stack p + p_currentBet p"
      using st by (intro w64_id) (simp add: in64_def)
    moreover have "w64 (gs_currentBet gs - p_currentBet p + ba_Amount ba) = gs_currentBet gs - p_currentBet p + ba_Amount ba"
      using r tc by (intro w64_id) (simp add: in64_def)
    ultimately show ?thesis using r st by (simp add: act_def Let_def tc(1) raise)
  next
    case call
    then show ?thesis using cc tc by (simp add: act_def Let_def)
  qed (auto simp: act_def Let_def)
qed

end
