(* ===== verification/Terminal.thy ===== *)
theory Terminal
  imports BetInput
begin

text \<open>
  internal/tui: the screen's state machine (model.go) and its log (log\_view.go); the drawing is left
  out. The screen keeps a pointer to the game's state, which the machine changes behind it, so the
  states are in a store and the screen holds an address. A key is the string the terminal library
  gives for it. A Go map is visited in the order the message lists.
\<close>

type_synonym heap = "nat \<Rightarrow> game_state"

section \<open>log\_view.go\<close>

datatype LogEntryKind = LogKindAction | LogKindSystem | LogKindWinner | LogKindError | LogKindNetwork

record LogView =
  lv_Entries :: "(LogEntryKind \<times> string) list"
  lv_ScrollTop :: int
  lv_MaxVisible :: int

definition NewLogView :: LogView where
  "NewLogView = \<lparr>lv_Entries = [], lv_ScrollTop = 0, lv_MaxVisible = 8 - 2\<rparr>"

definition lv_Len :: "LogView \<Rightarrow> int" where
  "lv_Len lv = int (length (lv_Entries lv))"

definition lv_Add :: "LogEntryKind \<Rightarrow> string \<Rightarrow> LogView \<Rightarrow> LogView" where
  "lv_Add kind txt lv =
     (let lv = lv\<lparr>lv_Entries := lv_Entries lv @ [(kind, txt)]\<rparr>
      in if lv_Len lv > lv_MaxVisible lv then lv\<lparr>lv_ScrollTop := lv_Len lv - lv_MaxVisible lv\<rparr> else lv)"

definition AddAction :: "string \<Rightarrow> Action \<Rightarrow> LogView \<Rightarrow> LogView" where
  "AddAction playerName a =
     lv_Add LogKindAction
       (case a_type a of ActionFold \<Rightarrow> playerName @ '' folds'' | ActionCheck \<Rightarrow> playerName @ '' checks''
        | ActionCall \<Rightarrow> playerName @ '' calls'' | ActionRaise \<Rightarrow> playerName @ '' raises $'' @ dec_int (a_amount a)
        | ActionAllIn \<Rightarrow> playerName @ '' goes ALL-IN'' | ActionUnknown _ \<Rightarrow> [])"

text \<open>The rule on both sides of a phase is two box-drawing characters.\<close>

definition upper_char :: "char \<Rightarrow> char" where
  "upper_char c = (let n = of_char c :: nat in if 97 \<le> n \<and> n \<le> 122 then char_of (n - 32) else c)"

definition rule2 :: string where
  "rule2 = [CHR 0xE2, CHR 0x94, CHR 0x80, CHR 0xE2, CHR 0x94, CHR 0x80]"

definition AddPhase :: "Phase \<Rightarrow> LogView \<Rightarrow> LogView" where
  "AddPhase ph = lv_Add LogKindSystem (rule2 @ '' '' @ map upper_char (Phase_String ph) @ '' '' @ rule2)"

definition AddWinner :: "string \<Rightarrow> i64 \<Rightarrow> string \<Rightarrow> LogView \<Rightarrow> LogView" where
  "AddWinner playerName amount handRank =
     lv_Add LogKindWinner (playerName @ '' wins $'' @ dec_int amount
       @ (if handRank \<noteq> [] then '' with '' @ handRank else []))"

definition AddSystem :: "string \<Rightarrow> LogView \<Rightarrow> LogView" where
  "AddSystem txt = lv_Add LogKindSystem txt"

definition AddError :: "string \<Rightarrow> LogView \<Rightarrow> LogView" where
  "AddError txt = lv_Add LogKindError txt"

definition AddNetwork :: "string \<Rightarrow> LogView \<Rightarrow> LogView" where
  "AddNetwork txt = lv_Add LogKindNetwork txt"

definition ScrollUp :: "LogView \<Rightarrow> LogView" where
  "ScrollUp lv = (if lv_ScrollTop lv > 0 then lv\<lparr>lv_ScrollTop := lv_ScrollTop lv - 1\<rparr> else lv)"

definition ScrollDown :: "LogView \<Rightarrow> LogView" where
  "ScrollDown lv =
     (let mx = lv_Len lv - lv_MaxVisible lv;
          mx = (if mx < 0 then 0 else mx)
      in if lv_ScrollTop lv < mx then lv\<lparr>lv_ScrollTop := lv_ScrollTop lv + 1\<rparr> else lv)"

text \<open>The lines \<open>Render\<close> shows: the slice of the entries, \<open>None\<close> when taking it panics.\<close>

definition lv_visible :: "LogView \<Rightarrow> (LogEntryKind \<times> string) list option" where
  "lv_visible lv =
     (let e = lv_ScrollTop lv + lv_MaxVisible lv;
          e = (if e > lv_Len lv then lv_Len lv else e)
      in if 0 \<le> lv_ScrollTop lv \<and> lv_ScrollTop lv \<le> e
         then Some (take (nat (e - lv_ScrollTop lv)) (drop (nat (lv_ScrollTop lv)) (lv_Entries lv))) else None)"

section \<open>model.go\<close>

datatype UIMode = ModeSpectate | ModeBetting | ModeShowdown | ModeLobby | ModeError

record Model =
  ui_GameState :: "nat option"
  ui_LocalPlayerID :: string
  ui_Mode :: UIMode
  ui_BetInput :: BetInputState
  ui_Log :: LogView
  ui_WinnerIDs :: "string \<rightharpoonup> bool"
  ui_HandRanks :: "string \<rightharpoonup> string"
  ui_ErrorText :: string
  ui_LobbyStatus :: string
  ui_Width :: int
  ui_Height :: int

datatype ui_msg = WindowSizeMsg int int | KeyMsg string | GameStateMsg nat | ActionResultMsg string
  | WinnerMsg "string \<rightharpoonup> bool" "string \<rightharpoonup> string" "(string \<times> i64) list" | NetworkMsg string | ErrorMsg string

text \<open>The zero value of the input, until the first turn.\<close>

definition zero_input :: BetInputState where
  "zero_input = \<lparr>bi_ToCall = 0, bi_MinRaise = 0, bi_Stack = 0, bi_CanCheck = False, bi_Selected = 0,
     bi_RaiseInput = [], bi_InputActive = False, bi_Submitted = None\<rparr>"

definition NewModel :: "string \<Rightarrow> Model" where
  "NewModel localPlayerID =
     \<lparr>ui_GameState = None, ui_LocalPlayerID = localPlayerID, ui_Mode = ModeLobby, ui_BetInput = zero_input,
      ui_Log = NewLogView, ui_WinnerIDs = Map.empty, ui_HandRanks = Map.empty, ui_ErrorText = [],
      ui_LobbyStatus = [], ui_Width = 100, ui_Height = 30 + 8 + 4\<rparr>"

definition playerName :: "heap \<Rightarrow> Model \<Rightarrow> string \<Rightarrow> string" where
  "playerName h m playerID =
     (case ui_GameState m of None \<Rightarrow> playerID
      | Some a \<Rightarrow> (case find (\<lambda>p. p_id p = playerID) (gs_players (h a)) of None \<Rightarrow> playerID | Some p \<Rightarrow> p_name p))"

definition upd_log :: "(LogView \<Rightarrow> LogView) \<Rightarrow> Model \<Rightarrow> Model" where
  "upd_log f m = m\<lparr>ui_Log := f (ui_Log m)\<rparr>"

definition upd_input :: "(BetInputState \<Rightarrow> BetInputState) \<Rightarrow> Model \<Rightarrow> Model" where
  "upd_input f m = m\<lparr>ui_BetInput := f (ui_BetInput m)\<rparr>"

text \<open>The second component is what goes to the \<open>OnAction\<close> callback.\<close>

definition submitAction :: "heap \<Rightarrow> Model \<Rightarrow> Model \<times> Action list" where
  "submitAction h m =
     (case Confirm (ui_BetInput m) of (betAction, errStr) \<Rightarrow>
        if errStr \<noteq> [] then (upd_log (AddError errStr) m, [])
        else case betAction of None \<Rightarrow> (m, [])
          | Some ba \<Rightarrow> let a = mk_action (ui_LocalPlayerID m) (ba_Type ba) (ba_Amount ba);
                         m = upd_log (AddAction (playerName h m (ui_LocalPlayerID m)) a) m
             in (m\<lparr>ui_Mode := ModeSpectate\<rparr>, [a]))"

definition handleBettingKey :: "heap \<Rightarrow> string \<Rightarrow> Model \<Rightarrow> Model \<times> Action list" where
  "handleBettingKey h k m =
     (if bi_InputActive (ui_BetInput m) then
        (if k = ''enter'' then submitAction h (upd_input (\<lambda>s. s\<lparr>bi_InputActive := False\<rparr>) m)
         else if k = ''esc'' then (upd_input (\<lambda>s. s\<lparr>bi_InputActive := False, bi_RaiseInput := []\<rparr>) m, [])
         else if k = ''backspace'' then (upd_input Backspace m, [])
         else if length k = 1 then (upd_input (AppendChar (hd k)) m, []) else (m, []))
      else if k = ''right'' \<or> k = ''l'' \<or> k = ''tab'' then (upd_input SelectNext m, [])
      else if k = ''left'' \<or> k = ''h'' \<or> k = ''shift+tab'' then (upd_input SelectPrev m, [])
      else if k = ''f'' then (upd_input (\<lambda>s. s\<lparr>bi_Selected := 0\<rparr>) m, [])
      else if k = ''c'' then (upd_input (\<lambda>s. s\<lparr>bi_Selected := 1\<rparr>) m, [])
      else if k = ''r'' then (upd_input ActivateInput m, [])
      else if k = ''a'' then (upd_input (\<lambda>s. s\<lparr>bi_Selected := 3\<rparr>) m, [])
      else if k = ''enter'' \<or> k = '' '' then
        (if bi_Selected (ui_BetInput m) = 2 \<and> \<not> bi_InputActive (ui_BetInput m) then (upd_input ActivateInput m, [])
         else submitAction h m)
      else if k = ''up'' \<or> k = ''k'' then (upd_log ScrollUp m, [])
      else if k = ''down'' \<or> k = ''j'' then (upd_log ScrollDown m, [])
      else (m, []))"

definition handleKey :: "heap \<Rightarrow> string \<Rightarrow> Model \<Rightarrow> Model \<times> Action list" where
  "handleKey h k m =
     (case ui_Mode m of ModeBetting \<Rightarrow> handleBettingKey h k m
      | ModeLobby \<Rightarrow> (m, [])
      | ModeError \<Rightarrow> (if k = ''enter'' \<or> k = ''esc'' then m\<lparr>ui_Mode := ModeSpectate, ui_ErrorText := []\<rparr> else m, [])
      | _ \<Rightarrow> (if k = ''up'' \<or> k = ''k'' then upd_log ScrollUp m
             else if k = ''down'' \<or> k = ''j'' then upd_log ScrollDown m else m, []))"

definition show_state :: "heap \<Rightarrow> nat \<Rightarrow> Model \<Rightarrow> Model" where
  "show_state h a m =
     (let prev = ui_GameState m;
          m = m\<lparr>ui_GameState := Some a\<rparr>;
          m = (if prev = None \<or> gs_phase (h (the prev)) \<noteq> gs_phase (h a) then upd_log (AddPhase (gs_phase (h a))) m else m)
      in case gs_phase (h a) of PhaseSettled \<Rightarrow> m\<lparr>ui_Mode := ModeShowdown\<rparr>
         | PhaseWaiting \<Rightarrow> m\<lparr>ui_Mode := ModeLobby\<rparr>
         | _ \<Rightarrow> (case CurrentPlayer (h a) of None \<Rightarrow> m\<lparr>ui_Mode := ModeSpectate\<rparr>
             | Some current \<Rightarrow>
                 if p_id current = ui_LocalPlayerID m
                 then m\<lparr>ui_Mode := ModeBetting, ui_BetInput := NewBetInputState current (h a)\<rparr>
                 else m\<lparr>ui_Mode := ModeSpectate\<rparr>))"

definition show_winners :: "heap \<Rightarrow> (string \<rightharpoonup> bool) \<Rightarrow> (string \<rightharpoonup> string) \<Rightarrow> (string \<times> i64) list \<Rightarrow> Model \<Rightarrow> Model" where
  "show_winners h winnerIDs handRanks payouts m =
     fold (\<lambda>(pid, payout) m. if payout > 0
         then upd_log (AddWinner (playerName h m pid) payout (case handRanks pid of None \<Rightarrow> [] | Some r \<Rightarrow> r)) m else m)
       payouts (m\<lparr>ui_WinnerIDs := winnerIDs, ui_HandRanks := handRanks, ui_Mode := ModeShowdown\<rparr>)"

text \<open>The third component: the program is to quit.\<close>

fun ui_Update :: "heap \<Rightarrow> ui_msg \<Rightarrow> Model \<Rightarrow> Model \<times> Action list \<times> bool" where
  "ui_Update h (WindowSizeMsg w hgt) m = (m\<lparr>ui_Width := w, ui_Height := hgt\<rparr>, [], False)"
| "ui_Update h (KeyMsg k) m =
     (if k = ''ctrl+c'' \<or> k = ''q'' \<and> ui_Mode m \<noteq> ModeBetting then (m, [], True)
      else case handleKey h k m of (m, acts) \<Rightarrow> (m, acts, False))"
| "ui_Update h (GameStateMsg a) m = (show_state h a m, [], False)"
| "ui_Update h (ActionResultMsg err) m =
     (if err \<noteq> [] then upd_input (\<lambda>s. s\<lparr>bi_Submitted := None\<rparr>) (upd_log (AddError err) m)
      else m\<lparr>ui_Mode := ModeSpectate\<rparr>, [], False)"
| "ui_Update h (WinnerMsg winnerIDs handRanks payouts) m = (show_winners h winnerIDs handRanks payouts m, [], False)"
| "ui_Update h (NetworkMsg txt) m = (upd_log (AddNetwork txt) m, [], False)"
| "ui_Update h (ErrorMsg txt) m = (upd_log (AddError txt) (m\<lparr>ui_ErrorText := txt, ui_Mode := ModeError\<rparr>), [], False)"

text \<open>The keys of one turn; quitting ends them.\<close>

fun press_keys :: "heap \<Rightarrow> string list \<Rightarrow> Model \<Rightarrow> Model \<times> Action list" where
  "press_keys h [] m = (m, [])"
| "press_keys h (k # ks) m = (case ui_Update h (KeyMsg k) m of (m', acts, quit) \<Rightarrow>
     if quit then (m', acts) else (case press_keys h ks m' of (m'', acts') \<Rightarrow> (m'', acts @ acts')))"

section \<open>The log's window\<close>

definition window_ok :: "LogView \<Rightarrow> bool" where
  "window_ok lv \<longleftrightarrow> lv_MaxVisible lv = 6 \<and> 0 \<le> lv_ScrollTop lv
     \<and> (lv_ScrollTop lv = 0 \<or> lv_ScrollTop lv + lv_MaxVisible lv \<le> lv_Len lv)"

lemma window_ok_new: "window_ok NewLogView"
  by (simp add: window_ok_def NewLogView_def)

lemma window_ok_step:
  assumes "window_ok lv"
  shows "window_ok (lv_Add k t lv)" and "window_ok (ScrollUp lv)" and "window_ok (ScrollDown lv)"
  using assms by (auto simp: window_ok_def lv_Add_def lv_Len_def ScrollUp_def ScrollDown_def Let_def)

lemma window_ok_adds:
  assumes "window_ok lv"
  shows "window_ok (AddAction n a lv)" and "window_ok (AddPhase ph lv)" and "window_ok (AddWinner n x r lv)"
    and "window_ok (AddError t lv)" and "window_ok (AddNetwork t lv)"
  using assms by (simp_all add: AddAction_def AddPhase_def AddWinner_def AddError_def AddNetwork_def window_ok_step)

lemma ui_Log_upd [simp]: "ui_Log (upd_log f m) = f (ui_Log m)" "ui_Log (upd_input g m) = ui_Log m"
  by (simp_all add: upd_log_def upd_input_def)

lemma show_state_window: "window_ok (ui_Log m) \<Longrightarrow> window_ok (ui_Log (show_state h a m))"
  by (cases "gs_phase (h a)"; cases "CurrentPlayer (h a)") (simp_all add: show_state_def Let_def window_ok_adds)

lemma submit_window: "window_ok (ui_Log m) \<Longrightarrow> window_ok (ui_Log (fst (submitAction h m)))"
  by (simp add: submitAction_def Let_def window_ok_adds split: prod.split option.split)

lemma if_both: "P x \<Longrightarrow> P y \<Longrightarrow> P (if b then x else y)"
  by simp

text \<open>What a key can do in a turn.\<close>

definition input_edits :: "(BetInputState \<Rightarrow> BetInputState) set" where
  "input_edits = {Backspace, SelectNext, SelectPrev, ActivateInput, \<lambda>s. s\<lparr>bi_InputActive := False, bi_RaiseInput := []\<rparr>,
     \<lambda>s. s\<lparr>bi_Selected := 0\<rparr>, \<lambda>s. s\<lparr>bi_Selected := 1\<rparr>, \<lambda>s. s\<lparr>bi_Selected := 3\<rparr>} \<union> range AppendChar"

lemma betting_key_all:
  assumes "Q (submitAction h (upd_input (\<lambda>s. s\<lparr>bi_InputActive := False\<rparr>) m))" and "Q (submitAction h m)"
    and f: "\<And>f. f \<in> input_edits \<Longrightarrow> Q (upd_input f m, [])"
    and g: "\<And>g. g \<in> {ScrollUp, ScrollDown} \<Longrightarrow> Q (upd_log g m, [])" and "Q (m, [])"
  shows "Q (handleBettingKey h k m)"
  unfolding handleBettingKey_def by (intro if_both [where P = Q] assms f g) (simp_all add: input_edits_def)

lemma key_all:
  assumes "ui_Mode m = ModeBetting \<Longrightarrow> Q (handleBettingKey h k m)"
    and g: "\<And>g. ui_Mode m \<noteq> ModeBetting \<Longrightarrow> g \<in> {id, upd_log ScrollUp, upd_log ScrollDown} \<Longrightarrow> Q (g m, [])"
    and "ui_Mode m = ModeError \<Longrightarrow> Q (m\<lparr>ui_Mode := ModeSpectate, ui_ErrorText := []\<rparr>, [])"
  shows "Q (handleKey h k m)"
  using assms(1,3) g [of id] g [of "upd_log ScrollUp"] g [of "upd_log ScrollDown"]
  by (cases "ui_Mode m") (simp_all add: handleKey_def if_both)

lemma key_window: "window_ok (ui_Log m) \<Longrightarrow> window_ok (ui_Log (fst (handleKey h k m)))"
  by (rule key_all [where Q = "\<lambda>r. window_ok (ui_Log (fst r))"], rule betting_key_all [where Q = "\<lambda>r. window_ok (ui_Log (fst r))"])
    (auto simp: window_ok_step submit_window)

lemma winners_window: "window_ok (ui_Log m) \<Longrightarrow> window_ok (ui_Log (show_winners h w r ps m))"
proof -
  have "window_ok (ui_Log (fold (\<lambda>(pid, payout) m. if payout > 0
         then upd_log (AddWinner (playerName h m pid) payout (case r pid of None \<Rightarrow> [] | Some r \<Rightarrow> r)) m else m) ps m'))"
    if "window_ok (ui_Log m')" for m'
    using that by (induction ps arbitrary: m') (auto simp: window_ok_adds)
  then show "window_ok (ui_Log m) \<Longrightarrow> window_ok (ui_Log (show_winners h w r ps m))" by (simp add: show_winners_def)
qed

lemma update_window: "window_ok (ui_Log m) \<Longrightarrow> window_ok (ui_Log (fst (ui_Update h msg m)))"
proof (cases msg)
  case (KeyMsg k)
  then show "window_ok (ui_Log m) \<Longrightarrow> ?thesis" using key_window [of m h k] by (auto split: prod.split)
qed (simp_all add: show_state_window winners_window window_ok_adds)

lemma window_slice:
  assumes "window_ok lv"
  shows "\<exists>ls. lv_visible lv = Some ls \<and> int (length ls) = min 6 (lv_Len lv)"
  using assms by (auto simp: window_ok_def lv_visible_def lv_Len_def Let_def min_def)

text \<open>
  whatever messages the screen is sent, each with the games as they then are, its log never
  scrolls out of range: the slice that \<open>Render\<close> takes does not panic, and it fills the panel as soon
  as there are lines enough.
\<close>

theorem log_window_in_range:
  "\<exists>ls. lv_visible (ui_Log (fold (\<lambda>(h, msg) m. fst (ui_Update h msg m)) msgs (NewModel me))) = Some ls
     \<and> int (length ls) = min 6 (lv_Len (ui_Log (fold (\<lambda>(h, msg) m. fst (ui_Update h msg m)) msgs (NewModel me))))"
proof -
  have "window_ok (ui_Log (fold (\<lambda>(h, msg) m. fst (ui_Update h msg m)) msgs m))" if "window_ok (ui_Log m)" for m
    using that by (induction msgs arbitrary: m) (auto simp: update_window)
  from this [of "NewModel me"] show ?thesis using window_slice by (simp add: NewModel_def window_ok_new)
qed

section \<open>A turn\<close>

lemma upd_input_parts [simp]:
  "ui_Mode (upd_input f m) = ui_Mode m" "ui_BetInput (upd_input f m) = f (ui_BetInput m)"
  "ui_LocalPlayerID (upd_input f m) = ui_LocalPlayerID m"
  "ui_Mode (upd_log g m) = ui_Mode m" "ui_BetInput (upd_log g m) = ui_BetInput m"
  "ui_LocalPlayerID (upd_log g m) = ui_LocalPlayerID m"
  by (simp_all add: upd_input_def upd_log_def)

text \<open>At the input of the player \<open>p\<close>.\<close>

definition at_input :: "player \<Rightarrow> game_state \<Rightarrow> Model \<Rightarrow> bool" where
  "at_input p gs m \<longleftrightarrow> ui_Mode m = ModeBetting \<and> ui_LocalPlayerID m = p_id p \<and> input_ok p gs (ui_BetInput m)"

definition confirmed :: "player \<Rightarrow> game_state \<Rightarrow> Action \<Rightarrow> bool" where
  "confirmed p gs a \<longleftrightarrow> (\<exists>s ba. input_ok p gs s \<and> Confirm s = (Some ba, []) \<and> a = mk_action (p_id p) (ba_Type ba) (ba_Amount ba))"

lemma submit_turn:
  assumes "at_input p gs m"
  shows "(at_input p gs (fst (submitAction h m)) \<and> snd (submitAction h m) = [])
    \<or> (ui_Mode (fst (submitAction h m)) = ModeSpectate \<and> (\<exists>a. snd (submitAction h m) = [a] \<and> confirmed p gs a))"
  using assms unfolding at_input_def confirmed_def submitAction_def
  by (auto simp: Let_def split: prod.split option.split)

lemma key_turn:
  assumes "at_input p gs m" and "0 \<le> gs_minRaise gs" and "gs_minRaise gs \<le> 2 ^ 60"
  shows "(at_input p gs (fst (handleKey h k m)) \<and> snd (handleKey h k m) = [])
    \<or> (ui_Mode (fst (handleKey h k m)) = ModeSpectate \<and> (\<exists>a. snd (handleKey h k m) = [a] \<and> confirmed p gs a))"
proof -
  have i: "input_ok p gs (ui_BetInput m)" "ui_Mode m = ModeBetting" "ui_LocalPlayerID m = p_id p" using assms(1) by (simp_all add: at_input_def)
  have "at_input p gs (upd_input (\<lambda>s. s\<lparr>bi_InputActive := False\<rparr>) m)" using i select_ok by (simp add: at_input_def)
  note sub = submit_turn [OF assms(1), of h] submit_turn [OF this, of h]
  let ?Q = "\<lambda>r. (at_input p gs (fst r) \<and> snd r = []) \<or> (ui_Mode (fst r) = ModeSpectate \<and> (\<exists>a. snd r = [a] \<and> confirmed p gs a))"
  have edit: "input_ok p gs (f (ui_BetInput m))" if "f \<in> input_edits" for f
    using that select_ok [OF i(1)] ActivateInput_ok [OF i(1) assms(2,3)] AppendChar_ok [OF i(1)] Backspace_ok [OF i(1)]
    by (auto simp: input_edits_def)
  have "?Q (handleBettingKey h k m)"
    by (rule betting_key_all [where Q = ?Q]) (use i sub edit in \<open>auto simp: at_input_def\<close>)
  then show ?thesis using i(2) by (simp add: handleKey_def)
qed

lemma spectate_keys: "ui_Mode m = ModeSpectate \<Longrightarrow> snd (press_keys h ks m) = []"
  proof (induction ks arbitrary: m)
  case (Cons k ks)
  have "ui_Mode (fst (handleKey h k m)) = ModeSpectate \<and> snd (handleKey h k m) = []"
    by (rule key_all [where Q = "\<lambda>r. ui_Mode (fst r) = ModeSpectate \<and> snd r = []"]) (use Cons.prems in auto)
  then show ?case using Cons.IH [of "fst (handleKey h k m)"] by (auto split: prod.split)
qed simp

lemma press_keys_turn:
  assumes "at_input p gs m" and "0 \<le> gs_minRaise gs" and "gs_minRaise gs \<le> 2 ^ 60"
  shows "snd (press_keys h ks m) = [] \<or> (\<exists>a. snd (press_keys h ks m) = [a] \<and> confirmed p gs a)"
  using assms(1)
proof (induction ks arbitrary: m)
  case (Cons k ks)
  show ?case
  proof (cases "k = ''ctrl+c''")
    case False
    obtain m' acts where k: "handleKey h k m = (m', acts)" by fastforce
    have "ui_Update h (KeyMsg k) m = (m', acts, False)" using False Cons.prems by (simp add: k at_input_def)
    then show ?thesis
      using key_turn [OF Cons.prems assms(2,3), of h k] Cons.IH [of m'] spectate_keys [of m' h ks]
      by (auto simp: k split: prod.split)
  qed simp
qed simp

text \<open>The screen once the live state is shown to the player whose turn it is.\<close>

lemma shown_turn:
  assumes "betting_phase (gs_phase (h a))" and "CurrentPlayer (h a) = Some p" and "ui_LocalPlayerID m = p_id p"
  shows "at_input p (h a) (show_state h a m)" and "ui_BetInput (show_state h a m) = NewBetInputState p (h a)"
  using assms by (cases "gs_phase (h a)"; simp add: show_state_def Let_def at_input_def new_ok)+

text \<open>
  C24: what a player types is never refused by the game. The live state of a hand (the invariant of the
  hand, dealt cryptographically, in a betting round, with a sane minimum raise) is shown to the player
  whose turn it is; whatever keys are then pressed, at most one action goes out, and the machine
  accepts it. A raise that goes out is at least the minimum, and the chips for it are there, with no
  wrap-around: the amount typed has at most ten digits.
\<close>

theorem typed_action_accepted:
  assumes "hand_inv (h a)" and "cryptoMode (h a)" and "board_ok (h a)" and "betting_phase (gs_phase (h a))"
    and "CurrentPlayer (h a) = Some p" and "ui_LocalPlayerID m = p_id p" and "gs_minRaise (h a) \<le> 2 ^ 60"
    and "snd (press_keys h ks (show_state h a m)) = acts"
  shows "acts = [] \<or> (\<exists>x. acts = [x] \<and> fst (ApplyAction x (h a)) = None
    \<and> (a_type x = ActionRaise \<longrightarrow> gs_minRaise (h a) \<le> a_amount x
        \<and> gs_currentBet (h a) - p_currentBet p + a_amount x \<le> p_stack p))"
proof (cases "acts = []")
  case False
  have gi: "chips_inv (h a)" "turn_ok (h a)" using assms(1,4) by (auto simp: hand_inv_def)
  then have min: "0 \<le> gs_minRaise (h a)" by (simp add: chips_inv_def)
  have p: "p \<in> set (gs_players (h a))" "CanAct p"
    using assms(4,5) gi(2) by (auto simp: CurrentPlayer_Some turn_ok_def)
  from press_keys_turn [OF shown_turn(1) [of h a p m] min assms(7), of h ks] False assms(4-6,8)
  obtain x where x: "acts = [x]" "confirmed p (h a) x" by auto
  then obtain s ba where s: "input_ok p (h a) s" "Confirm s = (Some ba, [])" "x = mk_action (p_id p) (ba_Type ba) (ba_Amount ba)"
    by (auto simp: confirmed_def)
  let ?i = "nat (gs_actionIdx (h a))"
  obtain g where g: "act x ?i p (h a) = (None, g)"
    using confirmed_act_ok [OF s(1,2) gi(1) p assms(7), of ?i] s(3) by (metis prod.collapse)
  note f = act_frame [OF g]
  have "cryptoMode g" "betting_phase (gs_phase g)" "board_ok g"
    using f assms(2-4) by (simp_all add: cryptoMode_def board_ok_def)
  then have "fst (after_action x g) = None" by (rule after_action_board(1))
  then have "fst (ApplyAction x (h a)) = None" using g s(3) assms(4,5) by (simp add: ApplyAction_def)
  moreover have "gs_minRaise (h a) \<le> a_amount x \<and> gs_currentBet (h a) - p_currentBet p + a_amount x \<le> p_stack p"
    if "a_type x = ActionRaise"
    using confirmed_raise(1,4) [OF s(1,2) _ gi(1) p assms(7)] that s(3) by simp
  ultimately show ?thesis using x(1) by blast
qed simp

text \<open>At a table of the demonstration: the player raises by 40 and confirms.\<close>

definition demo_keys :: "string list" where
  "demo_keys = [''r'', ''backspace'', ''backspace'', ''4'', ''0'', ''enter'', ''enter'']"

theorem typed_action_accepted_witness:
  "\<exists>x. snd (press_keys (\<lambda>_. snd (StartHandCrypto (demo_table [100, 200]))) demo_keys
      (show_state (\<lambda>_. snd (StartHandCrypto (demo_table [100, 200]))) 0 (NewModel ''a''))) = [x]
     \<and> a_type x = ActionRaise \<and> a_amount x = 40
     \<and> fst (ApplyAction x (snd (StartHandCrypto (demo_table [100, 200])))) = None"
proof -
  let ?gs = "snd (StartHandCrypto (demo_table [100, 200]))"
  let ?h = "\<lambda>_ :: nat. ?gs"
  let ?out = "snd (press_keys ?h demo_keys (show_state ?h 0 (NewModel ''a'')))"
  have s: "fst (StartHandCrypto (demo_table [100, 200])) = None" by code_simp
  have f: "fresh_hand (demo_table [100, 200])" by code_simp
  have "StartHandCrypto (demo_table [100, 200]) = (None, ?gs)" using s by (metis prod.collapse)
  then have inv: "hand_inv ?gs" by (rule StartHandCrypto_hand(1) [OF f])
  have b: "board_ok (snd (StartHandCrypto (demo_table [100, 200])))" by code_simp
  have c: "cryptoMode (snd (StartHandCrypto (demo_table [100, 200])))" by code_simp
  have ph: "betting_phase (gs_phase (snd (StartHandCrypto (demo_table [100, 200]))))" by code_simp
  have mr: "gs_minRaise (snd (StartHandCrypto (demo_table [100, 200]))) \<le> 2 ^ 60" by code_simp
  have "(case CurrentPlayer (snd (StartHandCrypto (demo_table [100, 200]))) of None \<Rightarrow> False | Some p \<Rightarrow> p_id p = ''a'')"
    by code_simp
  then obtain p where p: "CurrentPlayer ?gs = Some p" "ui_LocalPlayerID (NewModel ''a'') = p_id p"
    by (auto simp: NewModel_def split: option.splits)
  have "snd (press_keys (\<lambda>_. snd (StartHandCrypto (demo_table [100, 200]))) demo_keys
      (show_state (\<lambda>_. snd (StartHandCrypto (demo_table [100, 200]))) 0 (NewModel ''a''))) = [mk_action ''a'' ActionRaise 40]"
    by code_simp
  then show ?thesis
    using typed_action_accepted [of ?h 0 p "NewModel ''a''" demo_keys ?out, OF inv c b ph p mr refl] by simp
qed

text \<open>
  Showing the state anew sets the input back: the amount typed so far and the choice are lost. The
  program does so a quarter of a second after each time it has shown the state.
\<close>

lemma refresh_discards_input:
  assumes "betting_phase (gs_phase (h a))" and "CurrentPlayer (h a) = Some p" and "ui_LocalPlayerID m = p_id p"
  shows "ui_BetInput (show_state h a (fst (press_keys h ks (show_state h a m)))) = NewBetInputState p (h a)"
proof -
  have me: "ui_LocalPlayerID (fst (handleKey h k m)) = ui_LocalPlayerID m" for k m
    by (rule key_all [where Q = "\<lambda>r. ui_LocalPlayerID (fst r) = ui_LocalPlayerID m"],
        rule betting_key_all [where Q = "\<lambda>r. ui_LocalPlayerID (fst r) = ui_LocalPlayerID m"])
      (auto simp: submitAction_def Let_def split: prod.split option.split)
  have "ui_LocalPlayerID (fst (press_keys h ks m)) = ui_LocalPlayerID m" for m
  proof (induction ks arbitrary: m)
    case (Cons k ks)
    show ?case using Cons [of "fst (handleKey h k m)"] me [of k m] by (auto split: prod.split)
  qed simp
  moreover have "ui_LocalPlayerID (show_state h a m) = p_id p"
    using shown_turn(1) [of h a p m] assms by (simp add: at_input_def)
  ultimately show ?thesis using shown_turn(2) [of h a p] assms(1,2) by simp
qed

text \<open>
  A change of phase is logged only when the state shown is another one: the machine changes the very
  state that the screen has kept, and the two phases compared are then the same.
\<close>

lemma phase_change_not_logged: "ui_GameState m = Some a \<Longrightarrow> ui_Log (show_state h a m) = ui_Log m"
  by (cases "gs_phase (h a)"; cases "CurrentPlayer (h a)") (simp_all add: show_state_def Let_def)

end
