(* ===== verification/Sequencer.thy ===== *)
theory Sequencer
  imports HandCards NodeNet "HOL-Library.AList" "HOL-Library.Sublist"
begin

text \<open>
  cmd/poker/main.go: the action sequencer, and the two ways an action reaches a replica's machine,
  from the local player and from the network; and a network of replicas, with all that happens to
  their machines. \<open>pending\<close> is a Go map; it is kept as the list of its entries, one per number.
\<close>

section \<open>The sequencer\<close>

record actionSequencer =
  sq_nextSeq :: i64
  sq_pending :: "(i64 \<times> PlayerAction) list"

definition new_sequencer :: actionSequencer where
  "new_sequencer = \<lparr>sq_nextSeq = 1, sq_pending = []\<rparr>"

lemma delete_shorter: "map_of p k = Some m \<Longrightarrow> length (AList.delete k p) < length p"
  by (auto simp: AList.delete_eq dest!: map_of_SomeD intro!: length_filter_less)

function seq_drain :: "i64 \<Rightarrow> (i64 \<times> PlayerAction) list \<Rightarrow> PlayerAction list \<times> i64 \<times> (i64 \<times> PlayerAction) list" where
  "seq_drain k p = (case map_of p k of None \<Rightarrow> ([], k, p)
     | Some m \<Rightarrow> (case seq_drain (w64 (k + 1)) (AList.delete k p) of (out, k', p') \<Rightarrow> (m # out, k', p')))"
  by pat_completeness auto
termination by (relation "measure (\<lambda>(k, p). length p)") (auto intro: delete_shorter)

declare seq_drain.simps [simp del]

definition push :: "PlayerAction \<Rightarrow> actionSequencer \<Rightarrow> PlayerAction list \<times> actionSequencer" where
  "push msg s = (case seq_drain (sq_nextSeq s) (AList.update (pa_Seq msg) msg (sq_pending s)) of
     (out, k, p) \<Rightarrow> (out, s\<lparr>sq_nextSeq := k, sq_pending := p\<rparr>))"

definition seq_reset :: "actionSequencer \<Rightarrow> actionSequencer" where
  "seq_reset s = s\<lparr>sq_nextSeq := 1, sq_pending := []\<rparr>"

section \<open>Actions on a replica\<close>

text \<open>The conversion \<open>game.ActionType\<close> keeps the low byte; \<open>int32\<close> of a type is its number.\<close>

definition action_of_code :: "int \<Rightarrow> ActionType" where
  "action_of_code x = (let k = nat (x mod 256) in
     if k = 0 then ActionFold else if k = 1 then ActionCheck else if k = 2 then ActionCall
     else if k = 3 then ActionRaise else if k = 4 then ActionAllIn else ActionUnknown k)"

definition action_code :: "ActionType \<Rightarrow> int" where
  "action_code t = (case t of ActionFold \<Rightarrow> 0 | ActionCheck \<Rightarrow> 1 | ActionCall \<Rightarrow> 2 | ActionRaise \<Rightarrow> 3
     | ActionAllIn \<Rightarrow> 4 | ActionUnknown k \<Rightarrow> int k)"

definition remote_action :: "PlayerAction \<Rightarrow> Action" where
  "remote_action rm = mk_action (pa_PlayerId rm) (action_of_code (pa_Action rm)) (pa_Amount rm)"

text \<open>The live machine (\<open>None\<close> before the first hand) and the sequencer.\<close>

record replica =
  rp_machine :: "game_state option"
  rp_seq :: actionSequencer

definition apply_ignoring :: "Action \<Rightarrow> game_state \<Rightarrow> game_state" where
  "apply_ignoring a gs = snd (ApplyAction a gs)"

definition bump :: "actionSequencer \<Rightarrow> i64 \<times> actionSequencer" where
  "bump s = (sq_nextSeq s, s\<lparr>sq_nextSeq := w64 (sq_nextSeq s + 1)\<rparr>)"

definition on_player_action :: "PlayerAction \<Rightarrow> replica \<Rightarrow> PlayerAction list \<times> replica" where
  "on_player_action msg r = (case rp_machine r of None \<Rightarrow> ([], r)
     | Some gs \<Rightarrow> (case push msg (rp_seq r) of (ready, s) \<Rightarrow>
         (ready, r\<lparr>rp_machine := Some (fold (\<lambda>rm. apply_ignoring (remote_action rm)) ready gs), rp_seq := s\<rparr>)))"

text \<open>The action to broadcast with its number.\<close>

definition applyAndBroadcast :: "Action \<Rightarrow> replica \<Rightarrow> (Action \<times> i64) option \<times> replica" where
  "applyAndBroadcast a r = (case rp_machine r of None \<Rightarrow> (None, r)
     | Some gs \<Rightarrow> (case bump (rp_seq r) of (outSeq, s) \<Rightarrow>
         (Some (a, outSeq), r\<lparr>rp_machine := Some (apply_ignoring a gs), rp_seq := s\<rparr>)))"

definition out_of_hand :: "player \<Rightarrow> bool" where
  "out_of_hand p \<longleftrightarrow> p_status p = StatusFolded \<or> p_status p = StatusSittingOut"

text \<open>A fold that the node makes itself counts only if the machine takes it.\<close>

definition fold_player :: "string \<Rightarrow> replica \<Rightarrow> (Action \<times> i64) option \<times> replica" where
  "fold_player peerID r = (case rp_machine r of None \<Rightarrow> (None, r)
     | Some gs \<Rightarrow> let a = mk_action peerID ActionFold 0
         in case ApplyAction a gs of (Some e, gs') \<Rightarrow> (None, r\<lparr>rp_machine := Some gs'\<rparr>)
            | (None, gs') \<Rightarrow> (case bump (rp_seq r) of (outSeq, s) \<Rightarrow>
                (Some (a, outSeq), r\<lparr>rp_machine := Some gs', rp_seq := s\<rparr>)))"

definition force_fold :: "string \<Rightarrow> replica \<Rightarrow> (Action \<times> i64) option \<times> replica" where
  "force_fold peerID r = (case rp_machine r of None \<Rightarrow> (None, r)
     | Some gs \<Rightarrow> if list_ex (\<lambda>p. p_id p = peerID \<and> out_of_hand p) (gs_players gs) then (None, r) else fold_player peerID r)"

definition foldGoneIfCurrent :: "string set \<Rightarrow> replica \<Rightarrow> (Action \<times> i64) option \<times> replica" where
  "foldGoneIfCurrent gone r = (case rp_machine r of None \<Rightarrow> (None, r)
     | Some gs \<Rightarrow> (case CurrentPlayer gs of None \<Rightarrow> (None, r)
         | Some cur \<Rightarrow> if p_id cur \<notin> gone \<or> out_of_hand cur then (None, r) else fold_player (p_id cur) r))"

text \<open>The message of \<open>BroadcastAction\<close>, by the table, the hand and the node's identity.\<close>

definition action_message :: "string \<Rightarrow> i64 \<Rightarrow> string \<Rightarrow> Action \<times> i64 \<Rightarrow> PlayerAction" where
  "action_message tableID handNum self sent = (case sent of (a, outSeq) \<Rightarrow>
     \<lparr>pa_TableId = tableID, pa_HandNum = handNum, pa_PlayerId = (if a_player a = [] then self else a_player a),
      pa_Action = action_code (a_type a), pa_Amount = a_amount a, pa_Seq = outSeq\<rparr>)"

section \<open>The replicas of a table\<close>

text \<open>
  All that happens to the machine of one replica during a hand: a message from the network, an action of
  the local player, the two kinds of folds the node makes for others, and, in crypto mode, the
  streets and the revealed cards that \<open>AdvanceCrypto\<close> gives to the same machine.
\<close>

datatype replica_event = Remote PlayerAction | Local Action | ForceFold string | FoldGone "string set"
  | Street "card list" | Reveal string "card \<times> card"

definition live_op :: "hand_op \<Rightarrow> replica \<Rightarrow> replica" where
  "live_op op r = r\<lparr>rp_machine := map_option (\<lambda>gs. snd (apply_op op gs)) (rp_machine r)\<rparr>"

fun replica_step :: "replica_event \<Rightarrow> replica \<Rightarrow> (Action \<times> i64) option \<times> replica" where
  "replica_step (Remote m) r = (None, snd (on_player_action m r))"
| "replica_step (Local a) r = applyAndBroadcast a r"
| "replica_step (ForceFold i) r = force_fold i r"
| "replica_step (FoldGone gone) r = foldGoneIfCurrent gone r"
| "replica_step (Street cards) r = (None, live_op (OpStreet cards) r)"
| "replica_step (Reveal i cards) r = (None, live_op (OpReveal i cards) r)"

text \<open>
  What an event does to the machine: the actions that are counted, and what else is applied. A fold
  that the machine refuses is not counted.
\<close>

datatype replica_op = Counted Action | Extra hand_op

fun apply_rop :: "replica_op \<Rightarrow> game_state \<Rightarrow> game_state" where
  "apply_rop (Counted a) gs = apply_ignoring a gs"
| "apply_rop (Extra op) gs = snd (apply_op op gs)"

definition actions_of :: "replica_op list \<Rightarrow> Action list" where
  "actions_of ops = concat (map (\<lambda>op. case op of Counted a \<Rightarrow> [a] | Extra _ \<Rightarrow> []) ops)"

lemma actions_of_simps [simp]:
  "actions_of [] = []" "actions_of (xs @ ys) = actions_of xs @ actions_of ys"
  "actions_of [Counted a] = [a]" "actions_of [Extra op] = []" "actions_of (map (\<lambda>x. Counted (f x)) zs) = map f zs"
  by (simp_all add: actions_of_def comp_def)

text \<open>The player that a fold of the node is for.\<close>

fun fold_target :: "replica_event \<Rightarrow> game_state \<Rightarrow> string option" where
  "fold_target (ForceFold i) gs = (if list_ex (\<lambda>p. p_id p = i \<and> out_of_hand p) (gs_players gs) then None else Some i)"
| "fold_target (FoldGone gone) gs = (case CurrentPlayer gs of None \<Rightarrow> None
     | Some cur \<Rightarrow> if p_id cur \<notin> gone \<or> out_of_hand cur then None else Some (p_id cur))"
| "fold_target _ gs = None"

fun applied :: "replica_event \<Rightarrow> replica \<Rightarrow> replica_op list" where
  "applied (Remote m) r = map (\<lambda>rm. Counted (remote_action rm)) (fst (on_player_action m r))"
| "applied (Local a) r = [Counted a]"
| "applied (Street cards) r = [Extra (OpStreet cards)]"
| "applied (Reveal i cards) r = [Extra (OpReveal i cards)]"
| "applied ev r = (case rp_machine r of None \<Rightarrow> [] | Some gs \<Rightarrow> (case fold_target ev gs of None \<Rightarrow> []
     | Some i \<Rightarrow> if fst (fold_player i r) = None then [Extra (OpAction (mk_action i ActionFold 0))]
         else [Counted (mk_action i ActionFold 0)]))"

text \<open>
  The table: the replica of every node, the action messages that were sent, and for each node what was
  applied to its machine. A node gets any message that was sent, in any order, late, and as often as
  the network likes; nobody forges one.
\<close>

record table_net =
  tb_nodes :: "string \<Rightarrow> replica"
  tb_sent :: "PlayerAction list"
  tb_done :: "string \<Rightarrow> replica_op list"

datatype table_event = Own string replica_event | Deliver string nat

definition node_step :: "string \<Rightarrow> i64 \<Rightarrow> string \<Rightarrow> replica_event \<Rightarrow> table_net \<Rightarrow> table_net" where
  "node_step tableID handNum i ev t = (case replica_step ev (tb_nodes t i) of (out, r) \<Rightarrow>
     t\<lparr>tb_nodes := (tb_nodes t)(i := r),
       tb_sent := tb_sent t @ (case out of None \<Rightarrow> [] | Some s \<Rightarrow> [action_message tableID handNum i s]),
       tb_done := (tb_done t)(i := tb_done t i @ applied ev (tb_nodes t i))\<rparr>)"

fun table_step :: "string \<Rightarrow> i64 \<Rightarrow> table_event \<Rightarrow> table_net \<Rightarrow> table_net" where
  "table_step tableID handNum (Own i ev) t = node_step tableID handNum i ev t"
| "table_step tableID handNum (Deliver i k) t =
     (if k < length (tb_sent t) then node_step tableID handNum i (Remote (tb_sent t ! k)) t else t)"

definition table_run :: "string \<Rightarrow> i64 \<Rightarrow> table_event list \<Rightarrow> table_net \<Rightarrow> table_net" where
  "table_run tableID handNum evs t = fold (table_step tableID handNum) evs t"

definition start_table :: "(string \<Rightarrow> game_state) \<Rightarrow> table_net" where
  "start_table gs = \<lparr>tb_nodes = (\<lambda>i. \<lparr>rp_machine = Some (gs i), rp_seq = new_sequencer\<rparr>), tb_sent = [], tb_done = (\<lambda>_. [])\<rparr>"

text \<open>The own events of a node: its actions are named and of the five types, and players have names.\<close>

definition plain_type :: "ActionType \<Rightarrow> bool" where
  "plain_type t \<longleftrightarrow> (\<forall>k. t \<noteq> ActionUnknown k)"

fun own_event :: "table_event \<Rightarrow> bool" where
  "own_event (Own i (Remote m)) = False"
| "own_event (Own i (Local a)) \<longleftrightarrow> a_player a \<noteq> [] \<and> plain_type (a_type a)"
| "own_event (Own i (ForceFold j)) \<longleftrightarrow> j \<noteq> []"
| "own_event (Own i (FoldGone gone)) \<longleftrightarrow> [] \<notin> gone"
| "own_event _ = True"

text \<open>No number was sent with two different actions.\<close>

definition one_action_per_number :: "PlayerAction list \<Rightarrow> bool" where
  "one_action_per_number ms \<longleftrightarrow> (\<forall>m\<in>set ms. \<forall>m'\<in>set ms. pa_Seq m = pa_Seq m' \<longrightarrow> remote_action m = remote_action m')"

lemma action_of_code_code: "plain_type t \<Longrightarrow> action_of_code (action_code t) = t"
  by (cases t) (simp_all add: plain_type_def action_of_code_def action_code_def Let_def)

lemma remote_action_message:
  "a_player a \<noteq> [] \<Longrightarrow> plain_type (a_type a) \<Longrightarrow> remote_action (action_message tableID handNum i (a, q)) = a"
  by (cases a) (simp add: action_message_def remote_action_def action_of_code_code mk_action_def)

section \<open>What draining gives\<close>

lemma upto_first: "k < k' \<Longrightarrow> [k..k' - 1] = k # [k + 1..k' - 1]"
  by (simp add: upto.simps [of k])

lemma seq_drain_spec:
  assumes "seq_drain k p = (out, k', p')" and "\<forall>j. map_of p j \<noteq> None \<longrightarrow> j < 2 ^ 62" and "1 \<le> k" and "k \<le> 2 ^ 62"
  shows "k \<le> k' \<and> k' \<le> 2 ^ 62 \<and> (\<forall>j. k \<le> j \<and> j < k' \<longrightarrow> map_of p j \<noteq> None) \<and> map_of p k' = None
    \<and> out = map (\<lambda>j. the (map_of p j)) [k..k' - 1]
    \<and> map_of p' = (\<lambda>j. if k \<le> j \<and> j < k' then None else map_of p j) \<and> set p' \<subseteq> set p"
  using assms
proof (induction k p arbitrary: out k' p' rule: seq_drain.induct)
  case (1 k p)
  show ?case
  proof (cases "map_of p k")
    case None
    then show ?thesis using 1(2-) by (auto simp: seq_drain.simps [of k p] fun_eq_iff)
  next
    case (Some m)
    have k: "k < 2 ^ 62" using 1(3) Some by auto
    then have w: "w64 (k + 1) = k + 1" using 1(4) by (intro w64_id) (simp add: in64_def)
    let ?q = "AList.delete k p"
    obtain out1 where d: "seq_drain (k + 1) ?q = (out1, k', p')" "out = m # out1"
      using 1(2) by (auto simp: seq_drain.simps [of k p] Some w split: prod.splits)
    have q: "map_of ?q = (map_of p)(k := None)" by (simp add: AList.delete_conv')
    have "\<forall>j. map_of ?q j \<noteq> None \<longrightarrow> j < 2 ^ 62" using 1(3) by (simp add: q)
    then have ih: "k + 1 \<le> k'" "k' \<le> 2 ^ 62" "\<forall>j. k + 1 \<le> j \<and> j < k' \<longrightarrow> map_of ?q j \<noteq> None" "map_of ?q k' = None"
      "out1 = map (\<lambda>j. the (map_of ?q j)) [k + 1..k' - 1]"
      "map_of p' = (\<lambda>j. if k + 1 \<le> j \<and> j < k' then None else map_of ?q j)" "set p' \<subseteq> set ?q"
      using 1(1) [OF Some, unfolded w, OF d(1)] 1(4) k by auto
    have "map_of p j \<noteq> None" if "k \<le> j" "j < k'" for j
      using ih(3) [rule_format, of j] that Some by (cases "j = k") (auto simp: q)
    moreover have "map_of p k' = None" using ih(1,4) by (simp add: q split: if_splits)
    moreover have "out = map (\<lambda>j. the (map_of p j)) [k..k' - 1]"
      using ih(1) by (simp add: d(2) ih(5) upto_first Some q)
    moreover have "map_of p' = (\<lambda>j. if k \<le> j \<and> j < k' then None else map_of p j)"
      using ih(1) by (auto simp: ih(6) q fun_eq_iff)
    moreover have "set p' \<subseteq> set p" using ih(7) by (auto simp: AList.delete_eq)
    ultimately show ?thesis using ih(1,2) by simp
  qed
qed

section \<open>What a replica has done\<close>

lemma update_entries: "set (AList.update i m p) \<subseteq> insert (i, m) (set p)"
  by (induction p) (auto split: prod.splits)

lemma fold_player_cases:
  assumes "rp_machine r = Some gs"
  obtains (refused) "fst (fold_player i r) = None" "rp_seq (snd (fold_player i r)) = rp_seq r"
  | (taken) "fst (fold_player i r) = Some (mk_action i ActionFold 0, sq_nextSeq (rp_seq r))"
    "snd (fold_player i r) = r\<lparr>rp_machine := Some (apply_ignoring (mk_action i ActionFold 0) (the (rp_machine r))), rp_seq := snd (bump (rp_seq r))\<rparr>"
  using assms that
  by (cases "ApplyAction (mk_action i ActionFold 0) gs"; cases "fst (ApplyAction (mk_action i ActionFold 0) gs)")
    (auto simp: fold_player_def bump_def apply_ignoring_def Let_def)

lemma fold_step:
  assumes "rp_machine r = Some gs" and "fold_target ev gs = tg" and "case ev of ForceFold _ \<Rightarrow> True | FoldGone _ \<Rightarrow> True | _ \<Rightarrow> False"
  shows "replica_step ev r = (case tg of None \<Rightarrow> (None, r) | Some i \<Rightarrow> fold_player i r)"
  using assms by (cases ev) (auto simp: force_fold_def foldGoneIfCurrent_def split: option.splits)

text \<open>
  The invariant of a replica among the messages \<open>ms\<close>: the counter is the number of counted actions, the
  machine is the result of what was applied, every counted action was sent with its place as its
  number, and what is kept was sent.
\<close>

definition replica_inv :: "PlayerAction list \<Rightarrow> game_state \<Rightarrow> replica_op list \<Rightarrow> replica \<Rightarrow> bool" where
  "replica_inv ms gs ops r \<longleftrightarrow> sq_nextSeq (rp_seq r) = int (length (actions_of ops)) + 1
     \<and> rp_machine r = Some (fold apply_rop ops gs)
     \<and> (\<forall>q<length (actions_of ops). \<exists>m\<in>set ms. pa_Seq m = int q + 1 \<and> remote_action m = actions_of ops ! q)
     \<and> (\<forall>(k, m)\<in>set (sq_pending (rp_seq r)). m \<in> set ms \<and> pa_Seq m = k)"

definition numbers_to :: "int \<Rightarrow> PlayerAction list \<Rightarrow> bool" where
  "numbers_to n ms \<longleftrightarrow> (\<forall>m\<in>set ms. 1 \<le> pa_Seq m \<and> pa_Seq m \<le> n)"

lemma replica_inv_mono: "replica_inv ms gs ops r \<Longrightarrow> set ms \<subseteq> set ms' \<Longrightarrow> replica_inv ms' gs ops r"
  unfolding replica_inv_def by (intro conjI allI impI; blast)

lemma replica_inv_bound:
  assumes "replica_inv ms gs ops r" and "numbers_to n ms" and "0 \<le> n"
  shows "sq_nextSeq (rp_seq r) \<le> n + 1"
proof (cases "actions_of ops = []")
  case False
  then have l: "length (actions_of ops) - 1 < length (actions_of ops)" by simp
  have "\<forall>q<length (actions_of ops). \<exists>m\<in>set ms. pa_Seq m = int q + 1 \<and> remote_action m = actions_of ops ! q"
    using assms(1) by (simp add: replica_inv_def)
  from this [rule_format, OF l] obtain m where m: "m \<in> set ms" "pa_Seq m = int (length (actions_of ops) - 1) + 1" by blast
  have "pa_Seq m \<le> n" using assms(2) m(1) by (simp add: numbers_to_def)
  moreover have "sq_nextSeq (rp_seq r) = int (length (actions_of ops)) + 1" using assms(1) by (simp add: replica_inv_def)
  ultimately show ?thesis using m(2) l by linarith
qed (use assms in \<open>simp add: replica_inv_def\<close>)

lemma fold_counted: "fold apply_rop (map (\<lambda>rm. Counted (remote_action rm)) out) g = fold (\<lambda>rm. apply_ignoring (remote_action rm)) out g"
  by (induction out arbitrary: g) simp_all

lemma remote_inv:
  assumes r: "replica_inv ms gs ops r" and m: "m \<in> set ms" and n: "numbers_to n ms" "0 \<le> n" "n < 2 ^ 62"
  shows "replica_inv ms gs (ops @ applied (Remote m) r) (snd (on_player_action m r))"
proof -
  let ?k = "sq_nextSeq (rp_seq r)" and ?p = "AList.update (pa_Seq m) m (sq_pending (rp_seq r))" and ?L = "length (actions_of ops)"
  obtain out k' p' where d: "seq_drain ?k ?p = (out, k', p')" by (metis prod_cases3)
  have rr: "?k = int ?L + 1" "rp_machine r = Some (fold apply_rop ops gs)"
    "\<forall>q<?L. \<exists>m\<in>set ms. pa_Seq m = int q + 1 \<and> remote_action m = actions_of ops ! q"
    "\<forall>(k, m)\<in>set (sq_pending (rp_seq r)). m \<in> set ms \<and> pa_Seq m = k"
    using r by (simp_all add: replica_inv_def)
  have p: "\<forall>(j, x) \<in> set ?p. x \<in> set ms \<and> pa_Seq x = j"
    using rr(4) m update_entries [of "pa_Seq m" m "sq_pending (rp_seq r)"] by auto
  have e: "x \<in> set ms \<and> pa_Seq x = j" if "map_of ?p j = Some x" for j x
    using map_of_SomeD [OF that] p by auto
  have "\<forall>j. map_of ?p j \<noteq> None \<longrightarrow> j < 2 ^ 62"
  proof (intro allI impI)
    fix j assume "map_of ?p j \<noteq> None"
    then obtain x where "map_of ?p j = Some x" by blast
    from e [OF this] have "j \<le> n" using n(1) by (auto simp: numbers_to_def)
    then show "j < 2 ^ 62" using n(3) by linarith
  qed
  from seq_drain_spec [OF d this] rr(1) replica_inv_bound [OF r n(1,2)] n(3)
  have ds: "?k \<le> k'" "\<forall>j. ?k \<le> j \<and> j < k' \<longrightarrow> map_of ?p j \<noteq> None" "out = map (\<lambda>j. the (map_of ?p j)) [?k..k' - 1]" "set p' \<subseteq> set ?p"
    by auto
  have on: "on_player_action m r = (out, r\<lparr>rp_machine := Some (fold (\<lambda>rm. apply_ignoring (remote_action rm)) out (fold apply_rop ops gs)),
      rp_seq := (rp_seq r)\<lparr>sq_nextSeq := k', sq_pending := p'\<rparr>\<rparr>)"
    by (simp add: on_player_action_def push_def d rr(2))
  have len: "length out = nat (k' - ?k)" by (simp add: ds(3))
  have nth: "out ! q \<in> set ms \<and> pa_Seq (out ! q) = ?k + int q" if "q < length out" for q
  proof -
    have j: "?k \<le> ?k + int q" "?k + int q < k'" using that len by simp_all
    then obtain x where x: "map_of ?p (?k + int q) = Some x" using ds(2) by blast
    have "out ! q = x" using that x by (simp add: ds(3))
    then show ?thesis using e [OF x] by simp
  qed
  note fold_counted
  moreover have "\<exists>m\<in>set ms. pa_Seq m = int q + 1 \<and> remote_action m = (actions_of ops @ map remote_action out) ! q"
    if "q < ?L + length out" for q
  proof (cases "q < ?L")
    case True
    then show ?thesis using rr(3) by (simp add: nth_append)
  next
    case False
    then have "q - ?L < length out" using that by simp
    from nth [OF this] have "out ! (q - ?L) \<in> set ms" "pa_Seq (out ! (q - ?L)) = int q + 1" using False rr(1) by simp_all
    then show ?thesis using False that by (auto simp: nth_append)
  qed
  moreover have "k' = int (?L + length out) + 1" using len ds(1) rr(1) by simp
  ultimately show ?thesis using p ds(4) by (auto simp: replica_inv_def on)
qed

lemma own_inv:
  assumes r: "replica_inv ms gs ops r" and n: "numbers_to n ms" "0 \<le> n" "n < 2 ^ 62"
    and m: "m \<in> set ms'" "set ms \<subseteq> set ms'" "pa_Seq m = sq_nextSeq (rp_seq r)" "remote_action m = a"
    and r': "r' = r\<lparr>rp_machine := Some (apply_ignoring a (the (rp_machine r))), rp_seq := snd (bump (rp_seq r))\<rparr>"
  shows "replica_inv ms' gs (ops @ [Counted a]) r'"
proof -
  have k: "sq_nextSeq (rp_seq r) = int (length (actions_of ops)) + 1" using r by (simp add: replica_inv_def)
  have "w64 (sq_nextSeq (rp_seq r) + 1) = sq_nextSeq (rp_seq r) + 1"
    using replica_inv_bound [OF r n(1,2)] n(3) k by (intro w64_id) (simp add: in64_def)
  moreover have "\<exists>m\<in>set ms'. pa_Seq m = int q + 1 \<and> remote_action m = (actions_of ops @ [a]) ! q"
    if "q < length (actions_of ops) + 1" for q
  proof (cases "q < length (actions_of ops)")
    case True
    then show ?thesis using replica_inv_mono [OF r m(2)] by (simp add: replica_inv_def nth_append)
  next
    case False
    then have "q = length (actions_of ops)" using that by simp
    then show ?thesis using m k by (intro bexI [of _ m]) simp_all
  qed
  ultimately show ?thesis using replica_inv_mono [OF r m(2)] k by (simp add: replica_inv_def r' bump_def)
qed

lemma live_inv: "replica_inv ms gs ops r \<Longrightarrow> replica_inv ms gs (ops @ [Extra op]) (live_op op r)"
  by (simp add: replica_inv_def live_op_def)

lemma replica_step_inv:
  assumes r: "replica_inv ms gs ops r" and n: "numbers_to n ms" "0 \<le> n" "n < 2 ^ 62"
    and ev: "(\<exists>m\<in>set ms. ev = Remote m) \<or> own_event (Own i ev)"
    and s: "replica_step ev r = (out, r')"
    and ms': "ms' = ms @ (case out of None \<Rightarrow> [] | Some s \<Rightarrow> [action_message tableID handNum i s])"
  shows "replica_inv ms' gs (ops @ applied ev r) r' \<and> numbers_to (n + 1) ms'"
proof -
  have gs: "rp_machine r = Some (fold apply_rop ops gs)" and k: "1 \<le> sq_nextSeq (rp_seq r)" "sq_nextSeq (rp_seq r) \<le> n + 1"
    using r replica_inv_bound [OF r n(1,2)] by (simp_all add: replica_inv_def)
  have sub: "set ms \<subseteq> set ms'" by (simp add: ms')
  have quiet: "numbers_to (n + 1) ms'" if "out = None" using n(1) that by (fastforce simp: ms' numbers_to_def)
  have sent: "replica_inv ms' gs (ops @ [Counted a]) r' \<and> numbers_to (n + 1) ms'"
    if "out = Some (a, sq_nextSeq (rp_seq r))" and "a_player a \<noteq> []" "plain_type (a_type a)"
      and "r' = r\<lparr>rp_machine := Some (apply_ignoring a (the (rp_machine r))), rp_seq := snd (bump (rp_seq r))\<rparr>" for a
  proof -
    let ?m = "action_message tableID handNum i (a, sq_nextSeq (rp_seq r))"
    have m: "?m \<in> set ms'" "pa_Seq ?m = sq_nextSeq (rp_seq r)" "remote_action ?m = a"
      using that(1-3) by (simp_all add: ms' remote_action_message) (simp add: action_message_def)
    have "numbers_to (n + 1) ms'" using n(1) k m(2) by (fastforce simp: ms' that(1) numbers_to_def)
    then show ?thesis using own_inv [OF r n m(1) sub m(2,3) that(4)] by simp
  qed
  have fold: "replica_inv ms' gs (ops @ applied ev r) r' \<and> numbers_to (n + 1) ms'"
    if f: "case ev of ForceFold _ \<Rightarrow> True | FoldGone _ \<Rightarrow> True | _ \<Rightarrow> False"
      and j: "\<And>j. fold_target ev (fold apply_rop ops gs) = Some j \<Longrightarrow> j \<noteq> []"
  proof (cases "fold_target ev (fold apply_rop ops gs)")
    case None
    then have "out = None" "r' = r" using fold_step [OF gs None f] s by simp_all
    moreover have "applied ev r = []" using f gs None by (cases ev) simp_all
    ultimately show ?thesis using quiet replica_inv_mono [OF r sub] by simp
  next
    case (Some j)
    then have x: "fold_player j r = (out, r')" using fold_step [OF gs Some f] s by simp
    have a: "applied ev r = (if fst (fold_player j r) = None then [Extra (OpAction (mk_action j ActionFold 0))]
        else [Counted (mk_action j ActionFold 0)])"
      using f gs Some by (cases ev) simp_all
    from gs show ?thesis
    proof (cases rule: fold_player_cases [where i = j])
      case refused
      then have o: "out = None" "rp_seq r' = rp_seq r" using x by simp_all
      have "rp_machine r' = Some (snd (ApplyAction (mk_action j ActionFold 0) (fold apply_rop ops gs)))"
        using x gs o(1) by (auto simp: fold_player_def Let_def bump_def split: prod.splits option.splits)
      then have "replica_inv ms gs (ops @ [Extra (OpAction (mk_action j ActionFold 0))]) r'"
        using r o(2) by (simp add: replica_inv_def)
      then show ?thesis using quiet [OF o(1)] replica_inv_mono [OF _ sub] a x o(1) by simp
    next
      case taken
      then have "out = Some (mk_action j ActionFold 0, sq_nextSeq (rp_seq r))" using x by simp
      from sent [OF this] show ?thesis using taken x a j [OF Some] by (simp add: plain_type_def)
    qed
  qed
  show ?thesis
  proof (cases ev)
    case (Remote m)
    then have "out = None" "r' = snd (on_player_action m r)" "m \<in> set ms" using s ev by auto
    then show ?thesis using remote_inv [OF r _ n, of m] quiet by (simp add: Remote ms')
  next
    case (Local a)
    then have "out = Some (a, sq_nextSeq (rp_seq r))"
      "r' = r\<lparr>rp_machine := Some (apply_ignoring a (the (rp_machine r))), rp_seq := snd (bump (rp_seq r))\<rparr>"
      using s by (auto simp: applyAndBroadcast_def gs bump_def)
    then show ?thesis using sent ev by (simp add: Local)
  next
    case (ForceFold j)
    show ?thesis by (rule fold) (use ev in \<open>auto simp: ForceFold split: if_splits\<close>)
  next
    case (FoldGone gone)
    show ?thesis by (rule fold) (use ev in \<open>auto simp: FoldGone split: if_splits option.splits\<close>)
  next
    case (Street cards)
    then show ?thesis using s quiet live_inv [OF r] by (auto simp: ms')
  next
    case (Reveal j cards)
    then show ?thesis using s quiet live_inv [OF r] by (auto simp: ms')
  qed
qed

section \<open>The replicas of a table agree\<close>

definition table_inv :: "(string \<Rightarrow> game_state) \<Rightarrow> int \<Rightarrow> table_net \<Rightarrow> bool" where
  "table_inv gs n t \<longleftrightarrow> numbers_to n (tb_sent t) \<and> (\<forall>i. replica_inv (tb_sent t) (gs i) (tb_done t i) (tb_nodes t i))"

lemma node_step_inv:
  assumes t: "table_inv gs n t" and n: "0 \<le> n" "n < 2 ^ 62"
    and ev: "(\<exists>m\<in>set (tb_sent t). ev = Remote m) \<or> own_event (Own i ev)"
  shows "table_inv gs (n + 1) (node_step tableID handNum i ev t)"
proof -
  obtain out r' where s: "replica_step ev (tb_nodes t i) = (out, r')" by fastforce
  have ti: "replica_inv (tb_sent t) (gs j) (tb_done t j) (tb_nodes t j)" "numbers_to n (tb_sent t)" for j
    using t by (simp_all add: table_inv_def)
  let ?ms = "tb_sent t @ (case out of None \<Rightarrow> [] | Some s \<Rightarrow> [action_message tableID handNum i s])"
  have "replica_inv ?ms (gs i) (tb_done t i @ applied ev (tb_nodes t i)) r' \<and> numbers_to (n + 1) ?ms"
    by (rule replica_step_inv [OF ti n ev s refl])
  moreover have "replica_inv ?ms (gs j) (tb_done t j) (tb_nodes t j)" for j
    by (rule replica_inv_mono [OF ti(1)]) simp
  ultimately show ?thesis by (simp add: table_inv_def node_step_def s)
qed

lemma table_run_inv:
  "table_inv gs n t \<Longrightarrow> 0 \<le> n \<Longrightarrow> list_all own_event evs \<Longrightarrow> n + int (length evs) \<le> 2 ^ 62
    \<Longrightarrow> table_inv gs (n + int (length evs)) (table_run tableID handNum evs t)"
proof (induction evs arbitrary: n t)
  case (Cons ev evs)
  have n: "n < 2 ^ 62" using Cons.prems(4) by simp
  have "table_inv gs (n + 1) (table_step tableID handNum ev t)"
  proof (cases ev)
    case (Own i e)
    then show ?thesis using node_step_inv [OF Cons.prems(1,2) n, of e i] Cons.prems(3) by simp
  next
    case (Deliver i k)
    have "table_inv gs (n + 1) t" using Cons.prems(1) by (fastforce simp: table_inv_def numbers_to_def)
    then show ?thesis using node_step_inv [OF Cons.prems(1,2) n, of "Remote (tb_sent t ! k)" i] by (simp add: Deliver)
  qed
  from Cons.IH [OF this] Cons.prems show ?case by (simp add: table_run_def algebra_simps)
qed (simp add: table_run_def)

lemma only_counted: "\<forall>op. Extra op \<notin> set ops \<Longrightarrow> ops = map Counted (actions_of ops)"
proof (induction ops)
  case (Cons op ops)
  then show ?case by (cases op) (auto simp: actions_of_def)
qed simp

lemma prefix_or:
  assumes "\<forall>q < length xs. q < length ys \<longrightarrow> xs ! q = ys ! q"
  shows "prefix xs ys \<or> prefix ys xs"
proof (cases "length xs \<le> length ys")
  case True
  then have "xs = take (length xs) ys" using assms by (intro nth_equalityI) auto
  then show ?thesis by (metis take_is_prefix)
next
  case False
  then have "ys = take (length ys) xs" using assms by (intro nth_equalityI) auto
  then show ?thesis by (metis take_is_prefix)
qed

text \<open>
  C28: the replicas of a table apply the same actions in the same order. Whatever mixture of local
  actions, folds for others, streets, revealed cards and messages led there, and however the network
  delayed, reordered and repeated the messages: as long as no number was sent with two different
  actions, the actions two replicas have counted are one a prefix of the other, as long as their
  counters say, and each was sent under its place as its number. The machine of a replica is what
  these actions and its own streets and reveals make of the state it started with, in the order in
  which they came to it; so two replicas with equal counters and nothing but actions have equal
  machines. (A fold that races with the action of the player does send a number twice, see
  \<open>racing_fold_splits\<close>; that a street can come at a different place is \<open>early_action_lost\<close>.)
\<close>

theorem replicas_agree:
  assumes "list_all own_event evs" and "int (length evs) \<le> 2 ^ 62" and "t = table_run tableID handNum evs (start_table gs)"
    and "one_action_per_number (tb_sent t)"
  shows "(prefix (actions_of (tb_done t i)) (actions_of (tb_done t j)) \<or> prefix (actions_of (tb_done t j)) (actions_of (tb_done t i)))
    \<and> sq_nextSeq (rp_seq (tb_nodes t i)) = int (length (actions_of (tb_done t i))) + 1
    \<and> (\<forall>q<length (actions_of (tb_done t i)). \<exists>m\<in>set (tb_sent t). pa_Seq m = int q + 1 \<and> remote_action m = actions_of (tb_done t i) ! q)
    \<and> rp_machine (tb_nodes t i) = Some (fold apply_rop (tb_done t i) (gs i))
    \<and> (gs i = gs j \<and> sq_nextSeq (rp_seq (tb_nodes t i)) = sq_nextSeq (rp_seq (tb_nodes t j))
        \<and> (\<forall>op. Extra op \<notin> set (tb_done t i) \<union> set (tb_done t j)) \<longrightarrow> rp_machine (tb_nodes t i) = rp_machine (tb_nodes t j))"
proof -
  have "table_inv gs 0 (start_table gs)"
    by (simp add: table_inv_def numbers_to_def start_table_def replica_inv_def new_sequencer_def)
  from table_run_inv [OF this _ assms(1), of tableID handNum] assms(2,3)
  have inv: "replica_inv (tb_sent t) (gs k) (tb_done t k) (tb_nodes t k)" for k by (simp add: table_inv_def)
  let ?a = "\<lambda>k. actions_of (tb_done t k)"
  have sent: "\<exists>m\<in>set (tb_sent t). pa_Seq m = int q + 1 \<and> remote_action m = ?a k ! q" if "q < length (?a k)" for q k
    using inv [of k] that by (simp add: replica_inv_def)
  have seq: "sq_nextSeq (rp_seq (tb_nodes t k)) = int (length (?a k)) + 1"
    and mach: "rp_machine (tb_nodes t k) = Some (fold apply_rop (tb_done t k) (gs k))" for k
    using inv [of k] by (simp_all add: replica_inv_def)
  have same: "?a i ! q = ?a j ! q" if "q < length (?a i)" "q < length (?a j)" for q
    using sent [OF that(1)] sent [OF that(2)] assms(4) unfolding one_action_per_number_def by metis
  then have "prefix (?a i) (?a j) \<or> prefix (?a j) (?a i)" by (intro prefix_or) blast
  moreover have "rp_machine (tb_nodes t i) = rp_machine (tb_nodes t j)"
    if c: "gs i = gs j" "sq_nextSeq (rp_seq (tb_nodes t i)) = sq_nextSeq (rp_seq (tb_nodes t j))"
      and x: "\<forall>op. Extra op \<notin> set (tb_done t i) \<union> set (tb_done t j)"
  proof -
    have "?a i = ?a j" using c(2) same by (intro nth_equalityI) (simp_all add: seq)
    then have "tb_done t i = tb_done t j"
      using only_counted [of "tb_done t i"] only_counted [of "tb_done t j"] x by auto
    then show ?thesis using c(1) by (simp add: mach)
  qed
  ultimately show ?thesis using seq sent mach by blast
qed

definition two_acts :: "Action list" where
  "two_acts = [mk_action ''a'' ActionCall 0, mk_action ''b'' ActionCheck 0]"

definition act_msg :: "i64 \<Rightarrow> PlayerAction" where
  "act_msg k = action_message ''t'' 1 ''a'' (two_acts ! nat (k - 1), k)"

lemma act_msg_seq [simp]: "pa_Seq (act_msg k) = k"
  by (simp add: act_msg_def action_message_def)

definition two_events :: "table_event list" where
  "two_events = [Own ''a'' (Local (two_acts ! 0)), Deliver ''b'' 0, Own ''b'' (Local (two_acts ! 1)), Deliver ''a'' 1, Deliver ''b'' 0]"

lemma two_drain: "seq_drain 1 [(1, m)] = ([m], 2, [])" "seq_drain 2 [(2, m)] = ([m], 3, [])" "seq_drain 3 [(1, m)] = ([], 3, [(1, m)])"
  by (simp_all add: seq_drain.simps [of 1] seq_drain.simps [of 2] seq_drain.simps [of 3] AList.delete_eq w64_def)

lemma two_run:
  "tb_done (table_run ''t'' 1 two_events (start_table gs)) ''a'' = [Counted (two_acts ! 0), Counted (two_acts ! 1)]
   \<and> tb_done (table_run ''t'' 1 two_events (start_table gs)) ''b'' = [Counted (two_acts ! 0), Counted (two_acts ! 1)]
   \<and> tb_sent (table_run ''t'' 1 two_events (start_table gs)) = [act_msg 1, act_msg 2]
   \<and> sq_nextSeq (rp_seq (tb_nodes (table_run ''t'' 1 two_events (start_table gs)) ''a'')) = 3
   \<and> sq_nextSeq (rp_seq (tb_nodes (table_run ''t'' 1 two_events (start_table gs)) ''b'')) = 3"
proof -
  have m: "remote_action (act_msg 1) = two_acts ! 0" "remote_action (act_msg 2) = two_acts ! 1"
    unfolding act_msg_def by (simp_all add: remote_action_message two_acts_def plain_type_def)
  have a: "action_message ''t'' 1 ''a'' (two_acts ! 0, 1) = act_msg 1" "action_message ''t'' 1 ''b'' (two_acts ! Suc 0, 2) = act_msg 2"
    by (simp_all add: act_msg_def action_message_def two_acts_def)
  show ?thesis
    by (simp add: table_run_def two_events_def node_step_def start_table_def applyAndBroadcast_def bump_def new_sequencer_def w64_def
        on_player_action_def push_def two_drain a m)
qed

lemma replicas_agree_witness:
  "\<forall>gs. rp_machine (tb_nodes (table_run ''t'' 1 two_events (start_table (\<lambda>_. gs))) ''a'')
       = rp_machine (tb_nodes (table_run ''t'' 1 two_events (start_table (\<lambda>_. gs))) ''b'')
     \<and> rp_machine (tb_nodes (table_run ''t'' 1 two_events (start_table (\<lambda>_. gs))) ''b'')
       = Some (apply_ignoring (two_acts ! 1) (apply_ignoring (two_acts ! 0) gs))"
proof
  fix gs
  let ?t = "table_run ''t'' 1 two_events (start_table (\<lambda>_. gs))"
  note r = two_run [of "\<lambda>_. gs"]
  have o: "list_all own_event two_events" "int (length two_events) \<le> 2 ^ 62"
    by (simp_all add: two_events_def two_acts_def plain_type_def)
  have c: "one_action_per_number (tb_sent ?t)" using r by (simp add: one_action_per_number_def)
  note ag = replicas_agree [OF o refl c]
  show "rp_machine (tb_nodes ?t ''a'') = rp_machine (tb_nodes ?t ''b'')
     \<and> rp_machine (tb_nodes ?t ''b'') = Some (apply_ignoring (two_acts ! 1) (apply_ignoring (two_acts ! 0) gs))"
    using ag [of "''a''" "''b''"] ag [of "''b''" "''a''"] r by simp
qed

text \<open>
  Numbers are not unique when a fold for a player who seems gone races with his own action: both take
  the next number, and each replica keeps the one that comes first and never applies the other.
\<close>

definition racing_events :: "table_event list" where
  "racing_events = [Own ''a'' (Local (two_acts ! 0)), Own ''b'' (ForceFold ''a''), Deliver ''b'' 0, Deliver ''a'' 1]"

lemma racing_fold_splits:
  "map (\<lambda>i. actions_of (tb_done (table_run ''t'' 1 racing_events (start_table (\<lambda>_. snd (StartHandCrypto (demo_table [100, 200]))))) i)) [''a'', ''b'']
   = [[mk_action ''a'' ActionCall 0], [mk_action ''a'' ActionFold 0]]"
  by code_simp

section \<open>Reordering\<close>

fun push_all :: "PlayerAction list \<Rightarrow> actionSequencer \<Rightarrow> PlayerAction list \<times> actionSequencer" where
  "push_all [] s = ([], s)"
| "push_all (m # ms) s = (case push m s of (out, s1) \<Rightarrow> (case push_all ms s1 of (out', s2) \<Rightarrow> (out @ out', s2)))"

text \<open>After the numbers \<open>S\<close>: what is out is \<open>1 .. k - 1\<close>, what is kept is the rest of \<open>S\<close>.\<close>

definition seq_state :: "(i64 \<Rightarrow> PlayerAction) \<Rightarrow> i64 set \<Rightarrow> PlayerAction list \<Rightarrow> actionSequencer \<Rightarrow> bool" where
  "seq_state M S out s \<longleftrightarrow> 1 \<le> sq_nextSeq s \<and> sq_nextSeq s \<le> 2 ^ 62 \<and> {1..sq_nextSeq s - 1} \<subseteq> S \<and> sq_nextSeq s \<notin> S
     \<and> out = map M [1..sq_nextSeq s - 1]
     \<and> map_of (sq_pending s) = (\<lambda>j. if j \<in> S \<and> sq_nextSeq s \<le> j then Some (M j) else None)"

lemma push_state:
  assumes s: "seq_state M S out s" and j: "j \<notin> S" "1 \<le> j" "j < 2 ^ 62" "\<forall>i \<in> S. i < 2 ^ 62" and m: "pa_Seq (M j) = j"
  shows "seq_state M (insert j S) (out @ fst (push (M j) s)) (snd (push (M j) s))"
proof -
  let ?k = "sq_nextSeq s" and ?p = "AList.update j (M j) (sq_pending s)"
  note st = s [unfolded seq_state_def]
  have p: "map_of ?p = (\<lambda>i. if i \<in> insert j S \<and> ?k \<le> i then Some (M i) else None)"
  proof -
    have "?k \<le> j" using st j(1,2) by force
    then show ?thesis using st by (auto simp: update_conv' fun_eq_iff)
  qed
  obtain o1 k' p' where d: "seq_drain ?k ?p = (o1, k', p')" by (metis prod_cases3)
  have "\<forall>i. map_of ?p i \<noteq> None \<longrightarrow> i < 2 ^ 62" using j by (auto simp: p)
  from seq_drain_spec [OF d this] st
  have ds: "?k \<le> k'" "k' \<le> 2 ^ 62" "\<forall>i. ?k \<le> i \<and> i < k' \<longrightarrow> map_of ?p i \<noteq> None" "map_of ?p k' = None"
    "o1 = map (\<lambda>i. the (map_of ?p i)) [?k..k' - 1]" "map_of p' = (\<lambda>i. if ?k \<le> i \<and> i < k' then None else map_of ?p i)"
    by auto
  have mem: "i \<in> insert j S" if "?k \<le> i" "i < k'" for i
    using ds(3) [rule_format, of i] that by (simp add: p split: if_splits)
  have "out @ o1 = map M [1..k' - 1]"
  proof -
    have "o1 = map M [?k..k' - 1]" unfolding ds(5) using mem by (intro map_cong) (auto simp: p)
    moreover have "[1..k' - 1] = [1..?k - 1] @ [?k..k' - 1]"
      using ds(1) st upto_split1 [of 1 ?k "k' - 1"] by (cases "?k = k'") auto
    ultimately show ?thesis using st by simp
  qed
  moreover have "{1..k' - 1} \<subseteq> insert j S"
  proof
    fix i assume i: "i \<in> {1..k' - 1}"
    show "i \<in> insert j S"
    proof (cases "?k \<le> i")
      case True
      then show ?thesis using mem i by simp
    next
      case False
      then have "i \<in> {1..?k - 1}" using i by simp
      then show ?thesis using st by blast
    qed
  qed
  moreover have "k' \<notin> insert j S" using ds(1,4) by (simp add: p split: if_splits)
  moreover have "map_of p' = (\<lambda>i. if i \<in> insert j S \<and> k' \<le> i then Some (M i) else None)"
    using ds(1) by (auto simp: ds(6) p fun_eq_iff)
  ultimately show ?thesis using ds(1,2) st by (simp add: seq_state_def push_def m d)
qed

lemma push_all_state:
  assumes "seq_state M S out s" and "distinct ms" and "set ms \<inter> S = {}" and "\<forall>j \<in> set ms. 1 \<le> j \<and> j < 2 ^ 62 \<and> pa_Seq (M j) = j"
    and "\<forall>i \<in> S. i < 2 ^ 62"
  shows "seq_state M (set ms \<union> S) (out @ fst (push_all (map M ms) s)) (snd (push_all (map M ms) s))"
  using assms
proof (induction ms arbitrary: S out s)
  case (Cons j ms)
  have "seq_state M (insert j S) (out @ fst (push (M j) s)) (snd (push (M j) s))"
    using Cons.prems by (intro push_state) auto
  then have "seq_state M (set ms \<union> insert j S) ((out @ fst (push (M j) s)) @ fst (push_all (map M ms) (snd (push (M j) s))))
      (snd (push_all (map M ms) (snd (push (M j) s))))"
    using Cons.prems by (intro Cons.IH) auto
  moreover have "fst (push_all (map M (j # ms)) s) = fst (push (M j) s) @ fst (push_all (map M ms) (snd (push (M j) s)))"
    "snd (push_all (map M (j # ms)) s) = snd (push_all (map M ms) (snd (push (M j) s)))"
    by (simp_all split: prod.split)
  ultimately show ?case by (simp only: append.assoc) simp
qed simp

text \<open>C29: the sequencer puts actions in order. If each of the numbers \<open>1 .. n\<close> arrives once, in any
  order at all, the sequencer hands out exactly these messages by ascending number, and keeps none.\<close>

theorem sequencer_in_order:
  assumes "distinct (map pa_Seq msgs)" and "set (map pa_Seq msgs) = {1..n}" and "0 \<le> n" and "n < 2 ^ 62 - 1"
  shows "map pa_Seq (fst (push_all msgs new_sequencer)) = [1..n] \<and> set (fst (push_all msgs new_sequencer)) = set msgs
    \<and> snd (push_all msgs new_sequencer) = \<lparr>sq_nextSeq = n + 1, sq_pending = []\<rparr>"
proof -
  define M where "M j = the (map_of (map (\<lambda>m. (pa_Seq m, m)) msgs) j)" for j
  have inv: "M (pa_Seq m) = m" if "m \<in> set msgs" for m
  proof -
    have "map_of (map (\<lambda>m. (pa_Seq m, m)) msgs) (pa_Seq m) = Some m"
      using assms(1) that by (intro map_of_is_SomeI) (auto simp: o_def)
    then show ?thesis by (simp add: M_def)
  qed
  let ?ms = "map pa_Seq msgs" and ?r = "push_all msgs new_sequencer"
  have ms: "map M ?ms = msgs" using inv by (simp add: map_idI)
  have seqs: "pa_Seq (M j) = j" if "j \<in> {1..n}" for j
  proof -
    have "j \<in> pa_Seq ` set msgs" using that assms(2) by simp
    then obtain m where "m \<in> set msgs" "j = pa_Seq m" by blast
    then show ?thesis using inv by simp
  qed
  have "seq_state M {} [] new_sequencer" by (simp add: seq_state_def new_sequencer_def)
  then have "seq_state M (set ?ms \<union> {}) ([] @ fst (push_all (map M ?ms) new_sequencer)) (snd (push_all (map M ?ms) new_sequencer))"
    using assms seqs by (intro push_all_state) auto
  then have st: "seq_state M {1..n} (fst ?r) (snd ?r)" using assms(2) by (simp add: ms del: map_map)
  then have k: "sq_nextSeq (snd ?r) = n + 1" using assms(3) by (force simp: seq_state_def)
  have "map_of (sq_pending (snd ?r)) = Map.empty" using st by (auto simp: seq_state_def k)
  then have "sq_pending (snd ?r) = []" by simp
  then have "snd ?r = \<lparr>sq_nextSeq = n + 1, sq_pending = []\<rparr>" using k by (cases "snd ?r") simp
  moreover have out: "fst ?r = map M [1..n]" using st by (simp add: seq_state_def k)
  moreover have "map (pa_Seq \<circ> M) [1..n] = [1..n]" using seqs by (intro map_idI) simp
  moreover have "set (map M [1..n]) = M ` pa_Seq ` set msgs" using assms(2) by simp
  moreover have "M ` pa_Seq ` set msgs = set msgs" using inv by (force simp: image_image)
  ultimately show ?thesis by simp
qed

lemma sequencer_in_order_witness:
  "map pa_Seq (fst (push_all [act_msg 2, act_msg 1] new_sequencer)) = [1, 2]"
proof -
  have "{2, 1} = {1..2 :: int}" by auto
  then have "map pa_Seq (fst (push_all [act_msg 2, act_msg 1] new_sequencer)) = [1..2]"
    using sequencer_in_order [of "[act_msg 2, act_msg 1]" 2] by (simp del: push_all.simps)
  then show ?thesis by (simp add: upto.simps)
qed

text \<open>C30: an action that arrives while the machine cannot take it is lost. The sequencer hands it out
  and counts it, the machine refuses it (it waits for a street, say), the error is ignored; a second
  copy is not handed out any more. A replica whose street comes later than a faster player's first
  action on it has left the table's course.\<close>

theorem early_action_lost:
  assumes "rp_machine r = Some gs" and "\<not> betting_phase (gs_phase gs)" and "sq_pending (rp_seq r) = []"
    and "sq_nextSeq (rp_seq r) = pa_Seq m" and "1 \<le> pa_Seq m" and "pa_Seq m < 2 ^ 62"
  shows "fst (on_player_action m r) = [m] \<and> rp_machine (snd (on_player_action m r)) = rp_machine r
    \<and> sq_nextSeq (rp_seq (snd (on_player_action m r))) = pa_Seq m + 1
    \<and> fst (on_player_action m (snd (on_player_action m r))) = []
    \<and> rp_machine (snd (on_player_action m (snd (on_player_action m r)))) = rp_machine r"
proof -
  let ?k = "pa_Seq m"
  have w: "w64 (?k + 1) = ?k + 1" using assms(5,6) by (intro w64_id) (simp add: in64_def)
  have d: "seq_drain (?k + 1) p = ([], ?k + 1, p)" if "map_of p (?k + 1) = None" for p
    using that by (simp add: seq_drain.simps [of "?k + 1"])
  have one: "push m (rp_seq r) = ([m], (rp_seq r)\<lparr>sq_nextSeq := ?k + 1, sq_pending := []\<rparr>)"
    using assms(3,4) by (simp add: push_def seq_drain.simps [of ?k] AList.delete_eq w d)
  have "apply_ignoring (remote_action m) gs = gs" using assms(2) by (simp add: apply_ignoring_def ApplyAction_def)
  then have r1: "on_player_action m r = ([m], r\<lparr>rp_machine := Some gs, rp_seq := (rp_seq r)\<lparr>sq_nextSeq := ?k + 1, sq_pending := []\<rparr>\<rparr>)"
    by (simp add: on_player_action_def assms(1) one)
  have "push m ((rp_seq r)\<lparr>sq_nextSeq := ?k + 1, sq_pending := []\<rparr>) = ([], (rp_seq r)\<lparr>sq_nextSeq := ?k + 1, sq_pending := [(?k, m)]\<rparr>)"
    by (simp add: push_def d)
  then show ?thesis using assms(1) by (simp add: r1) (simp add: on_player_action_def)
qed

lemma early_action_lost_witness:
  "\<exists>r. rp_machine r = Some (NewGameState ''t'' 1 [] 0 5 10) \<and> fst (on_player_action (act_msg 1) r) = [act_msg 1]
     \<and> rp_machine (snd (on_player_action (act_msg 1) r)) = rp_machine r"
proof -
  let ?r = "\<lparr>rp_machine = Some (NewGameState ''t'' 1 [] 0 5 10), rp_seq = new_sequencer\<rparr>"
  show ?thesis
    using early_action_lost [of ?r "NewGameState ''t'' 1 [] 0 5 10" "act_msg 1"]
    by (intro exI [of _ ?r]) (simp add: new_sequencer_def NewGameState_def betting_phase_def)
qed

end
