(* ===== verification/Config.thy ===== *)
theory Config
  imports HandRules Bytes
begin

text \<open>
  config/config.go, config/loader.go and the command line of cmd/poker/main.go. The files, the
  environment and the YAML and JSON decoders are a parameter (\<open>config_env\<close>); a decoder that fails
  leaves no configuration. Durations are in nanoseconds.
\<close>

section \<open>The configuration\<close>

record NetworkConfig =
  nc_ListenAddr :: string
  nc_BootstrapPeers :: "string list"
  nc_EnableMDNS :: bool
  nc_MaxPeers :: int

record GameConfig =
  gc_TableID :: string
  gc_MaxSeats :: int
  gc_SmallBlind :: i64
  gc_BigBlind :: i64
  gc_BuyIn :: i64
  gc_ActionTimeout :: i64

record FaultTimes =
  ft_HeartbeatInterval :: i64
  ft_HeartbeatTimeout :: i64
  ft_VoteExpiry :: i64

record ChainConfig =
  cc_Enabled :: bool
  cc_RPCURL :: string
  cc_ContractAddress :: string
  cc_ChainID :: i64
  cc_BuyInWei :: string
  cc_GasLimit :: int
  cc_PrivateKeyHex :: string

record Config =
  cfg_PlayerName :: string
  cfg_DataDir :: string
  cfg_Network :: NetworkConfig
  cfg_Game :: GameConfig
  cfg_Fault :: FaultTimes
  cfg_Chain :: ChainConfig

text \<open>An error: a file that is not there, another one, or one wrapped by \<open>%w\<close>.\<close>

datatype config_error = NotExist | OtherError | Wrapped string config_error | Invalid string

record config_env =
  ce_home :: "string option"
  ce_join :: "string \<Rightarrow> string \<Rightarrow> string"
  ce_exists :: "string \<Rightarrow> bool"
  ce_ReadFile :: "string \<Rightarrow> config_error + byte list"
  ce_yaml :: "byte list \<Rightarrow> Config \<Rightarrow> Config option"
  ce_json :: "byte list \<Rightarrow> Config \<Rightarrow> Config option"
  ce_Getenv :: "string \<Rightarrow> string"

abbreviation home_dir :: "config_env \<Rightarrow> string" where
  "home_dir env \<equiv> (case ce_home env of None \<Rightarrow> [] | Some d \<Rightarrow> d)"

definition second :: int where
  "second = 10 ^ 9"

definition Default :: "config_env \<Rightarrow> Config" where
  "Default env =
     \<lparr>cfg_PlayerName = ''Player'', cfg_DataDir = ce_join env (home_dir env) ''.poker'',
      cfg_Network = \<lparr>nc_ListenAddr = ''/ip4/0.0.0.0/tcp/9000'', nc_BootstrapPeers = [], nc_EnableMDNS = True, nc_MaxPeers = 20\<rparr>,
      cfg_Game = \<lparr>gc_TableID = ''default-table'', gc_MaxSeats = 6, gc_SmallBlind = 5, gc_BigBlind = 10, gc_BuyIn = 1000,
        gc_ActionTimeout = 45 * second\<rparr>,
      cfg_Fault = \<lparr>ft_HeartbeatInterval = 5 * second, ft_HeartbeatTimeout = 15 * second, ft_VoteExpiry = 30 * second\<rparr>,
      cfg_Chain = \<lparr>cc_Enabled = False, cc_RPCURL = ''http://127.0.0.1:8545'', cc_ContractAddress = [], cc_ChainID = 31337,
        cc_BuyInWei = [], cc_GasLimit = 500000, cc_PrivateKeyHex = []\<rparr>\<rparr>"

definition Validate :: "Config \<Rightarrow> config_error option" where
  "Validate c =
     (let g = cfg_Game c; ch = cfg_Chain c
      in if cfg_PlayerName c = [] then Some (Invalid ''player_name is required'')
         else if gc_MaxSeats g < 2 \<or> gc_MaxSeats g > 9 then Some (Invalid ''max_seats'')
         else if gc_SmallBlind g \<le> 0 then Some (Invalid ''small_blind must be positive'')
         else if gc_BigBlind g \<le> 0 \<or> gc_BigBlind g \<le> gc_SmallBlind g then Some (Invalid ''big_blind must be > small_blind'')
         else if gc_BuyIn g < w64 (gc_BigBlind g * 10) then Some (Invalid ''buy_in must be at least 10x big_blind'')
         else if cc_Enabled ch \<and> cc_RPCURL ch = [] then Some (Invalid ''chain.rpc_url'')
         else if cc_Enabled ch \<and> cc_ContractAddress ch = [] then Some (Invalid ''chain.contract_address'')
         else None)"

definition IdentityKeyPath :: "config_env \<Rightarrow> Config \<Rightarrow> string" where
  "IdentityKeyPath env c = ce_join env (cfg_DataDir c) ''identity.key''"

text \<open>
  The identity: the bytes of the file if there are 64, or fresh ones. \<open>seed\<close> is what the random
  source gives (\<open>None\<close>: it fails), \<open>mk\<close> and \<open>write\<close> whether making the directory and writing the file
  succeed; the second component is the file as it is left.
\<close>

definition LoadIdentityKey ::
  "config_env \<Rightarrow> byte list option \<Rightarrow> bool \<Rightarrow> bool \<Rightarrow> Config \<Rightarrow> (config_error + byte list) \<times> (config_error + byte list)" where
  "LoadIdentityKey env seed mk write c =
     (let file = ce_ReadFile env (IdentityKeyPath env c)
      in case (case file of Inr b \<Rightarrow> if length b = 64 then Some b else None | Inl _ \<Rightarrow> None) of Some b \<Rightarrow> (Inr b, file)
         | None \<Rightarrow> (case seed of None \<Rightarrow> (Inl OtherError, file)
             | Some s \<Rightarrow> if \<not> mk then (Inl OtherError, file)
                 else if \<not> write then (Inl OtherError, file) else (Inr s, Inr s)))"

section \<open>Loading\<close>

text \<open>\<open>filepath.Ext\<close>, and the lower case of ASCII.\<close>

fun ext_back :: "string \<Rightarrow> string \<Rightarrow> string" where
  "ext_back [] acc = []"
| "ext_back (c # cs) acc = (if c = CHR ''/'' then [] else if c = CHR ''.'' then c # acc else ext_back cs (c # acc))"

definition path_Ext :: "string \<Rightarrow> string" where
  "path_Ext path = ext_back (rev path) []"

definition lower_ascii :: "char \<Rightarrow> char" where
  "lower_ascii c = (let n = of_char c :: nat in if 65 \<le> n \<and> n \<le> 90 then char_of (n + 32) else c)"

definition findConfigFile :: "config_env \<Rightarrow> string" where
  "findConfigFile env =
     (let home = home_dir env;
          candidates = [''config.json'', ''config.yaml'', ''config.yml'']
            @ (if home \<noteq> [] then [ce_join env home ''.poker/config.json'', ce_join env home ''.poker/config.yaml''] else [])
      in case find (ce_exists env) candidates of None \<Rightarrow> [] | Some p \<Rightarrow> p)"

definition loadJSON :: "config_env \<Rightarrow> string \<Rightarrow> Config \<Rightarrow> config_error + Config" where
  "loadJSON env path cfg =
     (case ce_ReadFile env path of Inl e \<Rightarrow> Inl (Wrapped ''loadJSON: read'' e)
      | Inr b \<Rightarrow> let ext = map lower_ascii (path_Ext path)
          in case (if ext = ''.yaml'' \<or> ext = ''.yml'' then ce_yaml env b cfg else ce_json env b cfg) of
               None \<Rightarrow> Inl OtherError | Some c \<Rightarrow> Inr c)"

definition set_env :: "config_env \<Rightarrow> string \<Rightarrow> (string \<Rightarrow> Config \<Rightarrow> Config) \<Rightarrow> Config \<Rightarrow> Config" where
  "set_env env name f cfg = (let v = ce_Getenv env name in if v \<noteq> [] then f v cfg else cfg)"

definition upd_chain :: "(ChainConfig \<Rightarrow> ChainConfig) \<Rightarrow> Config \<Rightarrow> Config" where
  "upd_chain f c = c\<lparr>cfg_Chain := f (cfg_Chain c)\<rparr>"

definition upd_game :: "(GameConfig \<Rightarrow> GameConfig) \<Rightarrow> Config \<Rightarrow> Config" where
  "upd_game f c = c\<lparr>cfg_Game := f (cfg_Game c)\<rparr>"

definition upd_net :: "(NetworkConfig \<Rightarrow> NetworkConfig) \<Rightarrow> Config \<Rightarrow> Config" where
  "upd_net f c = c\<lparr>cfg_Network := f (cfg_Network c)\<rparr>"

definition applyEnv :: "config_env \<Rightarrow> Config \<Rightarrow> Config" where
  "applyEnv env cfg =
     (let cfg = set_env env ''POKER_PLAYER_NAME'' (\<lambda>v c. c\<lparr>cfg_PlayerName := v\<rparr>) cfg;
          cfg = set_env env ''POKER_DATA_DIR'' (\<lambda>v c. c\<lparr>cfg_DataDir := v\<rparr>) cfg;
          cfg = set_env env ''POKER_LISTEN_ADDR'' (\<lambda>v. upd_net (\<lambda>n. n\<lparr>nc_ListenAddr := v\<rparr>)) cfg;
          cfg = set_env env ''POKER_TABLE_ID'' (\<lambda>v. upd_game (\<lambda>g. g\<lparr>gc_TableID := v\<rparr>)) cfg;
          cfg = set_env env ''POKER_CHAIN_RPC'' (\<lambda>v. upd_chain (\<lambda>c. c\<lparr>cc_RPCURL := v\<rparr>)) cfg;
          cfg = set_env env ''POKER_CONTRACT_ADDR'' (\<lambda>v. upd_chain (\<lambda>c. c\<lparr>cc_ContractAddress := v\<rparr>)) cfg;
          cfg = set_env env ''POKER_PRIVATE_KEY'' (\<lambda>v. upd_chain (\<lambda>c. c\<lparr>cc_PrivateKeyHex := v\<rparr>)) cfg;
          v = ce_Getenv env ''POKER_CHAIN_ENABLED''
      in if v = ''true'' \<or> v = ''1'' then upd_chain (\<lambda>c. c\<lparr>cc_Enabled := True\<rparr>) cfg else cfg)"

definition expand_home :: "config_env \<Rightarrow> Config \<Rightarrow> Config" where
  "expand_home env cfg =
     (if length (cfg_DataDir cfg) > 0 \<and> hd (cfg_DataDir cfg) = CHR ''~'' then
        (case ce_home env of None \<Rightarrow> cfg | Some home \<Rightarrow> cfg\<lparr>cfg_DataDir := ce_join env home (tl (cfg_DataDir cfg))\<rparr>)
      else cfg)"

definition Load :: "config_env \<Rightarrow> string \<Rightarrow> config_error + Config" where
  "Load env path =
     (let cfg = Default env;
          path = (if path = [] then findConfigFile env else path)
      in case (if path \<noteq> [] then loadJSON env path cfg else Inr cfg) of Inl e \<Rightarrow> Inl (Wrapped ''Load'' e)
         | Inr cfg \<Rightarrow>
             let cfg = expand_home env (applyEnv env cfg)
             in case Validate cfg of Some e \<Rightarrow> Inl (Wrapped ''Load: invalid config'' e) | None \<Rightarrow> Inr cfg)"

text \<open>\<open>os.IsNotExist\<close> does not look inside a wrapped error.\<close>

definition os_IsNotExist :: "config_error \<Rightarrow> bool" where
  "os_IsNotExist e \<longleftrightarrow> e = NotExist"

definition LoadOrDefault :: "config_env \<Rightarrow> string \<Rightarrow> config_error + Config" where
  "LoadOrDefault env path =
     (case Load env path of Inr cfg \<Rightarrow> Inr cfg
      | Inl e \<Rightarrow> if os_IsNotExist e
          then (case Validate (Default env) of Some verr \<Rightarrow> Inl verr | None \<Rightarrow> Inr (Default env)) else Inl e)"

section \<open>The command line\<close>

text \<open>\<open>scan\<close> is \<open>fmt.Sscanf\<close> with the format of a number; a failure leaves the field as it is.\<close>

fun p2p_flags :: "(string \<Rightarrow> int option) \<Rightarrow> string list \<Rightarrow> bool \<times> Config \<Rightarrow> bool \<times> Config" where
  "p2p_flags scan [] r = r"
| "p2p_flags scan [a] (nc, cfg) = (if a = ''--no-crypto'' then True else nc, cfg)"
| "p2p_flags scan (a # v # as) (nc, cfg) =
     (if a = ''--no-crypto'' then p2p_flags scan (v # as) (True, cfg)
      else if a = ''--seats'' then
        p2p_flags scan as (nc, case scan v of None \<Rightarrow> cfg | Some n \<Rightarrow> upd_game (\<lambda>g. g\<lparr>gc_MaxSeats := n\<rparr>) cfg)
      else if a = ''--listen'' then p2p_flags scan as (nc, upd_net (\<lambda>n. n\<lparr>nc_ListenAddr := v\<rparr>) cfg)
      else if a = ''--name'' then p2p_flags scan as (nc, cfg\<lparr>cfg_PlayerName := v\<rparr>)
      else if a = ''--table'' then p2p_flags scan as (nc, upd_game (\<lambda>g. g\<lparr>gc_TableID := v\<rparr>) cfg)
      else if a = ''--peer'' then p2p_flags scan as (nc, upd_net (\<lambda>n. n\<lparr>nc_BootstrapPeers := [v]\<rparr>) cfg)
      else p2p_flags scan (v # as) (nc, cfg))"

definition applyP2PFlags :: "(string \<Rightarrow> int option) \<Rightarrow> string list \<Rightarrow> Config \<Rightarrow> bool \<times> Config" where
  "applyP2PFlags scan args cfg = p2p_flags scan args (False, cfg)"

definition requireP2PSeats :: "int \<Rightarrow> bool" where
  "requireP2PSeats n \<longleftrightarrow> \<not> n < 3"

text \<open>The option of the local game: the last \<open>--config\<close> or \<open>-c\<close> that a value follows.\<close>

fun config_path :: "string list \<Rightarrow> string \<Rightarrow> string" where
  "config_path (a # v # as) path = config_path (v # as) (if a = ''--config'' \<or> a = ''-c'' then v else path)"
| "config_path _ path = path"

section \<open>Errors\<close>

text \<open>
  A path that names no file is an error, and never the default configuration: the error arrives
  wrapped twice, and \<open>os.IsNotExist\<close> is false for it.
\<close>

lemma missing_file_is_fatal:
  assumes "path \<noteq> []" and "ce_ReadFile env path = Inl NotExist"
  shows "LoadOrDefault env path = Inl (Wrapped ''Load'' (Wrapped ''loadJSON: read'' NotExist))"
  using assms by (simp add: LoadOrDefault_def Load_def loadJSON_def os_IsNotExist_def)

text \<open>
  The lower bound of the buy-in wraps: with a big blind of \<open>2\<^sup>60\<close> ten of them are negative, and a
  buy-in of one chip passes.
\<close>

lemma buy_in_bound_wraps:
  "Validate ((Default env)\<lparr>cfg_Game := (cfg_Game (Default env))\<lparr>gc_BigBlind := 2 ^ 60, gc_BuyIn := 1\<rparr>\<rparr>) = None"
  by (simp add: Validate_def Default_def w64_def)

text \<open>The seats given on the command line are never checked against the upper bound.\<close>

lemma seats_flag_unchecked:
  "scan v = Some n \<Longrightarrow> gc_MaxSeats (cfg_Game (snd (applyP2PFlags scan [''--seats'', v] cfg))) = n"
  by (simp add: applyP2PFlags_def upd_game_def)

end
