(* ===== verification/Program.thy ===== *)
theory Program
  imports Terminal Sequencer FaultManager Config
begin

text \<open>
  cmd/poker/main.go: the program around the table, for the local game against bots and for a table of
  peers with open cards (\<open>--no-crypto\<close>). The terminal library runs the commands and hands their
  messages to \<open>Update\<close> one at a time; what is under way is a list of tasks, and a run performs them in
  any order. A \<open>Send\<close> is a message under way. Each task is one step: a step of the code locks the
  machine. All hands share their players (the code keeps the same pointers), the store has one list of
  them. \<open>order\<close> is the order in which a map is visited, \<open>draws\<close> what a seed of \<open>math/rand\<close> gives to a
  shuffle, \<open>err\<close> the wording of an error.
\<close>

section \<open>Helpers\<close>

definition formatChips :: "i64 \<Rightarrow> string" where
  "formatChips chips = (if chips \<ge> 1000 then dec_int (go_quo chips 1000) @ ''k'' else dec_int chips)"

definition xor64 :: "int \<Rightarrow> int \<Rightarrow> int" where
  "xor64 a b = w64 (uint (word_of_int a XOR word_of_int b :: 64 word))"

definition sharedSeed :: "byte list \<Rightarrow> i64" where
  "sharedSeed nonce =
     (let seed = fold (\<lambda>(i, b) s. xor64 s (w64 (uint b * 2 ^ (i mod 8 * 8)))) (enumerate 0 nonce) 0
      in w64 (seed * 6364136223846793005 + 1442695040888963407))"

definition next_seed :: "i64 \<Rightarrow> i64 \<Rightarrow> i64" where
  "next_seed sd handNum = xor64 sd (w64 (handNum * 2654435761))"

definition payouts_list :: "string list \<Rightarrow> game_state \<Rightarrow> (string \<times> i64) list" where
  "payouts_list order gs = map (\<lambda>i. (i, the (gs_payouts gs i))) [i \<leftarrow> order. gs_payouts gs i \<noteq> None]"

definition payout_of :: "game_state \<Rightarrow> string \<Rightarrow> i64" where
  "payout_of gs i = (case gs_payouts gs i of None \<Rightarrow> 0 | Some x \<Rightarrow> x)"

definition winner_ids :: "game_state \<Rightarrow> string \<rightharpoonup> bool" where
  "winner_ids gs = (\<lambda>i. case gs_payouts gs i of None \<Rightarrow> None | Some x \<Rightarrow> if x > 0 then Some True else None)"

definition buildWinnerInfo :: "game_state \<Rightarrow> (string \<rightharpoonup> bool) \<times> (string \<rightharpoonup> string)" where
  "buildWinnerInfo gs =
     (winner_ids gs,
      if length (gs_community gs) = 5 then
        fold (\<lambda>p ranks. if p_status p \<noteq> StatusFolded \<and> winner_ids gs (p_id p) \<noteq> None
            then ranks(p_id p \<mapsto> HandRank_String (h_rank (EvaluateBest7 (seven_cards p (gs_community gs))))) else ranks)
          (gs_players gs) Map.empty
      else Map.empty)"

section \<open>The states of the hands\<close>

record store =
  st_states :: "game_state list"
  st_players :: "player list"

definition load_gs :: "store \<Rightarrow> nat \<Rightarrow> game_state" where
  "load_gs st a = (st_states st ! a)\<lparr>gs_players := st_players st\<rparr>"

definition save_gs :: "nat \<Rightarrow> game_state \<Rightarrow> store \<Rightarrow> store" where
  "save_gs a gs st = st\<lparr>st_states := (st_states st)[a := gs], st_players := gs_players gs\<rparr>"

definition alloc_gs :: "game_state \<Rightarrow> store \<Rightarrow> nat \<times> store" where
  "alloc_gs gs st = (length (st_states st), st\<lparr>st_states := st_states st @ [gs], st_players := gs_players gs\<rparr>)"

definition upd_gs :: "nat \<Rightarrow> (game_state \<Rightarrow> game_state) \<Rightarrow> store \<Rightarrow> store" where
  "upd_gs a f st = save_gs a (f (load_gs st a)) st"

text \<open>The table that both programs play at.\<close>

record table_env =
  te_cfg :: GameConfig
  te_draws :: "i64 \<Rightarrow> nat list"
  te_order :: "string list"
  te_err :: "machine_error \<Rightarrow> string"

definition reset_players :: "store \<Rightarrow> store" where
  "reset_players st = st\<lparr>st_players := map ResetForNewHand (st_players st)\<rparr>"

definition new_hand :: "table_env \<Rightarrow> i64 \<Rightarrow> nat \<Rightarrow> store \<Rightarrow> nat \<times> store" where
  "new_hand env handNum dealerIdx st =
     (let st = reset_players st
      in alloc_gs (NewGameState (gc_TableID (te_cfg env)) handNum (st_players st) dealerIdx
           (gc_SmallBlind (te_cfg env)) (gc_BigBlind (te_cfg env))) st)"

text \<open>\<open>StartHand\<close> on a state of the store: the message that shows it, or the error.\<close>

definition start_hand :: "table_env \<Rightarrow> i64 \<Rightarrow> nat \<Rightarrow> store \<Rightarrow> ui_msg \<times> store" where
  "start_hand env sd a st =
     (case StartHand (te_draws env sd) (load_gs st a) of
        (Some e, gs) \<Rightarrow> (ErrorMsg (te_err env e), save_gs a gs st)
      | (None, gs) \<Rightarrow> (GameStateMsg a, save_gs a gs st))"

section \<open>The local game\<close>

datatype local_task = LT_Start | LT_Bot | LT_NextHand | LT_Echo | LT_Deliver ui_msg

record local_game =
  lg_ui :: Model
  lg_gs :: nat
  lg_machine :: nat
  lg_store :: store
  lg_dealerIdx :: nat
  lg_handNum :: i64
  lg_tasks :: "local_task list"
  lg_quit :: bool

definition human :: string where
  "human = ''you''"

definition bot_names :: "string list" where
  "bot_names = [''Alice (bot)'', ''Bob (bot)'', ''Carol (bot)'', ''Dave (bot)'', ''Eve (bot)'']"

definition local_players :: "Config \<Rightarrow> player list" where
  "local_players cfg =
     NewPlayer human (cfg_PlayerName cfg) (gc_BuyIn (cfg_Game cfg))
     # map (\<lambda>i. NewPlayer (''bot-'' @ dec_int (int i)) (bot_names ! ((i - 1) mod length bot_names)) (gc_BuyIn (cfg_Game cfg)))
         [1..<nat (gc_MaxSeats (cfg_Game cfg))]"

definition em_dash :: string where
  "em_dash = [CHR 0xE2, CHR 0x80, CHR 0x94]"

definition middle_dot :: string where
  "middle_dot = [CHR 0xC2, CHR 0xB7]"

definition local_status :: "Config \<Rightarrow> string" where
  "local_status cfg = ''Local game '' @ em_dash @ '' '' @ dec_int (gc_MaxSeats (cfg_Game cfg)) @ '' players '' @ em_dash @ '' ''
     @ formatChips (gc_SmallBlind (cfg_Game cfg)) @ ''/'' @ formatChips (gc_BigBlind (cfg_Game cfg)) @ '' blinds''"

definition runLocalMode :: "Config \<Rightarrow> local_game" where
  "runLocalMode cfg =
     (let g = cfg_Game cfg;
          gs = NewGameState (gc_TableID g) 1 (local_players cfg) 0 (gc_SmallBlind g) (gc_BigBlind g)
      in \<lparr>lg_ui = (NewModel human)\<lparr>ui_LobbyStatus := local_status cfg\<rparr>, lg_gs = 0, lg_machine = 0,
          lg_store = \<lparr>st_states = [gs], st_players = gs_players gs\<rparr>, lg_dealerIdx = 0, lg_handNum = 1,
          lg_tasks = [LT_Start], lg_quit = False\<rparr>)"

definition applyHumanAction :: "Action \<Rightarrow> local_game \<Rightarrow> local_game" where
  "applyHumanAction a g = g\<lparr>lg_store := upd_gs (lg_machine g) (apply_ignoring a) (lg_store g)\<rparr>"

definition lg_show :: "ui_msg \<Rightarrow> local_game \<Rightarrow> local_game" where
  "lg_show msg g = (case ui_Update (load_gs (lg_store g)) msg (lg_ui g) of (m, acts, quit) \<Rightarrow>
     fold applyHumanAction acts (g\<lparr>lg_ui := m, lg_quit := lg_quit g \<or> quit\<rparr>))"

definition lg_spawn :: "local_task \<Rightarrow> local_game \<Rightarrow> local_game" where
  "lg_spawn t g = g\<lparr>lg_tasks := lg_tasks g @ [t]\<rparr>"

fun local_Update :: "table_env \<Rightarrow> ui_msg \<Rightarrow> local_game \<Rightarrow> local_game" where
  "local_Update env (GameStateMsg a) g =
     (let g = lg_show (GameStateMsg a) (g\<lparr>lg_gs := a\<rparr>);
          gs = load_gs (lg_store g) a
      in if gs_phase gs = PhaseSettled then
           (case buildWinnerInfo gs of (w, r) \<Rightarrow>
              lg_spawn LT_NextHand (lg_show (WinnerMsg w r (payouts_list (te_order env) gs)) g))
         else case CurrentPlayer gs of None \<Rightarrow> g
              | Some cur \<Rightarrow> if p_id cur \<noteq> human then lg_spawn LT_Bot g else g)"
| "local_Update env (KeyMsg k) g =
     (let g = lg_show (KeyMsg k) g in if ui_Mode (lg_ui g) = ModeSpectate then lg_spawn LT_Echo g else g)"
| "local_Update env msg g = lg_show msg g"

definition botAction :: "local_game \<Rightarrow> local_game" where
  "botAction g =
     (let gs = load_gs (lg_store g) (lg_gs g)
      in case CurrentPlayer gs of None \<Rightarrow> g
         | Some cur \<Rightarrow>
             if p_id cur = human then g
             else let toCall = w64 (gs_currentBet gs - p_currentBet cur);
                      a = mk_action (p_id cur) (if toCall > 0 then ActionCall else ActionCheck) 0
               in lg_spawn (LT_Deliver (GameStateMsg (lg_gs g))) (applyHumanAction a g))"

text \<open>One generator serves all hands; a hand takes the draws of its number in the store.\<close>

definition local_nextHand :: "table_env \<Rightarrow> local_game \<Rightarrow> local_game" where
  "local_nextHand env g =
     (let n = w64 (lg_handNum g + 1);
          d = (lg_dealerIdx g + 1) mod length (st_players (lg_store g));
          (a, st) = new_hand env n d (lg_store g);
          (msg, st) = start_hand env (int a) a st
      in lg_spawn (LT_Deliver msg)
           (g\<lparr>lg_handNum := n, lg_dealerIdx := d, lg_store := st, lg_gs := a, lg_machine := a\<rparr>))"

fun local_perform :: "table_env \<Rightarrow> local_task \<Rightarrow> local_game \<Rightarrow> local_game" where
  "local_perform env LT_Start g =
     (case start_hand env (int (lg_machine g)) (lg_machine g) (lg_store g) of (msg, st) \<Rightarrow>
        (case msg of ErrorMsg e \<Rightarrow> lg_spawn (LT_Deliver msg) (g\<lparr>lg_store := st\<rparr>)
         | _ \<Rightarrow> lg_spawn (LT_Deliver (GameStateMsg (lg_gs g))) (g\<lparr>lg_store := st\<rparr>)))"
| "local_perform env LT_Bot g = botAction g"
| "local_perform env LT_NextHand g = local_nextHand env g"
| "local_perform env LT_Echo g = lg_spawn (LT_Deliver (GameStateMsg (lg_gs g))) g"
| "local_perform env (LT_Deliver msg) g = local_Update env msg g"

datatype user_event = Perform nat | Press string

fun local_event_step :: "table_env \<Rightarrow> user_event \<Rightarrow> local_game \<Rightarrow> local_game" where
  "local_event_step env (Perform i) g =
     (if i < length (lg_tasks g)
      then local_perform env (lg_tasks g ! i) (g\<lparr>lg_tasks := take i (lg_tasks g) @ drop (Suc i) (lg_tasks g)\<rparr>) else g)"
| "local_event_step env (Press k) g = local_Update env (KeyMsg k) g"

text \<open>After a key that quits the program is over.\<close>

definition local_step :: "table_env \<Rightarrow> user_event \<Rightarrow> local_game \<Rightarrow> local_game" where
  "local_step env ev g = (if lg_quit g then g else local_event_step env ev g)"

definition local_run :: "table_env \<Rightarrow> user_event list \<Rightarrow> local_game \<Rightarrow> local_game" where
  "local_run env evs g = fold (local_step env) evs g"

section \<open>A table of peers\<close>

text \<open>The calls of the node's operations, which are in \<open>NodeNet\<close>.\<close>

datatype node_call = CallAction i64 Action i64 | CallHandResult i64 "PotResult list"

datatype p2p_task = PT_Start | PT_WaitUpdate | PT_NextHand | PT_Kick | PT_Deliver ui_msg

record p2p_game =
  pp_ui :: Model
  pp_store :: store
  pp_live :: nat
  pp_seq :: actionSequencer
  pp_dealerIdx :: nat
  pp_handNum :: i64
  pp_liveHandNum :: i64
  pp_sharedSeed :: i64
  pp_fm :: FaultManager
  pp_lobby :: Lobby
  pp_gone :: "string list"
  pp_tasks :: "p2p_task list"
  pp_calls :: "node_call list"
  pp_quit :: bool

definition p2p_players :: "SeatInfo list \<Rightarrow> player list" where
  "p2p_players seats = map (\<lambda>s. NewPlayer (si_PlayerID s) (si_PlayerName s) (si_BuyIn s)) seats"

text \<open>When the lobby is full: \<open>ids\<close> is the order in which its map is visited.\<close>

definition p2p_init :: "table_env \<Rightarrow> Config \<Rightarrow> string \<Rightarrow> int \<Rightarrow> playerID list \<Rightarrow> Lobby \<Rightarrow> p2p_game" where
  "p2p_init env cfg localPeerID now ids lb =
     (let g = te_cfg env;
          players = p2p_players (Seats ids lb);
          fm = RegisterPlayers now (CanonicalPlayerOrder ids lb) (NewFaultManager localPeerID 1
            \<lparr>fc_HeartbeatInterval = 0, fc_HeartbeatTimeout = ft_HeartbeatTimeout (cfg_Fault cfg),
             fc_VoteExpiry = ft_VoteExpiry (cfg_Fault cfg), fc_ShamirThreshold = 0, fc_Prime = Some SharedPrime\<rparr>);
          gs = NewGameState (gc_TableID g) 1 players 0 (gc_SmallBlind g) (gc_BigBlind g);
          status = ''P2P '' @ middle_dot @ '' '' @ dec_int (int (length players)) @ '' players '' @ middle_dot @ '' ''
            @ formatChips (gc_SmallBlind g) @ ''/'' @ formatChips (gc_BigBlind g) @ '' blinds''
      in \<lparr>pp_ui = (NewModel localPeerID)\<lparr>ui_LobbyStatus := status\<rparr>, pp_store = \<lparr>st_states = [gs], st_players = gs_players gs\<rparr>, pp_live = 0,
          pp_seq = new_sequencer, pp_dealerIdx = 0, pp_handNum = 1, pp_liveHandNum = 1,
          pp_sharedSeed = sharedSeed (SessionNonce ids lb), pp_fm = fm, pp_lobby = lb, pp_gone = [],
          pp_tasks = [PT_Start, PT_WaitUpdate], pp_calls = [], pp_quit = False\<rparr>)"

definition pp_spawn :: "p2p_task list \<Rightarrow> p2p_game \<Rightarrow> p2p_game" where
  "pp_spawn ts g = g\<lparr>pp_tasks := pp_tasks g @ ts\<rparr>"

definition pp_call :: "node_call \<Rightarrow> p2p_game \<Rightarrow> p2p_game" where
  "pp_call c g = g\<lparr>pp_calls := pp_calls g @ [c]\<rparr>"

text \<open>The machine and the sequencer are those of \<open>Sequencer\<close>.\<close>

definition pp_replica :: "p2p_game \<Rightarrow> replica" where
  "pp_replica g = \<lparr>rp_machine = Some (load_gs (pp_store g) (pp_live g)), rp_seq = pp_seq g\<rparr>"

definition put_replica :: "replica \<Rightarrow> p2p_game \<Rightarrow> p2p_game" where
  "put_replica r g =
     (case rp_machine r of None \<Rightarrow> g\<lparr>pp_seq := rp_seq r\<rparr>
      | Some gs \<Rightarrow> g\<lparr>pp_store := save_gs (pp_live g) gs (pp_store g), pp_seq := rp_seq r\<rparr>)"

definition show_live :: "p2p_game \<Rightarrow> p2p_task" where
  "show_live g = PT_Deliver (GameStateMsg (pp_live g))"

definition pp_applyAndBroadcast :: "Action \<Rightarrow> p2p_game \<Rightarrow> p2p_game" where
  "pp_applyAndBroadcast a g =
     (case applyAndBroadcast a (pp_replica g) of
        (None, r) \<Rightarrow> g
      | (Some (a, outSeq), r) \<Rightarrow>
          pp_spawn [PT_Kick, show_live g] (pp_call (CallAction (pp_handNum g) a outSeq) (put_replica r g)))"

definition pp_foldGone :: "p2p_game \<Rightarrow> p2p_game" where
  "pp_foldGone g =
     (case foldGoneIfCurrent (set (pp_gone g)) (pp_replica g) of
        (None, r) \<Rightarrow> put_replica r g
      | (Some (a, outSeq), r) \<Rightarrow>
          pp_spawn [show_live g] (pp_call (CallAction (pp_handNum g) a outSeq) (put_replica r g)))"

definition noteGone :: "string \<Rightarrow> p2p_game \<Rightarrow> p2p_game" where
  "noteGone peerID g = g\<lparr>pp_gone := List.insert peerID (pp_gone g)\<rparr>"

definition pp_forceFold :: "string \<Rightarrow> p2p_game \<Rightarrow> p2p_game" where
  "pp_forceFold peerID g =
     (let g = noteGone peerID g
      in case force_fold peerID (pp_replica g) of
           (None, r) \<Rightarrow> pp_spawn [PT_Kick] (put_replica r g)
         | (Some (a, outSeq), r) \<Rightarrow>
             pp_spawn [show_live g, PT_Kick] (pp_call (CallAction (pp_handNum g) a outSeq) (put_replica r g)))"

definition pp_onAction :: "PlayerAction \<Rightarrow> p2p_game \<Rightarrow> p2p_game" where
  "pp_onAction msg g =
     (case on_player_action msg (pp_replica g) of (ready, r) \<Rightarrow>
        pp_spawn ((if ready \<noteq> [] then [show_live g] else []) @ [PT_Kick]) (put_replica r g))"

definition pp_show :: "ui_msg \<Rightarrow> p2p_game \<Rightarrow> p2p_game" where
  "pp_show msg g = (case ui_Update (load_gs (pp_store g)) msg (pp_ui g) of (m, acts, quit) \<Rightarrow>
     fold pp_applyAndBroadcast acts (g\<lparr>pp_ui := m, pp_quit := pp_quit g \<or> quit\<rparr>))"

definition pot_results :: "game_state \<Rightarrow> PotResult list" where
  "pot_results gs = map (\<lambda>pot. \<lparr>pot_Amount = pot_amount pot,
     pot_WinnerIds = [i \<leftarrow> pot_eligible pot. payout_of gs i > 0]\<rparr>) (gs_pots gs)"

fun p2p_Update :: "table_env \<Rightarrow> ui_msg \<Rightarrow> p2p_game \<Rightarrow> p2p_game" where
  "p2p_Update env (GameStateMsg a) g =
     (let g = pp_show (GameStateMsg a) g;
          gs = load_gs (pp_store g) a
      in if gs_phase gs = PhaseSettled then
           (case buildWinnerInfo gs of (w, r) \<Rightarrow>
              pp_spawn [PT_NextHand] (pp_call (CallHandResult (pp_handNum g) (pot_results gs))
                (pp_show (WinnerMsg w r (payouts_list (te_order env) gs)) g)))
         else pp_spawn [PT_WaitUpdate] g)"
| "p2p_Update env (KeyMsg k) g = pp_spawn [PT_WaitUpdate] (pp_show (KeyMsg k) g)"
| "p2p_Update env msg g = pp_show msg g"

declare p2p_Update.simps [simp del]

definition startNextHand :: "table_env \<Rightarrow> p2p_game \<Rightarrow> p2p_game" where
  "startNextHand env g =
     (let n = w64 (pp_handNum g + 1);
          d = (pp_dealerIdx g + 1) mod length (st_players (pp_store g));
          g = g\<lparr>pp_handNum := n, pp_liveHandNum := n, pp_fm := SetHandNum n (pp_fm g), pp_dealerIdx := d,
                pp_seq := seq_reset (pp_seq g), pp_lobby := Lobby_Reset (pp_lobby g)\<rparr>;
          (a, st) = new_hand env n d (pp_store g);
          (msg, st) = start_hand env (next_seed (pp_sharedSeed g) n) a st
      in pp_spawn [PT_Deliver msg] (g\<lparr>pp_store := st, pp_live := a\<rparr>))"

fun p2p_perform :: "table_env \<Rightarrow> p2p_task \<Rightarrow> p2p_game \<Rightarrow> p2p_game" where
  "p2p_perform env PT_Start g =
     (case start_hand env (pp_sharedSeed g) (pp_live g) (pp_store g) of (msg, st) \<Rightarrow>
        pp_spawn [PT_Deliver msg] (g\<lparr>pp_store := st\<rparr>))"
| "p2p_perform env PT_WaitUpdate g = pp_spawn [show_live g] g"
| "p2p_perform env PT_NextHand g = startNextHand env g"
| "p2p_perform env PT_Kick g = pp_foldGone g"
| "p2p_perform env (PT_Deliver msg) g = p2p_Update env msg g"

datatype p2p_event = PerformTask nat | PressKey string | PeerAction PlayerAction | PeerLost string

fun p2p_event_step :: "table_env \<Rightarrow> p2p_event \<Rightarrow> p2p_game \<Rightarrow> p2p_game" where
  "p2p_event_step env (PerformTask i) g =
     (if i < length (pp_tasks g)
      then p2p_perform env (pp_tasks g ! i) (g\<lparr>pp_tasks := take i (pp_tasks g) @ drop (Suc i) (pp_tasks g)\<rparr>) else g)"
| "p2p_event_step env (PressKey k) g = p2p_Update env (KeyMsg k) g"
| "p2p_event_step env (PeerAction m) g = pp_onAction m g"
| "p2p_event_step env (PeerLost i) g = pp_forceFold i g"

text \<open>After a key that quits the program is over.\<close>

definition p2p_step :: "table_env \<Rightarrow> p2p_event \<Rightarrow> p2p_game \<Rightarrow> p2p_game" where
  "p2p_step env ev g = (if pp_quit g then g else p2p_event_step env ev g)"

definition p2p_run :: "table_env \<Rightarrow> p2p_event list \<Rightarrow> p2p_game \<Rightarrow> p2p_game" where
  "p2p_run env evs g = fold (p2p_step env) evs g"

section \<open>The next hand\<close>

lemma deal_hole_ok:
  assumes "gs_deck gs = Some d" and "d \<noteq> []"
  shows "\<exists>h. deal_hole first i gs = (None, h) \<and> gs_deck h = Some (tl d)"
  using assms by (cases d) (auto simp: deal_hole_def upd_seat_def)

lemma deal_holes_ok:
  assumes "gs_deck gs = Some d" and "length xs \<le> length d"
  shows "\<exists>h. fold (\<lambda>(first, idx) r. andthen r (deal_hole first idx)) xs (None, gs) = (None, h)"
  using assms
proof (induction xs arbitrary: gs d)
  case (Cons x xs)
  obtain first i where x: "x = (first, i)" by fastforce
  have "d \<noteq> []" using Cons.prems(2) by auto
  from deal_hole_ok [OF Cons.prems(1) this, of first i] obtain h where
    h: "deal_hole first i gs = (None, h)" "gs_deck h = Some (tl d)" by blast
  have "length xs \<le> length (tl d)" using Cons.prems(2) by auto
  from Cons.IH [OF h(2) this] show ?case by (simp add: x h(1) andthen_def)
qed simp

text \<open>A fresh table of at most 26 players can be dealt.\<close>

lemma StartHand_ok:
  assumes f: "fresh_hand gs" and d: "gs_deck gs = Some NewDeck" and n: "2 \<le> length (gs_players gs)" "length (gs_players gs) \<le> 26"
  obtains h where "StartHand draws gs = (None, h)"
proof -
  let ?gs = "gs\<lparr>gs_deck := Some (Shuffle draws NewDeck)\<rparr>"
  have f': "fresh_hand ?gs" using f by (simp add: fresh_hand_def stacks_def)
  obtain e g where g: "postBlinds ?gs = (e, g)" by fastforce
  have n': "2 \<le> length (gs_players ?gs)" using n by simp
  note p = postBlinds_hand [OF f' n' g]
  have "length (gs_players g) = length (gs_players gs)" using p(5) map_eq_imp_length_eq by fastforce
  then have "\<exists>k. dealHoleCards g = (None, k)"
    unfolding dealHoleCards_def Let_def using p(7) n(2) by (intro deal_holes_ok) auto
  then obtain k where "dealHoleCards g = (None, k)" ..
  then show ?thesis
    using f d n(1) g p(1) that by (simp add: StartHand_def fresh_hand_def andthen_def)
qed

text \<open>What the next hand needs: seats for a deck, and chips that fit.\<close>

definition seated :: "table_env \<Rightarrow> player list \<Rightarrow> bool" where
  "seated env ps \<longleftrightarrow> 2 \<le> length ps \<and> length ps \<le> 26 \<and> (\<forall>p\<in>set ps. 0 \<le> p_stack p) \<and> (\<Sum>p\<leftarrow>ps. p_stack p) < 2 ^ 59
     \<and> 0 \<le> gc_SmallBlind (te_cfg env) \<and> 0 \<le> gc_BigBlind (te_cfg env)"

lemma reset_stacks [simp]: "map p_stack (map ResetForNewHand ps) = map p_stack ps" "p_stack (ResetForNewHand p) = p_stack p"
  "p_id (ResetForNewHand p) = p_id p"
  by (simp_all add: ResetForNewHand_def)

lemma load_alloc:
  assumes "alloc_gs gs st = (a, st')"
  shows "load_gs st' a = gs" and "st_players st' = gs_players gs" and "a = length (st_states st)"
    and "length (st_states st') = Suc a"
  using assms by (auto simp: alloc_gs_def load_gs_def)

lemma load_save:
  assumes "a < length (st_states st)"
  shows "load_gs (save_gs a gs st) a = gs" and "st_players (save_gs a gs st) = gs_players gs"
  using assms by (simp_all add: save_gs_def load_gs_def)

lemma next_hand_started:
  assumes s: "seated env (st_players st)" and d: "d < length (st_players st)"
    and n: "new_hand env n d st = (a, st1)" and h: "start_hand env sd a st1 = (msg, st2)"
  shows "msg = GameStateMsg a" and "hand_inv (load_gs st2 a)" and "gs_phase (load_gs st2 a) = PhasePreFlop"
    and "table_chips (load_gs st2 a) = (\<Sum>p\<leftarrow>st_players st. p_stack p)"
    and "map p_id (st_players st2) = map p_id (st_players st)" and "gs_players (load_gs st2 a) = st_players st2"
    and "a = length (st_states st)"
proof -
  let ?ps = "map ResetForNewHand (st_players st)"
  let ?g0 = "NewGameState (gc_TableID (te_cfg env)) n ?ps d (gc_SmallBlind (te_cfg env)) (gc_BigBlind (te_cfg env))"
  have al: "alloc_gs ?g0 (reset_players st) = (a, st1)"
    using n by (simp add: new_hand_def Let_def reset_players_def)
  note la = load_alloc [OF al]
  have sm: "(\<Sum>p\<leftarrow>?ps. p_stack p) = (\<Sum>p\<leftarrow>st_players st. p_stack p)" by (simp add: comp_def)
  have f: "fresh_hand ?g0"
    using s d sm by (intro fresh_NewGameState) (auto simp: seated_def)
  have dk: "gs_deck ?g0 = Some NewDeck" and len: "length (gs_players ?g0) = length (st_players st)"
    by (simp_all add: NewGameState_def)
  obtain h where sh: "StartHand (te_draws env sd) ?g0 = (None, h)"
    by (rule StartHand_ok [OF f dk]) (use s len in \<open>auto simp: seated_def\<close>)
  have st2: "msg = GameStateMsg a" "st2 = save_gs a h st1"
    using h la(1) sh by (auto simp: start_hand_def)
  then have l: "load_gs st2 a = h" "st_players st2 = gs_players h" using load_save la(4) by simp_all
  note hand = StartHand_hand [OF f sh]
  show "msg = GameStateMsg a" by (rule st2(1))
  show "hand_inv (load_gs st2 a)" "gs_phase (load_gs st2 a) = PhasePreFlop" using hand l by simp_all
  show "table_chips (load_gs st2 a) = (\<Sum>p\<leftarrow>st_players st. p_stack p)"
    using hand(2) l sm by (simp add: stacks_def NewGameState_def comp_def)
  show "map p_id (st_players st2) = map p_id (st_players st)"
    using hand(4) l by (simp add: NewGameState_def comp_def)
  show "gs_players (load_gs st2 a) = st_players st2" using l by simp
  show "a = length (st_states st)" using la(3) by (simp add: reset_players_def)
qed

definition pp_gs :: "p2p_game \<Rightarrow> game_state" where
  "pp_gs g = load_gs (pp_store g) (pp_live g)"

definition chips_of :: "p2p_game \<Rightarrow> int" where
  "chips_of g = (\<Sum>p\<leftarrow>st_players (pp_store g). p_stack p)"

lemma settled_chips: "gs_phase (pp_gs g) = PhaseSettled \<Longrightarrow> table_chips (pp_gs g) = chips_of g"
  by (simp add: table_chips_settled pp_gs_def load_gs_def stacks_def chips_of_def)

lemma startNextHand_ok:
  assumes s: "seated env (st_players (pp_store g))" and g': "g' = startNextHand env g"
  shows "hand_inv (pp_gs g')" and "gs_phase (pp_gs g') = PhasePreFlop" and "table_chips (pp_gs g') = chips_of g"
    and "map p_id (st_players (pp_store g')) = map p_id (st_players (pp_store g))"
    and "pp_tasks g' = pp_tasks g @ [PT_Deliver (GameStateMsg (pp_live g'))]"
    and "pp_handNum g' = w64 (pp_handNum g + 1)" and "pp_liveHandNum g' = pp_handNum g'"
    and "pp_seq g' = new_sequencer" and "pp_ui g' = pp_ui g"
    and "pp_dealerIdx g' = (pp_dealerIdx g + 1) mod length (st_players (pp_store g))"
    and "chips_of g' = chips_of g - bets (pp_gs g')" and "seated env (st_players (pp_store g'))"
proof -
  let ?n = "w64 (pp_handNum g + 1)" and ?d = "(pp_dealerIdx g + 1) mod length (st_players (pp_store g))"
  obtain a st1 where n: "new_hand env ?n ?d (pp_store g) = (a, st1)" by fastforce
  obtain msg st2 where h: "start_hand env (next_seed (pp_sharedSeed g) ?n) a st1 = (msg, st2)" by fastforce
  have d: "?d < length (st_players (pp_store g))" using s by (intro mod_less_divisor) (auto simp: seated_def)
  note nh = next_hand_started [OF s d n h]
  have e: "pp_store g' = st2" "pp_live g' = a" "pp_tasks g' = pp_tasks g @ [PT_Deliver msg]"
    "pp_handNum g' = ?n" "pp_liveHandNum g' = ?n" "pp_seq g' = new_sequencer" "pp_dealerIdx g' = ?d" "pp_ui g' = pp_ui g"
    using n h by (simp_all add: g' startNextHand_def Let_def pp_spawn_def seq_reset_def new_sequencer_def)
  show "hand_inv (pp_gs g')" "gs_phase (pp_gs g') = PhasePreFlop" "table_chips (pp_gs g') = chips_of g"
    "map p_id (st_players (pp_store g')) = map p_id (st_players (pp_store g))"
    using nh e by (simp_all add: pp_gs_def chips_of_def)
  show "pp_tasks g' = pp_tasks g @ [PT_Deliver (GameStateMsg (pp_live g'))]" "pp_handNum g' = ?n" "pp_liveHandNum g' = pp_handNum g'"
    "pp_seq g' = new_sequencer" "pp_dealerIdx g' = ?d" "pp_ui g' = pp_ui g" using nh(1) e by simp_all
  have st: "stacks (pp_gs g') = chips_of g'" using nh(6) e by (simp add: pp_gs_def stacks_def chips_of_def)
  show c: "chips_of g' = chips_of g - bets (pp_gs g')"
    using nh(3,4) e st by (simp add: table_chips_open pp_gs_def chips_of_def)
  have ci: "chips_inv (pp_gs g')" using nh(2,3) e by (auto simp: hand_inv_def pp_gs_def)
  then have ok: "\<forall>p\<in>set (st_players st2). player_ok p" using nh(6) e by (simp add: chips_inv_def pp_gs_def)
  have "0 \<le> bets (pp_gs g')"
    using ok nh(6) e unfolding bets_def by (fastforce intro!: sum_list_nonneg simp: player_ok_def pp_gs_def dest: order_trans)
  moreover have "length (st_players st2) = length (st_players (pp_store g))" using nh(5) map_eq_imp_length_eq by fastforce
  ultimately show "seated env (st_players (pp_store g'))"
    using s c ok e by (auto simp: seated_def chips_of_def player_ok_def)
qed

text \<open>
  C25: the next hand of a table of peers. When the node starts it, the machine is at a hand dealt and
  opened correctly, the chips of the table are exactly what the players held, in the same seats; the
  hand's number and the dealer move on by one, the sequencer starts from one, and the screen is sent
  the new state.
\<close>

theorem next_hand_keeps_chips:
  assumes "seated env (st_players (pp_store g))" and "gs_phase (pp_gs g) = PhaseSettled"
  shows "hand_inv (pp_gs (startNextHand env g)) \<and> gs_phase (pp_gs (startNextHand env g)) = PhasePreFlop
    \<and> table_chips (pp_gs (startNextHand env g)) = table_chips (pp_gs g)
    \<and> map p_id (gs_players (pp_gs (startNextHand env g))) = map p_id (gs_players (pp_gs g))
    \<and> pp_handNum (startNextHand env g) = w64 (pp_handNum g + 1)
    \<and> pp_dealerIdx (startNextHand env g) = (pp_dealerIdx g + 1) mod length (gs_players (pp_gs g))
    \<and> pp_seq (startNextHand env g) = new_sequencer
    \<and> pp_tasks (startNextHand env g) = pp_tasks g @ [PT_Deliver (GameStateMsg (pp_live (startNextHand env g)))]"
  using startNextHand_ok [OF assms(1) refl] settled_chips [OF assms(2)]
  by (simp add: pp_gs_def load_gs_def)

section \<open>One key too many\<close>

lemma startNextHand_quit: "pp_quit (startNextHand env g) = pp_quit g"
  by (simp add: startNextHand_def Let_def pp_spawn_def split: prod.split)

lemma pp_show_quiet:
  assumes "fst (snd (ui_Update (load_gs (pp_store g)) msg (pp_ui g))) = []"
  shows "\<exists>m. pp_show msg g = g\<lparr>pp_ui := m, pp_quit := pp_quit g \<or> snd (snd (ui_Update (load_gs (pp_store g)) msg (pp_ui g)))\<rparr>"
  using assms by (cases "ui_Update (load_gs (pp_store g)) msg (pp_ui g)") (auto simp: pp_show_def)

lemma no_action: "fst (snd (ui_Update h (GameStateMsg a) m)) = []" "fst (snd (ui_Update h (WinnerMsg w r ps) m)) = []"
  "ui_Mode m \<noteq> ModeBetting \<Longrightarrow> fst (snd (ui_Update h (KeyMsg k) m)) = []"
proof -
  assume "ui_Mode m \<noteq> ModeBetting"
  then have "snd (handleKey h k m) = []" by (intro key_all [where Q = "\<lambda>r. snd r = []"]) auto
  then show "fst (snd (ui_Update h (KeyMsg k) m)) = []" by (auto split: prod.split)
qed simp_all

lemma keep_quit: "\<not> q \<Longrightarrow> g\<lparr>pp_ui := m, pp_quit := pp_quit g \<or> q\<rparr> = g\<lparr>pp_ui := m\<rparr>"
  by (cases g) simp

lemma show_quiet:
  assumes "fst (snd (ui_Update (load_gs (pp_store g)) msg (pp_ui g))) = []" and "\<not> snd (snd (ui_Update (load_gs (pp_store g)) msg (pp_ui g)))"
  shows "\<exists>m. pp_show msg g = g\<lparr>pp_ui := m\<rparr>"
  using pp_show_quiet [OF assms(1)] unfolding keep_quit [OF assms(2)] .

lemma show_state_quiet: "\<exists>m. pp_show (GameStateMsg a) g = g\<lparr>pp_ui := m\<rparr>"
  by (rule show_quiet) simp_all

lemma show_winners_quiet: "\<exists>m. pp_show (WinnerMsg w r ps) g = g\<lparr>pp_ui := m\<rparr>"
  by (rule show_quiet) simp_all

lemma settled_delivery:
  assumes "gs_phase (load_gs (pp_store g) a) = PhaseSettled"
  shows "\<exists>m c. p2p_Update env (GameStateMsg a) g = g\<lparr>pp_ui := m, pp_calls := c, pp_tasks := pp_tasks g @ [PT_NextHand]\<rparr>"
proof -
  obtain m where 1: "pp_show (GameStateMsg a) g = g\<lparr>pp_ui := m\<rparr>" using show_state_quiet by blast
  obtain w r where bw: "buildWinnerInfo (load_gs (pp_store g) a) = (w, r)" by fastforce
  obtain m' where 2: "pp_show (WinnerMsg w r (payouts_list (te_order env) (load_gs (pp_store g) a))) (g\<lparr>pp_ui := m\<rparr>) = (g\<lparr>pp_ui := m\<rparr>)\<lparr>pp_ui := m'\<rparr>"
    using show_winners_quiet by blast
  have "p2p_Update env (GameStateMsg a) g = (g\<lparr>pp_ui := m'\<rparr>)
      \<lparr>pp_calls := pp_calls g @ [CallHandResult (pp_handNum g) (pot_results (load_gs (pp_store g) a))], pp_tasks := pp_tasks g @ [PT_NextHand]\<rparr>"
    using assms bw 2 by (simp add: p2p_Update.simps 1 Let_def pp_spawn_def pp_call_def)
  then show ?thesis by auto
qed

definition quit_key :: "string \<Rightarrow> bool" where
  "quit_key k \<longleftrightarrow> k = ''ctrl+c'' \<or> k = ''q''"

lemma key_spawns:
  assumes "ui_Mode (pp_ui g) \<noteq> ModeBetting"
  shows "\<exists>m. p2p_Update env (KeyMsg k) g = g\<lparr>pp_ui := m, pp_quit := pp_quit g \<or> quit_key k, pp_tasks := pp_tasks g @ [PT_WaitUpdate]\<rparr>"
proof -
  have "snd (snd (ui_Update (load_gs (pp_store g)) (KeyMsg k) (pp_ui g))) = quit_key k"
    using assms by (simp add: quit_key_def split: prod.split)
  then obtain m where "pp_show (KeyMsg k) g = g\<lparr>pp_ui := m, pp_quit := pp_quit g \<or> quit_key k\<rparr>"
    using pp_show_quiet [of g "KeyMsg k", OF no_action(3) [OF assms]] by auto
  then show ?thesis by (auto simp: p2p_Update.simps pp_spawn_def)
qed

lemma quit_run: "pp_quit g \<Longrightarrow> p2p_run env evs g = g"
  by (induction evs) (simp_all add: p2p_run_def p2p_step_def)

text \<open>
  C26: each key makes the node skip a hand. A key starts one more chain of updates, and every chain
  that shows the settled hand starts a next one. With a single chain under way and a hand that is
  settled but not yet shown, one key (any key, when it is not the player's turn, but the two that end
  the program) takes the node two hands further, and the chips bet in the hand between, its blinds,
  are gone from the table.
\<close>

theorem extra_key_burns_blinds:
  assumes "seated env (st_players (pp_store g))" and "gs_phase (pp_gs g) = PhaseSettled"
    and "pp_tasks g = [PT_WaitUpdate]" and "ui_Mode (pp_ui g) \<noteq> ModeBetting" and "\<not> pp_quit g"
  shows "if quit_key k then pp_quit (p2p_run env (PressKey k # evs) g) \<and> pp_handNum (p2p_run env (PressKey k # evs) g) = pp_handNum g
    else pp_handNum (p2p_run env (PressKey k # replicate 6 (PerformTask 0)) g) = w64 (w64 (pp_handNum g + 1) + 1)
      \<and> table_chips (pp_gs (p2p_run env (PressKey k # replicate 6 (PerformTask 0)) g))
        = table_chips (pp_gs g) - bets (pp_gs (p2p_run env (PressKey k # replicate 5 (PerformTask 0)) g))"
proof (cases "quit_key k")
  case True
  obtain m where "p2p_Update env (KeyMsg k) g = g\<lparr>pp_ui := m, pp_quit := True, pp_tasks := pp_tasks g @ [PT_WaitUpdate]\<rparr>"
    using key_spawns [OF assms(4), of env k] True by auto
  then have "p2p_run env (PressKey k # evs) g = p2p_run env evs (g\<lparr>pp_ui := m, pp_quit := True, pp_tasks := pp_tasks g @ [PT_WaitUpdate]\<rparr>)"
    using assms(5) by (simp add: p2p_run_def p2p_step_def)
  then show ?thesis using True by (simp add: quit_run)
next
  case False
  obtain m1 where k: "p2p_Update env (KeyMsg k) g = g\<lparr>pp_ui := m1, pp_tasks := [PT_WaitUpdate, PT_WaitUpdate]\<rparr>"
  proof -
    obtain m where "p2p_Update env (KeyMsg k) g = (g\<lparr>pp_ui := m, pp_quit := pp_quit g \<or> quit_key k\<rparr>)\<lparr>pp_tasks := pp_tasks g @ [PT_WaitUpdate]\<rparr>"
      using key_spawns [OF assms(4), of env k] by auto
    then show ?thesis using that unfolding keep_quit [OF False] by (simp add: assms(3))
  qed
  let ?D = "PT_Deliver (GameStateMsg (pp_live g))"
  have ph: "gs_phase (load_gs (pp_store g) (pp_live g)) = PhaseSettled" using assms(2) by (simp add: pp_gs_def)
  let ?g3 = "g\<lparr>pp_ui := m1, pp_tasks := [?D, ?D]\<rparr>"
  note step = p2p_step_def assms(5)
  have 3: "p2p_run env (PressKey k # replicate 2 (PerformTask 0)) g = ?g3"
    by (simp add: p2p_run_def numeral_2_eq_2 k pp_spawn_def show_live_def step)
  obtain m4 c4 where "p2p_Update env (GameStateMsg (pp_live g)) (?g3\<lparr>pp_tasks := [?D]\<rparr>)
      = (?g3\<lparr>pp_tasks := [?D]\<rparr>)\<lparr>pp_ui := m4, pp_calls := c4, pp_tasks := [?D] @ [PT_NextHand]\<rparr>"
    using settled_delivery [of "?g3\<lparr>pp_tasks := [?D]\<rparr>" "pp_live g" env] ph by auto
  then have 4: "p2p_step env (PerformTask 0) ?g3 = g\<lparr>pp_ui := m4, pp_calls := c4, pp_tasks := [?D, PT_NextHand]\<rparr>"
    by (simp add: step)
  let ?g4 = "g\<lparr>pp_ui := m4, pp_calls := c4, pp_tasks := [?D, PT_NextHand]\<rparr>"
  obtain m5 c5 where "p2p_Update env (GameStateMsg (pp_live g)) (?g4\<lparr>pp_tasks := [PT_NextHand]\<rparr>)
      = (?g4\<lparr>pp_tasks := [PT_NextHand]\<rparr>)\<lparr>pp_ui := m5, pp_calls := c5, pp_tasks := [PT_NextHand] @ [PT_NextHand]\<rparr>"
    using settled_delivery [of "?g4\<lparr>pp_tasks := [PT_NextHand]\<rparr>" "pp_live g" env] ph by auto
  then have 5: "p2p_step env (PerformTask 0) ?g4 = g\<lparr>pp_ui := m5, pp_calls := c5, pp_tasks := [PT_NextHand, PT_NextHand]\<rparr>"
    by (simp add: step)
  let ?g5 = "g\<lparr>pp_ui := m5, pp_calls := c5, pp_tasks := [PT_NextHand]\<rparr>"
  have s5: "seated env (st_players (pp_store ?g5))" using assms(1) by simp
  let ?g6 = "startNextHand env ?g5"
  note h6 = startNextHand_ok [OF s5 refl]
  have 6: "p2p_step env (PerformTask 0) (g\<lparr>pp_ui := m5, pp_calls := c5, pp_tasks := [PT_NextHand, PT_NextHand]\<rparr>) = ?g6"
    by (simp add: step)
  let ?g7 = "startNextHand env (?g6\<lparr>pp_tasks := tl (pp_tasks ?g6)\<rparr>)"
  have s6: "seated env (st_players (pp_store (?g6\<lparr>pp_tasks := tl (pp_tasks ?g6)\<rparr>)))" using h6(12) by simp
  note h7 = startNextHand_ok [OF s6 refl]
  have t6: "pp_tasks ?g6 = [PT_NextHand, PT_Deliver (GameStateMsg (pp_live ?g6))]" using h6(5) by simp
  have "\<not> pp_quit ?g6" using assms(5) by (simp add: startNextHand_quit)
  then have 7: "p2p_step env (PerformTask 0) ?g6 = ?g7" using t6 by (simp add: p2p_step_def)
  have r: "p2p_run env (PressKey k # replicate (Suc n) (PerformTask 0)) g = p2p_step env (PerformTask 0) (p2p_run env (PressKey k # replicate n (PerformTask 0)) g)" for n
    by (simp add: p2p_run_def replicate_append_same [symmetric] del: replicate_Suc)
  have e: "(3 :: nat) = Suc 2" "(4 :: nat) = Suc 3" "(5 :: nat) = Suc 4" "(6 :: nat) = Suc 5" by simp_all
  have "p2p_run env (PressKey k # replicate 3 (PerformTask 0)) g = ?g4" unfolding e(1) r 3 by (rule 4)
  then have "p2p_run env (PressKey k # replicate 4 (PerformTask 0)) g
      = g\<lparr>pp_ui := m5, pp_calls := c5, pp_tasks := [PT_NextHand, PT_NextHand]\<rparr>"
    unfolding e(2) r using 5 by (simp only:)
  then have x5: "p2p_run env (PressKey k # replicate 5 (PerformTask 0)) g = ?g6" unfolding e(3) r using 6 by (simp only:)
  then have "p2p_run env (PressKey k # replicate 6 (PerformTask 0)) g = ?g7" unfolding e(4) r using 7 by (simp only:)
  note runs = x5 this
  have "pp_handNum ?g7 = w64 (w64 (pp_handNum g + 1) + 1)" using h7(6) h6(6) by simp
  moreover have "table_chips (pp_gs ?g7) = chips_of ?g6" using h7(3) by (simp add: chips_of_def)
  moreover have "chips_of ?g6 = chips_of g - bets (pp_gs ?g6)" using h6(11) by (simp add: chips_of_def)
  ultimately show ?thesis unfolding runs using settled_chips [OF assms(2)] False by simp
qed

definition demo_env :: table_env where
  "demo_env = \<lparr>te_cfg = \<lparr>gc_TableID = ''t'', gc_MaxSeats = 2, gc_SmallBlind = 5, gc_BigBlind = 10, gc_BuyIn = 150, gc_ActionTimeout = 0\<rparr>,
     te_draws = (\<lambda>_. []), te_order = [''a'', ''b''], te_err = (\<lambda>_. ''error'')\<rparr>"

definition demo_game :: p2p_game where
  "demo_game = \<lparr>pp_ui = NewModel ''a'', pp_store = \<lparr>st_states = [demo_folded], st_players = gs_players demo_folded\<rparr>, pp_live = 0,
     pp_seq = new_sequencer, pp_dealerIdx = 0, pp_handNum = 1, pp_liveHandNum = 1, pp_sharedSeed = 0,
     pp_fm = NewFaultManager ''a'' 1 \<lparr>fc_HeartbeatInterval = 0, fc_HeartbeatTimeout = 0, fc_VoteExpiry = 0, fc_ShamirThreshold = 0,
       fc_Prime = Some 23\<rparr>,
     pp_lobby = NewLobby ''t'' 2, pp_gone = [], pp_tasks = [PT_WaitUpdate], pp_calls = [], pp_quit = False\<rparr>"

lemma demo_game_seated:
  "seated demo_env (st_players (pp_store demo_game))" "gs_phase (pp_gs demo_game) = PhaseSettled"
  "table_chips (pp_gs demo_game) = 300" "pp_tasks demo_game = [PT_WaitUpdate]" "ui_Mode (pp_ui demo_game) \<noteq> ModeBetting" "\<not> pp_quit demo_game"
proof -
  have d: "seated demo_env (gs_players demo_folded) \<and> gs_phase demo_folded = PhaseSettled \<and> table_chips demo_folded = 300" by code_simp
  have g: "pp_gs demo_game = demo_folded" "st_players (pp_store demo_game) = gs_players demo_folded"
    by (simp_all add: demo_game_def pp_gs_def load_gs_def)
  show "seated demo_env (st_players (pp_store demo_game))" "gs_phase (pp_gs demo_game) = PhaseSettled" "table_chips (pp_gs demo_game) = 300"
    using d by (simp_all add: g)
  show "pp_tasks demo_game = [PT_WaitUpdate]" "ui_Mode (pp_ui demo_game) \<noteq> ModeBetting" "\<not> pp_quit demo_game"
    by (simp_all add: demo_game_def NewModel_def)
qed

theorem next_hand_keeps_chips_witness:
  "hand_inv (pp_gs (startNextHand demo_env demo_game)) \<and> table_chips (pp_gs (startNextHand demo_env demo_game)) = 300"
  using next_hand_keeps_chips [OF demo_game_seated(1,2)] demo_game_seated(3) by simp

theorem extra_key_burns_blinds_witness:
  "table_chips (pp_gs (p2p_run demo_env (PressKey ''x'' # replicate 6 (PerformTask 0)) demo_game)) = 285"
proof -
  have "bets (pp_gs (p2p_run demo_env (PressKey ''x'' # replicate 5 (PerformTask 0)) demo_game)) = 15" by code_simp
  then show ?thesis using extra_key_burns_blinds [OF demo_game_seated(1,2,4-6), of "''x''"] demo_game_seated(3) by (simp add: quit_key_def)
qed

section \<open>The local game opens\<close>

text \<open>
  C27: a configuration that passes \<open>Validate\<close> opens a local game (with a big blind and a total of chips
  that fit): the first command starts a hand correctly for the human and the bots, with exactly the
  buy-ins of all seats on the table, and sends its state to the screen; there is no error.
\<close>

theorem local_game_opens:
  assumes "Validate cfg = None" and "gc_BigBlind (cfg_Game cfg) < 2 ^ 59"
    and "gc_MaxSeats (cfg_Game cfg) * gc_BuyIn (cfg_Game cfg) < 2 ^ 59"
  shows "hand_inv (load_gs (lg_store (local_run env [Perform 0] (runLocalMode cfg))) 0)
    \<and> gs_phase (load_gs (lg_store (local_run env [Perform 0] (runLocalMode cfg))) 0) = PhasePreFlop
    \<and> table_chips (load_gs (lg_store (local_run env [Perform 0] (runLocalMode cfg))) 0)
        = gc_MaxSeats (cfg_Game cfg) * gc_BuyIn (cfg_Game cfg)
    \<and> lg_tasks (local_run env [Perform 0] (runLocalMode cfg)) = [LT_Deliver (GameStateMsg 0)]"
proof -
  let ?g = "cfg_Game cfg" and ?ps = "local_players cfg"
  let ?gs = "NewGameState (gc_TableID ?g) 1 ?ps 0 (gc_SmallBlind ?g) (gc_BigBlind ?g)"
  have v: "2 \<le> gc_MaxSeats ?g" "gc_MaxSeats ?g \<le> 9" "0 < gc_SmallBlind ?g" "0 < gc_BigBlind ?g" "w64 (gc_BigBlind ?g * 10) \<le> gc_BuyIn ?g"
    using assms(1) by (auto simp: Validate_def Let_def split: if_splits)
  have "w64 (gc_BigBlind ?g * 10) = gc_BigBlind ?g * 10" using v(4) assms(2) by (intro w64_id) (simp add: in64_def)
  then have b: "0 \<le> gc_BuyIn ?g" using v by simp
  have len: "int (length ?ps) = gc_MaxSeats ?g" using v(1) by (simp add: local_players_def)
  have st: "\<forall>p\<in>set ?ps. p_stack p = gc_BuyIn ?g" by (auto simp: local_players_def NewPlayer_def)
  then have "(\<Sum>p\<leftarrow>?ps. p_stack p) = (\<Sum>p\<leftarrow>?ps. gc_BuyIn ?g)" by (intro arg_cong [where f = sum_list] map_cong) auto
  then have sm: "(\<Sum>p\<leftarrow>?ps. p_stack p) = gc_MaxSeats ?g * gc_BuyIn ?g" using len by (simp add: sum_list_triv)
  have f: "fresh_hand ?gs"
    using st b sm len v assms(3) by (intro fresh_NewGameState) auto
  have dk: "gs_deck ?gs = Some NewDeck" and l: "length (gs_players ?gs) = length ?ps" by (simp_all add: NewGameState_def)
  obtain h where sh: "StartHand (te_draws env 0) ?gs = (None, h)"
    by (rule StartHand_ok [OF f dk]) (use l len v in auto)
  have ld: "load_gs \<lparr>st_states = [?gs], st_players = gs_players ?gs\<rparr> 0 = ?gs" by (simp add: load_gs_def)
  have r: "local_run env [Perform 0] (runLocalMode cfg)
      = (runLocalMode cfg)\<lparr>lg_store := save_gs 0 h \<lparr>st_states = [?gs], st_players = gs_players ?gs\<rparr>, lg_tasks := [LT_Deliver (GameStateMsg 0)]\<rparr>"
    by (simp add: local_run_def local_step_def runLocalMode_def Let_def start_hand_def ld sh lg_spawn_def)
  have "load_gs (lg_store (local_run env [Perform 0] (runLocalMode cfg))) 0 = h" by (simp add: r load_save)
  moreover have "stacks ?gs = gc_MaxSeats ?g * gc_BuyIn ?g" using sm by (simp add: stacks_def NewGameState_def comp_def)
  ultimately show ?thesis using StartHand_hand [OF f sh] by (simp add: r)
qed

definition demo_files :: config_env where
  "demo_files = \<lparr>ce_home = None, ce_join = (\<lambda>a b. a @ ''/'' @ b), ce_exists = (\<lambda>_. False), ce_ReadFile = (\<lambda>_. Inl NotExist),
     ce_yaml = (\<lambda>_ _. None), ce_json = (\<lambda>_ _. None), ce_Getenv = (\<lambda>_. [])\<rparr>"

theorem local_game_opens_witness:
  "LoadOrDefault demo_files [] = Inr (Default demo_files)
   \<and> table_chips (load_gs (lg_store (local_run demo_env [Perform 0] (runLocalMode (Default demo_files)))) 0) = 6000"
proof -
  have l: "LoadOrDefault demo_files [] = Inr (Default demo_files)" by code_simp
  have v: "Validate (Default demo_files) = None" "gc_BigBlind (cfg_Game (Default demo_files)) < 2 ^ 59"
    "gc_MaxSeats (cfg_Game (Default demo_files)) * gc_BuyIn (cfg_Game (Default demo_files)) < 2 ^ 59" by code_simp+
  show ?thesis using l local_game_opens [OF v, of demo_env] by (simp add: Default_def)
qed

end
