(* ===== verification/CryptoTable.thy ===== *)
theory CryptoTable
  imports Program HandDemo NodeNet
begin

text \<open>
  cmd/poker/main.go: the cryptographic table of a node. Its callbacks hand the messages of the network to
  the hand in progress or buffer them before the first one; \<open>dealCryptoHand\<close> deals a hand; the fault
  manager's callbacks collect votes and shares, and \<open>beginRecovery\<close> rebuilds the key of a player who
  left. What leaves the table is a list of \<open>table_out\<close>; the calls of the node that send it are in
  \<open>NodeNet\<close>. Of liveness.go, the distribution of the shares.
\<close>

section \<open>The callbacks\<close>

datatype table_out = OutShuffle ShuffleMessage | OutPeel PeelMessage | OutShare string ShamirShare
  | OutDirectShare string ShamirShare | OutError string

record crypto_table =
  ct_self :: string
  ct_hand :: "CryptoHand option"
  ct_earlyShuffle :: "ShuffleStepWire list"
  ct_earlyPeels :: "PartialDecrypt list"
  ct_fm :: "FaultManager option"
  ct_gone :: "string list"
  ct_recovering :: "string list"

text \<open>The randomness of a call, by the messages still to be handled.\<close>

record table_rand =
  tr_step :: "nat \<Rightarrow> step_rand"
  tr_drain :: "nat \<Rightarrow> nat \<Rightarrow> step_rand"
  tr_peel :: "nat \<Rightarrow> peel_rand"

definition give_shuffle :: "table_rand \<Rightarrow> nat \<Rightarrow> ShuffleStepWire \<Rightarrow> CryptoHand \<Rightarrow> table_out list \<times> CryptoHand" where
  "give_shuffle rnd k pb h =
     (case HandleShuffle (tr_step rnd k) (tr_drain rnd k) (ShuffleMessageFromWire (Some pb)) h of
        (Inl e, h') \<Rightarrow> ([], h') | (Inr out, h') \<Rightarrow> (map OutShuffle out, h'))"

definition give_peel :: "table_rand \<Rightarrow> nat \<Rightarrow> PartialDecrypt \<Rightarrow> CryptoHand \<Rightarrow> table_out list \<times> CryptoHand" where
  "give_peel rnd k pb h =
     (case ch_HandlePeel (tr_peel rnd k) (PeelMessageFromWire (Some pb)) h of
        (Inl e, h') \<Rightarrow> ([], h') | (Inr out, h') \<Rightarrow> (map OutPeel out, h'))"

definition OnShuffleStep_call :: "table_rand \<Rightarrow> ShuffleStepWire \<Rightarrow> crypto_table \<Rightarrow> table_out list \<times> crypto_table" where
  "OnShuffleStep_call rnd pb ct =
     (case ct_hand ct of
        None \<Rightarrow> ([], if length (ct_earlyShuffle ct) < 16 then ct\<lparr>ct_earlyShuffle := ct_earlyShuffle ct @ [pb]\<rparr> else ct)
      | Some h \<Rightarrow> (case give_shuffle rnd 0 pb h of (out, h') \<Rightarrow> (out, ct\<lparr>ct_hand := Some h'\<rparr>)))"

definition OnPartialDecrypt_call :: "table_rand \<Rightarrow> PartialDecrypt \<Rightarrow> crypto_table \<Rightarrow> table_out list \<times> crypto_table" where
  "OnPartialDecrypt_call rnd pb ct =
     (case ct_hand ct of
        None \<Rightarrow> ([], if length (ct_earlyPeels ct) < 32 then ct\<lparr>ct_earlyPeels := ct_earlyPeels ct @ [pb]\<rparr> else ct)
      | Some h \<Rightarrow> (case give_peel rnd 0 pb h of (out, h') \<Rightarrow> (out, ct\<lparr>ct_hand := Some h'\<rparr>)))"

fun give_all :: "(nat \<Rightarrow> 'm \<Rightarrow> CryptoHand \<Rightarrow> table_out list \<times> CryptoHand) \<Rightarrow> 'm list \<Rightarrow> CryptoHand \<Rightarrow> table_out list \<times> CryptoHand" where
  "give_all f [] h = ([], h)"
| "give_all f (m # ms) h = (case f (length ms) m h of (out, h1) \<Rightarrow>
     (case give_all f ms h1 of (outs, h2) \<Rightarrow> (out @ outs, h2)))"

definition installHand :: "table_rand \<Rightarrow> CryptoHand \<Rightarrow> crypto_table \<Rightarrow> table_out list \<times> crypto_table" where
  "installHand rnd h ct =
     (case give_all (give_shuffle rnd) (ct_earlyShuffle ct) h of (out1, h1) \<Rightarrow>
        (case give_all (give_peel rnd) (ct_earlyPeels ct) h1 of (out2, h2) \<Rightarrow>
           (out1 @ out2, ct\<lparr>ct_hand := Some h2, ct_earlyShuffle := [], ct_earlyPeels := []\<rparr>)))"

text \<open>The voter is the one the message names. The result: the targets for which a fold is started.\<close>

definition OnTimeoutVote_call :: "int \<Rightarrow> TimeoutVoteWire option \<Rightarrow> crypto_table \<Rightarrow> string list \<times> crypto_table" where
  "OnTimeoutVote_call now mo ct =
     (case (ct_fm ct, mo) of
        (Some fm, Some msg) \<Rightarrow>
          (case HandleTimeoutVote now (vw_TimeoutPlayerId msg) (vw_VotingPlayerId msg) True fm of
             (_, targets, fm') \<Rightarrow> (targets, ct\<lparr>ct_fm := Some fm'\<rparr>))
      | _ \<Rightarrow> ([], ct))"

definition TableShareHandNum :: i64 where
  "TableShareHandNum = 0"

definition OnKeyShare_call :: "KeyShare option \<Rightarrow> bool \<Rightarrow> crypto_table \<Rightarrow> crypto_table" where
  "OnKeyShare_call mo viaGossip ct =
     (case (ct_fm ct, mo) of
        (Some fm, Some msg) \<Rightarrow>
          if kw_HandNum msg \<noteq> TableShareHandNum \<and> kw_HandNum msg \<noteq> 1 then ct
          else let share = KeyShareFromWire (Some msg)
            in if viaGossip then ct\<lparr>ct_fm := Some (fm_AddReconstructionShare (kw_OwnerId msg) share fm)\<rparr>
               else if kw_OwnerId msg \<noteq> ct_self ct then ct\<lparr>ct_fm := Some (StoreKeyShare (kw_OwnerId msg) share fm)\<rparr>
               else ct
      | _ \<Rightarrow> ct)"

section \<open>Distributing the shares\<close>

text \<open>\<open>send\<close> tells whether a share reaches a seat within its six attempts.\<close>

definition DistributeLocalShares ::
  "int list \<Rightarrow> Keyring \<Rightarrow> SRAKey \<Rightarrow> FaultManager \<Rightarrow> crypto_error + table_out list \<times> FaultManager" where
  "DistributeLocalShares draws kr key fm =
     (case SplitAndDistribute (Some key) (int (Len (Some kr))) draws of Inl e \<Rightarrow> Inl e
      | Inr (shares, thresh) \<Rightarrow>
          let fm = SetShamirThreshold thresh fm;
              order = SeatOrder (Some kr); localID = LocalID (Some kr)
          in if length shares \<noteq> length order then Inl ErrPanic
             else Inr (map (\<lambda>(i, s). OutDirectShare i s) [(i, s) \<leftarrow> zip order shares. i \<noteq> localID],
                       fold (\<lambda>(i, s) fm. if i = localID then StoreKeyShare localID s fm else fm) (zip order shares) fm))"

section \<open>Dealing a hand\<close>

text \<open>
  What messages do to the hand during a wait, and whether its two minutes end first; without an entry
  the dealing is still waiting.
\<close>

record deal_wait =
  dw_hand :: "CryptoHand \<Rightarrow> CryptoHand"
  dw_expired :: bool

datatype deal_error = DealHand hand_error | DealExpired | DealGame machine_error

datatype deal_result = DealWaiting CryptoHand | DealFailed deal_error | Dealt CryptoHand game_state

definition await ::
  "deal_wait option \<Rightarrow> (CryptoHand \<Rightarrow> hand_error option option \<times> CryptoHand) \<Rightarrow> CryptoHand \<Rightarrow> table_out list
    \<Rightarrow> (CryptoHand \<Rightarrow> table_out list \<times> deal_result) \<Rightarrow> table_out list \<times> deal_result" where
  "await w waitFor h out go_on = (case w of None \<Rightarrow> (out, DealWaiting h)
     | Some w \<Rightarrow> (case waitFor (dw_hand w h) of
         (None, h') \<Rightarrow> (out, if dw_expired w then DealFailed DealExpired else DealWaiting h')
       | (Some (Some e), h') \<Rightarrow> (out, DealFailed (DealHand e))
       | (Some None, h') \<Rightarrow> (case go_on h' of (out', r) \<Rightarrow> (out @ out', r))))"

definition put_holes :: "string \<Rightarrow> card \<times> card \<Rightarrow> game_state \<Rightarrow> game_state" where
  "put_holes localID holes gs = gs\<lparr>gs_players := map (\<lambda>p. p\<lparr>p_holes := (if p_id p = localID then holes else (zero_card, zero_card))\<rparr>) (gs_players gs)\<rparr>"

definition open_table :: "table_env \<Rightarrow> i64 \<Rightarrow> nat \<Rightarrow> player list \<Rightarrow> string \<Rightarrow> CryptoHand \<Rightarrow> deal_result" where
  "open_table env handNum dealerIdx players localID h =
     (case ch_LocalHoles h of Inl e \<Rightarrow> DealFailed (DealHand e)
      | Inr holes \<Rightarrow>
          let gs = put_holes localID holes (NewGameState (gc_TableID (te_cfg env)) handNum players dealerIdx
                     (gc_SmallBlind (te_cfg env)) (gc_BigBlind (te_cfg env)))
          in case StartHandCrypto gs of (Some e, _) \<Rightarrow> DealFailed (DealGame e) | (None, gs) \<Rightarrow> Dealt h gs)"

text \<open>\<open>inst\<close> is the installation of the hand, with what it leaves of it.\<close>

definition dealCryptoHand ::
  "table_env \<Rightarrow> table_rand \<Rightarrow> Keyring option \<Rightarrow> byte list \<Rightarrow> i64 \<Rightarrow> nat \<Rightarrow> player list \<Rightarrow> string
    \<Rightarrow> (CryptoHand \<Rightarrow> CryptoHand) \<Rightarrow> deal_wait option \<Rightarrow> deal_wait option \<Rightarrow> table_out list \<times> deal_result" where
  "dealCryptoHand env rnd kr nonce handNum dealerIdx players localID inst w1 w2 =
     (case NewCryptoHand kr nonce handNum (int dealerIdx) of Inl e \<Rightarrow> ([], DealFailed (DealHand e))
      | Inr h \<Rightarrow> (case StartShuffle (tr_step rnd 1) (tr_drain rnd 1) (inst h) of
          (Inl e, _) \<Rightarrow> ([], DealFailed (DealHand e))
        | (Inr outs, h) \<Rightarrow> await w1 WaitShuffle h (map OutShuffle outs) (\<lambda>h.
            case StartHoles (tr_peel rnd 1) h of (Inl e, _) \<Rightarrow> ([], DealFailed (DealHand e))
            | (Inr peels, h) \<Rightarrow> await w2 WaitHoles h (map OutPeel peels) (\<lambda>h.
                ([], open_table env handNum dealerIdx players localID h)))))"

section \<open>Players who leave\<close>

definition sendDelegatedPeels :: "peel_rand \<Rightarrow> crypto_table \<Rightarrow> table_out list \<times> crypto_table" where
  "sendDelegatedPeels rnd ct =
     (case ct_hand ct of None \<Rightarrow> ([], ct)
      | Some h \<Rightarrow> (case TryDelegatedPeels rnd h of
          ((msgs, Some e), h') \<Rightarrow> ([], ct\<lparr>ct_hand := Some h'\<rparr>)
        | ((msgs, None), h') \<Rightarrow> (map OutPeel msgs, ct\<lparr>ct_hand := Some h'\<rparr>)))"

text \<open>The tries of half a minute; before each, shares arrive.\<close>

fun try_recover :: "string \<Rightarrow> (FaultManager \<Rightarrow> FaultManager) list \<Rightarrow> FaultManager \<Rightarrow> crypto_error + (SRAKey option \<times> FaultManager)" where
  "try_recover missing [] fm = Inr (None, fm)"
| "try_recover missing (f # fs) fm = (case TryReconstructKey missing (f fm) of
     Inl e \<Rightarrow> Inl e | Inr (Some k) \<Rightarrow> Inr (Some k, f fm) | Inr None \<Rightarrow> try_recover missing fs (f fm))"

definition shuffle_aborted :: "string \<Rightarrow> crypto_table \<Rightarrow> (table_out list \<times> crypto_table) option" where
  "shuffle_aborted peerID ct =
     (case ct_hand ct of None \<Rightarrow> None
      | Some h \<Rightarrow> if ShuffleDone h then None
          else let reason = ''shuffle aborted: peer '' @ peerID @ '' timed out''
            in Some ([OutError reason], ct\<lparr>ct_hand := Some (AbortShuffle (Some reason) h)\<rparr>))"

definition contribute :: "string \<Rightarrow> crypto_table \<Rightarrow> table_out list \<times> crypto_table" where
  "contribute missing ct =
     (case ct_fm ct of None \<Rightarrow> ([], ct)
      | Some fm \<Rightarrow> (case ContributeShare missing (fm_keyShares fm) of None \<Rightarrow> ([], ct)
          | Some share \<Rightarrow> ([OutShare missing share], ct\<lparr>ct_fm := Some (fm_AddReconstructionShare missing share fm)\<rparr>)))"

definition beginRecovery ::
  "peel_rand \<Rightarrow> (FaultManager \<Rightarrow> FaultManager) list \<Rightarrow> string \<Rightarrow> crypto_table \<Rightarrow> crypto_error + table_out list \<times> crypto_table" where
  "beginRecovery rnd polls missing ct0 =
     (let already = missing \<in> set (ct_recovering ct0);
          ct = ct0\<lparr>ct_recovering := List.insert missing (ct_recovering ct0)\<rparr>
      in case shuffle_aborted missing ct of Some r \<Rightarrow> Inr r
         | None \<Rightarrow>
             if already then Inr (sendDelegatedPeels rnd ct)
             else (case contribute missing ct of (out, ct1) \<Rightarrow>
               (case ct_fm ct1 of None \<Rightarrow> Inr (out, ct1)
                | Some fm \<Rightarrow> (case try_recover missing polls fm of Inl e \<Rightarrow> Inl e
                    | Inr (None, fm') \<Rightarrow> Inr (out, ct1\<lparr>ct_fm := Some fm'\<rparr>)
                    | Inr (Some key, fm') \<Rightarrow>
                        let ct2 = ct1\<lparr>ct_fm := Some fm'\<rparr>
                        in (case ct_hand ct2 of None \<Rightarrow> Inr (out, ct2)
                            | Some h \<Rightarrow> (case MarkGone missing (Some key) h of
                                (Some e, h') \<Rightarrow> Inr (out, ct2\<lparr>ct_hand := Some h'\<rparr>)
                              | (None, h') \<Rightarrow> (case sendDelegatedPeels rnd (ct2\<lparr>ct_hand := Some h'\<rparr>) of
                                    (peels, ct3) \<Rightarrow> Inr (out @ peels, ct3))))))))"

text \<open>The first half of \<open>forceFold\<close>; \<open>None\<close> goes on with the fold at the machine.\<close>

definition forceFold_shuffle :: "string \<Rightarrow> crypto_table \<Rightarrow> (table_out list \<times> crypto_table) option \<times> crypto_table" where
  "forceFold_shuffle peerID ct0 = (let ct = ct0\<lparr>ct_gone := List.insert peerID (ct_gone ct0)\<rparr> in (shuffle_aborted peerID ct, ct))"

section \<open>A dealt hand\<close>

lemma StartHandCrypto_ok:
  assumes f: "fresh_hand gs" and n: "2 \<le> length (gs_players gs)"
  obtains h where "StartHandCrypto gs = (None, h)"
proof -
  have f': "fresh_hand (gs\<lparr>gs_deck := None\<rparr>)" using f by (simp add: fresh_hand_def stacks_def)
  obtain e g where g: "postBlinds (gs\<lparr>gs_deck := None\<rparr>) = (e, g)" by fastforce
  have "e = None" by (rule postBlinds_hand(1) [OF f' _ g]) (use n in simp)
  then show ?thesis using f n g that by (simp add: StartHandCrypto_def fresh_hand_def andthen_def)
qed

lemma await_result:
  "await w waitFor h out go_on = (out', r) \<Longrightarrow> (\<exists>h'. r = DealWaiting h') \<or> (\<exists>e. r = DealFailed (DealHand e))
     \<or> r = DealFailed DealExpired \<or> (\<exists>h' out''. go_on h' = (out'', r))"
  by (auto simp: await_def split: option.splits prod.splits if_splits)

lemma dealCryptoHand_result:
  assumes "dealCryptoHand env rnd kr nonce handNum d players localID inst w1 w2 = (out, r)"
  shows "(\<exists>h'. r = DealWaiting h') \<or> (\<exists>e. r = DealFailed (DealHand e)) \<or> r = DealFailed DealExpired
     \<or> (\<exists>h. r = open_table env handNum d players localID h)"
  using assms by (auto simp: dealCryptoHand_def split: sum.splits prod.splits dest!: await_result)

definition hand_ready :: "player list \<Rightarrow> string \<Rightarrow> CryptoHand \<Rightarrow> game_state \<Rightarrow> bool" where
  "hand_ready players localID h gs \<longleftrightarrow> hand_inv gs \<and> gs_phase gs = PhasePreFlop \<and> cryptoMode gs \<and> gs_community gs = []
     \<and> table_chips gs = (\<Sum>p\<leftarrow>players. p_stack p) \<and> map p_id (gs_players gs) = map p_id players
     \<and> (case ch_LocalHoles h of Inl e \<Rightarrow> False
        | Inr holes \<Rightarrow> \<forall>p\<in>set (gs_players gs). p_holes p = (if p_id p = localID then holes else (zero_card, zero_card)))"

lemma open_table_ready:
  assumes s: "seated env players" and d: "d < length players"
  shows "case open_table env handNum d players localID h of
     DealWaiting _ \<Rightarrow> False | DealFailed e \<Rightarrow> (\<exists>e'. e = DealHand e') | Dealt h' gs \<Rightarrow> h' = h \<and> hand_ready players localID h gs"
proof (cases "ch_LocalHoles h")
  case (Inr holes)
  let ?g = "NewGameState (gc_TableID (te_cfg env)) handNum players d (gc_SmallBlind (te_cfg env)) (gc_BigBlind (te_cfg env))"
  let ?gs = "put_holes localID holes ?g"
  have "fresh_hand ?g" using s d by (intro fresh_NewGameState) (auto simp: seated_def)
  then have f: "fresh_hand ?gs" by (simp add: put_holes_def fresh_hand_def stacks_def comp_def)
  have n: "2 \<le> length (gs_players ?gs)" using s by (simp add: seated_def put_holes_def NewGameState_def)
  obtain gs where g: "StartHandCrypto ?gs = (None, gs)" by (rule StartHandCrypto_ok [OF f n])
  note r = StartHandCrypto_hand [OF f g]
  have i: "map p_id (gs_players gs) = map p_id players" using r(5) by (simp add: put_holes_def NewGameState_def comp_def)
  have "map p_holes (gs_players gs) = map (\<lambda>i. if i = localID then holes else (zero_card, zero_card)) (map p_id (gs_players gs))"
    unfolding i using r(7) by (simp add: put_holes_def NewGameState_def comp_def)
  then have "\<forall>p\<in>set (gs_players gs). p_holes p = (if p_id p = localID then holes else (zero_card, zero_card))"
    by (simp only: map_map map_eq_conv comp_def)
  moreover have "stacks ?gs = (\<Sum>p\<leftarrow>players. p_stack p)" by (simp add: stacks_def put_holes_def NewGameState_def comp_def)
  ultimately have "hand_ready players localID h gs" using r i Inr by (simp add: hand_ready_def)
  then show ?thesis using Inr g by (simp add: open_table_def)
qed (simp add: open_table_def)

text \<open>
  C10: A hand that is dealt is ready to be played, and the engine never refuses to open one. With at
  least two players and stacks that fit, however the shuffle and the peels went, dealing either waits,
  or fails with an error of the cards or at the time limit, or ends with a hand before the flop that
  satisfies the invariant of the engine, with an empty board, the same players and all their chips on
  the table. The local player holds the two cards of the deal, and nobody else's cards are known.
\<close>

theorem dealt_hand_ready:
  assumes "seated env players" and "d < length players"
    and "dealCryptoHand env rnd kr nonce handNum d players localID inst w1 w2 = (out, r)"
  shows "case r of DealWaiting _ \<Rightarrow> True | DealFailed e \<Rightarrow> e = DealExpired \<or> (\<exists>e'. e = DealHand e')
     | Dealt h gs \<Rightarrow> hand_ready players localID h gs"
  using dealCryptoHand_result [OF assms(3)] open_table_ready [OF assms(1,2)]
  by (fastforce split: deal_result.splits)

definition duo_players :: "player list" where
  "duo_players = [NewPlayer ''a'' [] 100, NewPlayer ''b'' [] 200]"

lemma duo_deal: "\<exists>s. NewDealSession (Some duo_ring) (Some demo_deck) 1 0 = Inr s"
proof -
  have "ed_Cards demo_deck \<noteq> []" using demo_deck_length by auto
  then show ?thesis using demo_deck_length
    by (simp add: NewDealSession_def newDealSession_def Len_def duo_modulus) (simp add: demo_deck_def)
qed

lemma duo_holes:
  assumes "NewDealSession (Some duo_ring) (Some demo_deck) 1 0 = Inr s"
  shows "ds_p s = 107" and "\<exists>s'. BeginHoles rnd s = (Inr None, s')"
proof -
  have s: "ds_kr s = duo_ring" "ds_seq s = seqIdle" "ds_dealerIdx s = 0" "ds_cards s = map Some (ed_Cards demo_deck)"
    "\<not> ds_holesStarted s" "\<not> ds_holesDone s" "ds_handNum s = 1" "ds_pending s = Map.empty"
    using assms by (auto simp: NewDealSession_def newDealSession_def split: if_splits)
  show "ds_p s = 107" using assms by (auto simp: NewDealSession_def newDealSession_def demo_deck_def split: if_splits)
  have "hole_jobs [''a'', ''b''] 0 = Inr [hole_job 0 ''b'' 0, hole_job 1 ''a'' 0, hole_job 2 ''b'' 1, hole_job 3 ''a'' 1]"
    by code_simp
  then show "\<exists>s'. BeginHoles rnd s = (Inr None, s')"
    using demo_deck_length length_greater_0_conv [of "ed_Cards demo_deck"]
    by (simp del: length_greater_0_conv add: BeginHoles_def s SeatOrder_def startSequenceLocked_def Let_def installJobLocked_def
        hole_job_def PeelOrder_def startCurrentJobLocked_def expectedPeelerLocked_def)
qed


lemma duo_cards: "\<exists>c. FinishPublic (Some (BuildPlaintextDeck 107 ! 0)) (Some 107) = Inr c" "\<exists>c. FinishPublic (Some (BuildPlaintextDeck 107 ! 1)) (Some 107) = Inr c"
proof -
  have "isl (FinishPublic (Some (BuildPlaintextDeck 107 ! 0)) (Some 107)) = False"
    "isl (FinishPublic (Some (BuildPlaintextDeck 107 ! 1)) (Some 107)) = False" by code_simp+
  then show "\<exists>c. FinishPublic (Some (BuildPlaintextDeck 107 ! 0)) (Some 107) = Inr c"
    "\<exists>c. FinishPublic (Some (BuildPlaintextDeck 107 ! 1)) (Some 107) = Inr c" by (metis isl_def sum.exhaust_sel)+
qed

lemma dealt_hand_ready_witness:
  "\<forall>rnd. \<exists>w1 w2 out h gs. dealCryptoHand demo_env \<lparr>tr_step = \<lambda>_. demo_rand, tr_drain = \<lambda>_ _. demo_rand, tr_peel = rnd\<rparr> (Some duo_ring) [9] 1 0
       duo_players ''b'' (\<lambda>h. h) w1 w2 = (out, Dealt h gs)
     \<and> hand_inv gs \<and> table_chips gs = 300"
proof
  fix rnd
  let ?rnd = "\<lparr>tr_step = \<lambda>_. demo_rand, tr_drain = \<lambda>_ _. demo_rand, tr_peel = rnd\<rparr>"
  let ?p = duo_players
  obtain h0 where h0: "NewCryptoHand (Some duo_ring) [9] 1 0 = Inr h0" "ch_earlyShuffle h0 = []" "ch_deal h0 = None"
    and s0: "ch_shuffle h0 = \<lparr>ss_kr = duo_ring, ss_proto = \<lparr>sp_P = 107, sp_SessionID = ch_sessionID h0, sp_NumCards = 52\<rparr>,
         ss_handNum = 1, ss_sessionID = ch_sessionID h0, ss_initial = map Some (BuildPlaintextDeck 107), ss_started = False, ss_nextIndex = 0,
         ss_current = [], ss_pending = Map.empty, ss_applied = Map.empty, ss_localPerm = []\<rparr>"
    using duo_hand by blast
  let ?h1 = "h0\<lparr>ch_shuffle := (ch_shuffle h0)\<lparr>ss_started := True, ss_current := map Some (BuildPlaintextDeck 107)\<rparr>\<rparr>"
  have "Start demo_rand (ch_shuffle h0) = (Inr None, ch_shuffle ?h1)"
    by (simp add: s0 Start_def Let_def expectedPlayerLocked_def)
  then have h1: "StartShuffle demo_rand (\<lambda>_. demo_rand) h0 = (Inr [], ?h1)"
    by (simp add: StartShuffle_def after_step_def drainShuffleLocked_def h0(2) afterShuffleLocked_def doneLocked_def s0 appendShuffle_def)
  obtain d0 where d0: "NewDealSession (Some duo_ring) (Some demo_deck) 1 0 = Inr d0" using duo_deal by blast
  let ?w1 = "Some \<lparr>dw_hand = \<lambda>h. h\<lparr>ch_shuffle := (ch_shuffle h)\<lparr>ss_nextIndex := 2\<rparr>, ch_deal := Some d0, ch_gone := Map.empty, ch_earlyPeels := []\<rparr>, dw_expired = False\<rparr>"
  let ?d = "d0\<lparr>ds_holesDone := True, ds_localHoles := (Some (BuildPlaintextDeck 107 ! 0), Some (BuildPlaintextDeck 107 ! 1))\<rparr>"
  let ?w2 = "Some \<lparr>dw_hand = \<lambda>h. h\<lparr>ch_deal := Some ?d\<rparr>, dw_expired = False\<rparr>"
  obtain d1 where d1: "BeginHoles (pr_first (rnd (Suc 0))) d0 = (Inr None, d1)" using duo_holes(2) [OF d0] by blast
  have h2: "\<exists>peels h3. StartHoles (rnd 1) (h\<lparr>ch_deal := Some d0, ch_gone := Map.empty, ch_earlyPeels := []\<rparr>) = (Inr peels, h3)" for h
  proof -
    obtain out d2 where "collectPeels d1 None = (out, d2)" by fastforce
    then show ?thesis
      by (simp add: StartHoles_def begin_peels_def ensureDealLocked_def Let_def d1 after_peel_def drainPeelsLocked_def tryDelegatedPeelsLocked_def)
  qed
  obtain c where lh: "LocalHoles ?d = Inr c"
    using duo_cards by (auto simp: LocalHoles_def finish_pair_def duo_holes(1) [OF d0] rbind_def)
  have s: "seated demo_env ?p" and d: "0 < length ?p" by (simp_all add: seated_def duo_players_def NewPlayer_def demo_env_def)
  have "\<exists>out h gs. dealCryptoHand demo_env ?rnd (Some duo_ring) [9] 1 0 ?p ''b'' (\<lambda>h. h) ?w1 ?w2 = (out, Dealt h gs)"
  proof -
    let ?s2 = "(ch_shuffle ?h1)\<lparr>ss_nextIndex := 2\<rparr>"
    let ?h2 = "?h1\<lparr>ch_shuffle := ?s2, ch_deal := Some d0, ch_gone := Map.empty, ch_earlyPeels := []\<rparr>"
    let ?h2' = "?h2\<lparr>ch_shuffleGate := gate_signal (ch_shuffleGate ?h2)\<rparr>"
    have w1: "WaitShuffle ?h2 = (Some None, ?h2')"
      by (simp add: WaitShuffle_def ShuffleDone_def doneLocked_def s0 ensureDealLocked_def)
    have "?h2' = ?h2'\<lparr>ch_deal := Some d0, ch_gone := Map.empty, ch_earlyPeels := []\<rparr>" by simp
    then obtain peels h3 where h3: "StartHoles (rnd 1) ?h2' = (Inr peels, h3)" using h2 [of ?h2'] by metis
    have w2: "WaitHoles (h3\<lparr>ch_deal := Some ?d\<rparr>) = (Some None, h3\<lparr>ch_deal := Some ?d, ch_holesGate := gate_signal (ch_holesGate h3)\<rparr>)"
      by (simp add: WaitHoles_def HolesDone_def)
    let ?h4 = "h3\<lparr>ch_deal := Some ?d, ch_holesGate := gate_signal (ch_holesGate h3)\<rparr>"
    have "ch_LocalHoles ?h4 = Inr c" using lh by (simp add: ch_LocalHoles_def wrap_def)
    then obtain gs where "open_table demo_env 1 0 ?p ''b'' ?h4 = Dealt ?h4 gs"
      using open_table_ready [OF s d, where handNum = 1 and localID = "''b''" and h = ?h4] by (auto simp: open_table_def split: deal_result.splits option.splits prod.splits)
    then show ?thesis using w1 w2 h3 by (auto simp: dealCryptoHand_def h0(1) h1 await_def)
  qed
  then obtain out h gs where g: "dealCryptoHand demo_env ?rnd (Some duo_ring) [9] 1 0 ?p ''b'' (\<lambda>h. h) ?w1 ?w2 = (out, Dealt h gs)" by blast
  from dealt_hand_ready [OF s d g] have "hand_ready ?p ''b'' h gs" by simp
  moreover have "(\<Sum>p\<leftarrow>?p. p_stack p) = 300" by (simp add: duo_players_def NewPlayer_def)
  ultimately have "hand_inv gs \<and> table_chips gs = 300" by (simp add: hand_ready_def)
  then show "\<exists>w1 w2 out h gs. dealCryptoHand demo_env ?rnd (Some duo_ring) [9] 1 0 ?p ''b'' (\<lambda>h. h) w1 w2 = (out, Dealt h gs)
     \<and> hand_inv gs \<and> table_chips gs = 300" using g by blast
qed

section \<open>Steps of the next hand\<close>

lemma wrong_hand_refused:
  assumes "ss_started (ch_shuffle h)" and "sw_HandNum pb \<noteq> ss_handNum (ch_shuffle h)"
  shows "give_shuffle rnd k pb h = ([], h)"
proof -
  obtain m where m: "ShuffleMessageFromWire (Some pb) = Some m" "sm_HandNum m = sw_HandNum pb"
    by (simp add: ShuffleMessageFromWire_def)
  have "\<exists>e. validateIncomingLocked (ch_shuffle h) (Some m) = Some e \<and> e \<noteq> ErrNotStarted \<and> e \<noteq> ErrUnknownPlayer"
    using assms(2) m(2) by (simp add: validateIncomingLocked_def)
  then obtain e where e: "validateIncomingLocked (ch_shuffle h) (Some m) = Some e" "\<not> isPrematureShuffle e (sm_PlayerID m)"
    by (auto simp: isPrematureShuffle_def)
  then have "HandleMessage (tr_step rnd k) (Some m) (ch_shuffle h) = (Inl e, ch_shuffle h)"
    using assms(1) by (simp add: HandleMessage_def)
  then show ?thesis using e(2) by (simp add: give_shuffle_def m(1) HandleShuffle_def Let_def msg_player_def)
qed

fun receive_steps :: "table_rand \<Rightarrow> ShuffleStepWire list \<Rightarrow> crypto_table \<Rightarrow> table_out list \<times> crypto_table" where
  "receive_steps rnd [] ct = ([], ct)"
| "receive_steps rnd (pb # pbs) ct = (case OnShuffleStep_call rnd pb ct of (out, ct1) \<Rightarrow>
     (case receive_steps rnd pbs ct1 of (outs, ct2) \<Rightarrow> (out @ outs, ct2)))"

text \<open>
  C36: shuffle steps of the next hand are lost while the last hand is still installed. The callbacks
  buffer early messages only before the first hand; later every step of another hand goes to the old
  hand, which refuses it without a trace. When the node then installs its next hand, nothing of the
  steps that faster players sent meanwhile is handed to it.
\<close>

theorem next_hand_steps_lost:
  assumes "ct_hand ct = Some h" and "ss_started (ch_shuffle h)" and "\<forall>pb\<in>set pbs. sw_HandNum pb \<noteq> ss_handNum (ch_shuffle h)"
    and "ct_earlyShuffle ct = []" and "ct_earlyPeels ct = []"
  shows "receive_steps rnd pbs ct = ([], ct) \<and> installHand rnd h' (snd (receive_steps rnd pbs ct)) = ([], ct\<lparr>ct_hand := Some h'\<rparr>)"
proof -
  have "receive_steps rnd pbs ct = ([], ct)"
    using assms(3)
  proof (induction pbs)
    case (Cons pb pbs)
    then have "give_shuffle rnd 0 pb h = ([], h)" using assms(2) by (intro wrong_hand_refused) simp_all
    then have "OnShuffleStep_call rnd pb ct = ([], ct\<lparr>ct_hand := Some h\<rparr>)" using assms(1) by (simp add: OnShuffleStep_call_def)
    then show ?case using Cons assms(1) by (cases ct) simp
  qed simp
  moreover have "installHand rnd h' ct = ([], ct\<lparr>ct_hand := Some h'\<rparr>)"
    using assms(4,5) by (cases ct) (simp add: installHand_def)
  ultimately show ?thesis by simp
qed

lemma next_hand_steps_lost_witness:
  "\<exists>h pb. (\<forall>rnd h'. receive_steps rnd [pb] \<lparr>ct_self = ''b'', ct_hand = Some h, ct_earlyShuffle = [], ct_earlyPeels = [], ct_fm = None, ct_gone = [], ct_recovering = []\<rparr>
       = ([], \<lparr>ct_self = ''b'', ct_hand = Some h, ct_earlyShuffle = [], ct_earlyPeels = [], ct_fm = None, ct_gone = [], ct_recovering = []\<rparr>))
     \<and> sw_HandNum pb = 2 \<and> ss_handNum (ch_shuffle h) = 1 \<and> ss_started (ch_shuffle h)"
proof -
  obtain h0 :: CryptoHand where s0: "ch_shuffle h0 = \<lparr>ss_kr = duo_ring, ss_proto = \<lparr>sp_P = 107, sp_SessionID = ch_sessionID h0, sp_NumCards = 52\<rparr>,
         ss_handNum = 1, ss_sessionID = ch_sessionID h0, ss_initial = map Some (BuildPlaintextDeck 107), ss_started = False, ss_nextIndex = 0,
         ss_current = [], ss_pending = Map.empty, ss_applied = Map.empty, ss_localPerm = []\<rparr>" using duo_hand by blast
  have h0: "ss_handNum (ch_shuffle h0) = 1" by (subst s0) simp
  let ?h = "h0\<lparr>ch_shuffle := (ch_shuffle h0)\<lparr>ss_started := True\<rparr>\<rparr>"
  let ?ct = "\<lparr>ct_self = ''b'', ct_hand = Some ?h, ct_earlyShuffle = [], ct_earlyPeels = [], ct_fm = None, ct_gone = [], ct_recovering = []\<rparr>"
  let ?pb = "\<lparr>sw_TableId = [], sw_HandNum = 2, sw_PlayerId = ''a'', sw_Deck = [], sw_CommitmentHash = [], sw_CommitmentNonce = []\<rparr> :: ShuffleStepWire"
  have "receive_steps rnd [?pb] ?ct = ([], ?ct)" for rnd
    using next_hand_steps_lost [of ?ct ?h "[?pb]" rnd] h0 by simp
  then show ?thesis using h0 by (intro exI [of _ ?h] exI [of _ ?pb]) simp
qed

section \<open>Votes\<close>

fun receive_votes :: "int \<Rightarrow> TimeoutVoteWire list \<Rightarrow> crypto_table \<Rightarrow> string list \<times> crypto_table" where
  "receive_votes now [] ct = ([], ct)"
| "receive_votes now (m # ms) ct = (case OnTimeoutVote_call now (Some m) ct of (t, ct1) \<Rightarrow>
     (case receive_votes now ms ct1 of (ts, ct2) \<Rightarrow> (t @ ts, ct2)))"

lemma put_vote_new: "v \<notin> fst ` set vs \<Longrightarrow> put_vote v yes vs = vs @ [(v, yes)]"
  by (induction v yes vs rule: put_vote.induct) auto

definition yes_votes :: "string list \<Rightarrow> (string \<times> bool) list" where
  "yes_votes names = map (\<lambda>i. (i, True)) names"

lemma yes_votes_simps [simp]: "filter snd (yes_votes ns) = yes_votes ns" "length (yes_votes ns) = length ns"
  "fst ` set (yes_votes ns) = set ns"
  by (auto simp: yes_votes_def image_image comp_def filter_map)

lemma vote_threshold_le: "1 \<le> m \<Longrightarrow> vote_threshold m \<le> m"
  unfolding vote_threshold_def by presburger

lemma AddVote_yes:
  assumes "tv_Status tv = VotePending" and "tv_Votes tv = yes_votes ns" and "v \<notin> set ns"
    and "1 \<le> tv_TotalVoters tv" and "int (length ns) < vote_threshold (tv_TotalVoters tv)"
  shows "int (length ns) + 1 = vote_threshold (tv_TotalVoters tv) \<Longrightarrow> fst (AddVote now v True tv) = VoteConfirmed"
    and "int (length ns) + 1 < vote_threshold (tv_TotalVoters tv) \<Longrightarrow>
      AddVote now v True tv = (VotePending, tv\<lparr>tv_Votes := yes_votes (ns @ [v])\<rparr>)"
proof -
  have p: "put_vote v True (tv_Votes tv) = yes_votes (ns @ [v])"
    using assms(2,3) put_vote_new [of v "tv_Votes tv" True] by (simp add: yes_votes_def image_image)
  have y: "YesCount (tv\<lparr>tv_Votes := yes_votes (ns @ [v])\<rparr>) = length ns + 1" by (simp add: YesCount_def)
  show "fst (AddVote now v True tv) = VoteConfirmed" if "int (length ns) + 1 = vote_threshold (tv_TotalVoters tv)"
    using that assms(1) y by (simp add: AddVote_def Let_def p)
  show "AddVote now v True tv = (VotePending, tv\<lparr>tv_Votes := yes_votes (ns @ [v])\<rparr>)" if "int (length ns) + 1 < vote_threshold (tv_TotalVoters tv)"
    using that assms(1) y vote_threshold_le [OF assms(4)] by (simp add: AddVote_def Let_def p)
qed

definition vote_msg :: "string \<Rightarrow> string \<Rightarrow> TimeoutVoteWire" where
  "vote_msg target voter = \<lparr>vw_TableId = [], vw_HandNum = 0, vw_VotingPlayerId = voter, vw_TimeoutPlayerId = target\<rparr>"

text \<open>The vote for a target in which the names \<open>ns\<close> have voted so far.\<close>

definition voted :: "string \<Rightarrow> string list \<Rightarrow> crypto_table \<Rightarrow> bool" where
  "voted target ns ct \<longleftrightarrow> (\<exists>fm tm. ct_fm ct = Some fm \<and> fm_timeouts fm = Some tm \<and> 2 \<le> tm_totalPeers tm
     \<and> (case tm_votes tm target of None \<Rightarrow> ns = []
        | Some tv \<Rightarrow> tv_Status tv = VotePending \<and> tv_Votes tv = yes_votes ns \<and> tv_TotalVoters tv = tm_totalPeers tm - 1))"

definition quorum :: "crypto_table \<Rightarrow> int" where
  "quorum ct = (case ct_fm ct of None \<Rightarrow> 0 | Some fm \<Rightarrow> (case fm_timeouts fm of None \<Rightarrow> 0
     | Some tm \<Rightarrow> vote_threshold (tm_totalPeers tm - 1)))"

lemma vote_call:
  assumes "voted target ns ct" and "v \<notin> set ns" and "int (length ns) < quorum ct"
    and c: "OnTimeoutVote_call now (Some (vote_msg target v)) ct = (ts, ct')"
  shows "int (length ns) + 1 = quorum ct \<Longrightarrow> ts = [target]"
    and "int (length ns) + 1 < quorum ct \<Longrightarrow> ts = [] \<and> voted target (ns @ [v]) ct' \<and> quorum ct' = quorum ct"
proof -
  obtain fm tm where f: "ct_fm ct = Some fm" "fm_timeouts fm = Some tm" "2 \<le> tm_totalPeers tm"
    and vt: "case tm_votes tm target of None \<Rightarrow> ns = []
        | Some tv \<Rightarrow> tv_Status tv = VotePending \<and> tv_Votes tv = yes_votes ns \<and> tv_TotalVoters tv = tm_totalPeers tm - 1"
    using assms(1) by (auto simp: voted_def)
  define tv where "tv = (case tm_votes tm target of Some v \<Rightarrow> v | None \<Rightarrow> new_vote now target tm)"
  have t: "tv_Status tv = VotePending" "tv_Votes tv = yes_votes ns" "tv_TotalVoters tv = tm_totalPeers tm - 1"
    using vt by (auto simp: tv_def new_vote_def yes_votes_def split: option.splits)
  have q: "quorum ct = vote_threshold (tv_TotalVoters tv)" using f t(3) by (simp add: quorum_def)
  have m: "1 \<le> tv_TotalVoters tv" "int (length ns) < vote_threshold (tv_TotalVoters tv)" using f(3) t(3) assms(3) q by simp_all
  note av = AddVote_yes [OF t(1,2) assms(2) m, of now]
  obtain st tv' where a: "AddVote now v True tv = (st, tv')" by fastforce
  have r: "RecordVote now target v True tm
      = (st, if st = VoteConfirmed then [target] else [], tm\<lparr>tm_votes := (tm_votes tm)(target \<mapsto> tv')\<rparr>)"
    using t(1) a by (simp add: RecordVote_def Let_def tv_def [symmetric])
  have c': "ts = (if st = VoteConfirmed then [target] else [])"
    "ct' = ct\<lparr>ct_fm := Some (fm\<lparr>fm_timeouts := Some (tm\<lparr>tm_votes := (tm_votes tm)(target \<mapsto> tv')\<rparr>)\<rparr>)\<rparr>"
    using c r f by (auto simp: OnTimeoutVote_call_def HandleTimeoutVote_def vote_msg_def split: if_splits)
  show "ts = [target]" if "int (length ns) + 1 = quorum ct" using av(1) that q a c'(1) by simp
  show "ts = [] \<and> voted target (ns @ [v]) ct' \<and> quorum ct' = quorum ct" if "int (length ns) + 1 < quorum ct"
  proof -
    have "st = VotePending" "tv' = tv\<lparr>tv_Votes := yes_votes (ns @ [v])\<rparr>" using av(2) that q a by simp_all
    then show ?thesis using c' f t by (simp add: voted_def quorum_def)
  qed
qed

lemma votes_confirm:
  assumes "voted target ns ct" and "distinct (ns @ vs)" and "int (length (ns @ vs)) = quorum ct" and "vs \<noteq> []"
  shows "fst (receive_votes now (map (vote_msg target) vs) ct) = [target]"
  using assms
proof (induction vs arbitrary: ns ct)
  case (Cons v vs)
  obtain ts ct1 where c: "OnTimeoutVote_call now (Some (vote_msg target v)) ct = (ts, ct1)" by fastforce
  have n: "v \<notin> set ns" "int (length ns) < quorum ct" using Cons.prems(2,3) by auto
  note vc = vote_call [OF Cons.prems(1) n c]
  show ?case
  proof (cases "vs = []")
    case True
    then have "ts = [target]" using vc(1) Cons.prems(3) by simp
    then show ?thesis using c True by simp
  next
    case False
    then have "int (length ns) + 1 < quorum ct" using Cons.prems(3) by (cases vs) auto
    note v2 = vc(2) [OF this]
    have "fst (receive_votes now (map (vote_msg target) vs) ct1) = [target]"
      using Cons.IH [of "ns @ [v]" ct1] v2 Cons.prems(2,3) False by simp
    then show ?thesis using c v2 by (auto split: prod.split)
  qed
qed simp

text \<open>
  C35: a single peer can vote any player out. A vote counts for the name its payload gives, whoever sent
  it, and names are not checked against the table. From a table with no vote about a player, as many
  messages as the quorum, with different made-up names and all from one sender, confirm the timeout:
  the fold of that player is started, exactly once.
\<close>

theorem one_peer_votes_out:
  assumes "ct_fm ct = Some fm" and "fm_timeouts fm = Some tm" and "tm_votes tm target = None" and "2 \<le> tm_totalPeers tm"
    and "distinct names" and "int (length names) = vote_threshold (tm_totalPeers tm - 1)"
  shows "fst (receive_votes now (map (vote_msg target) names) ct) = [target]"
proof -
  have v: "voted target [] ct" using assms(1-4) by (simp add: voted_def)
  have q: "quorum ct = vote_threshold (tm_totalPeers tm - 1)" using assms(1,2) by (simp add: quorum_def)
  have "names \<noteq> []" using assms(6) vote_threshold_pos [of "tm_totalPeers tm - 1"] by auto
  then show ?thesis using votes_confirm [OF v, of names now] assms(5,6) q by simp
qed

lemma one_peer_votes_out_witness:
  "fst (receive_votes 7 (map (vote_msg ''b'') [''x'', ''y'']) \<lparr>ct_self = ''a'', ct_hand = None, ct_earlyShuffle = [], ct_earlyPeels = [],
     ct_fm = Some (RegisterPlayers 0 [''a'', ''b'', ''c'', ''d''] (NewFaultManager ''a'' 1 \<lparr>fc_HeartbeatInterval = 0, fc_HeartbeatTimeout = 0, fc_VoteExpiry = 0,
       fc_ShamirThreshold = 0, fc_Prime = Some 23\<rparr>)), ct_gone = [], ct_recovering = []\<rparr>) = [''b'']"
proof -
  let ?fm = "RegisterPlayers 0 [''a'', ''b'', ''c'', ''d''] (NewFaultManager ''a'' 1 \<lparr>fc_HeartbeatInterval = 0, fc_HeartbeatTimeout = 0, fc_VoteExpiry = 0,
       fc_ShamirThreshold = 0, fc_Prime = Some 23\<rparr>)"
  obtain tm where tm: "fm_timeouts ?fm = Some tm" "tm_votes tm = Map.empty" "tm_totalPeers tm = 4"
    by (simp add: RegisterPlayers_def Let_def NewTimeoutManager_def)
  show ?thesis by (rule one_peer_votes_out [of _ ?fm tm]) (simp_all add: tm vote_threshold_def)
qed

end
