(* ===== verification/Spec2Isabelle.thy ===== *)
theory Spec2Isabelle
  imports HandExamples Shamir DealHoles ShuffleCases DealCards EngineCards HandPeels NodeProps Escrow CryptoTable
begin

text \<open>
  A verification library for the decentralised poker engine: a peer-to-peer Texas Hold'em game in
  Go, in which every node runs the same engine and the deck is encrypted by all players.

  \<^bold>\<open>The engine\<close> (\<open>internal/game\<close>).
  \<^item> \<open>Prelude\<close>: \<open>int64\<close> wrap-around (\<open>w64\<close>), Go's division, operations that may fail, and
    \<open>sort.Slice\<close> on short slices with the contract of a comparator (locale \<open>go_less\<close>).
  \<^item> \<open>Cards\<close> (deck.go) and \<open>HandEval\<close> (hand_eval.go).
  \<^item> \<open>Pots\<close> (player.go, pot.go): placing a bet, side pots.
  \<^item> \<open>GameState\<close> (state.go) and \<open>Machine\<close> (machine.go): the state of a hand and every operation of
    the machine. A Go method that mutates its receiver and returns an error is a function from the
    state to \<open>machine_error option \<times> game_state\<close>; a nil dereference is the error \<open>NilDereference\<close>.
    \<open>endBettingRound\<close> and the dealing functions call each other in a cycle; they are one
    \<open>function\<close> package whose termination measure is the number of streets left.
  \<^item> \<open>MachineChips\<close>, \<open>HandRules\<close>, \<open>HandCards\<close>: where the chips and the cards go. \<open>hand_inv\<close> is the
    invariant of a hand, \<open>hand_step\<close> its step relation, without raises that wrap around (\<open>raise_wraps\<close>).
  \<^item> \<open>HandExamples\<close>: behaviours at the edges.

  \<^bold>\<open>The cryptographic layer\<close> (\<open>internal/crypto\<close>).
  \<^item> \<open>NumTheory\<close> and \<open>Bytes\<close>: the parts of \<open>math/big\<close> and \<open>crypto/sha256\<close> the program uses,
    written out and executable, with Fermat's little theorem.
  \<^item> \<open>SRA\<close> (params.go, sra.go) and \<open>Cipher\<close>: the commutative cipher. The locale
    \<open>commutative_cipher\<close> states what the protocols rely on; its interpretation \<open>sra\<close> proves it for
    keys over a prime modulus. A nil \<open>*big.Int\<close> is \<open>None\<close>, an error is a \<open>crypto_error\<close>, a Go panic the
    error \<open>ErrPanic\<close>. Numbers read from \<open>crypto/rand\<close> are arguments.
  \<^item> \<open>Commit\<close> and \<open>Shamir\<close> (commit.go), \<open>ZKP\<close> (zkp.go): commitments, secret sharing, proofs.
  \<^item> \<open>ShuffleProto\<close> (shuffle.go), \<open>DealProto\<close> (deal.go), \<open>CryptoGame\<close> (crypto_game.go), \<open>DealHoles\<close>: the
    mental-poker protocol in one process. Results need a modulus that is a \<open>card_prime\<close>; every
    prime above \<open>2 ^ 53\<close> of at most 2048 bits is one. That \<open>SharedPrime\<close> is prime is not proved.
  \<^item> \<open>Keyring\<close> (keyring.go), \<open>ShuffleSession\<close> (shuffle_session.go), \<open>ShuffleCases\<close>: the replicated
    shuffle. \<open>ss_inv\<close> is its invariant, \<open>ss_reach\<close> the sessions reachable by any messages. The
    mutex of a session is the atomicity of its operations.

  \<^item> \<open>DealSession\<close> (deal_session.go), \<open>DealInv\<close>, \<open>DealCards\<close>: the replicated deal. \<open>DealInv\<close> has the
    invariant of the job in progress and of the cards handed out, \<open>DealCards\<close> what the cards are and
    how forged peels can block.

  \<^bold>\<open>The cryptographic hand\<close> (\<open>internal/network/crypto_hand.go\<close>).
  \<^item> \<open>CryptoHand\<close>: the driver of one hand, which joins the shuffle and the deal session, buffers early
    messages and feeds the engine (\<open>AdvanceCrypto\<close>). What happens during a wait is an argument
    (\<open>wait_env\<close>), and with none left the driver is still waiting.
  \<^item> \<open>HandRefine\<close>, \<open>HandDemo\<close>: the driver refines the two sessions. \<open>EngineCards\<close>: the engine gets the
    cards of the shuffled deck. \<open>HandPeels\<close>: peeling for seats that have gone, and early peels.

  \<^bold>\<open>Faults\<close> (\<open>internal/fault\<close>).
  \<^item> \<open>Faults\<close> (slash.go, timeout.go, heartbeat.go), \<open>KeyShares\<close> (shamir.go), \<open>FaultManager\<close>
    (manager.go): heartbeats, votes, shares of keys, evidence. Time is an argument; a callback is a
    value of the result.

  \<^bold>\<open>The network\<close> (\<open>internal/network\<close>).
  \<^item> \<open>GameLog\<close> (gamelog.go, fault_adaptor.go, gossip.go): the log of envelopes and the watermarks.
  \<^item> \<open>Wire\<close> (codec.go): the forms of the messages. Protobuf, the tag reader and ed25519 are parameters
    with named laws (\<open>protowire_laws\<close>, \<open>envelope_laws\<close>), and an instance shows that the laws can hold.
  \<^item> \<open>Lobby\<close> (lobby.go): the seats and their order. The map of seats is a list of entries, and the order
    in which Go visits it is an argument.
  \<^item> \<open>NodeNet\<close> (node.go, the reader of protocol.go) and \<open>NodeProps\<close>: what a node does with a frame, and
    what it sends. \<open>net_run\<close> is a run of a node on any frames.

  \<^bold>\<open>The escrow client\<close> (\<open>internal/chain\<close>): \<open>Escrow\<close>.

  \<^bold>\<open>The program\<close> (\<open>config\<close>, \<open>internal/tui\<close>, \<open>cmd/poker/main.go\<close>).
  \<^item> \<open>Config\<close>: the configuration and the command line.
  \<^item> \<open>BetInput\<close> (bet_input.go) and \<open>Terminal\<close> (model.go, log_view.go): the screen as a state machine.
    The screen points into a store of game states, since the machine changes the state it shows.
  \<^item> \<open>Sequencer\<close>: the numbering of actions, and a network of replicas (\<open>table_net\<close>) with all that
    happens to the machine of each. \<open>replica_inv\<close> relates a replica to what was sent: it has counted the
    actions with the numbers below its counter.
  \<^item> \<open>Program\<close>: the local game and a table of peers with open cards. What the terminal library has under
    way is a list of tasks, performed in any order (\<open>local_run\<close>, \<open>p2p_run\<close>).
  \<^item> \<open>CryptoTable\<close> (with liveness.go): the table with encrypted cards: its callbacks,
    \<open>dealCryptoHand\<close>, votes, and the recovery of the key of a player who left. What arrives during a wait is an argument.

  No definition has fuel; recursions that are not structural have a termination proof.

  \<^bold>\<open>Not modelled\<close>: the libp2p plumbing (host.go, discovery.go, subscriptions, opening of streams); the
  code generated from messages.proto and the contract bindings; the drawing of the screen; the float
  conversion between ether and wei; reading and writing of files, and printing. Of main.go, the
  wait for the lobby and \<open>kickCryptoAdvance\<close>, which runs \<open>AdvanceCrypto\<close> beside the screen. Of
  coordinator.go, \<open>RunHand\<close>, which nothing calls. \<open>Send\<close> of the terminal library is taken to hand its
  message on; that it may block when it is called from within \<open>Update\<close> is not in the model.
\<close>

end
